(* ===== verification/Prelude.thy ===== *)
theory Prelude
  imports Main "HOL-Library.Word"
begin

unbundle bit_operations_syntax

text \<open>
  Shared vocabulary of the development: the machine types of the Rust sources, the outcome
  of a fallible Rust computation, slices of byte buffers, little-endian encodings, and the
  generic lemmas on them that every component uses.

  Conventions.  \<open>u8\<close>, \<open>u16\<close>, \<open>u32\<close>, \<open>u64\<close> are words of that width.  \<open>usize\<close> values
  (lengths, offsets) are natural numbers and every addition, subtraction or multiplication
  that the source performs on them is written with \<open>wadd\<close>, \<open>wsub\<close> or \<open>wmul\<close>, which wrap at
  \<open>2 ^ 64\<close> as the release profile of the crate does (it sets no overflow checks).
  A computation that returns \<open>anyhow::Result\<close> yields a value of type \<open>'a res\<close>, in which a
  panic of the thread is a third outcome beside \<open>Ok\<close> and \<open>Err\<close>.
\<close>

named_theorems wire_simps \<open>unfolding rules of the byte-level readers\<close>
named_theorems codec_defs \<open>definitions of the message decoders\<close>

section \<open>Machine types\<close>

type_synonym u8 = "8 word"
type_synonym u16 = "16 word"
type_synonym u32 = "32 word"
type_synonym u64 = "64 word"
type_synonym i64 = "64 word"
type_synonym usize = nat
type_synonym bytes = "u8 list"
type_synonym hash32 = "u8 list"

definition wadd :: "usize \<Rightarrow> usize \<Rightarrow> usize" where
  "wadd a b = (a + b) mod 2 ^ 64"

definition wsub :: "usize \<Rightarrow> usize \<Rightarrow> usize" where
  "wsub a b = (if b \<le> a then a - b else 2 ^ 64 - (b - a) mod 2 ^ 64)"

definition wmul :: "usize \<Rightarrow> usize \<Rightarrow> usize" where
  "wmul a b = (a * b) mod 2 ^ 64"

lemma wadd_small [simp]: "a + b < 2 ^ 64 \<Longrightarrow> wadd a b = a + b"
  by (simp add: wadd_def)

lemma wmul_small [simp]: "a * b < 2 ^ 64 \<Longrightarrow> wmul a b = a * b"
  by (simp add: wmul_def)

lemma wsub_small [simp]: "b \<le> a \<Longrightarrow> wsub a b = a - b"
  by (simp add: wsub_def)

lemma wadd_less: "wadd a b < 2 ^ 64"
  by (simp add: wadd_def)

lemma wadd_le: "wadd a b \<le> a + b"
  by (simp add: wadd_def)

text \<open>The wrapped sum of two \<open>usize\<close> values is below either operand exactly when it overflowed.\<close>

lemma wadd_cases:
  assumes "a < 2 ^ 64" and "b < 2 ^ 64"
  shows "wadd a b = a + b \<and> a + b < 2 ^ 64 \<or>
    wadd a b = a + b - 2 ^ 64 \<and> 2 ^ 64 \<le> a + b \<and> wadd a b < a"
proof (cases "a + b < 2 ^ 64")
  case True
  then show ?thesis by simp
next
  case False
  then have le: "2 ^ 64 \<le> a + b" by simp
  have "(a + b) mod 2 ^ 64 = (a + b - 2 ^ 64) mod 2 ^ 64"
    by (rule le_mod_geq [OF le])
  also have "\<dots> = a + b - 2 ^ 64"
    by (rule mod_less) (use assms in linarith)
  finally show ?thesis using le assms by (simp add: wadd_def)
qed

section \<open>Outcomes of Rust computations\<close>

datatype error =
    Msg string
  | InvalidChecksum u32 u32

datatype 'a res = Ok 'a | Err error | Panic

definition res_bind :: "'a res \<Rightarrow> ('a \<Rightarrow> 'b res) \<Rightarrow> 'b res" where
  "res_bind m f = (case m of Ok x \<Rightarrow> f x | Err e \<Rightarrow> Err e | Panic \<Rightarrow> Panic)"

lemma res_bind_simps [simp]:
  "res_bind (Ok x) f = f x"
  "res_bind (Err e) f = Err e"
  "res_bind Panic f = Panic"
  by (simp_all add: res_bind_def)

lemma res_bind_Ok_iff: "res_bind m f = Ok y \<longleftrightarrow> (\<exists>x. m = Ok x \<and> f x = Ok y)"
  by (cases m) auto

lemma res_bind_Panic_iff:
  "res_bind m f = Panic \<longleftrightarrow> m = Panic \<or> (\<exists>x. m = Ok x \<and> f x = Panic)"
  by (cases m) auto

lemma res_bind_assoc: "res_bind (res_bind m f) g = res_bind m (\<lambda>x. res_bind (f x) g)"
  by (cases m) auto

lemma res_bind_cong [fundef_cong]:
  "m = m' \<Longrightarrow> (\<And>x. m' = Ok x \<Longrightarrow> f x = g x) \<Longrightarrow> res_bind m f = res_bind m' g"
  by (cases m') auto

text \<open>\<open>Option::unwrap\<close> and \<open>Result::unwrap\<close>: a panic when there is no value.\<close>

definition opt_unwrap :: "'a option \<Rightarrow> 'a res" where
  "opt_unwrap m = (case m of Some x \<Rightarrow> Ok x | None \<Rightarrow> Panic)"

definition res_unwrap :: "'a res \<Rightarrow> 'a res" where
  "res_unwrap m = (case m of Ok x \<Rightarrow> Ok x | _ \<Rightarrow> Panic)"

definition ok_or :: "error \<Rightarrow> 'a option \<Rightarrow> 'a res" where
  "ok_or e m = (case m of Some x \<Rightarrow> Ok x | None \<Rightarrow> Err e)"

lemma unwrap_simps [simp]:
  "opt_unwrap (Some x) = Ok x" "opt_unwrap None = Panic"
  "res_unwrap (Ok x) = Ok x" "res_unwrap (Err e) = Panic" "res_unwrap Panic = Panic"
  "ok_or e (Some x) = Ok x" "ok_or e None = Err e"
  by (simp_all add: opt_unwrap_def res_unwrap_def ok_or_def)

section \<open>Slices\<close>

text \<open>\<open>s.get(i..j)\<close>, \<open>s.get(i..)\<close> and \<open>s.get(i)\<close>: \<open>None\<close> when the range is not inside \<open>s\<close>.\<close>

definition get_range :: "'a list \<Rightarrow> usize \<Rightarrow> usize \<Rightarrow> 'a list option" where
  "get_range s i j = (if i \<le> j \<and> j \<le> length s then Some (take (j - i) (drop i s)) else None)"

definition get_from :: "'a list \<Rightarrow> usize \<Rightarrow> 'a list option" where
  "get_from s i = (if i \<le> length s then Some (drop i s) else None)"

definition get_at :: "'a list \<Rightarrow> usize \<Rightarrow> 'a option" where
  "get_at s i = (if i < length s then Some (s ! i) else None)"

text \<open>\<open>&s[i..j]\<close> and \<open>s[i]\<close>: a panic when out of range.\<close>

definition idx_range :: "'a list \<Rightarrow> usize \<Rightarrow> usize \<Rightarrow> 'a list res" where
  "idx_range s i j = opt_unwrap (get_range s i j)"

definition idx_at :: "'a list \<Rightarrow> usize \<Rightarrow> 'a res" where
  "idx_at s i = opt_unwrap (get_at s i)"

text \<open>\<open>s[i..i + n].copy_from_slice(v)\<close> with \<open>n = v.len()\<close>: a panic when the range leaves \<open>s\<close>.\<close>

definition put_slice_at :: "'a list \<Rightarrow> usize \<Rightarrow> 'a list \<Rightarrow> 'a list res" where
  "put_slice_at s i v =
     (if i + length v \<le> length s
      then Ok (take i s @ v @ drop (i + length v) s) else Panic)"

lemma get_range_Some:
  "get_range s i j = Some r \<longleftrightarrow> i \<le> j \<and> j \<le> length s \<and> r = take (j - i) (drop i s)"
  by (auto simp: get_range_def)

lemma get_range_length: "get_range s i j = Some r \<Longrightarrow> length r = j - i"
  by (auto simp: get_range_Some)

lemma get_range_mid:
  "length p = i \<Longrightarrow> length s = n \<Longrightarrow> get_range (p @ s @ r) i (i + n) = Some s"
  by (simp add: get_range_def)

lemma get_range_prefix: "length s = n \<Longrightarrow> get_range (s @ r) 0 n = Some s"
  by (simp add: get_range_def)

lemma get_from_mid: "length p = i \<Longrightarrow> get_from (p @ s) i = Some s"
  by (simp add: get_from_def)

lemma put_slice_at_mid:
  "length p = i \<Longrightarrow> length old = length v \<Longrightarrow>
   put_slice_at (p @ old @ r) i v = Ok (p @ v @ r)"
  by (simp add: put_slice_at_def)

lemma put_slice_at_length: "put_slice_at s i v = Ok s' \<Longrightarrow> length s' = length s"
  by (auto simp: put_slice_at_def split: if_splits)

section \<open>Integers as bytes\<close>

primrec to_le :: "nat \<Rightarrow> nat \<Rightarrow> bytes" where
  "to_le 0 v = []"
| "to_le (Suc n) v = word_of_nat (v mod 256) # to_le n (v div 256)"

primrec from_le :: "bytes \<Rightarrow> nat" where
  "from_le [] = 0"
| "from_le (b # bs) = unat b + 256 * from_le bs"

lemma length_to_le [simp]: "length (to_le n v) = n"
  by (induction n arbitrary: v) auto

lemma unat_u8_of_mod [simp]: "unat (word_of_nat (v mod 256) :: u8) = v mod 256"
  by (simp add: unat_of_nat)

lemma from_le_to_le: "from_le (to_le n v) = v mod 256 ^ n"
proof (induction n arbitrary: v)
  case 0
  then show ?case by simp
next
  case (Suc n)
  have "v mod 256 + 256 * (v div 256 mod 256 ^ n) = v mod (256 * 256 ^ n)"
    by (metis add.commute mod_mult2_eq)
  with Suc show ?case by simp
qed

lemma from_le_less: "from_le bs < 256 ^ length bs"
proof (induction bs)
  case Nil
  then show ?case by simp
next
  case (Cons b bs)
  have "unat b < 256" using unsigned_less [of b] by simp
  with Cons show ?case by simp
qed

lemma to_le_from_le: "to_le (length bs) (from_le bs) = bs"
proof (induction bs)
  case Nil
  then show ?case by simp
next
  case (Cons b bs)
  have "unat b < 256" using unsigned_less [of b] by simp
  then have "(unat b + 256 * from_le bs) mod 256 = unat b"
    and "(unat b + 256 * from_le bs) div 256 = from_le bs" by simp_all
  with Cons show ?case by simp
qed

definition u16_to_le_bytes :: "u16 \<Rightarrow> bytes" where
  "u16_to_le_bytes w = to_le 2 (unat w)"

definition u32_to_le_bytes :: "u32 \<Rightarrow> bytes" where
  "u32_to_le_bytes w = to_le 4 (unat w)"

definition u64_to_le_bytes :: "u64 \<Rightarrow> bytes" where
  "u64_to_le_bytes w = to_le 8 (unat w)"

definition u16_to_be_bytes :: "u16 \<Rightarrow> bytes" where
  "u16_to_be_bytes w = rev (to_le 2 (unat w))"

definition u64_to_be_bytes :: "u64 \<Rightarrow> bytes" where
  "u64_to_be_bytes w = rev (to_le 8 (unat w))"

definition u16_from_le_bytes :: "bytes \<Rightarrow> u16" where
  "u16_from_le_bytes bs = word_of_nat (from_le bs)"

definition u32_from_le_bytes :: "bytes \<Rightarrow> u32" where
  "u32_from_le_bytes bs = word_of_nat (from_le bs)"

definition u64_from_le_bytes :: "bytes \<Rightarrow> u64" where
  "u64_from_le_bytes bs = word_of_nat (from_le bs)"

definition u16_from_be_bytes :: "bytes \<Rightarrow> u16" where
  "u16_from_be_bytes bs = word_of_nat (from_le (rev bs))"

definition u32_from_be_bytes :: "bytes \<Rightarrow> u32" where
  "u32_from_be_bytes bs = word_of_nat (from_le (rev bs))"

definition u64_from_be_bytes :: "bytes \<Rightarrow> u64" where
  "u64_from_be_bytes bs = word_of_nat (from_le (rev bs))"

lemma word_bytes_length [simp]:
  "length (u16_to_le_bytes a) = 2" "length (u32_to_le_bytes b) = 4"
  "length (u64_to_le_bytes c) = 8" "length (u16_to_be_bytes a) = 2"
  "length (u64_to_be_bytes c) = 8"
  by (simp_all add: u16_to_le_bytes_def u32_to_le_bytes_def u64_to_le_bytes_def
        u16_to_be_bytes_def u64_to_be_bytes_def)

lemma unat_lt_pow:
  "unat (a :: u16) < 256 ^ 2" "unat (b :: u32) < 256 ^ 4" "unat (c :: u64) < 256 ^ 8"
  using unsigned_less [of a] unsigned_less [of b] unsigned_less [of c] by simp_all

lemma word_bytes_inverse [simp]:
  "u16_from_le_bytes (u16_to_le_bytes a) = a" "u32_from_le_bytes (u32_to_le_bytes b) = b"
  "u64_from_le_bytes (u64_to_le_bytes c) = c" "u16_from_be_bytes (u16_to_be_bytes a) = a"
  "u64_from_be_bytes (u64_to_be_bytes c) = c"
  using unat_lt_pow(1) [of a] unat_lt_pow(2) [of b] unat_lt_pow(3) [of c]
  by (simp_all add: u16_from_le_bytes_def u16_to_le_bytes_def u32_from_le_bytes_def
        u32_to_le_bytes_def u64_from_le_bytes_def u64_to_le_bytes_def u16_from_be_bytes_def
        u16_to_be_bytes_def u64_from_be_bytes_def u64_to_be_bytes_def from_le_to_le)

lemma u64_bytes_back: "length bs = 8 \<Longrightarrow> u64_to_le_bytes (u64_from_le_bytes bs) = bs"
  using from_le_less [of bs] to_le_from_le [of bs]
  by (simp add: u64_to_le_bytes_def u64_from_le_bytes_def unat_of_nat)

lemma u32_bytes_back: "length bs = 4 \<Longrightarrow> u32_to_le_bytes (u32_from_le_bytes bs) = bs"
  using from_le_less [of bs] to_le_from_le [of bs]
  by (simp add: u32_to_le_bytes_def u32_from_le_bytes_def unat_of_nat)

text \<open>Casts: \<open>x as u64\<close> of a length, \<open>x as usize\<close> of a word.\<close>

lemma unat_u64_of_nat [simp]: "n < 2 ^ 64 \<Longrightarrow> unat (word_of_nat n :: u64) = n"
  by (simp add: unat_of_nat)

lemma unat_u64_lt: "unat (w :: u64) < 2 ^ 64"
  using unsigned_less [of w] by simp


section \<open>Bit operations as arithmetic\<close>

lemma unat_drop_bit: "unat (drop_bit n (c :: 'a::len word)) = unat c div 2 ^ n"
  unfolding unsigned_drop_bit_eq by (metis drop_bit_eq_div unsigned_less take_bit_nat_eq_self_iff)

lemma unat_push_bit: "unat (push_bit n c) = unat c * 2 ^ n mod 2 ^ LENGTH('a)" for c :: "'a::len word"
  by (metis push_bit_eq_mult take_bit_eq_mod unsigned_push_bit_eq)

lemma unat_and_mask: "unat (c AND mask n) = unat c mod 2 ^ n" for c :: "'a::len word"
  by (metis take_bit_eq_mask take_bit_eq_mod unsigned_take_bit_eq)

lemma nat_or_shifted: "x OR (y * 2 ^ n) = x + y * 2 ^ n" if "x < 2 ^ n" for x y :: nat
proof -
  have "x = take_bit n x" using that by (simp add: take_bit_nat_eq_self)
  then have "x AND push_bit n y = 0"
    by (metis (no_types, lifting) bit_and_iff bit_eqI bit_push_bit_iff bit_take_bit_iff bit_0_eq
        leD bot_apply bot_bool_def)
  then have "x + push_bit n y = x OR push_bit n y" by (rule disjunctive_add_eq_or)
  then show ?thesis by (simp add: push_bit_eq_mult)
qed

end
