(* ===== verification/Arena.thy ===== *)
theory Arena
  imports Prelude
begin

text \<open>
  The bump allocator of \<open>src/src/util/arena.rs\<close> and the growable arrays of
  \<open>src/src/util/arenaarray.rs\<close>.

  An arena owns \<open>ar_capacity\<close> bytes at address \<open>ar_data\<close>; \<open>ar_consumed\<close> is the atomic counter
  of bytes handed out.  Each \<open>try_alloc*\<close> operation is a compare-exchange loop on that
  counter.  The values that failing exchanges report are the argument \<open>obs\<close> of the
  operations (the empty list: no interference), so one definition covers both the
  uncontended use by the packet decoders and the use by several tasks.  Addresses returned
  are part of the result; the bytes written through them are not modelled here, since the
  decoders of the later theories return their values directly.  The size and the alignment
  of the allocated type are parameters: Rust does not fix the layout of its structs.
\<close>

section \<open>State and operations\<close>

record arena =
  ar_data :: usize
  ar_consumed :: usize
  ar_capacity :: usize

definition Arena_new :: "usize \<Rightarrow> usize \<Rightarrow> arena" where
  "Arena_new alloced cap = \<lparr>ar_data = alloced, ar_consumed = 0, ar_capacity = cap\<rparr>"

definition used :: "arena \<Rightarrow> usize" where
  "used a = ar_consumed a"

definition padding_at :: "arena \<Rightarrow> usize \<Rightarrow> usize \<Rightarrow> usize" where
  "padding_at a alignment cur =
     (if alignment \<noteq> 0
      then (alignment - (wadd (ar_data a) cur mod alignment)) mod alignment else 0)"

fun alloc_loop :: "arena \<Rightarrow> usize \<Rightarrow> usize \<Rightarrow> usize \<Rightarrow> usize list \<Rightarrow> (usize \<times> usize \<times> arena) res" where
  "alloc_loop a alignment sz cur [] =
     (let padding = padding_at a alignment cur; wanted = wadd (wadd cur padding) sz in
      if wanted \<le> ar_capacity a
      then Ok (cur, padding, a\<lparr>ar_consumed := wanted\<rparr>)
      else Panic)"
| "alloc_loop a alignment sz cur (new_cur # obs) =
     (let padding = padding_at a alignment cur; wanted = wadd (wadd cur padding) sz in
      if wanted \<le> ar_capacity a
      then alloc_loop a alignment sz new_cur obs
      else Panic)"

definition try_alloc :: "usize \<times> usize \<Rightarrow> arena \<Rightarrow> usize list \<Rightarrow> (usize \<times> arena) res" where
  "try_alloc lay a obs =
     res_bind (alloc_loop a (snd lay) (fst lay) (ar_consumed a) obs)
       (\<lambda>(cur, padding, a'). Ok (wadd (ar_data a) cur, a'))"

definition try_alloc_array_uninit ::
  "usize \<times> usize \<Rightarrow> arena \<Rightarrow> usize \<Rightarrow> usize list \<Rightarrow> (usize \<times> arena) res" where
  "try_alloc_array_uninit lay a count obs =
     res_bind (alloc_loop a (snd lay) (wmul (fst lay) count) (ar_consumed a) obs)
       (\<lambda>(cur, padding, a'). Ok (wadd (ar_data a) (wadd padding cur), a'))"

definition try_alloc_array_fill_copy ::
  "usize \<times> usize \<Rightarrow> arena \<Rightarrow> usize \<Rightarrow> 'a \<Rightarrow> usize list \<Rightarrow> (usize \<times> 'a list \<times> arena) res" where
  "try_alloc_array_fill_copy lay a count v obs =
     res_bind (alloc_loop a (snd lay) (wmul (fst lay) count) (ar_consumed a) obs)
       (\<lambda>(cur, padding, a'). Ok (wadd (ar_data a) (wadd padding cur), replicate count v, a'))"

definition try_alloc_array_copy ::
  "usize \<times> usize \<Rightarrow> arena \<Rightarrow> 'a list \<Rightarrow> usize list \<Rightarrow> (usize \<times> 'a list \<times> arena) res" where
  "try_alloc_array_copy lay a vs obs =
     res_bind (alloc_loop a (snd lay) (fst lay * length vs) (ar_consumed a) obs)
       (\<lambda>(cur, padding, a'). Ok (wadd (ar_data a) (wadd padding cur), vs, a'))"

definition Arena_reset :: "arena \<Rightarrow> arena" where
  "Arena_reset a = a\<lparr>ar_consumed := 0\<rparr>"

section \<open>Arena arrays\<close>

text \<open>The \<open>len\<close> elements written so far and the capacity of the backing allocation.\<close>

record 'a arena_array =
  aa_items :: "'a list"
  aa_cap :: usize

definition ArenaArray_from_raw_parts :: "usize \<Rightarrow> 'a arena_array" where
  "ArenaArray_from_raw_parts cap = \<lparr>aa_items = [], aa_cap = cap\<rparr>"

definition ArenaArray_push :: "'a arena_array \<Rightarrow> 'a \<Rightarrow> 'a arena_array res" where
  "ArenaArray_push aa x =
     (if length (aa_items aa) = aa_cap aa then Panic
      else Ok (aa\<lparr>aa_items := aa_items aa @ [x]\<rparr>))"

definition ArenaArray_pop :: "'a arena_array \<Rightarrow> ('a \<times> 'a arena_array) res" where
  "ArenaArray_pop aa =
     (if aa_items aa = [] then Panic
      else Ok (last (aa_items aa), aa\<lparr>aa_items := butlast (aa_items aa)\<rparr>))"

definition into_arena_array :: "'a arena_array \<Rightarrow> 'a list" where
  "into_arena_array aa = aa_items aa"

definition try_alloc_arenaarray ::
  "usize \<times> usize \<Rightarrow> arena \<Rightarrow> usize \<Rightarrow> usize list \<Rightarrow> ('a arena_array \<times> arena) res" where
  "try_alloc_arenaarray lay a count obs =
     res_bind (try_alloc_array_uninit lay a count obs)
       (\<lambda>(loc, a'). Ok (ArenaArray_from_raw_parts count, a'))"

fun push_all :: "'a arena_array \<Rightarrow> 'a list \<Rightarrow> 'a arena_array res" where
  "push_all aa [] = Ok aa"
| "push_all aa (x # xs) = res_bind (ArenaArray_push aa x) (\<lambda>aa'. push_all aa' xs)"

lemma push_all_exact:
  assumes "length (aa_items aa) + length xs \<le> aa_cap aa"
  shows "push_all aa xs = Ok (aa\<lparr>aa_items := aa_items aa @ xs\<rparr>)"
  using assms by (induction xs arbitrary: aa) (simp_all add: ArenaArray_push_def)

section \<open>The allocator without interference\<close>

text \<open>The block lies in the address space: no Rust allocation exceeds \<open>isize::MAX\<close> bytes.\<close>

definition arena_inv :: "arena \<Rightarrow> bool" where
  "arena_inv a \<longleftrightarrow> ar_consumed a \<le> ar_capacity a \<and> ar_data a + ar_capacity a < 2 ^ 63"

definition arena_room :: "arena \<Rightarrow> nat \<Rightarrow> bool" where
  "arena_room a n \<longleftrightarrow> arena_inv a \<and> ar_consumed a + n \<le> ar_capacity a"

definition arena_after :: "arena \<Rightarrow> arena \<Rightarrow> nat \<Rightarrow> bool" where
  "arena_after a a' n \<longleftrightarrow> arena_inv a' \<and> ar_data a' = ar_data a \<and>
     ar_capacity a' = ar_capacity a \<and> ar_consumed a \<le> ar_consumed a' \<and>
     ar_consumed a' \<le> ar_consumed a + n"

lemma arena_after_refl [simp]: "arena_inv a \<Longrightarrow> arena_after a a n"
  by (simp add: arena_after_def)

lemma arena_after_trans:
  "arena_after a b m \<Longrightarrow> arena_after b c n \<Longrightarrow> arena_after a c (m + n)"
  by (auto simp: arena_after_def)

lemma arena_room_after: "arena_room a (m + n) \<Longrightarrow> arena_after a b m \<Longrightarrow> arena_room b n"
  by (auto simp: arena_room_def arena_after_def)

lemma arena_room_mono: "arena_room a n \<Longrightarrow> m \<le> n \<Longrightarrow> arena_room a m"
  by (auto simp: arena_room_def)

lemma arena_after_mono: "arena_after a b m \<Longrightarrow> m \<le> n \<Longrightarrow> arena_after a b n"
  by (auto simp: arena_after_def)

lemma arena_roomD: "arena_room a n \<Longrightarrow> arena_inv a"
  by (simp add: arena_room_def)

lemma padding_less: "al \<noteq> 0 \<Longrightarrow> padding_at a al cur < al"
  by (simp add: padding_at_def)

lemma padding_le: "padding_at a al cur \<le> al"
  by (cases "al = 0") (simp_all add: padding_at_def less_imp_le)

lemma padding_aligns:
  assumes "al \<noteq> 0" and "ar_data a + cur < 2 ^ 64"
  shows "al dvd ar_data a + cur + padding_at a al cur"
proof -
  let ?x = "ar_data a + cur"
  have "(?x + (al - ?x mod al) mod al) mod al = (?x mod al + (al - ?x mod al)) mod al"
    by (simp add: mod_add_eq mod_add_right_eq mod_add_left_eq)
  also have "\<dots> = 0" using assms(1) by (simp add: less_imp_le)
  finally show ?thesis using assms by (simp add: padding_at_def mod_eq_0_iff_dvd)
qed

lemma wanted_exact:
  assumes "arena_inv a" and "cur \<le> ar_capacity a" and "sz + al \<le> 2 ^ 63"
  shows "wadd (wadd cur (padding_at a al cur)) sz = cur + padding_at a al cur + sz"
proof -
  have "cur < 2 ^ 63" using assms(1,2) by (simp add: arena_inv_def)
  with padding_le [of a al cur] assms(3)
  have "cur + padding_at a al cur + sz < 2 ^ 64" by simp
  then show ?thesis by simp
qed

lemma alloc_loop_exact:
  assumes "arena_inv a" and "sz + al \<le> 2 ^ 63"
  shows "alloc_loop a al sz (ar_consumed a) [] =
    (let p = padding_at a al (ar_consumed a) in
     if ar_consumed a + p + sz \<le> ar_capacity a
     then Ok (ar_consumed a, p, a\<lparr>ar_consumed := ar_consumed a + p + sz\<rparr>) else Panic)"
proof -
  have "ar_consumed a \<le> ar_capacity a" using assms(1) by (simp add: arena_inv_def)
  from wanted_exact [OF assms(1) this assms(2)] show ?thesis by (simp add: Let_def)
qed

text \<open>
  The form the decoders use: with room for \<open>al + sz\<close> bytes the allocation succeeds and
  takes at most that many.
\<close>

lemma alloc_loop_room:
  assumes "arena_room a (al + sz)"
  obtains cur p a' where "alloc_loop a al sz (ar_consumed a) [] = Ok (cur, p, a')"
    and "arena_after a a' (al + sz)"
proof -
  have inv: "arena_inv a" and room: "ar_consumed a + (al + sz) \<le> ar_capacity a"
    using assms by (simp_all add: arena_room_def)
  have fits: "sz + al \<le> 2 ^ 63" using inv room by (simp add: arena_inv_def)
  let ?p = "padding_at a al (ar_consumed a)"
  let ?a' = "a\<lparr>ar_consumed := ar_consumed a + ?p + sz\<rparr>"
  have p: "?p \<le> al" by (rule padding_le)
  have "alloc_loop a al sz (ar_consumed a) [] = Ok (ar_consumed a, ?p, ?a')"
    using alloc_loop_exact [OF inv fits] p room by (simp add: Let_def)
  moreover have "arena_after a ?a' (al + sz)"
    using inv room p by (simp add: arena_after_def arena_inv_def)
  ultimately show thesis by (rule that)
qed

lemma try_alloc_room:
  assumes "arena_room a (snd lay + fst lay)"
  obtains loc a' where "try_alloc lay a [] = Ok (loc, a')"
    and "arena_after a a' (snd lay + fst lay)"
  using alloc_loop_room [OF assms] by (metis (no_types, lifting) case_prod_conv res_bind_simps(1) try_alloc_def)

lemma wmul_room: "arena_room a (al + sz * n) \<Longrightarrow> wmul sz n = sz * n"
  by (rule wmul_small) (auto simp: arena_room_def arena_inv_def)

lemma try_alloc_array_room:
  assumes "arena_room a (snd lay + fst lay * n)"
  obtains loc a' where "try_alloc_array_fill_copy lay a n v [] = Ok (loc, replicate n v, a')"
    and "arena_after a a' (snd lay + fst lay * n)"
proof -
  obtain cur p a' where "alloc_loop a (snd lay) (fst lay * n) (ar_consumed a) [] = Ok (cur, p, a')"
    and after: "arena_after a a' (snd lay + fst lay * n)"
    using alloc_loop_room [OF assms] by blast
  then have "try_alloc_array_fill_copy lay a n v [] =
      Ok (wadd (ar_data a) (wadd p cur), replicate n v, a')"
    by (simp add: try_alloc_array_fill_copy_def wmul_room [OF assms])
  from this after show thesis by (rule that)
qed

lemma try_alloc_arenaarray_room:
  assumes "arena_room a (snd lay + fst lay * n)"
  obtains a' where "try_alloc_arenaarray lay a n [] = Ok (ArenaArray_from_raw_parts n, a')"
    and "arena_after a a' (snd lay + fst lay * n)"
proof -
  obtain cur p a' where "alloc_loop a (snd lay) (fst lay * n) (ar_consumed a) [] = Ok (cur, p, a')"
    and after: "arena_after a a' (snd lay + fst lay * n)"
    using alloc_loop_room [OF assms] by blast
  then have "try_alloc_arenaarray lay a n [] = Ok (ArenaArray_from_raw_parts n, a')"
    by (simp add: try_alloc_arenaarray_def try_alloc_array_uninit_def wmul_room [OF assms])
  from this after show thesis by (rule that)
qed

section \<open>Behaviour of single allocations\<close>

text \<open>An array allocation without interference succeeds exactly when the padded array fits.\<close>

lemma array_alloc_cases:
  assumes inv: "arena_inv a" and lay: "al \<noteq> 0" "sz * n + al \<le> 2 ^ 63"
  shows "try_alloc_array_uninit (sz, al) a n [] =
    (let p = padding_at a al (ar_consumed a) in
     if ar_consumed a + p + sz * n \<le> ar_capacity a
     then Ok (ar_data a + ar_consumed a + p, a\<lparr>ar_consumed := ar_consumed a + p + sz * n\<rparr>)
     else Panic)"
proof -
  let ?p = "padding_at a al (ar_consumed a)"
  have "wmul sz n = sz * n" using lay by simp
  moreover have "ar_consumed a + ?p + sz * n \<le> ar_capacity a \<Longrightarrow>
      wadd (ar_data a) (wadd ?p (ar_consumed a)) = ar_data a + ar_consumed a + ?p"
    using inv by (simp add: arena_inv_def)
  ultimately show ?thesis
    using alloc_loop_exact [OF inv lay(2)] by (simp add: try_alloc_array_uninit_def Let_def)
qed

lemma value_alloc_cases:
  assumes inv: "arena_inv a" and lay: "sz + al \<le> 2 ^ 63"
  shows "try_alloc (sz, al) a [] =
    (let p = padding_at a al (ar_consumed a) in
     if ar_consumed a + p + sz \<le> ar_capacity a
     then Ok (ar_data a + ar_consumed a, a\<lparr>ar_consumed := ar_consumed a + p + sz\<rparr>)
     else Panic)"
proof -
  have "wadd (ar_data a) (ar_consumed a) = ar_data a + ar_consumed a"
    using inv by (simp add: arena_inv_def)
  then show ?thesis
    using alloc_loop_exact [OF inv lay] by (simp add: try_alloc_def Let_def)
qed

section \<open>Several tasks on one arena\<close>

text \<open>
  A task first loads the counter, then attempts compare-exchanges until one succeeds or the
  arena is full; between its steps the other tasks may run.  \<open>sys_pending t\<close> is what task \<open>t\<close>
  wants and the counter value it last saw; \<open>sys_regions\<close> lists the blocks handed out, newest
  first, as address and length.  A weak exchange may fail for no reason.
\<close>

datatype request = AllocValue "usize \<times> usize" | AllocArray "usize \<times> usize" usize

fun request_align :: "request \<Rightarrow> usize" where
  "request_align (AllocValue lay) = snd lay"
| "request_align (AllocArray lay n) = snd lay"

fun request_bytes :: "request \<Rightarrow> usize" where
  "request_bytes (AllocValue lay) = fst lay"
| "request_bytes (AllocArray lay n) = wmul (fst lay) n"

fun request_loc :: "request \<Rightarrow> usize \<Rightarrow> usize \<Rightarrow> usize \<Rightarrow> usize" where
  "request_loc (AllocValue lay) base cur padding = wadd base cur"
| "request_loc (AllocArray lay n) base cur padding = wadd base (wadd padding cur)"

definition request_ok :: "request \<Rightarrow> bool" where
  "request_ok r \<longleftrightarrow> request_bytes r + request_align r \<le> 2 ^ 63"

record arena_sys =
  sys_arena :: arena
  sys_pending :: "nat \<Rightarrow> (request \<times> usize) option"
  sys_regions :: "(usize \<times> usize) list"

definition attempt :: "arena_sys \<Rightarrow> request \<Rightarrow> usize \<Rightarrow> (usize \<times> usize \<times> arena) res" where
  "attempt s r cur = alloc_loop (sys_arena s) (request_align r) (request_bytes r) cur []"

inductive arena_step :: "arena_sys \<Rightarrow> arena_sys \<Rightarrow> bool" where
  load: "sys_pending s t = None \<Longrightarrow> request_ok r \<Longrightarrow>
     arena_step s (s\<lparr>sys_pending := (sys_pending s)(t \<mapsto> (r, ar_consumed (sys_arena s)))\<rparr>)"
| exchanged: "sys_pending s t = Some (r, cur) \<Longrightarrow> cur = ar_consumed (sys_arena s) \<Longrightarrow>
     attempt s r cur = Ok (cur', p, a') \<Longrightarrow>
     arena_step s \<lparr>sys_arena = a', sys_pending = (sys_pending s)(t := None),
       sys_regions = (request_loc r (ar_data a') cur' p, request_bytes r) # sys_regions s\<rparr>"
| retried: "sys_pending s t = Some (r, cur) \<Longrightarrow> attempt s r cur = Ok (cur', p, a') \<Longrightarrow>
     arena_step s (s\<lparr>sys_pending := (sys_pending s)(t \<mapsto> (r, ar_consumed (sys_arena s)))\<rparr>)"
| exhausted: "sys_pending s t = Some (r, cur) \<Longrightarrow> attempt s r cur = Panic \<Longrightarrow>
     arena_step s (s\<lparr>sys_pending := (sys_pending s)(t := None)\<rparr>)"

definition arena_start :: "usize \<Rightarrow> usize \<Rightarrow> arena_sys" where
  "arena_start base cap =
     \<lparr>sys_arena = Arena_new base cap, sys_pending = Map.empty, sys_regions = []\<rparr>"

inductive arena_reachable :: "usize \<Rightarrow> usize \<Rightarrow> arena_sys \<Rightarrow> bool" for base cap where
  start: "arena_reachable base cap (arena_start base cap)"
| step: "arena_reachable base cap s \<Longrightarrow> arena_step s s' \<Longrightarrow> arena_reachable base cap s'"

fun region_after :: "usize \<times> usize \<Rightarrow> usize \<times> usize \<Rightarrow> bool" where
  "region_after (l, n) (l', n') \<longleftrightarrow> l' + n' \<le> l"

definition sys_inv :: "usize \<Rightarrow> usize \<Rightarrow> arena_sys \<Rightarrow> bool" where
  "sys_inv base cap s \<longleftrightarrow>
     arena_inv (sys_arena s) \<and> ar_data (sys_arena s) = base \<and> ar_capacity (sys_arena s) = cap \<and>
     (\<forall>t r cur. sys_pending s t = Some (r, cur) \<longrightarrow> request_ok r) \<and>
     (\<forall>(l, n) \<in> set (sys_regions s). base \<le> l \<and> l + n \<le> base + ar_consumed (sys_arena s)) \<and>
     sorted_wrt region_after (sys_regions s)"

lemma attempt_exact:
  assumes "arena_inv (sys_arena s)" and "request_ok r"
    and "attempt s r (ar_consumed (sys_arena s)) = Ok (cur', p, a')"
  shows "cur' = ar_consumed (sys_arena s)"
    and "ar_consumed a' = cur' + p + request_bytes r"
    and "ar_consumed a' \<le> ar_capacity (sys_arena s)"
    and "ar_data a' = ar_data (sys_arena s)" and "ar_capacity a' = ar_capacity (sys_arena s)"
  using assms alloc_loop_exact [OF assms(1), of "request_bytes r" "request_align r"]
  by (auto simp: attempt_def request_ok_def Let_def split: if_splits)

lemma request_loc_bounds:
  assumes "base + cur + p < 2 ^ 64"
  shows "base + cur \<le> request_loc r base cur p \<and> request_loc r base cur p \<le> base + cur + p"
  using assms by (cases r) simp_all

lemma arena_step_inv: "arena_step s s' \<Longrightarrow> sys_inv base cap s \<Longrightarrow> sys_inv base cap s'"
proof (induction rule: arena_step.induct)
  case (load s t r)
  then show ?case by (auto simp: sys_inv_def split: if_splits)
next
  case (exchanged s t r cur cur' p a')
  have ok: "request_ok r" and inv: "arena_inv (sys_arena s)"
    and base: "ar_data (sys_arena s) = base" and cap: "ar_capacity (sys_arena s) = cap"
    using exchanged by (auto simp: sys_inv_def)
  have ex: "attempt s r (ar_consumed (sys_arena s)) = Ok (cur', p, a')"
    using exchanged by simp
  note e = attempt_exact [OF inv ok ex]
  have bound: "base + ar_consumed a' < 2 ^ 63"
    using e(3) inv base by (simp add: arena_inv_def)
  have loc: "base + cur' \<le> request_loc r base cur' p \<and> request_loc r base cur' p \<le> base + cur' + p"
    by (rule request_loc_bounds) (use bound e(2) in simp)
  have grow: "ar_consumed (sys_arena s) \<le> ar_consumed a'" using e by simp
  have regs: "\<forall>(l, n) \<in> set (sys_regions s). base \<le> l \<and> l + n \<le> base + ar_consumed (sys_arena s)"
    and sorted: "sorted_wrt region_after (sys_regions s)"
    and pend: "\<forall>t r cur. sys_pending s t = Some (r, cur) \<longrightarrow> request_ok r"
    using exchanged.prems by (auto simp: sys_inv_def)
  have "\<forall>q \<in> set (sys_regions s). region_after (request_loc r base cur' p, request_bytes r) q"
    using regs loc e(1) by fastforce
  moreover have "\<forall>(l, n) \<in> set (sys_regions s). base \<le> l \<and> l + n \<le> base + ar_consumed a'"
    using regs grow by fastforce
  moreover have "arena_inv a'" using inv e bound by (simp add: arena_inv_def)
  moreover have "request_loc r base cur' p + request_bytes r \<le> base + ar_consumed a'"
    using loc e by simp
  ultimately show ?case
    using e base cap loc sorted pend by (simp add: sys_inv_def)
next
  case (retried s t r cur cur' p a')
  then show ?case by (auto simp: sys_inv_def split: if_splits)
next
  case (exhausted s t r cur)
  then show ?case by (auto simp: sys_inv_def split: if_splits)
qed

lemma arena_start_inv: "base + cap < 2 ^ 63 \<Longrightarrow> sys_inv base cap (arena_start base cap)"
  by (simp add: sys_inv_def arena_start_def Arena_new_def arena_inv_def)

lemma arena_reachable_inv:
  assumes "arena_reachable base cap s" and "base + cap < 2 ^ 63"
  shows "sys_inv base cap s"
  using assms by (induction rule: arena_reachable.induct) (auto intro: arena_start_inv arena_step_inv)

lemma regions_disjoint:
  assumes "sorted_wrt region_after rs" and "i < j" and "j < length rs"
    and "rs ! i = (l, n)" and "rs ! j = (l', n')"
  shows "{l..<l + n} \<inter> {l'..<l' + n'} = {}"
proof -
  have "region_after (rs ! i) (rs ! j)" using sorted_wrt_nth_less assms(1-3) by blast
  then show ?thesis using assms(4,5) by auto
qed

section \<open>Properties\<close>

text \<open>
  Whatever the interleaving of the tasks that share an arena, two blocks handed out never
  overlap and every block lies inside the arena's memory.
\<close>

lemma arena_blocks_disjoint:
  assumes "arena_reachable base cap s" and "base + cap < 2 ^ 63"
    and "i < j" and "j < length (sys_regions s)"
    and "sys_regions s ! i = (l, n)" and "sys_regions s ! j = (l', n')"
  shows "{l..<l + n} \<inter> {l'..<l' + n'} = {} \<and> base \<le> l \<and> l + n \<le> base + cap"
proof -
  have inv: "sys_inv base cap s" using assms(1,2) by (rule arena_reachable_inv)
  then have "{l..<l + n} \<inter> {l'..<l' + n'} = {}"
    by (intro regions_disjoint [OF _ assms(3-6)]) (simp add: sys_inv_def)
  moreover have "(l, n) \<in> set (sys_regions s)" using assms(3-5) by (metis nth_mem order.strict_trans)
  moreover have "ar_consumed (sys_arena s) \<le> cap" using inv by (simp add: sys_inv_def arena_inv_def)
  ultimately show ?thesis using inv by (fastforce simp: sys_inv_def)
qed

text \<open>A run in which task 1 takes a value while task 0 is between its load and its exchange.\<close>

definition demo_arena_sys :: arena_sys where
  "demo_arena_sys = \<lparr>sys_arena = \<lparr>ar_data = 64, ar_consumed = 24, ar_capacity = 100\<rparr>,
     sys_pending = Map.empty, sys_regions = [(72, 16), (64, 4)]\<rparr>"

lemma demo_arena_reachable: "arena_reachable 64 100 demo_arena_sys"
proof -
  let ?r0 = "AllocArray (8, 8) 2" and ?r1 = "AllocValue (4, 4)"
  let ?s0 = "arena_start 64 100"
  let ?s1 = "?s0\<lparr>sys_pending := [0 \<mapsto> (?r0, 0)]\<rparr>"
  let ?s2 = "?s1\<lparr>sys_pending := [0 \<mapsto> (?r0, 0), 1 \<mapsto> (?r1, 0)]\<rparr>"
  let ?s3 = "\<lparr>sys_arena = \<lparr>ar_data = 64, ar_consumed = 4, ar_capacity = 100\<rparr>,
    sys_pending = [0 \<mapsto> (?r0, 0)], sys_regions = [(64, 4)]\<rparr>"
  let ?s4 = "?s3\<lparr>sys_pending := [0 \<mapsto> (?r0, 4)]\<rparr>"
  note start = arena_start_def Arena_new_def request_ok_def
  note calc = attempt_def padding_at_def wadd_def wmul_def Let_def start
  have idle: "[0::nat \<mapsto> x](1 := None) = [0 \<mapsto> x]" for x :: "request \<times> usize"
    by (rule ext) simp
  have "arena_step ?s0 ?s1"
    using arena_step.load [of ?s0 0 ?r0] by (simp add: start wmul_def)
  moreover have "arena_step ?s1 ?s2"
    using arena_step.load [of ?s1 1 ?r1] by (simp add: start)
  moreover have "arena_step ?s2 ?s3"
    using arena_step.exchanged [of ?s2 1 ?r1 0 0 0 "(sys_arena ?s2)\<lparr>ar_consumed := 4\<rparr>"]
    by (simp add: calc idle [unfolded One_nat_def])
  moreover have "arena_step ?s3 ?s4"
    using arena_step.retried [of ?s3 0 ?r0 0 0 0 "(sys_arena ?s3)\<lparr>ar_consumed := 16\<rparr>"]
    by (simp add: calc)
  moreover have "arena_step ?s4 demo_arena_sys"
    using arena_step.exchanged [of ?s4 0 ?r0 4 4 4 "(sys_arena ?s4)\<lparr>ar_consumed := 24\<rparr>"]
    by (simp add: calc demo_arena_sys_def)
  ultimately show ?thesis
    using arena_reachable.start arena_reachable.step by meson
qed

text \<open>
  An array allocation without interference returns an aligned address inside the arena when
  the padded array fits, moves the counter to the array's end, and panics otherwise.
\<close>

lemma array_allocation_aligned:
  assumes "arena_inv a" and "al \<noteq> 0" and "sz * n + al \<le> 2 ^ 63"
  shows "case try_alloc_array_uninit (sz, al) a n [] of
      Ok (loc, a') \<Rightarrow> al dvd loc \<and> ar_data a + ar_consumed a \<le> loc \<and>
        loc + sz * n = ar_data a + ar_consumed a' \<and> arena_inv a'
    | Err e \<Rightarrow> False
    | Panic \<Rightarrow> ar_capacity a < ar_consumed a + padding_at a al (ar_consumed a) + sz * n"
proof -
  have "al dvd ar_data a + ar_consumed a + padding_at a al (ar_consumed a)"
    by (rule padding_aligns) (use assms in \<open>simp_all add: arena_inv_def\<close>)
  then show ?thesis
    using array_alloc_cases [OF assms] assms(1) by (auto simp: Let_def arena_inv_def)
qed

text \<open>
  A single-value allocation reserves the padding but returns the address before it, so the
  returned reference is aligned only when no padding was needed.
\<close>

lemma value_allocation_skips_padding:
  assumes "arena_inv a" and "al \<noteq> 0" and "sz + al \<le> 2 ^ 63"
    and "try_alloc (sz, al) a [] = Ok (loc, a')"
  shows "loc = ar_data a + ar_consumed a \<and>
    (al dvd loc \<longleftrightarrow> padding_at a al (ar_consumed a) = 0)"
proof -
  have loc: "loc = ar_data a + ar_consumed a"
    using value_alloc_cases [OF assms(1,3)] assms(4) by (auto simp: Let_def split: if_splits)
  have "ar_data a + ar_consumed a < 2 ^ 64" using assms(1) by (simp add: arena_inv_def)
  with padding_aligns [OF assms(2) this] padding_less [OF assms(2), of a "ar_consumed a"]
  have "al dvd loc \<longleftrightarrow> padding_at a al (ar_consumed a) = 0"
    unfolding loc by (metis add.right_neutral dvd_add_right_iff dvd_imp_le leD not_gr0)
  with loc show ?thesis by simp
qed

text \<open>
  The byte size of an array is computed with a wrapping multiplication, so a count whose
  size is a multiple of \<open>2 ^ 64\<close> is granted without reserving any of the memory that the
  elements are then written to.
\<close>

lemma array_size_wraps:
  assumes "arena_inv a" and "al \<le> 2 ^ 63" and "sz * n mod 2 ^ 64 = 0"
    and "ar_consumed a + padding_at a al (ar_consumed a) \<le> ar_capacity a"
  shows "\<exists>loc. try_alloc_array_fill_copy (sz, al) a n v [] =
    Ok (loc, replicate n v, a\<lparr>ar_consumed := ar_consumed a + padding_at a al (ar_consumed a)\<rparr>)"
  using alloc_loop_exact [OF assms(1), of 0 al] assms(2-4)
  by (simp add: try_alloc_array_fill_copy_def wmul_def Let_def)

end
