(* ===== verification/Wire.thy ===== *)
theory Wire
  imports Arena
begin

text \<open>
  The byte-level readers and writers of the protocol: \<open>src/src/packets/buffer.rs\<close>,
  \<open>varint.rs\<close>, \<open>varstr.rs\<close> and the array helpers of \<open>src/src/packets/mod.rs\<close>.

  A \<open>Serializable::serialize\<close> only appends to its \<open>BufMut\<close>; it is modelled by the bytes it
  appends.  A \<open>DeserializableBorrowed::deserialize_borrowed\<close> takes the arena and the buffer and
  yields the decoded value, the number of bytes consumed and the arena after its allocations.
  The locale \<open>codec\<close> states what such a pair promises, and the array helpers are proved
  correct once inside it.
\<close>

section \<open>Buffer\<close>

definition get_hash :: "bytes \<Rightarrow> usize \<Rightarrow> hash32 res" where
  "get_hash b offset = ok_or (Msg ''not enough bytes for a 32 byte hash'')
     (get_range b offset (wadd offset 32))"

definition with_offset :: "bytes \<Rightarrow> usize \<Rightarrow> bytes res" where
  "with_offset b offset = ok_or (Msg ''not enough bytes for with_offset'') (get_from b offset)"

definition get_u32_le :: "bytes \<Rightarrow> usize \<Rightarrow> u32 res" where
  "get_u32_le b offset = ok_or (Msg ''not enough bytes for a 32 bit integer'')
     (map_option u32_from_le_bytes (get_range b offset (wadd offset 4)))"

definition get_u64 :: "bytes \<Rightarrow> usize \<Rightarrow> u64 res" where
  "get_u64 b offset = ok_or (Msg ''not enough bytes for a 64 bit integer'')
     (map_option u64_from_be_bytes (get_range b offset (wadd offset 8)))"

definition get_u64_le :: "bytes \<Rightarrow> usize \<Rightarrow> u64 res" where
  "get_u64_le b offset = ok_or (Msg ''not enough bytes for a 64 bit integer'')
     (map_option u64_from_le_bytes (get_range b offset (wadd offset 8)))"

definition get_u32 :: "bytes \<Rightarrow> usize \<Rightarrow> u32 res" where
  "get_u32 b offset = ok_or (Msg ''not enough bytes for a 32 bit integer'')
     (map_option u32_from_be_bytes (get_range b offset (wadd offset 4)))"

definition get_u16 :: "bytes \<Rightarrow> usize \<Rightarrow> u16 res" where
  "get_u16 b offset = ok_or (Msg ''not enough bytes for a 16 bit integer'')
     (map_option u16_from_be_bytes (get_range b offset (wadd offset 2)))"

definition get_u16_le :: "bytes \<Rightarrow> usize \<Rightarrow> u16 res" where
  "get_u16_le b offset = ok_or (Msg ''not enough bytes for a 16 bit integer'')
     (map_option u16_from_le_bytes (get_range b offset (wadd offset 2)))"

lemmas buffer_defs = get_hash_def with_offset_def get_u32_le_def get_u64_def get_u64_le_def
  get_u32_def get_u16_def get_u16_le_def

declare buffer_defs [wire_simps] get_range_def [wire_simps] get_from_def [wire_simps]
  get_at_def [wire_simps]

lemma map_option_case: "map_option f m = (case m of None \<Rightarrow> None | Some x \<Rightarrow> Some (f x))"
  by (cases m) simp_all

text \<open>A read that succeeds lies inside the buffer, also when the offset arithmetic wrapped.\<close>

lemma get_range_wadd_bound:
  assumes "get_range b off (wadd off n) = Some s" and "length b < 2 ^ 63" and "n < 2 ^ 63"
  shows "off + n \<le> length b"
proof -
  have le: "off \<le> wadd off n" "wadd off n \<le> length b" using assms(1) by (auto simp: get_range_Some)
  then have "off + n < 2 ^ 64" using assms(2,3) by simp
  then show ?thesis using le by simp
qed

lemma get_bounds:
  assumes "length b < 2 ^ 63"
  shows "get_hash b off = Ok h \<Longrightarrow> off + 32 \<le> length b"
    and "get_u32_le b off = Ok w4 \<Longrightarrow> off + 4 \<le> length b"
    and "get_u64_le b off = Ok w8 \<Longrightarrow> off + 8 \<le> length b"
    and "get_u16 b off = Ok w2 \<Longrightarrow> off + 2 \<le> length b"
    and "get_u16_le b off = Ok w2 \<Longrightarrow> off + 2 \<le> length b"
    and "with_offset b off = Ok r \<Longrightarrow> off \<le> length b \<and> r = drop off b"
  using get_range_wadd_bound [OF _ assms]
  by (force simp: buffer_defs ok_or_def get_from_def simp del: add_2_eq_Suc'
        split: option.splits if_splits)+

section \<open>Variable-length integers\<close>

type_synonym VarInt = u64

definition length_varint :: "VarInt \<Rightarrow> usize" where
  "length_varint v =
     (if v < 0xFD then 1 else if v < 0xFFFF then 3 else if v < 0xFFFFFFFF then 5 else 9)"

definition serialize_varint :: "VarInt \<Rightarrow> bytes \<times> usize" where
  "serialize_varint v =
     (if v < 0xFD then ([ucast v], 1)
      else if v < 0xFFFF then (0xFD # u16_to_le_bytes (ucast v), 3)
      else if v < 0xFFFFFFFF then (0xFE # u32_to_le_bytes (ucast v), 5)
      else (0xFF # u64_to_le_bytes v, 9))"

definition deserialize_varint :: "bytes \<Rightarrow> (VarInt \<times> usize) res" where
  "deserialize_varint buffer =
     (case buffer of
        [] \<Rightarrow> Err (Msg ''not enough bytes for varint'')
      | leader # _ \<Rightarrow>
          if leader < 0xFD then Ok (ucast leader, 1)
          else if leader = 0xFD then res_bind (get_u16_le buffer 1) (\<lambda>v. Ok (ucast v, 3))
          else if leader = 0xFE then res_bind (get_u32_le buffer 1) (\<lambda>v. Ok (ucast v, 5))
          else res_bind (get_u64_le buffer 1) (\<lambda>v. Ok (v, 9)))"

definition serialize_varint_into_slice :: "VarInt \<Rightarrow> bytes \<Rightarrow> (bytes \<times> usize) res" where
  "serialize_varint_into_slice v into =
     (if v < 0xFD then res_bind (put_slice_at into 0 [ucast v]) (\<lambda>s. Ok (s, 1))
      else if v < 0xFFFF then
        res_bind (put_slice_at into 0 [0xFD]) (\<lambda>s.
        res_bind (put_slice_at s 1 (u16_to_le_bytes (ucast v))) (\<lambda>s. Ok (s, 3)))
      else if v < 0xFFFFFFFF then
        res_bind (put_slice_at into 0 [0xFE]) (\<lambda>s.
        res_bind (put_slice_at s 1 (u32_to_le_bytes (ucast v))) (\<lambda>s. Ok (s, 5)))
      else
        res_bind (put_slice_at into 0 [0xFF]) (\<lambda>s.
        res_bind (put_slice_at s 1 (u64_to_le_bytes v)) (\<lambda>s. Ok (s, 9))))"

lemma serialize_varint_length [simp]:
  "snd (serialize_varint v) = length (fst (serialize_varint v))"
  "length (fst (serialize_varint v)) = length_varint v"
  by (simp_all add: serialize_varint_def length_varint_def)

lemma length_varint_bounds: "1 \<le> length_varint v \<and> length_varint v \<le> 9"
  by (simp add: length_varint_def)

lemma ucast_small:
  "unat (v :: u64) < 2 ^ 8 \<Longrightarrow> unat (ucast v :: u8) = unat v"
  "unat v < 2 ^ 16 \<Longrightarrow> unat (ucast v :: u16) = unat v"
  "unat v < 2 ^ 32 \<Longrightarrow> unat (ucast v :: u32) = unat v"
  by (simp_all add: unsigned_ucast_eq take_bit_nat_eq_self)

lemma ucast_back:
  "unat (v :: u64) < 2 ^ 8 \<Longrightarrow> (ucast (ucast v :: u8) :: u64) = v"
  "unat v < 2 ^ 16 \<Longrightarrow> (ucast (ucast v :: u16) :: u64) = v"
  "unat v < 2 ^ 32 \<Longrightarrow> (ucast (ucast v :: u32) :: u64) = v"
  by (rule unsigned_word_eqI [where 'a = nat], simp add: unsigned_ucast_eq unsigned_take_bit_eq take_bit_nat_eq_self)+

lemma deserialize_serialize_varint:
  "deserialize_varint (fst (serialize_varint v) @ rest) = Ok (v, length_varint v)"
proof -
  consider (one) "unat v < 0xFD" | (two) "0xFD \<le> unat v" "unat v < 0xFFFF"
    | (four) "0xFFFF \<le> unat v" "unat v < 0xFFFFFFFF" | (eight) "0xFFFFFFFF \<le> unat v"
    by linarith
  then show ?thesis
  proof cases
    case one
    then show ?thesis
      by (simp add: serialize_varint_def deserialize_varint_def length_varint_def
          word_less_nat_alt ucast_small ucast_back)
  next
    case two
    then show ?thesis
      by (simp add: serialize_varint_def deserialize_varint_def length_varint_def
          word_less_nat_alt ucast_back get_u16_le_def get_range_def)
  next
    case four
    then show ?thesis
      by (simp add: serialize_varint_def deserialize_varint_def length_varint_def
          word_less_nat_alt ucast_back get_u32_le_def get_range_def)
  next
    case eight
    then show ?thesis
      by (simp add: serialize_varint_def deserialize_varint_def length_varint_def
          word_less_nat_alt get_u64_le_def get_range_def)
  qed
qed

lemma deserialize_varint_bounds:
  assumes "deserialize_varint b = Ok (v, n)" and "length b < 2 ^ 63"
  shows "1 \<le> n \<and> n \<le> 9 \<and> n \<le> length b"
  using assms get_bounds(2,3,5) [OF assms(2), of 1]
  by (force simp: deserialize_varint_def res_bind_Ok_iff split: list.splits if_splits)

lemma deserialize_varint_no_panic [simp]: "deserialize_varint b \<noteq> Panic"
  by (auto simp: deserialize_varint_def buffer_defs ok_or_def res_bind_Panic_iff
      split: list.splits if_splits option.splits)

lemma put_first: "xs \<noteq> [] \<Longrightarrow> put_slice_at xs 0 [v] = Ok (v # tl xs)"
  by (cases xs) (simp_all add: put_slice_at_def)

lemma put_rest:
  "put_slice_at (v # xs) (Suc 0) w =
     (if length w \<le> length xs then Ok (v # w @ drop (length w) xs) else Panic)"
  by (simp add: put_slice_at_def)

lemma serialize_varint_into_slice_eq:
  "serialize_varint_into_slice v into =
     (if length_varint v \<le> length into
      then Ok (fst (serialize_varint v) @ drop (length_varint v) into, length_varint v)
      else Panic)"
proof (cases into)
  case Nil
  then show ?thesis
    by (simp add: serialize_varint_into_slice_def put_slice_at_def length_varint_def)
next
  case (Cons x xs)
  then show ?thesis
    by (simp add: serialize_varint_into_slice_def put_first put_rest length_varint_def
        serialize_varint_def)
qed

section \<open>Length-prefixed strings\<close>

definition length_varstr :: "bytes \<Rightarrow> usize" where
  "length_varstr v = length_varint (word_of_nat (length v)) + length v"

definition serialize_varstr :: "bytes \<Rightarrow> bytes \<times> usize" where
  "serialize_varstr v =
     (let (pre, starting) = serialize_varint (word_of_nat (length v))
      in (pre @ v, starting + length v))"

definition deserialize_varstr :: "bytes \<Rightarrow> (bytes \<times> usize) res" where
  "deserialize_varstr buffer =
     res_bind (deserialize_varint buffer) (\<lambda>(len, offset).
       if length buffer < wadd (unat len) offset then Err (Msg ''not enough data'')
       else res_bind (idx_range buffer offset (wadd offset (unat len))) (\<lambda>s.
            Ok (s, wadd offset (unat len))))"

fun skip_varstrs :: "nat \<Rightarrow> bytes \<Rightarrow> usize \<Rightarrow> usize res" where
  "skip_varstrs 0 buffer offset = Ok offset"
| "skip_varstrs (Suc n) buffer offset =
     res_bind (with_offset buffer offset) (\<lambda>b.
     res_bind (deserialize_varint b) (\<lambda>(varstr_length, consumed).
     skip_varstrs n buffer (wadd (wadd offset consumed) (unat varstr_length))))"

definition deserialize_array_of_varstr_as_varstr :: "bytes \<Rightarrow> (bytes \<times> usize) res" where
  "deserialize_array_of_varstr_as_varstr buffer =
     res_bind (deserialize_varint buffer) (\<lambda>(remaining_varstrs, offset).
     res_bind (skip_varstrs (unat remaining_varstrs) buffer offset) (\<lambda>offset.
       case get_range buffer 0 offset of
         Some r \<Rightarrow> Ok (r, offset)
       | None \<Rightarrow> Err (Msg ''not enough bytes'')))"

definition deserialize_array_of_varstr_as_varstr_owned :: "bytes \<Rightarrow> (bytes \<times> usize) res" where
  "deserialize_array_of_varstr_as_varstr_owned buffer =
     res_bind (deserialize_varint buffer) (\<lambda>(remaining_varstrs, offset).
     res_bind (skip_varstrs (unat remaining_varstrs) buffer offset) (\<lambda>offset.
       case get_range buffer 0 offset of
         Some r \<Rightarrow> Ok (r, offset)
       | None \<Rightarrow> Err (Msg ''not enough bytes'')))"

record VarStrIter =
  vi_offset :: usize
  vi_buffer :: bytes
  vi_remaining :: u64

definition deserialize_array_of_varsrs_iter :: "bytes \<Rightarrow> VarStrIter res" where
  "deserialize_array_of_varsrs_iter buffer =
     res_bind (deserialize_varint buffer) (\<lambda>(count, consumed).
       Ok \<lparr>vi_offset = consumed, vi_buffer = buffer, vi_remaining = count\<rparr>)"

text \<open>One call of \<open>Iterator::next\<close>; a panic inside \<open>deserialize_varstr\<close> passes through.\<close>

definition VarStrIter_next :: "VarStrIter \<Rightarrow> (bytes option \<times> VarStrIter) res" where
  "VarStrIter_next it =
     (if vi_remaining it = 0 then Ok (None, it)
      else case with_offset (vi_buffer it) (vi_offset it) of
        Ok v \<Rightarrow>
          (case deserialize_varstr v of
             Ok (result, consumed) \<Rightarrow>
               Ok (Some result, it\<lparr>vi_offset := wadd (vi_offset it) consumed,
                                   vi_remaining := vi_remaining it - 1\<rparr>)
           | Err e \<Rightarrow> Ok (None, it)
           | Panic \<Rightarrow> Panic)
      | Err e \<Rightarrow> Ok (None, it)
      | Panic \<Rightarrow> Panic)"

lemma unat_dec: "(w :: u64) \<noteq> 0 \<Longrightarrow> unat (w - 1) = unat w - 1"
  by (metis One_nat_def unat_minus_one)

lemma VarStrIter_next_remaining:
  "VarStrIter_next it = Ok (Some x, it') \<Longrightarrow> unat (vi_remaining it') < unat (vi_remaining it)"
  by (auto simp: VarStrIter_next_def unat_dec unat_gt_0 split: if_splits res.splits)


text \<open>Draining the iterator, as a \<open>for\<close> loop or \<open>Iterator::last\<close> does.\<close>

function VarStrIter_collect :: "VarStrIter \<Rightarrow> bytes list res" where
  "VarStrIter_collect it =
     res_bind (VarStrIter_next it) (\<lambda>(item, it').
       case item of
         None \<Rightarrow> Ok []
       | Some x \<Rightarrow> res_bind (VarStrIter_collect it') (\<lambda>xs. Ok (x # xs)))"
  by pat_completeness auto
termination
  by (relation "measure (\<lambda>it. unat (vi_remaining it))") (auto dest: VarStrIter_next_remaining)

declare VarStrIter_collect.simps [simp del]

subsection \<open>Strings: round trip, bounds and the one way to panic\<close>

lemma serialize_varstr_simps:
  "fst (serialize_varstr v) = fst (serialize_varint (word_of_nat (length v))) @ v"
  "snd (serialize_varstr v) = length_varstr v"
  by (simp_all add: serialize_varstr_def length_varstr_def case_prod_unfold Let_def)

lemma length_serialize_varstr: "length (fst (serialize_varstr v)) = length_varstr v"
  by (simp add: serialize_varstr_simps length_varstr_def)

lemma deserialize_serialize_varstr:
  assumes "length v < 2 ^ 63"
  shows "deserialize_varstr (fst (serialize_varstr v) @ rest) = Ok (v, length_varstr v)"
  using assms length_varint_bounds [of "word_of_nat (length v)"]
  by (simp add: deserialize_varstr_def serialize_varstr_simps deserialize_serialize_varint
      length_varstr_def idx_range_def get_range_def)

lemma deserialize_varstr_bounds:
  assumes "deserialize_varstr b = Ok (v, n)" and "length b < 2 ^ 63"
  shows "n \<le> length b \<and> 1 \<le> n \<and> length v < n"
proof -
  from assms(1) obtain len off where
    vi: "deserialize_varint b = Ok (len, off)" and
    r: "get_range b off (wadd off (unat len)) = Some v" and n: "n = wadd off (unat len)"
    by (auto simp: deserialize_varstr_def res_bind_Ok_iff idx_range_def opt_unwrap_def
        split: if_splits option.splits)
  from deserialize_varint_bounds [OF vi assms(2)] have "1 \<le> off" by simp
  with r n show ?thesis by (auto simp: get_range_Some)
qed

lemma deserialize_varstr_panic_iff:
  assumes "length b < 2 ^ 63"
  shows "deserialize_varstr b = Panic \<longleftrightarrow>
    (\<exists>len off. deserialize_varint b = Ok (len, off) \<and> 2 ^ 64 \<le> unat len + off)"
proof (cases "deserialize_varint b")
  case (Ok r)
  obtain len off where r: "r = (len, off)" by (cases r)
  note bounds = deserialize_varint_bounds [OF Ok [unfolded r] assms]
  have c: "wadd (unat len) off = wadd off (unat len)" by (simp add: wadd_def add.commute)
  have "wadd off (unat len) = off + unat len \<and> off + unat len < 2 ^ 64 \<or>
     wadd off (unat len) < off \<and> 2 ^ 64 \<le> off + unat len"
    using wadd_cases [of off "unat len"] bounds assms unat_u64_lt [of len] by auto
  then show ?thesis using Ok r bounds c
    by (auto simp: deserialize_varstr_def res_bind_Panic_iff idx_range_def get_range_def)
qed (auto simp: deserialize_varstr_def)

subsection \<open>Arrays of strings kept in their serialized form\<close>

text \<open>A stack of strings in the encoding that the two \<open>..._as_varstr\<close> functions scan over.\<close>

definition varstr_array :: "bytes list \<Rightarrow> bytes" where
  "varstr_array ws = fst (serialize_varint (word_of_nat (length ws))) @
     concat (map (\<lambda>w. fst (serialize_varstr w)) ws)"

lemma with_offset_mid [simp]: "with_offset (p @ s) (length p) = Ok s"
  by (simp add: with_offset_def get_from_def)

lemma with_offset_at: "off = length p \<Longrightarrow> with_offset (p @ s) off = Ok s"
  by simp

lemma skip_varstrs_concat:
  assumes "length (p @ concat (map (\<lambda>w. fst (serialize_varstr w)) ws) @ rest) < 2 ^ 63"
  shows "skip_varstrs (length ws) (p @ concat (map (\<lambda>w. fst (serialize_varstr w)) ws) @ rest)
      (length p) = Ok (length p + length (concat (map (\<lambda>w. fst (serialize_varstr w)) ws)))"
  using assms
proof (induction ws arbitrary: p)
  case Nil
  then show ?case by simp
next
  case (Cons w ws)
  let ?tail = "concat (map (\<lambda>w. fst (serialize_varstr w)) ws) @ rest"
  let ?n = "length_varint (word_of_nat (length w))"
  have IH: "skip_varstrs (length ws) ((p @ fst (serialize_varstr w)) @ ?tail)
      (length (p @ fst (serialize_varstr w))) =
    Ok (length (p @ fst (serialize_varstr w)) +
      length (concat (map (\<lambda>w. fst (serialize_varstr w)) ws)))"
    by (rule Cons.IH) (use Cons.prems in simp)
  have lw: "length p + ?n + length w < 2 ^ 63"
    using Cons.prems by (simp add: length_serialize_varstr length_varstr_def)
  then have "wadd (wadd (length p) ?n) (unat (word_of_nat (length w) :: u64)) =
      length (p @ fst (serialize_varstr w))"
    by (simp add: length_serialize_varstr length_varstr_def)
  with IH show ?case
    by (simp add: serialize_varstr_simps(1) deserialize_serialize_varint add.assoc)
qed

lemma varstr_array_scan:
  assumes "length (varstr_array ws @ rest) < 2 ^ 63" and "length ws < 2 ^ 63"
  shows "deserialize_array_of_varstr_as_varstr (varstr_array ws @ rest) =
    Ok (varstr_array ws, length (varstr_array ws))"
proof -
  let ?p = "fst (serialize_varint (word_of_nat (length ws)))"
  have "skip_varstrs (length ws) (varstr_array ws @ rest) (length ?p) =
      Ok (length (varstr_array ws))"
    using skip_varstrs_concat [of ?p ws rest] assms(1) by (simp add: varstr_array_def)
  moreover have "deserialize_varint (varstr_array ws @ rest) =
      Ok (word_of_nat (length ws), length ?p)"
    by (simp add: varstr_array_def deserialize_serialize_varint)
  ultimately show ?thesis
    using assms(2) by (simp add: deserialize_array_of_varstr_as_varstr_def get_range_def)
qed

lemma varstr_owned_eq:
  "deserialize_array_of_varstr_as_varstr_owned = deserialize_array_of_varstr_as_varstr"
  by (rule ext) (simp add: deserialize_array_of_varstr_as_varstr_owned_def
      deserialize_array_of_varstr_as_varstr_def)

lemma varstr_as_varstr_bounds:
  "deserialize_array_of_varstr_as_varstr b = Ok (w, n) \<Longrightarrow> n \<le> length b \<and> w = take n b"
  by (auto simp: deserialize_array_of_varstr_as_varstr_def res_bind_Ok_iff get_range_def
      split: option.splits if_splits)

lemma with_offset_no_panic [simp]: "with_offset b off \<noteq> Panic"
  by (auto simp: with_offset_def ok_or_def split: option.splits)

lemma skip_varstrs_no_panic [simp]: "skip_varstrs n b off \<noteq> Panic"
  by (induction n b off rule: skip_varstrs.induct)
    (auto simp: res_bind_Panic_iff split: prod.splits)

lemma collect_concat:
  assumes "length (p @ concat (map (\<lambda>w. fst (serialize_varstr w)) ws) @ rest) < 2 ^ 63"
    and "length ws < 2 ^ 63"
  shows "VarStrIter_collect \<lparr>vi_offset = length p,
      vi_buffer = p @ concat (map (\<lambda>w. fst (serialize_varstr w)) ws) @ rest,
      vi_remaining = word_of_nat (length ws)\<rparr> = Ok ws"
  using assms
proof (induction ws arbitrary: p)
  case Nil
  then show ?case by (subst VarStrIter_collect.simps) (simp add: VarStrIter_next_def)
next
  case (Cons w ws)
  let ?enc = "\<lambda>w. fst (serialize_varstr w)"
  let ?tail = "concat (map ?enc ws) @ rest"
  have IH: "VarStrIter_collect \<lparr>vi_offset = length (p @ ?enc w),
      vi_buffer = (p @ ?enc w) @ ?tail, vi_remaining = word_of_nat (length ws)\<rparr> = Ok ws"
    by (rule Cons.IH) (use Cons.prems in simp_all)
  have lw: "length w < 2 ^ 63" and lp: "length p + length_varstr w < 2 ^ 64"
    using Cons.prems by (simp_all add: length_serialize_varstr length_varstr_def)
  have "unat (word_of_nat (Suc (length ws)) :: u64) \<noteq> 0"
    using Cons.prems by (subst unat_u64_of_nat) simp_all
  then have nz: "(word_of_nat (Suc (length ws)) :: u64) \<noteq> 0" by (metis unat_0)
  have "deserialize_varstr (?enc w @ ?tail) = Ok (w, length_varstr w)"
    by (rule deserialize_serialize_varstr [OF lw])
  then have "VarStrIter_next \<lparr>vi_offset = length p, vi_buffer = p @ ?enc w @ ?tail,
      vi_remaining = word_of_nat (length (w # ws))\<rparr> =
    Ok (Some w, \<lparr>vi_offset = length (p @ ?enc w), vi_buffer = p @ ?enc w @ ?tail,
      vi_remaining = word_of_nat (length ws)\<rparr>)"
    using nz lp by (simp add: VarStrIter_next_def length_serialize_varstr)
  with IH show ?case by (subst VarStrIter_collect.simps) simp
qed

lemma varstr_array_iter:
  assumes "length (varstr_array ws) < 2 ^ 63" and "length ws < 2 ^ 63"
  shows "res_bind (deserialize_array_of_varsrs_iter (varstr_array ws)) VarStrIter_collect = Ok ws"
  using collect_concat [of "fst (serialize_varint (word_of_nat (length ws)))" ws "[]"] assms
  by (simp add: deserialize_array_of_varsrs_iter_def varstr_array_def deserialize_serialize_varint)

section \<open>Arrays of messages\<close>

type_synonym 'a decoder = "arena \<Rightarrow> bytes \<Rightarrow> ('a \<times> usize \<times> arena) res"

fun deserialize_items :: "'a decoder \<Rightarrow> nat \<Rightarrow> arena \<Rightarrow> bytes \<Rightarrow> usize \<Rightarrow> ('a list \<times> usize \<times> arena) res" where
  "deserialize_items d 0 a buffer offset = Ok ([], offset, a)"
| "deserialize_items d (Suc n) a buffer offset =
     res_bind (with_offset buffer offset) (\<lambda>b.
     res_bind (d a b) (\<lambda>(item, consumed, a').
     res_bind (deserialize_items d n a' buffer (wadd offset consumed)) (\<lambda>(items, offset', a'').
     Ok (item # items, offset', a''))))"

definition deserialize_array :: "usize \<times> usize \<Rightarrow> 'a decoder \<Rightarrow> 'a list decoder" where
  "deserialize_array lay d allocator buffer =
     res_bind (deserialize_varint buffer) (\<lambda>(count, offset).
     res_bind (try_alloc_array_fill_copy lay allocator (unat count) () []) (\<lambda>(_, _, a).
     deserialize_items d (unat count) a buffer offset))"

fun deserialize_items_owned ::
  "(bytes \<Rightarrow> ('a \<times> usize) res) \<Rightarrow> nat \<Rightarrow> bytes \<Rightarrow> usize \<Rightarrow> ('a list \<times> usize) res" where
  "deserialize_items_owned d 0 buffer offset = Ok ([], offset)"
| "deserialize_items_owned d (Suc n) buffer offset =
     res_bind (with_offset buffer offset) (\<lambda>b.
     res_bind (d b) (\<lambda>(item, consumed).
     res_bind (deserialize_items_owned d n buffer (wadd offset consumed)) (\<lambda>(items, offset').
     Ok (item # items, offset'))))"

text \<open>\<open>Vec::with_capacity\<close> panics when the byte size of the capacity exceeds \<open>isize::MAX\<close>.\<close>

definition deserialize_array_owned ::
  "usize \<Rightarrow> (bytes \<Rightarrow> ('a \<times> usize) res) \<Rightarrow> bytes \<Rightarrow> ('a list \<times> usize) res" where
  "deserialize_array_owned sz d buffer =
     res_bind (deserialize_varint buffer) (\<lambda>(count, offset).
     if 2 ^ 63 \<le> sz * unat count then Panic
     else deserialize_items_owned d (unat count) buffer offset)"

definition serialize_array :: "('a \<Rightarrow> bytes) \<Rightarrow> 'a list \<Rightarrow> bytes" where
  "serialize_array ser arr =
     fst (serialize_varint (word_of_nat (length arr))) @ concat (map ser arr)"

definition u64_deserialize_owned :: "bytes \<Rightarrow> (u64 \<times> usize) res" where
  "u64_deserialize_owned buffer = res_bind (get_u64_le buffer 0) (\<lambda>v. Ok (v, 8))"

section \<open>The contract of a message type\<close>

text \<open>
  \<open>ser\<close> and \<open>deser\<close> are the \<open>Serializable\<close> and \<open>DeserializableBorrowed\<close> implementations of a
  type, \<open>ok\<close> its representable values and \<open>need\<close> a bound on the arena bytes that decoding a
  value takes.  Decoding what was encoded returns the value, whatever follows it in the
  buffer, and a decoder never reports more bytes than the buffer has.
\<close>

locale codec =
  fixes ser :: "'a \<Rightarrow> bytes"
    and deser :: "'a decoder"
    and ok :: "'a \<Rightarrow> bool"
    and need :: "'a \<Rightarrow> nat"
  assumes decode_encode: "ok x \<Longrightarrow> arena_room a (need x) \<Longrightarrow> length (ser x @ rest) < 2 ^ 63 \<Longrightarrow>
      \<exists>a'. deser a (ser x @ rest) = Ok (x, length (ser x), a') \<and> arena_after a a' (need x)"
    and decode_consumes: "deser a b = Ok (x, n, a') \<Longrightarrow> length b < 2 ^ 63 \<Longrightarrow> n \<le> length b"
begin

lemma items_decode_encode:
  assumes "list_all ok xs" and "arena_room a (sum_list (map need xs))"
    and "length (p @ concat (map ser xs) @ rest) < 2 ^ 63"
  shows "\<exists>a'. deserialize_items deser (length xs) a (p @ concat (map ser xs) @ rest) (length p) =
      Ok (xs, length p + length (concat (map ser xs)), a') \<and>
    arena_after a a' (sum_list (map need xs))"
  using assms
proof (induction xs arbitrary: p a)
  case Nil
  then show ?case by (auto dest: arena_roomD)
next
  case (Cons x xs)
  let ?tail = "concat (map ser xs) @ rest"
  have "\<exists>a'. deser a (ser x @ ?tail) = Ok (x, length (ser x), a') \<and> arena_after a a' (need x)"
    by (rule decode_encode) (use Cons.prems in \<open>auto elim: arena_room_mono\<close>)
  then obtain a1 where one: "deser a (ser x @ ?tail) = Ok (x, length (ser x), a1)"
    and after1: "arena_after a a1 (need x)" by blast
  have room1: "arena_room a1 (sum_list (map need xs))"
    by (rule arena_room_after [OF _ after1]) (use Cons.prems in simp)
  have "\<exists>a'. deserialize_items deser (length xs) a1 ((p @ ser x) @ ?tail) (length (p @ ser x)) =
      Ok (xs, length (p @ ser x) + length (concat (map ser xs)), a') \<and>
    arena_after a1 a' (sum_list (map need xs))"
    by (rule Cons.IH) (use Cons.prems room1 in simp_all)
  then obtain a2 where two: "deserialize_items deser (length xs) a1 (p @ ser x @ ?tail)
      (length p + length (ser x)) = Ok (xs, length p + length (ser x) +
      length (concat (map ser xs)), a2)" and after2: "arena_after a1 a2 (sum_list (map need xs))"
    by auto
  have "wadd (length p) (length (ser x)) = length p + length (ser x)"
    using Cons.prems(3) by simp
  with one two have "deserialize_items deser (length (x # xs)) a
      (p @ concat (map ser (x # xs)) @ rest) (length p) =
    Ok (x # xs, length p + length (concat (map ser (x # xs))), a2)" by simp
  then show ?case using arena_after_trans [OF after1 after2] by auto
qed

lemma items_consumes:
  assumes "deserialize_items deser n a b off = Ok (xs, m, a')" and "length b < 2 ^ 63"
    and "off \<le> length b"
  shows "m \<le> length b"
  using assms
proof (induction n arbitrary: a off xs)
  case 0
  then show ?case by simp
next
  case (Suc n)
  from Suc.prems(1) obtain x c a1 ys where
    d: "deser a (drop off b) = Ok (x, c, a1)" and
    r: "deserialize_items deser n a1 b (wadd off c) = Ok (ys, m, a')"
    using Suc.prems(3) by (auto simp: res_bind_Ok_iff with_offset_def get_from_def)
  have "c \<le> length b - off" using decode_consumes [OF d] Suc.prems(2) by simp
  then have "wadd off c \<le> length b" using Suc.prems(3) wadd_le [of off c] by linarith
  then show ?case using Suc.IH [OF r] Suc.prems(2) by simp
qed

end

definition array_ok :: "('a \<Rightarrow> bool) \<Rightarrow> 'a list \<Rightarrow> bool" where
  "array_ok ok xs \<longleftrightarrow> list_all ok xs \<and> length xs < 2 ^ 63"

definition array_need :: "usize \<times> usize \<Rightarrow> ('a \<Rightarrow> nat) \<Rightarrow> 'a list \<Rightarrow> nat" where
  "array_need lay need xs = snd lay + fst lay * length xs + sum_list (map need xs)"

context codec
begin

lemma array_decode_encode:
  assumes "array_ok ok xs" and "arena_room a (array_need lay need xs)"
    and "length (serialize_array ser xs @ rest) < 2 ^ 63"
  shows "\<exists>a'. deserialize_array lay deser a (serialize_array ser xs @ rest) =
      Ok (xs, length (serialize_array ser xs), a') \<and> arena_after a a' (array_need lay need xs)"
proof -
  let ?p = "fst (serialize_varint (word_of_nat (length xs)))"
  have len: "length xs < 2 ^ 63" and oks: "list_all ok xs" using assms(1) by (auto simp: array_ok_def)
  have "arena_room a (snd lay + fst lay * length xs)"
    by (rule arena_room_mono [OF assms(2)]) (simp add: array_need_def)
  then obtain loc a1 where
    alloc: "try_alloc_array_fill_copy lay a (length xs) () [] = Ok (loc, replicate (length xs) (), a1)"
    and after1: "arena_after a a1 (snd lay + fst lay * length xs)"
    by (rule try_alloc_array_room)
  have "arena_room a1 (sum_list (map need xs))"
    by (rule arena_room_after [OF _ after1]) (use assms(2) in \<open>simp add: array_need_def\<close>)
  then obtain a2 where
    items: "deserialize_items deser (length xs) a1 (?p @ concat (map ser xs) @ rest) (length ?p) =
      Ok (xs, length ?p + length (concat (map ser xs)), a2)"
    and after2: "arena_after a1 a2 (sum_list (map need xs))"
    using items_decode_encode [OF oks, of a1 ?p rest] assms(3) by (auto simp: serialize_array_def)
  have "deserialize_array lay deser a (serialize_array ser xs @ rest) =
      Ok (xs, length (serialize_array ser xs), a2)"
    using len alloc items
    by (simp add: deserialize_array_def serialize_array_def deserialize_serialize_varint)
  then show ?thesis
    using arena_after_trans [OF after1 after2] by (auto simp: array_need_def)
qed

lemma array_consumes:
  assumes "deserialize_array lay deser a b = Ok (xs, n, a')" and "length b < 2 ^ 63"
  shows "n \<le> length b"
proof -
  from assms(1) obtain count off a1 where
    v: "deserialize_varint b = Ok (count, off)" and
    i: "deserialize_items deser (unat count) a1 b off = Ok (xs, n, a')"
    by (auto simp: deserialize_array_def res_bind_Ok_iff)
  show ?thesis
    by (rule items_consumes [OF i assms(2)]) (use deserialize_varint_bounds [OF v assms(2)] in simp)
qed

text \<open>An array of elements that obey the contract obeys it too.\<close>

lemma array_codec:
  "codec (serialize_array ser) (deserialize_array lay deser) (array_ok ok) (array_need lay need)"
  by unfold_locales (rule array_decode_encode array_consumes; assumption)+

text \<open>
  A struct around one such value, as most payloads are: \<open>mk\<close> builds the struct and \<open>sel\<close>
  selects the value.
\<close>

lemma wrapped_codec:
  assumes "\<And>y. mk (sel y) = y"
    and "\<And>y. ser' y = ser (sel y)"
    and "\<And>a b. deser' a b = res_bind (deser a b) (\<lambda>(x, n, a'). Ok (mk x, n, a'))"
  shows "codec ser' deser' (\<lambda>y. ok (sel y)) (\<lambda>y. need (sel y))"
proof
  fix y a rest
  assume "ok (sel y)" "arena_room a (need (sel y))" "length (ser' y @ rest) < 2 ^ 63"
  from decode_encode [OF this(1,2), of rest] this(3)
  show "\<exists>a'. deser' a (ser' y @ rest) = Ok (y, length (ser' y), a') \<and> arena_after a a' (need (sel y))"
    by (auto simp: assms)
next
  fix a b y n a'
  assume "deser' a b = Ok (y, n, a')" "length b < 2 ^ 63"
  then show "n \<le> length b" by (auto simp: assms res_bind_Ok_iff dest: decode_consumes)
qed

end

text \<open>The same contract for \<open>DeserializableOwned\<close>, which allocates on the heap.\<close>

locale owned_codec =
  fixes ser :: "'a \<Rightarrow> bytes"
    and deser :: "bytes \<Rightarrow> ('a \<times> usize) res"
    and ok :: "'a \<Rightarrow> bool"
  assumes owned_decode_encode:
    "ok x \<Longrightarrow> length (ser x @ rest) < 2 ^ 63 \<Longrightarrow> deser (ser x @ rest) = Ok (x, length (ser x))"
begin

lemma items_owned_decode_encode:
  assumes "list_all ok xs" and "length (p @ concat (map ser xs) @ rest) < 2 ^ 63"
  shows "deserialize_items_owned deser (length xs) (p @ concat (map ser xs) @ rest) (length p) =
    Ok (xs, length p + length (concat (map ser xs)))"
  using assms
proof (induction xs arbitrary: p)
  case Nil
  then show ?case by simp
next
  case (Cons x xs)
  let ?tail = "concat (map ser xs) @ rest"
  have one: "deser (ser x @ ?tail) = Ok (x, length (ser x))"
    by (rule owned_decode_encode) (use Cons.prems in simp_all)
  have "deserialize_items_owned deser (length xs) ((p @ ser x) @ ?tail) (length (p @ ser x)) =
      Ok (xs, length (p @ ser x) + length (concat (map ser xs)))"
    by (rule Cons.IH) (use Cons.prems in simp_all)
  moreover have "wadd (length p) (length (ser x)) = length p + length (ser x)"
    using Cons.prems(2) by simp
  ultimately show ?case using one by simp
qed

lemma array_owned_decode_encode:
  assumes "list_all ok xs" and "length xs < 2 ^ 63" and "sz * length xs < 2 ^ 63"
    and "length (serialize_array ser xs @ rest) < 2 ^ 63"
  shows "deserialize_array_owned sz deser (serialize_array ser xs @ rest) =
    Ok (xs, length (serialize_array ser xs))"
  using items_owned_decode_encode
      [OF assms(1), of "fst (serialize_varint (word_of_nat (length xs)))" rest] assms(2-4)
  by (simp add: deserialize_array_owned_def serialize_array_def deserialize_serialize_varint)

end

definition bytes_deserialize_borrowed :: "bytes decoder" where
  "bytes_deserialize_borrowed a buffer =
     res_bind (deserialize_varstr buffer) (\<lambda>(s, consumed). Ok (s, consumed, a))"

definition bytes_serialize :: "bytes \<Rightarrow> bytes" where
  "bytes_serialize v = fst (serialize_varstr v)"

definition bytes_deserialize_owned :: "bytes \<Rightarrow> (bytes \<times> usize) res" where
  "bytes_deserialize_owned buffer =
     res_bind (deserialize_varstr buffer) (\<lambda>(s, consumed). Ok (s, consumed))"

interpretation bytesc: codec bytes_serialize bytes_deserialize_borrowed "\<lambda>_. True" "\<lambda>_. 0"
proof unfold_locales
  fix x rest a
  assume "arena_room a 0" and "length (bytes_serialize x @ rest) < 2 ^ 63"
  then show "\<exists>a'. bytes_deserialize_borrowed a (bytes_serialize x @ rest) =
      Ok (x, length (bytes_serialize x), a') \<and> arena_after a a' 0"
    using deserialize_serialize_varstr [of x rest]
    by (auto simp: bytes_deserialize_borrowed_def bytes_serialize_def length_serialize_varstr
        length_varstr_def dest: arena_roomD)
qed (auto simp: bytes_deserialize_borrowed_def res_bind_Ok_iff dest: deserialize_varstr_bounds)

interpretation byteso: owned_codec bytes_serialize bytes_deserialize_owned "\<lambda>_. True"
  by unfold_locales
    (simp add: bytes_deserialize_owned_def bytes_serialize_def deserialize_serialize_varstr
      length_serialize_varstr length_varstr_def)

interpretation u64c: owned_codec u64_to_le_bytes u64_deserialize_owned "\<lambda>_. True"
  by unfold_locales (simp add: u64_deserialize_owned_def get_u64_le_def get_range_def)

end
