(* ===== verification/Messages.thy ===== *)
theory Messages
  imports Wire
begin

text \<open>
  The small messages of the protocol under \<open>src/src/packets/\<close>: network addresses
  (\<open>netaddr.rs\<close>, \<open>network_id.rs\<close>), inventory vectors (\<open>invvector.rs\<close>), and the payloads
  built from them (\<open>ping.rs\<close>, \<open>pong.rs\<close>, \<open>version.rs\<close>, \<open>addr.rs\<close>, \<open>addrv2.rs\<close>, \<open>inv.rs\<close>,
  \<open>getdata.rs\<close>, \<open>notfound.rs\<close>, \<open>getheaders.rs\<close> and the payloads without fields).

  A \<open>...Borrowed\<close> struct and its \<open>...Owned\<close> twin hold the same values and differ in who owns
  the memory; one record models both, and the \<open>From\<close> conversions copy it field by field.
  Each type is shown to satisfy the contract \<open>codec\<close>.  The layouts of the Rust types
  (size and alignment) are the argument \<open>L\<close> of the decoders that allocate.
\<close>

section \<open>Layouts and constants\<close>

datatype rust_type =
    TyInventoryVector | TyNetAddr | TyNetAddrV2 | TyBlockHeader | TyTx | TyTxIn | TyTxOut
  | TyHashRef | TySliceRef | TyVersion | TyVerAck | TyPing | TyPong | TySendAddrV2
  | TySendHeaders | TyBlock | TyAddr | TyAddrV2 | TyInv | TyHeaders | TyGetHeaders | TyNotFound
  | TySpendRef | TySpend | TyAddressAmend | TySerializedTx | TyBlockTxs | TyTxRef | TySpendEntry | TyAmendEntry

type_synonym layouts = "rust_type \<Rightarrow> usize \<times> usize"

definition EMPTY_HASH :: hash32 where
  "EMPTY_HASH = replicate 32 0"

definition EMPTY_ADDR :: bytes where
  "EMPTY_ADDR = replicate 16 0"

text \<open>The twelve bytes of a command literal such as \<open>*b"ping\0\0\0\0\0\0\0\0"\<close>.\<close>

definition command12 :: "string \<Rightarrow> bytes" where
  "command12 s = map of_char s @ replicate (12 - length s) 0"

section \<open>Network identifiers\<close>

datatype NetworkId = NetError | IPv4 | IPv6 | Onionv2 | Onionv3 | I2P | CJDNS | YggDrasil

fun NetworkId_to_u8 :: "NetworkId \<Rightarrow> u8" where
  "NetworkId_to_u8 NetError = 0"
| "NetworkId_to_u8 IPv4 = 1"
| "NetworkId_to_u8 IPv6 = 2"
| "NetworkId_to_u8 Onionv2 = 3"
| "NetworkId_to_u8 Onionv3 = 4"
| "NetworkId_to_u8 I2P = 5"
| "NetworkId_to_u8 CJDNS = 6"
| "NetworkId_to_u8 YggDrasil = 7"

definition NetworkId_from_u8 :: "u8 \<Rightarrow> NetworkId option" where
  "NetworkId_from_u8 b =
     (if b = 0 then Some NetError else if b = 1 then Some IPv4 else if b = 2 then Some IPv6
      else if b = 3 then Some Onionv2 else if b = 4 then Some Onionv3 else if b = 5 then Some I2P
      else if b = 6 then Some CJDNS else if b = 7 then Some YggDrasil else None)"

lemma NetworkId_round [simp]: "NetworkId_from_u8 (NetworkId_to_u8 n) = Some n"
  by (cases n) (simp_all add: NetworkId_from_u8_def)

section \<open>Network addresses\<close>

record NetAddrShort =
  nas_services :: u64
  nas_addr :: bytes
  nas_port :: u16

definition NetAddrShort_default :: NetAddrShort where
  "NetAddrShort_default = \<lparr>nas_services = 0, nas_addr = EMPTY_ADDR, nas_port = 0\<rparr>"

definition NetAddrShort_deserialize_borrowed :: "NetAddrShort decoder" where
  [codec_defs]: "NetAddrShort_deserialize_borrowed a buffer =
     (case get_range buffer 8 24 of
        Some b \<Rightarrow>
          res_bind (get_u64_le buffer 0) (\<lambda>services.
          res_bind (get_u16 buffer 24) (\<lambda>port.
          Ok (\<lparr>nas_services = services, nas_addr = b, nas_port = port\<rparr>, 26, a)))
      | None \<Rightarrow> Err (Msg ''not enough bytes for netaddrshort''))"

definition NetAddrShort_serialize :: "NetAddrShort \<Rightarrow> bytes" where
  [codec_defs]: "NetAddrShort_serialize x =
     u64_to_le_bytes (nas_services x) @ nas_addr x @ u16_to_be_bytes (nas_port x)"

definition NetAddrShortOwned_from :: "NetAddrShort \<Rightarrow> NetAddrShort" where
  "NetAddrShortOwned_from v =
     \<lparr>nas_services = nas_services v, nas_addr = nas_addr v, nas_port = nas_port v\<rparr>"

record NetAddr =
  na_services :: u64
  na_addr :: bytes
  na_time :: u32
  na_port :: u16

definition NetAddr_deserialize_borrowed :: "NetAddr decoder" where
  [codec_defs]: "NetAddr_deserialize_borrowed a buffer =
     (case get_range buffer 12 28 of
        Some address \<Rightarrow>
          res_bind (get_u32_le buffer 0) (\<lambda>time.
          res_bind (get_u64_le buffer 4) (\<lambda>services.
          res_bind (get_u16 buffer 28) (\<lambda>port.
          Ok (\<lparr>na_services = services, na_addr = address, na_time = time, na_port = port\<rparr>, 30, a))))
      | None \<Rightarrow> Err (Msg ''not enough bytes for netaddr''))"

definition NetAddr_serialize :: "NetAddr \<Rightarrow> bytes" where
  [codec_defs]: "NetAddr_serialize x =
     u32_to_le_bytes (na_time x) @ u64_to_le_bytes (na_services x) @ na_addr x @
     u16_to_be_bytes (na_port x)"

definition NetAddrOwned_from :: "NetAddr \<Rightarrow> NetAddr" where
  "NetAddrOwned_from v = \<lparr>na_services = na_services v, na_addr = na_addr v,
     na_time = na_time v, na_port = na_port v\<rparr>"

record NetAddrV2 =
  n2_address :: bytes
  n2_services :: VarInt
  n2_time :: u32
  n2_port :: u16
  n2_network_id :: NetworkId

definition NetAddrV2_deserialize_borrowed :: "NetAddrV2 decoder" where
  [codec_defs]: "NetAddrV2_deserialize_borrowed a buffer =
     res_bind (get_u32_le buffer 0) (\<lambda>time.
     res_bind (with_offset buffer 4) (\<lambda>b.
     res_bind (deserialize_varint b) (\<lambda>(services, offset).
     let offset = wadd offset 4 in
     res_bind (ok_or (Msg ''not enough bytes for netaddrv2'') (get_at buffer offset)) (\<lambda>raw_id.
     res_bind (ok_or (Msg ''invalid network_id'') (NetworkId_from_u8 raw_id)) (\<lambda>network_id.
     let offset = wadd offset 1 in
     res_bind (with_offset buffer offset) (\<lambda>b.
     res_bind (deserialize_varstr b) (\<lambda>(address, offset_delta).
     let offset = wadd offset offset_delta in
     res_bind (get_u16 buffer offset) (\<lambda>port.
     Ok (\<lparr>n2_address = address, n2_services = services, n2_time = time, n2_port = port,
          n2_network_id = network_id\<rparr>, wadd offset 2, a)))))))))"

definition NetAddrV2_serialize :: "NetAddrV2 \<Rightarrow> bytes" where
  [codec_defs]: "NetAddrV2_serialize x =
     u32_to_le_bytes (n2_time x) @ fst (serialize_varint (n2_services x)) @
     [NetworkId_to_u8 (n2_network_id x)] @ fst (serialize_varstr (n2_address x)) @
     u16_to_be_bytes (n2_port x)"

definition NetAddrV2Owned_from :: "NetAddrV2 \<Rightarrow> NetAddrV2" where
  "NetAddrV2Owned_from v = \<lparr>n2_address = n2_address v, n2_services = n2_services v,
     n2_time = n2_time v, n2_port = n2_port v, n2_network_id = n2_network_id v\<rparr>"

section \<open>Inventory vectors\<close>

datatype InventoryVectorType =
    InvError | InvTx | InvBlock | InvFilteredBlock | InvCmpctBlock
  | InvWitnessTx | InvWitnessBlock | InvFilteredWitnessBlock

fun InventoryVectorType_to_u32 :: "InventoryVectorType \<Rightarrow> u32" where
  "InventoryVectorType_to_u32 InvError = 0"
| "InventoryVectorType_to_u32 InvTx = 1"
| "InventoryVectorType_to_u32 InvBlock = 2"
| "InventoryVectorType_to_u32 InvFilteredBlock = 3"
| "InventoryVectorType_to_u32 InvCmpctBlock = 4"
| "InventoryVectorType_to_u32 InvWitnessTx = 0x40000001"
| "InventoryVectorType_to_u32 InvWitnessBlock = 0x40000002"
| "InventoryVectorType_to_u32 InvFilteredWitnessBlock = 0x40000003"

definition InventoryVectorType_from_u32 :: "u32 \<Rightarrow> InventoryVectorType option" where
  "InventoryVectorType_from_u32 w =
     (if w = 0 then Some InvError else if w = 1 then Some InvTx else if w = 2 then Some InvBlock
      else if w = 3 then Some InvFilteredBlock else if w = 4 then Some InvCmpctBlock
      else if w = 0x40000001 then Some InvWitnessTx
      else if w = 0x40000002 then Some InvWitnessBlock
      else if w = 0x40000003 then Some InvFilteredWitnessBlock else None)"

lemma InventoryVectorType_round [simp]:
  "InventoryVectorType_from_u32 (InventoryVectorType_to_u32 t) = Some t"
  by (cases t) (simp_all add: InventoryVectorType_from_u32_def)

record InventoryVector =
  iv_type :: InventoryVectorType
  iv_hash :: hash32

definition InventoryVector_default :: InventoryVector where
  "InventoryVector_default = \<lparr>iv_type = InvError, iv_hash = EMPTY_HASH\<rparr>"

definition InventoryVector_deserialize_borrowed :: "InventoryVector decoder" where
  [codec_defs]: "InventoryVector_deserialize_borrowed a buffer =
     res_bind (get_u32_le buffer 0) (\<lambda>raw_type.
     res_bind (ok_or (Msg ''unknown inventory type'') (InventoryVectorType_from_u32 raw_type))
       (\<lambda>inv_type.
     res_bind (get_hash buffer 4) (\<lambda>hash.
     Ok (\<lparr>iv_type = inv_type, iv_hash = hash\<rparr>, 36, a))))"

definition InventoryVector_serialize :: "InventoryVector \<Rightarrow> bytes" where
  [codec_defs]: "InventoryVector_serialize x =
     u32_to_le_bytes (InventoryVectorType_to_u32 (iv_type x)) @ iv_hash x"

definition InventoryVectorOwned_from :: "InventoryVector \<Rightarrow> InventoryVector" where
  "InventoryVectorOwned_from v = \<lparr>iv_type = iv_type v, iv_hash = iv_hash v\<rparr>"

lemma owned_from_id [simp]:
  "NetAddrShortOwned_from x1 = x1" "NetAddrOwned_from x2 = x2" "NetAddrV2Owned_from x3 = x3"
  "InventoryVectorOwned_from x4 = x4"
  by (simp_all add: NetAddrShortOwned_from_def NetAddrOwned_from_def NetAddrV2Owned_from_def
      InventoryVectorOwned_from_def)

section \<open>Contracts of the element types\<close>

definition NetAddrShort_ok :: "NetAddrShort \<Rightarrow> bool" where
  "NetAddrShort_ok x \<longleftrightarrow> length (nas_addr x) = 16"

definition NetAddr_ok :: "NetAddr \<Rightarrow> bool" where
  "NetAddr_ok x \<longleftrightarrow> length (na_addr x) = 16"

definition InventoryVector_ok :: "InventoryVector \<Rightarrow> bool" where
  "InventoryVector_ok x \<longleftrightarrow> length (iv_hash x) = 32"

interpretation netaddrshort: codec NetAddrShort_serialize NetAddrShort_deserialize_borrowed
  NetAddrShort_ok "\<lambda>_. 0"
  by unfold_locales
    (auto simp: codec_defs wire_simps NetAddrShort_ok_def res_bind_Ok_iff ok_or_def
      dest: arena_roomD split: option.splits if_splits)

interpretation netaddr: codec NetAddr_serialize NetAddr_deserialize_borrowed
  NetAddr_ok "\<lambda>_. 0"
  by unfold_locales
    (auto simp: codec_defs wire_simps NetAddr_ok_def res_bind_Ok_iff ok_or_def
      dest: arena_roomD split: option.splits if_splits)

interpretation invvector: codec InventoryVector_serialize InventoryVector_deserialize_borrowed
  InventoryVector_ok "\<lambda>_. 0"
  by unfold_locales
    (auto simp: codec_defs wire_simps InventoryVector_ok_def res_bind_Ok_iff ok_or_def
      dest: arena_roomD split: option.splits if_splits)


definition NetAddrV2_ok :: "NetAddrV2 \<Rightarrow> bool" where
  "NetAddrV2_ok x \<longleftrightarrow> length (n2_address x) < 2 ^ 62"

lemma NetAddrV2_decode_encode:
  assumes "NetAddrV2_ok x" and "arena_room a 0" and "length (NetAddrV2_serialize x @ rest) < 2 ^ 63"
  shows "NetAddrV2_deserialize_borrowed a (NetAddrV2_serialize x @ rest) =
    Ok (x, length (NetAddrV2_serialize x), a)"
  using assms length_varint_bounds [of "n2_services x"]
    length_varint_bounds [of "word_of_nat (length (n2_address x))"]
  by (simp add: NetAddrV2_ok_def codec_defs wire_simps deserialize_serialize_varint nth_append
      deserialize_serialize_varstr length_serialize_varstr length_varstr_def)

interpretation netaddrv2: codec NetAddrV2_serialize NetAddrV2_deserialize_borrowed
  NetAddrV2_ok "\<lambda>_. 0"
proof unfold_locales
  fix x rest a
  assume "NetAddrV2_ok x" "arena_room a 0" "length (NetAddrV2_serialize x @ rest) < 2 ^ 63"
  then show "\<exists>a'. NetAddrV2_deserialize_borrowed a (NetAddrV2_serialize x @ rest) =
      Ok (x, length (NetAddrV2_serialize x), a') \<and> arena_after a a' 0"
    using NetAddrV2_decode_encode by (auto dest: arena_roomD)
next
  fix a b x n a'
  assume d: "NetAddrV2_deserialize_borrowed a b = Ok (x, n, a')" and len: "length b < 2 ^ 63"
  from d obtain off w where "get_u16 b off = Ok w" and "n = wadd off 2"
    by (auto simp: NetAddrV2_deserialize_borrowed_def res_bind_Ok_iff Let_def)
  then show "n \<le> length b" using get_bounds(4) [OF len] wadd_le [of off 2] by fastforce
qed


section \<open>Payloads of fixed size\<close>

definition PING_COMMAND :: bytes where
  "PING_COMMAND = command12 ''ping''"
definition PONG_COMMAND :: bytes where
  "PONG_COMMAND = command12 ''pong''"
definition VERSION_COMMAND :: bytes where
  "VERSION_COMMAND = command12 ''version''"
definition VERACK_COMMAND :: bytes where
  "VERACK_COMMAND = command12 ''verack''"
definition GETADDR_COMMAND :: bytes where
  "GETADDR_COMMAND = command12 ''getaddr''"
definition SENDADDRV2_COMMAND :: bytes where
  "SENDADDRV2_COMMAND = command12 ''sendaddrv2''"
definition SENDHEADERS_COMMAND :: bytes where
  "SENDHEADERS_COMMAND = command12 ''sendheaders''"
definition ADDR_COMMAND :: bytes where
  "ADDR_COMMAND = command12 ''addr''"
definition ADDRV2_COMMAND :: bytes where
  "ADDRV2_COMMAND = command12 ''addrv2''"
definition INV_COMMAND :: bytes where
  "INV_COMMAND = command12 ''inv''"
definition GETDATA_COMMAND :: bytes where
  "GETDATA_COMMAND = command12 ''getdata''"
definition NOTFOUND_COMMAND :: bytes where
  "NOTFOUND_COMMAND = command12 ''notfound''"
definition GETHEADERS_COMMAND :: bytes where
  "GETHEADERS_COMMAND = command12 ''getheaders''"

record Ping =
  ping_nonce :: u64

definition Ping_deserialize_borrowed :: "Ping decoder" where
  [codec_defs]: "Ping_deserialize_borrowed a buffer =
     res_bind (get_u64_le buffer 0) (\<lambda>nonce. Ok (\<lparr>ping_nonce = nonce\<rparr>, 8, a))"

definition Ping_serialize :: "Ping \<Rightarrow> bytes" where
  [codec_defs]: "Ping_serialize x = u64_to_le_bytes (ping_nonce x)"

record Pong =
  pong_nonce :: u64

definition Pong_deserialize_borrowed :: "Pong decoder" where
  [codec_defs]: "Pong_deserialize_borrowed a buffer =
     res_bind (get_u64_le buffer 0) (\<lambda>nonce. Ok (\<lparr>pong_nonce = nonce\<rparr>, 8, a))"

definition Pong_serialize :: "Pong \<Rightarrow> bytes" where
  [codec_defs]: "Pong_serialize x = u64_to_le_bytes (pong_nonce x)"

text \<open>The payloads without fields: nothing is read and nothing is written.\<close>

definition VerAck_deserialize_borrowed :: "unit decoder" where
  [codec_defs]: "VerAck_deserialize_borrowed a buffer = Ok ((), 0, a)"

definition VerAck_serialize :: "unit \<Rightarrow> bytes" where
  [codec_defs]: "VerAck_serialize x = []"

definition GetAddr_deserialize_borrowed :: "unit decoder" where
  [codec_defs]: "GetAddr_deserialize_borrowed a buffer = Ok ((), 0, a)"

definition GetAddr_serialize :: "unit \<Rightarrow> bytes" where
  [codec_defs]: "GetAddr_serialize x = []"

definition SendAddrV2_deserialize_borrowed :: "unit decoder" where
  [codec_defs]: "SendAddrV2_deserialize_borrowed a buffer = Ok ((), 0, a)"

definition SendAddrV2_serialize :: "unit \<Rightarrow> bytes" where
  [codec_defs]: "SendAddrV2_serialize x = []"

definition SendHeaders_deserialize_borrowed :: "unit decoder" where
  [codec_defs]: "SendHeaders_deserialize_borrowed a buffer = Ok ((), 0, a)"

definition SendHeaders_serialize :: "unit \<Rightarrow> bytes" where
  [codec_defs]: "SendHeaders_serialize x = []"

interpretation ping: codec Ping_serialize Ping_deserialize_borrowed "\<lambda>_. True" "\<lambda>_. 0"
  by unfold_locales (auto simp: codec_defs wire_simps res_bind_Ok_iff ok_or_def
      dest: arena_roomD split: option.splits if_splits)

interpretation pong: codec Pong_serialize Pong_deserialize_borrowed "\<lambda>_. True" "\<lambda>_. 0"
  by unfold_locales (auto simp: codec_defs wire_simps res_bind_Ok_iff ok_or_def
      dest: arena_roomD split: option.splits if_splits)

interpretation verack: codec VerAck_serialize VerAck_deserialize_borrowed "\<lambda>_. True" "\<lambda>_. 0"
  by unfold_locales (auto simp: codec_defs dest: arena_roomD)

interpretation getaddr: codec GetAddr_serialize GetAddr_deserialize_borrowed "\<lambda>_. True" "\<lambda>_. 0"
  by unfold_locales (auto simp: codec_defs dest: arena_roomD)

interpretation sendaddrv2: codec SendAddrV2_serialize SendAddrV2_deserialize_borrowed
  "\<lambda>_. True" "\<lambda>_. 0"
  by unfold_locales (auto simp: codec_defs dest: arena_roomD)

interpretation sendheaders: codec SendHeaders_serialize SendHeaders_deserialize_borrowed
  "\<lambda>_. True" "\<lambda>_. 0"
  by unfold_locales (auto simp: codec_defs dest: arena_roomD)

section \<open>The version message\<close>

record Version =
  ver_services :: u64
  ver_timestamp :: u64
  ver_addrrecv :: NetAddrShort
  ver_addrfrom :: NetAddrShort
  ver_nonce :: u64
  ver_user_agent :: bytes
  ver_start_height :: u32
  ver_version :: u32
  ver_announce :: bool

text \<open>
  The relay flag keeps its default \<open>false\<close> when the peer's version is old or the last byte is
  missing.
\<close>

definition Version_deserialize_borrowed :: "Version decoder" where
  [codec_defs]: "Version_deserialize_borrowed a buffer =
     res_bind (get_u32_le buffer 0) (\<lambda>version.
     res_bind (get_u64_le buffer 4) (\<lambda>services.
     res_bind (get_u64_le buffer 12) (\<lambda>timestamp.
     res_bind (with_offset buffer 20) (\<lambda>b.
     res_bind (NetAddrShort_deserialize_borrowed a b) (\<lambda>(addrrecv, _, a).
     res_bind (with_offset buffer 46) (\<lambda>b.
     res_bind (NetAddrShort_deserialize_borrowed a b) (\<lambda>(addrfrom, _, a).
     res_bind (get_u64_le buffer 72) (\<lambda>nonce.
     res_bind (with_offset buffer 80) (\<lambda>b.
     res_bind (deserialize_varstr b) (\<lambda>(ua, offset).
     res_bind (get_u32_le buffer (wadd 80 offset)) (\<lambda>start_height.
     let v = \<lparr>ver_services = services, ver_timestamp = timestamp, ver_addrrecv = addrrecv,
           ver_addrfrom = addrfrom, ver_nonce = nonce, ver_user_agent = ua,
           ver_start_height = start_height, ver_version = version, ver_announce = False\<rparr> in
     if 70001 \<le> version then
       (case get_at buffer (wadd 84 offset) of
          Some b \<Rightarrow> Ok (v\<lparr>ver_announce := (b \<noteq> 0)\<rparr>, wadd offset 85, a)
        | None \<Rightarrow> Ok (v, wadd offset 84, a))
     else Ok (v, wadd offset 84, a))))))))))))"

definition Version_serialize :: "Version \<Rightarrow> bytes" where
  [codec_defs]: "Version_serialize x =
     u32_to_le_bytes (ver_version x) @ u64_to_le_bytes (ver_services x) @
     u64_to_le_bytes (ver_timestamp x) @ NetAddrShort_serialize (ver_addrrecv x) @
     NetAddrShort_serialize (ver_addrfrom x) @ u64_to_le_bytes (ver_nonce x) @
     fst (serialize_varstr (ver_user_agent x)) @ u32_to_le_bytes (ver_start_height x) @
     (if 70001 \<le> ver_version x then [if ver_announce x then 1 else 0] else [])"

definition VersionOwned_from :: "Version \<Rightarrow> Version" where
  "VersionOwned_from v = \<lparr>ver_services = ver_services v, ver_timestamp = ver_timestamp v,
     ver_addrrecv = NetAddrShortOwned_from (ver_addrrecv v),
     ver_addrfrom = NetAddrShortOwned_from (ver_addrfrom v), ver_nonce = ver_nonce v,
     ver_user_agent = ver_user_agent v, ver_start_height = ver_start_height v,
     ver_version = ver_version v, ver_announce = ver_announce v\<rparr>"

definition Version_ok :: "Version \<Rightarrow> bool" where
  "Version_ok x \<longleftrightarrow> NetAddrShort_ok (ver_addrrecv x) \<and> NetAddrShort_ok (ver_addrfrom x) \<and>
     length (ver_user_agent x) < 2 ^ 62 \<and> (ver_announce x \<longrightarrow> 70001 \<le> ver_version x)"

lemma Version_decode_encode:
  assumes "Version_ok x" and "length (Version_serialize x @ rest) < 2 ^ 63"
  shows "Version_deserialize_borrowed a (Version_serialize x @ rest) =
    Ok (x, length (Version_serialize x), a)"
  using assms length_varint_bounds [of "word_of_nat (length (ver_user_agent x))"]
  by (auto simp: Version_ok_def NetAddrShort_ok_def codec_defs wire_simps nth_append Let_def
      deserialize_serialize_varstr length_serialize_varstr length_varstr_def)

interpretation version: codec Version_serialize Version_deserialize_borrowed Version_ok "\<lambda>_. 0"
proof unfold_locales
  fix x rest a
  assume "Version_ok x" "arena_room a 0" "length (Version_serialize x @ rest) < 2 ^ 63"
  then show "\<exists>a'. Version_deserialize_borrowed a (Version_serialize x @ rest) =
      Ok (x, length (Version_serialize x), a') \<and> arena_after a a' 0"
    using Version_decode_encode by (auto dest: arena_roomD)
next
  fix a b x n a'
  assume d: "Version_deserialize_borrowed a b = Ok (x, n, a')" and len: "length b < 2 ^ 63"
  from d obtain off ua w where ua: "with_offset b 80 = Ok (drop 80 b)" "80 \<le> length b"
      "deserialize_varstr (drop 80 b) = Ok (ua, off)"
    and w: "get_u32_le b (wadd 80 off) = Ok w"
    and n: "n = wadd off 84 \<or> n = wadd off 85 \<and> wadd 84 off < length b"
    by (auto simp: Version_deserialize_borrowed_def res_bind_Ok_iff Let_def get_at_def
        with_offset_def get_from_def ok_or_def split: if_splits option.splits)
  have "off \<le> length b - 80" using deserialize_varstr_bounds [OF ua(3)] len by simp
  then have "wadd 80 off = 80 + off" "wadd 84 off = 84 + off" using len ua(2) by simp_all
  then show "n \<le> length b"
    using n get_bounds(2) [OF len w] wadd_le [of off 84] wadd_le [of off 85] by linarith
qed


section \<open>Payloads that are one array\<close>

record Addr =
  addr_inner :: "NetAddr list"

definition Addr_deserialize_borrowed :: "layouts \<Rightarrow> Addr decoder" where
  "Addr_deserialize_borrowed L a buffer =
     res_bind (deserialize_array (L TyNetAddr) NetAddr_deserialize_borrowed a buffer)
       (\<lambda>(deserialized, consumed, a). Ok (\<lparr>addr_inner = deserialized\<rparr>, consumed, a))"

definition Addr_serialize :: "Addr \<Rightarrow> bytes" where
  "Addr_serialize x = serialize_array NetAddr_serialize (addr_inner x)"

definition AddrOwned_from :: "Addr \<Rightarrow> Addr" where
  "AddrOwned_from v = \<lparr>addr_inner = map NetAddrOwned_from (addr_inner v)\<rparr>"

record AddrV2 =
  addrv2_inner :: "NetAddrV2 list"

definition AddrV2_deserialize_borrowed :: "layouts \<Rightarrow> AddrV2 decoder" where
  "AddrV2_deserialize_borrowed L a buffer =
     res_bind (deserialize_array (L TyNetAddrV2) NetAddrV2_deserialize_borrowed a buffer)
       (\<lambda>(deserialized, consumed, a). Ok (\<lparr>addrv2_inner = deserialized\<rparr>, consumed, a))"

definition AddrV2_serialize :: "AddrV2 \<Rightarrow> bytes" where
  "AddrV2_serialize x = serialize_array NetAddrV2_serialize (addrv2_inner x)"

definition AddrV2Owned_from :: "AddrV2 \<Rightarrow> AddrV2" where
  "AddrV2Owned_from v = \<lparr>addrv2_inner = map NetAddrV2Owned_from (addrv2_inner v)\<rparr>"

record Inv =
  inv_inner :: "InventoryVector list"

definition Inv_deserialize_borrowed :: "layouts \<Rightarrow> Inv decoder" where
  "Inv_deserialize_borrowed L a buffer =
     res_bind (deserialize_array (L TyInventoryVector) InventoryVector_deserialize_borrowed a buffer)
       (\<lambda>(deserialized, consumed, a). Ok (\<lparr>inv_inner = deserialized\<rparr>, consumed, a))"

definition Inv_serialize :: "Inv \<Rightarrow> bytes" where
  "Inv_serialize x = serialize_array InventoryVector_serialize (inv_inner x)"

definition InvOwned_from :: "Inv \<Rightarrow> Inv" where
  "InvOwned_from v = \<lparr>inv_inner = map InventoryVectorOwned_from (inv_inner v)\<rparr>"

record GetData =
  getdata_inner :: "InventoryVector list"

definition GetData_deserialize_borrowed :: "layouts \<Rightarrow> GetData decoder" where
  "GetData_deserialize_borrowed L a buffer =
     res_bind (deserialize_array (L TyInventoryVector) InventoryVector_deserialize_borrowed a buffer)
       (\<lambda>(deserialized, consumed, a). Ok (\<lparr>getdata_inner = deserialized\<rparr>, consumed, a))"

definition GetData_serialize :: "GetData \<Rightarrow> bytes" where
  "GetData_serialize x = serialize_array InventoryVector_serialize (getdata_inner x)"

definition GetDataOwned_from :: "GetData \<Rightarrow> GetData" where
  "GetDataOwned_from v = \<lparr>getdata_inner = map InventoryVectorOwned_from (getdata_inner v)\<rparr>"

record NotFound =
  notfound_inner :: "InventoryVector list"

definition NotFound_deserialize_borrowed :: "layouts \<Rightarrow> NotFound decoder" where
  "NotFound_deserialize_borrowed L a buffer =
     res_bind (deserialize_array (L TyInventoryVector) InventoryVector_deserialize_borrowed a buffer)
       (\<lambda>(deserialized, consumed, a). Ok (\<lparr>notfound_inner = deserialized\<rparr>, consumed, a))"

definition NotFound_serialize :: "NotFound \<Rightarrow> bytes" where
  "NotFound_serialize x = serialize_array InventoryVector_serialize (notfound_inner x)"

definition NotFoundOwned_from :: "NotFound \<Rightarrow> NotFound" where
  "NotFoundOwned_from v = \<lparr>notfound_inner = map InventoryVectorOwned_from (notfound_inner v)\<rparr>"

interpretation addr: codec Addr_serialize "Addr_deserialize_borrowed L"
  "\<lambda>x. array_ok NetAddr_ok (addr_inner x)"
  "\<lambda>x. array_need (L TyNetAddr) (\<lambda>_. 0) (addr_inner x)" for L
  by (rule codec.wrapped_codec [OF netaddr.array_codec, where mk = "\<lambda>xs. \<lparr>addr_inner = xs\<rparr>"])
    (simp_all add: Addr_serialize_def Addr_deserialize_borrowed_def)

interpretation addrv2: codec AddrV2_serialize "AddrV2_deserialize_borrowed L"
  "\<lambda>x. array_ok NetAddrV2_ok (addrv2_inner x)"
  "\<lambda>x. array_need (L TyNetAddrV2) (\<lambda>_. 0) (addrv2_inner x)" for L
  by (rule codec.wrapped_codec [OF netaddrv2.array_codec, where mk = "\<lambda>xs. \<lparr>addrv2_inner = xs\<rparr>"])
    (simp_all add: AddrV2_serialize_def AddrV2_deserialize_borrowed_def)

interpretation inv: codec Inv_serialize "Inv_deserialize_borrowed L"
  "\<lambda>x. array_ok InventoryVector_ok (inv_inner x)"
  "\<lambda>x. array_need (L TyInventoryVector) (\<lambda>_. 0) (inv_inner x)" for L
  by (rule codec.wrapped_codec [OF invvector.array_codec, where mk = "\<lambda>xs. \<lparr>inv_inner = xs\<rparr>"])
    (simp_all add: Inv_serialize_def Inv_deserialize_borrowed_def)

interpretation getdata: codec GetData_serialize "GetData_deserialize_borrowed L"
  "\<lambda>x. array_ok InventoryVector_ok (getdata_inner x)"
  "\<lambda>x. array_need (L TyInventoryVector) (\<lambda>_. 0) (getdata_inner x)" for L
  by (rule codec.wrapped_codec [OF invvector.array_codec, where mk = "\<lambda>xs. \<lparr>getdata_inner = xs\<rparr>"])
    (simp_all add: GetData_serialize_def GetData_deserialize_borrowed_def)

interpretation notfound: codec NotFound_serialize "NotFound_deserialize_borrowed L"
  "\<lambda>x. array_ok InventoryVector_ok (notfound_inner x)"
  "\<lambda>x. array_need (L TyInventoryVector) (\<lambda>_. 0) (notfound_inner x)" for L
  by (rule codec.wrapped_codec [OF invvector.array_codec, where mk = "\<lambda>xs. \<lparr>notfound_inner = xs\<rparr>"])
    (simp_all add: NotFound_serialize_def NotFound_deserialize_borrowed_def)

section \<open>Requests for headers\<close>

record GetHeaders =
  gh_version :: u32
  gh_block_locator :: "hash32 list"
  gh_hash_stop :: hash32

definition GetHeaders_default :: GetHeaders where
  "GetHeaders_default = \<lparr>gh_version = 0, gh_block_locator = [], gh_hash_stop = EMPTY_HASH\<rparr>"

fun read_locator :: "nat \<Rightarrow> bytes \<Rightarrow> usize \<Rightarrow> hash32 arena_array \<Rightarrow> (hash32 arena_array \<times> usize) res" where
  "read_locator 0 buffer offset block_locator = Ok (block_locator, offset)"
| "read_locator (Suc n) buffer offset block_locator =
     res_bind (get_hash buffer offset) (\<lambda>hash.
     res_bind (ArenaArray_push block_locator hash) (\<lambda>block_locator.
     read_locator n buffer (wadd offset 32) block_locator))"

definition GetHeaders_deserialize_borrowed :: "layouts \<Rightarrow> GetHeaders decoder" where
  "GetHeaders_deserialize_borrowed L allocator buffer =
     res_bind (get_u32_le buffer 0) (\<lambda>version.
     res_bind (with_offset buffer 4) (\<lambda>b.
     res_bind (deserialize_varint b) (\<lambda>(len, offset).
     let offset = wadd offset 4 in
     res_bind (try_alloc_arenaarray (L TyHashRef) allocator (unat len) []) (\<lambda>(block_locator, a).
     res_bind (read_locator (unat len) buffer offset block_locator) (\<lambda>(block_locator, offset).
     res_bind (get_hash buffer offset) (\<lambda>hash_stop.
     Ok (\<lparr>gh_version = version, gh_block_locator = into_arena_array block_locator,
          gh_hash_stop = hash_stop\<rparr>, wadd offset 32, a)))))))"

definition GetHeaders_serialize :: "GetHeaders \<Rightarrow> bytes" where
  "GetHeaders_serialize x =
     u32_to_le_bytes (gh_version x) @
     fst (serialize_varint (word_of_nat (length (gh_block_locator x)))) @
     concat (gh_block_locator x) @ gh_hash_stop x"

definition GetHeadersOwned_from :: "GetHeaders \<Rightarrow> GetHeaders" where
  "GetHeadersOwned_from v = \<lparr>gh_version = gh_version v,
     gh_block_locator = map (\<lambda>h. h) (gh_block_locator v), gh_hash_stop = gh_hash_stop v\<rparr>"

definition GetHeaders_ok :: "GetHeaders \<Rightarrow> bool" where
  "GetHeaders_ok x \<longleftrightarrow> list_all (\<lambda>h. length h = 32) (gh_block_locator x) \<and>
     length (gh_hash_stop x) = 32"

definition GetHeaders_need :: "layouts \<Rightarrow> GetHeaders \<Rightarrow> nat" where
  "GetHeaders_need L x = snd (L TyHashRef) + fst (L TyHashRef) * length (gh_block_locator x)"

lemma owned_from_id_payloads [simp]:
  "VersionOwned_from x1 = x1" "AddrOwned_from x2 = x2" "AddrV2Owned_from x3 = x3"
  "InvOwned_from x4 = x4" "GetDataOwned_from x5 = x5" "NotFoundOwned_from x6 = x6"
  "GetHeadersOwned_from x7 = x7"
  by (simp_all add: VersionOwned_from_def AddrOwned_from_def AddrV2Owned_from_def InvOwned_from_def
      GetDataOwned_from_def NotFoundOwned_from_def GetHeadersOwned_from_def map_idI)

lemma get_hash_mid: "length h = 32 \<Longrightarrow> length p + 32 < 2 ^ 64 \<Longrightarrow> get_hash (p @ h @ r) (length p) = Ok h"
  by (simp add: get_hash_def get_range_def)

lemma read_locator_hashes:
  assumes "list_all (\<lambda>h. length h = 32) hs" and "length (p @ concat hs @ rest) < 2 ^ 63"
    and "length (aa_items aa) + length hs \<le> aa_cap aa"
  shows "read_locator (length hs) (p @ concat hs @ rest) (length p) aa =
    Ok (aa\<lparr>aa_items := aa_items aa @ hs\<rparr>, length p + 32 * length hs)"
  using assms
proof (induction hs arbitrary: p aa)
  case Nil
  then show ?case by simp
next
  case (Cons h hs)
  have g: "get_hash (p @ h @ concat hs @ rest) (length p) = Ok h"
    by (rule get_hash_mid) (use Cons.prems in simp_all)
  have "read_locator (length hs) ((p @ h) @ concat hs @ rest) (length (p @ h))
      (aa\<lparr>aa_items := aa_items aa @ [h]\<rparr>) =
    Ok (aa\<lparr>aa_items := aa_items aa @ [h] @ hs\<rparr>, length (p @ h) + 32 * length hs)"
    using Cons.prems by (subst Cons.IH) simp_all
  then show ?case using g Cons.prems by (simp add: ArenaArray_push_def)
qed

lemma concat_hashes_length: "list_all (\<lambda>h. length h = 32) hs \<Longrightarrow> length (concat hs) = 32 * length hs"
  by (induction hs) simp_all

lemma GetHeaders_decode_encode:
  assumes "GetHeaders_ok x" and "arena_room a (GetHeaders_need L x)"
    and "length (GetHeaders_serialize x @ rest) < 2 ^ 63"
  shows "\<exists>a'. GetHeaders_deserialize_borrowed L a (GetHeaders_serialize x @ rest) =
    Ok (x, length (GetHeaders_serialize x), a') \<and> arena_after a a' (GetHeaders_need L x)"
proof -
  let ?hs = "gh_block_locator x"
  let ?vi = "fst (serialize_varint (word_of_nat (length ?hs)))"
  let ?p = "u32_to_le_bytes (gh_version x) @ ?vi"
  have hs: "list_all (\<lambda>h. length h = 32) ?hs" and stop: "length (gh_hash_stop x) = 32"
    using assms(1) by (simp_all add: GetHeaders_ok_def)
  have total: "length ?p + 32 * length ?hs + 32 + length rest < 2 ^ 63"
    using assms(3) by (simp add: GetHeaders_serialize_def concat_hashes_length [OF hs] stop)
  obtain a' where al: "try_alloc_arenaarray (L TyHashRef) a (length ?hs) [] =
      Ok (ArenaArray_from_raw_parts (length ?hs) :: hash32 arena_array, a')"
    and after: "arena_after a a' (GetHeaders_need L x)"
    using try_alloc_arenaarray_room [of a "L TyHashRef" "length ?hs"] assms(2)
    unfolding GetHeaders_need_def by blast
  have loop: "read_locator (length ?hs) (?p @ concat ?hs @ gh_hash_stop x @ rest) (length ?p)
      (ArenaArray_from_raw_parts (length ?hs)) =
    Ok (\<lparr>aa_items = ?hs, aa_cap = length ?hs\<rparr>, length ?p + 32 * length ?hs)"
    using total by (subst read_locator_hashes [OF hs])
      (simp_all add: ArenaArray_from_raw_parts_def stop concat_hashes_length [OF hs])
  have last: "get_hash ((?p @ concat ?hs) @ gh_hash_stop x @ rest) (length (?p @ concat ?hs)) =
      Ok (gh_hash_stop x)"
    by (rule get_hash_mid [OF stop]) (use total in \<open>simp add: concat_hashes_length [OF hs]\<close>)
  show ?thesis
    using al after loop last total
    by (simp add: GetHeaders_deserialize_borrowed_def GetHeaders_serialize_def
        get_u32_le_def get_range_def with_offset_def get_from_def deserialize_serialize_varint
        concat_hashes_length [OF hs] stop into_arena_array_def ac_simps)
qed

interpretation getheaders: codec GetHeaders_serialize "GetHeaders_deserialize_borrowed L"
  GetHeaders_ok "GetHeaders_need L" for L
proof
  fix a b x n a'
  assume d: "GetHeaders_deserialize_borrowed L a b = Ok (x, n, a')" and len: "length b < 2 ^ 63"
  from d obtain off w where "get_hash b off = Ok w" and "n = wadd off 32"
    by (auto simp: GetHeaders_deserialize_borrowed_def res_bind_Ok_iff Let_def)
  then show "n \<le> length b" using get_bounds(1) [OF len] wadd_le [of off 32] by fastforce
qed (rule GetHeaders_decode_encode)

end
