(* ===== verification/TxCodec.thy ===== *)
theory TxCodec
  imports Messages
begin

text \<open>
  Transactions (\<open>src/src/packets/tx.rs\<close>): decoding from the wire with the two transaction
  identifiers computed on the way, encoding, and the split storage form that keeps the outputs
  apart (\<open>serialize_without_txouts\<close>, \<open>deserialize_without_txouts\<close>, \<open>flat_serialize\<close>).

  \<open>TxBorrowed\<close> and \<open>TxOwned\<close>, and their inputs and outputs, are one record each; the enums
  \<open>TxRef\<close>, \<open>TxInRef\<close> and \<open>TxOutRef\<close>, which select the one or the other, disappear with them.
  \<open>Sha256\<close> is the parameter \<open>sha\<close>: \<open>digest\<close> of the concatenation of what \<open>update\<close> was given.
\<close>

section \<open>Inputs\<close>

record TxIn =
  ti_prevout_hash :: hash32
  ti_prevout_index :: u32
  ti_sequence :: u32
  ti_sig_script :: bytes

definition TxIn_deserialize_borrowed :: "TxIn decoder" where
  [codec_defs]: "TxIn_deserialize_borrowed a buffer =
     res_bind (get_hash buffer 0) (\<lambda>prevout_hash.
     res_bind (get_u32_le buffer 32) (\<lambda>prevout_index.
     res_bind (with_offset buffer 36) (\<lambda>b.
     res_bind (deserialize_varstr b) (\<lambda>(script, offset).
     res_bind (get_u32_le buffer (wadd offset 36)) (\<lambda>sequence.
     Ok (\<lparr>ti_prevout_hash = prevout_hash, ti_prevout_index = prevout_index,
          ti_sequence = sequence, ti_sig_script = script\<rparr>, wadd offset 40, a))))))"

definition TxIn_deserialize_owned :: "bytes \<Rightarrow> (TxIn \<times> usize) res" where
  [codec_defs]: "TxIn_deserialize_owned buffer =
     res_bind (get_hash buffer 0) (\<lambda>hash.
     res_bind (get_u32_le buffer 32) (\<lambda>index.
     res_bind (with_offset buffer 36) (\<lambda>b.
     res_bind (deserialize_varstr b) (\<lambda>(script, offset).
     res_bind (get_u32_le buffer (wadd offset 36)) (\<lambda>sequence.
     Ok (\<lparr>ti_prevout_hash = hash, ti_prevout_index = index,
          ti_sequence = sequence, ti_sig_script = script\<rparr>, wadd offset 40))))))"

definition TxIn_serialize :: "TxIn \<Rightarrow> bytes" where
  [codec_defs]: "TxIn_serialize x =
     ti_prevout_hash x @ u32_to_le_bytes (ti_prevout_index x) @
     fst (serialize_varstr (ti_sig_script x)) @ u32_to_le_bytes (ti_sequence x)"

definition TxInOwned_from :: "TxIn \<Rightarrow> TxIn" where
  "TxInOwned_from v = \<lparr>ti_prevout_hash = ti_prevout_hash v, ti_prevout_index = ti_prevout_index v,
     ti_sequence = ti_sequence v, ti_sig_script = ti_sig_script v\<rparr>"

definition TxIn_is_empty :: "TxIn \<Rightarrow> bool" where
  "TxIn_is_empty x \<longleftrightarrow> ti_prevout_hash x = EMPTY_HASH \<and> ti_prevout_index x = 0xFFFFFFFF"

definition TxIn_ok :: "TxIn \<Rightarrow> bool" where
  "TxIn_ok x \<longleftrightarrow> length (ti_prevout_hash x) = 32 \<and> length (ti_sig_script x) < 2 ^ 62"

section \<open>Outputs\<close>

record TxOut =
  to_value :: u64
  to_script :: bytes

definition TxOut_deserialize_borrowed :: "TxOut decoder" where
  [codec_defs]: "TxOut_deserialize_borrowed a buffer =
     res_bind (get_u64_le buffer 0) (\<lambda>v.
     res_bind (with_offset buffer 8) (\<lambda>b.
     res_bind (deserialize_varstr b) (\<lambda>(script, offset).
     Ok (\<lparr>to_value = v, to_script = script\<rparr>, wadd offset 8, a))))"

definition TxOut_deserialize_owned :: "bytes \<Rightarrow> (TxOut \<times> usize) res" where
  [codec_defs]: "TxOut_deserialize_owned buffer =
     res_bind (get_u64_le buffer 0) (\<lambda>v.
     res_bind (with_offset buffer 8) (\<lambda>b.
     res_bind (deserialize_varstr b) (\<lambda>(script, offset).
     Ok (\<lparr>to_value = v, to_script = script\<rparr>, wadd offset 8))))"

definition TxOut_serialize :: "TxOut \<Rightarrow> bytes" where
  [codec_defs]: "TxOut_serialize x =
     u64_to_le_bytes (to_value x) @ fst (serialize_varstr (to_script x))"

definition TxOutOwned_from :: "TxOut \<Rightarrow> TxOut" where
  "TxOutOwned_from v = \<lparr>to_value = to_value v, to_script = to_script v\<rparr>"

definition TxOut_serialized_length :: "TxOut \<Rightarrow> usize" where
  "TxOut_serialized_length x =
     (let s = to_script x in 8 + length_varint (word_of_nat (length s)) + length s)"

definition flat_serialize :: "TxOut \<Rightarrow> bytes \<Rightarrow> (bytes \<times> usize) res" where
  "flat_serialize x sl =
     res_bind (put_slice_at sl 0 (u64_to_le_bytes (to_value x))) (\<lambda>sl.
     let script = to_script x in
     res_bind (serialize_varint_into_slice (word_of_nat (length script)) (drop 8 sl))
       (\<lambda>(rest, n).
     let sl = take 8 sl @ rest; start_of_script = 8 + n in
     res_bind (put_slice_at sl start_of_script script) (\<lambda>sl.
     Ok (sl, start_of_script + length script))))"

definition TxOut_ok :: "TxOut \<Rightarrow> bool" where
  "TxOut_ok x \<longleftrightarrow> length (to_script x) < 2 ^ 62"

section \<open>Transactions\<close>

record Tx =
  tx_version :: u32
  tx_locktime :: u32
  tx_txins :: "TxIn list"
  tx_txouts :: "TxOut list"
  tx_witness_data :: "bytes list option"
  tx_hash :: hash32
  tx_witness_hash :: hash32

definition TX_COMMAND :: bytes where
  "TX_COMMAND = command12 ''tx''"

fun read_witnesses ::
  "nat \<Rightarrow> bytes \<Rightarrow> usize \<Rightarrow> bytes arena_array \<Rightarrow> (bytes arena_array \<times> usize) res" where
  "read_witnesses 0 buffer offset wits = Ok (wits, offset)"
| "read_witnesses (Suc n) buffer offset wits =
     res_bind (with_offset buffer offset) (\<lambda>b.
     res_bind (deserialize_array_of_varstr_as_varstr b) (\<lambda>(components, offset_delta).
     let offset = wadd offset offset_delta in
     res_bind (ArenaArray_push wits components) (\<lambda>wits.
     read_witnesses n buffer offset wits)))"

text \<open>\<open>iter().map(|txin| txin.len() == 1).reduce(&&).unwrap()\<close>: a panic for no element.\<close>

definition all_txins_empty :: "bytes list \<Rightarrow> bool res" where
  "all_txins_empty ws =
     (case map (\<lambda>txin. length txin = 1) ws of
        [] \<Rightarrow> Panic | b # bs \<Rightarrow> Ok (foldl (\<and>) b bs))"

definition has_witness_marker :: "bytes \<Rightarrow> bool res" where
  "has_witness_marker buffer =
     (case get_range buffer 4 6 of
        Some v \<Rightarrow> Ok (v = [0x00, 0x01]) | None \<Rightarrow> Err (Msg ''not enough data''))"

definition Tx_deserialize_borrowed :: "(bytes \<Rightarrow> bytes) \<Rightarrow> layouts \<Rightarrow> Tx decoder" where
  "Tx_deserialize_borrowed sha L allocator buffer =
     res_bind (get_u32_le buffer 0) (\<lambda>version.
     res_bind (has_witness_marker buffer) (\<lambda>has_witness_data.
     let offset = (if has_witness_data then 6 else 4) in
     res_bind (with_offset buffer offset) (\<lambda>b.
     res_bind (deserialize_array (L TyTxIn) TxIn_deserialize_borrowed allocator b)
       (\<lambda>(txins, offset_delta, a).
     let offset = wadd offset offset_delta in
     if txins = [] then Err (Msg ''0 txins'') else
     res_bind (with_offset buffer offset) (\<lambda>b.
     res_bind (deserialize_array (L TyTxOut) TxOut_deserialize_borrowed a b)
       (\<lambda>(txouts, offset_delta, a).
     let offset = wadd offset offset_delta in
     res_bind (if has_witness_data
               then res_bind (try_alloc_arenaarray (L TySliceRef) a (length txins) []) (\<lambda>(wits, a).
                    res_bind (read_witnesses (length txins) buffer offset wits) (\<lambda>(wits, offset').
                    Ok (Some (into_arena_array wits), offset, offset', a)))
               else Ok (None, 0, offset, a)) (\<lambda>(witnesses, witnesses_start, offset, a).
     let witnesses_end = offset in
     res_bind (get_u32_le buffer offset) (\<lambda>locktime.
     res_bind (if has_witness_data
               then res_bind (opt_unwrap (get_range buffer 0 4)) (\<lambda>x.
                    res_bind (opt_unwrap (get_range buffer 6 witnesses_start)) (\<lambda>y.
                    res_bind (opt_unwrap (get_range buffer witnesses_end (wadd witnesses_end 4))) (\<lambda>z.
                    Ok (sha (x @ y @ z)))))
               else res_bind (opt_unwrap (get_range buffer 0 (wadd offset 4))) (\<lambda>x. Ok (sha x)))
       (\<lambda>first_pass.
     let hash = sha first_pass in
     res_bind (case witnesses of
                 Some ws \<Rightarrow>
                   res_bind (all_txins_empty ws) (\<lambda>empty.
                   if empty then Ok hash
                   else res_bind (opt_unwrap (get_range buffer 0 (wadd offset 4))) (\<lambda>x.
                        Ok (sha (sha x))))
               | None \<Rightarrow> Ok hash) (\<lambda>witness_hash.
     Ok (\<lparr>tx_version = version, tx_locktime = locktime, tx_txins = txins, tx_txouts = txouts,
          tx_witness_data = witnesses, tx_hash = hash, tx_witness_hash = witness_hash\<rparr>,
         wadd offset 4, a)))))))))))"

definition Tx_serialize :: "Tx \<Rightarrow> bytes" where
  "Tx_serialize x =
     u32_to_le_bytes (tx_version x) @
     (if tx_witness_data x \<noteq> None then u16_to_be_bytes 0x0001 else []) @
     serialize_array TxIn_serialize (tx_txins x) @
     serialize_array TxOut_serialize (tx_txouts x) @
     (case tx_witness_data x of Some witnesses \<Rightarrow> concat witnesses | None \<Rightarrow> []) @
     u32_to_le_bytes (tx_locktime x)"

definition TxOwned_from :: "Tx \<Rightarrow> Tx" where
  "TxOwned_from v = \<lparr>tx_version = tx_version v, tx_locktime = tx_locktime v,
     tx_txins = map TxInOwned_from (tx_txins v), tx_txouts = map TxOutOwned_from (tx_txouts v),
     tx_witness_data = map_option (map (\<lambda>w. w)) (tx_witness_data v),
     tx_hash = tx_hash v, tx_witness_hash = tx_witness_hash v\<rparr>"

fun read_witnesses_owned :: "nat \<Rightarrow> bytes \<Rightarrow> usize \<Rightarrow> (bytes list \<times> usize) res" where
  "read_witnesses_owned 0 buffer offset = Ok ([], offset)"
| "read_witnesses_owned (Suc n) buffer offset =
     res_bind (with_offset buffer offset) (\<lambda>b.
     res_bind (deserialize_array_of_varstr_as_varstr_owned b) (\<lambda>(components, offset_delta).
     res_bind (read_witnesses_owned n buffer (wadd offset offset_delta)) (\<lambda>(wits, offset').
     Ok (components # wits, offset'))))"

text \<open>\<open>sz\<close> is the size of \<open>TxInOwned\<close>, for the reservation of the vector.\<close>

definition deserialize_without_txouts :: "usize \<Rightarrow> bytes \<Rightarrow> hash32 \<Rightarrow> (Tx \<times> usize) res" where
  "deserialize_without_txouts sz buffer hash =
     res_bind (get_u32_le buffer 0) (\<lambda>version.
     res_bind (has_witness_marker buffer) (\<lambda>has_witness_data.
     let offset = (if has_witness_data then 6 else 4) in
     res_bind (with_offset buffer offset) (\<lambda>b.
     res_bind (deserialize_array_owned sz TxIn_deserialize_owned b) (\<lambda>(txins, offset_delta).
     let offset = wadd offset offset_delta in
     if txins = [] then Err (Msg ''0 txins'') else
     res_bind (if has_witness_data
               then res_bind (read_witnesses_owned (length txins) buffer offset)
                      (\<lambda>(wits, offset). Ok (Some wits, offset))
               else Ok (None, offset)) (\<lambda>(witnesses, offset).
     res_bind (get_u32_le buffer offset) (\<lambda>locktime.
     Ok (\<lparr>tx_version = version, tx_locktime = locktime, tx_txins = txins, tx_txouts = [],
          tx_witness_data = witnesses, tx_hash = hash, tx_witness_hash = EMPTY_HASH\<rparr>,
         wadd offset 4)))))))"

definition compute_witness_hash :: "(bytes \<Rightarrow> bytes) \<Rightarrow> Tx \<Rightarrow> Tx res" where
  "compute_witness_hash sha x =
     (case tx_witness_data x of
        Some ws \<Rightarrow>
          res_bind (all_txins_empty ws) (\<lambda>empty.
          if empty then Ok (x\<lparr>tx_witness_hash := tx_hash x\<rparr>)
          else Ok (x\<lparr>tx_witness_hash := sha (sha (Tx_serialize x))\<rparr>))
      | None \<Rightarrow> Ok (x\<lparr>tx_witness_hash := tx_hash x\<rparr>))"

definition is_coinbase :: "Tx \<Rightarrow> bool" where
  "is_coinbase x =
     (case tx_txins x of
        [] \<Rightarrow> False
      | [txin] \<Rightarrow> TxIn_is_empty txin
      | _ \<Rightarrow> False)"

definition serialized_without_txouts_size :: "Tx \<Rightarrow> usize" where
  "serialized_without_txouts_size x =
     4 + (if tx_witness_data x \<noteq> None then 2 else 0) +
     length_varint (word_of_nat (length (tx_txins x))) +
     sum_list (map (\<lambda>txin. 40 + length_varint (word_of_nat (length (ti_sig_script txin))) +
        length (ti_sig_script txin)) (tx_txins x)) +
     (case tx_witness_data x of
        Some witnesses \<Rightarrow> sum_list (map length witnesses) | None \<Rightarrow> 0) + 4"

definition serialize_without_txouts :: "Tx \<Rightarrow> bytes" where
  "serialize_without_txouts x =
     u32_to_le_bytes (tx_version x) @
     (if tx_witness_data x \<noteq> None then u16_to_be_bytes 0x0001 else []) @
     fst (serialize_varint (word_of_nat (length (tx_txins x)))) @
     concat (map TxIn_serialize (tx_txins x)) @
     (case tx_witness_data x of Some witnesses \<Rightarrow> concat witnesses | None \<Rightarrow> []) @
     u32_to_le_bytes (tx_locktime x)"

section \<open>Contracts of inputs and outputs\<close>

interpretation txin: codec TxIn_serialize TxIn_deserialize_borrowed TxIn_ok "\<lambda>_. 0"
proof unfold_locales
  fix x rest a
  assume "TxIn_ok x" "arena_room a 0" "length (TxIn_serialize x @ rest) < 2 ^ 63"
  then show "\<exists>a'. TxIn_deserialize_borrowed a (TxIn_serialize x @ rest) =
      Ok (x, length (TxIn_serialize x), a') \<and> arena_after a a' 0"
    using length_varint_bounds [of "word_of_nat (length (ti_sig_script x))"]
    by (auto simp: TxIn_ok_def codec_defs wire_simps deserialize_serialize_varstr
        length_serialize_varstr length_varstr_def dest: arena_roomD)
next
  fix a b x n a'
  assume d: "TxIn_deserialize_borrowed a b = Ok (x, n, a')" and len: "length b < 2 ^ 63"
  from d obtain off w s where s: "deserialize_varstr (drop 36 b) = Ok (s, off)" "36 \<le> length b"
    and w: "get_u32_le b (wadd off 36) = Ok w" and n: "n = wadd off 40"
    by (auto simp: TxIn_deserialize_borrowed_def res_bind_Ok_iff with_offset_def get_from_def
        ok_or_def split: option.splits if_splits)
  have "off \<le> length b - 36" using deserialize_varstr_bounds [OF s(1)] len by simp
  then have "wadd off 36 = off + 36" using len s(2) by simp
  then show "n \<le> length b" using get_bounds(2) [OF len w] n wadd_le [of off 40] by linarith
qed

interpretation txino: owned_codec TxIn_serialize TxIn_deserialize_owned TxIn_ok
proof unfold_locales
  fix x rest
  assume "TxIn_ok x" "length (TxIn_serialize x @ rest) < 2 ^ 63"
  then show "TxIn_deserialize_owned (TxIn_serialize x @ rest) = Ok (x, length (TxIn_serialize x))"
    using length_varint_bounds [of "word_of_nat (length (ti_sig_script x))"]
    by (auto simp: TxIn_ok_def codec_defs wire_simps deserialize_serialize_varstr
        length_serialize_varstr length_varstr_def)
qed

interpretation txout: codec TxOut_serialize TxOut_deserialize_borrowed TxOut_ok "\<lambda>_. 0"
proof unfold_locales
  fix x rest a
  assume "TxOut_ok x" "arena_room a 0" "length (TxOut_serialize x @ rest) < 2 ^ 63"
  then show "\<exists>a'. TxOut_deserialize_borrowed a (TxOut_serialize x @ rest) =
      Ok (x, length (TxOut_serialize x), a') \<and> arena_after a a' 0"
    using length_varint_bounds [of "word_of_nat (length (to_script x))"]
    by (auto simp: TxOut_ok_def codec_defs wire_simps deserialize_serialize_varstr
        length_serialize_varstr length_varstr_def dest: arena_roomD)
next
  fix a b x n a'
  assume d: "TxOut_deserialize_borrowed a b = Ok (x, n, a')" and len: "length b < 2 ^ 63"
  from d obtain off s where s: "deserialize_varstr (drop 8 b) = Ok (s, off)" "8 \<le> length b"
    and n: "n = wadd off 8"
    by (auto simp: TxOut_deserialize_borrowed_def res_bind_Ok_iff with_offset_def get_from_def
        ok_or_def split: option.splits if_splits)
  have "off \<le> length b - 8" using deserialize_varstr_bounds [OF s(1)] len by simp
  then show "n \<le> length b" using n s(2) wadd_le [of off 8] by linarith
qed

interpretation txouto: owned_codec TxOut_serialize TxOut_deserialize_owned TxOut_ok
proof unfold_locales
  fix x rest
  assume "TxOut_ok x" "length (TxOut_serialize x @ rest) < 2 ^ 63"
  then show "TxOut_deserialize_owned (TxOut_serialize x @ rest) = Ok (x, length (TxOut_serialize x))"
    using length_varint_bounds [of "word_of_nat (length (to_script x))"]
    by (auto simp: TxOut_ok_def codec_defs wire_simps deserialize_serialize_varstr
        length_serialize_varstr length_varstr_def)
qed

lemma length_TxOut_serialize [simp]: "length (TxOut_serialize x) = TxOut_serialized_length x"
  by (simp add: TxOut_serialize_def TxOut_serialized_length_def Let_def length_serialize_varstr
      length_varstr_def)

lemma flat_serialize_eq:
  "flat_serialize x sl =
     (if TxOut_serialized_length x \<le> length sl
      then Ok (TxOut_serialize x @ drop (TxOut_serialized_length x) sl, TxOut_serialized_length x)
      else Panic)"
  by (auto simp: flat_serialize_def TxOut_serialized_length_def TxOut_serialize_def Let_def
      put_slice_at_def serialize_varint_into_slice_eq serialize_varstr_simps ac_simps)

lemma owned_from_id_tx [simp]: "TxInOwned_from x1 = x1" "TxOutOwned_from x2 = x2" "TxOwned_from x3 = x3"
proof -
  show i: "TxInOwned_from x1 = x1" for x1 by (simp add: TxInOwned_from_def)
  show oo: "TxOutOwned_from x2 = x2" for x2 by (simp add: TxOutOwned_from_def)
  show "TxOwned_from x3 = x3" by (simp add: TxOwned_from_def map_idI option.map_ident i oo)
qed

section \<open>Contract of transactions\<close>

text \<open>The specification of the two identifiers.\<close>

definition tx_legacy :: "Tx \<Rightarrow> bytes" where
  "tx_legacy x = u32_to_le_bytes (tx_version x) @ serialize_array TxIn_serialize (tx_txins x) @
     serialize_array TxOut_serialize (tx_txouts x) @ u32_to_le_bytes (tx_locktime x)"

definition txid :: "(bytes \<Rightarrow> bytes) \<Rightarrow> Tx \<Rightarrow> hash32" where
  "txid sha x = sha (sha (tx_legacy x))"

definition wtxid :: "(bytes \<Rightarrow> bytes) \<Rightarrow> Tx \<Rightarrow> hash32" where
  "wtxid sha x =
     (case tx_witness_data x of
        None \<Rightarrow> txid sha x
      | Some ws \<Rightarrow> if list_all (\<lambda>w. length w = 1) ws then txid sha x
                   else sha (sha (Tx_serialize x)))"

definition witness_ok :: "bytes \<Rightarrow> bool" where
  "witness_ok w \<longleftrightarrow> (\<exists>ws. w = varstr_array ws \<and> length ws < 2 ^ 63)"

definition witnesses_ok :: "Tx \<Rightarrow> bool" where
  "witnesses_ok x =
     (case tx_witness_data x of
        None \<Rightarrow> True
      | Some ws \<Rightarrow> length ws = length (tx_txins x) \<and> list_all witness_ok ws)"

definition Tx_ok :: "(bytes \<Rightarrow> bytes) \<Rightarrow> Tx \<Rightarrow> bool" where
  "Tx_ok sha x \<longleftrightarrow> tx_txins x \<noteq> [] \<and> array_ok TxIn_ok (tx_txins x) \<and>
     array_ok TxOut_ok (tx_txouts x) \<and> witnesses_ok x \<and>
     tx_hash x = txid sha x \<and> tx_witness_hash x = wtxid sha x"

definition Tx_need :: "layouts \<Rightarrow> Tx \<Rightarrow> nat" where
  "Tx_need L x = array_need (L TyTxIn) (\<lambda>_. 0) (tx_txins x) +
     (array_need (L TyTxOut) (\<lambda>_. 0) (tx_txouts x) +
      (if tx_witness_data x = None then 0
       else snd (L TySliceRef) + fst (L TySliceRef) * length (tx_txins x)))"

lemma read_witnesses_concat:
  assumes "list_all witness_ok ws" and "length (p @ concat ws @ rest) < 2 ^ 63"
    and "length (aa_items aa) + length ws \<le> aa_cap aa"
  shows "read_witnesses (length ws) (p @ concat ws @ rest) (length p) aa =
    Ok (aa\<lparr>aa_items := aa_items aa @ ws\<rparr>, length p + length (concat ws))"
  using assms
proof (induction ws arbitrary: p aa)
  case Nil
  then show ?case by simp
next
  case (Cons w ws)
  have w: "deserialize_array_of_varstr_as_varstr (w @ concat ws @ rest) = Ok (w, length w)"
    using Cons.prems varstr_array_scan by (auto simp: witness_ok_def)
  have "read_witnesses (length ws) ((p @ w) @ concat ws @ rest) (length (p @ w))
      (aa\<lparr>aa_items := aa_items aa @ [w]\<rparr>) =
    Ok (aa\<lparr>aa_items := aa_items aa @ [w] @ ws\<rparr>, length (p @ w) + length (concat ws))"
    using Cons.prems by (subst Cons.IH) simp_all
  then show ?case using w Cons.prems by (simp add: ArenaArray_push_def)
qed

lemma read_witnesses_owned_concat:
  assumes "list_all witness_ok ws" and "length (p @ concat ws @ rest) < 2 ^ 63"
  shows "read_witnesses_owned (length ws) (p @ concat ws @ rest) (length p) =
    Ok (ws, length p + length (concat ws))"
  using assms
proof (induction ws arbitrary: p)
  case Nil
  then show ?case by simp
next
  case (Cons w ws)
  have w: "deserialize_array_of_varstr_as_varstr (w @ concat ws @ rest) = Ok (w, length w)"
    using Cons.prems varstr_array_scan by (auto simp: witness_ok_def)
  have "read_witnesses_owned (length ws) ((p @ w) @ concat ws @ rest) (length (p @ w)) =
    Ok (ws, length (p @ w) + length (concat ws))"
    using Cons.prems by (subst Cons.IH) simp_all
  then show ?case using w Cons.prems by (simp add: varstr_owned_eq)
qed

lemma all_txins_empty_eq: "ws \<noteq> [] \<Longrightarrow> all_txins_empty ws = Ok (list_all (\<lambda>w. length w = 1) ws)"
proof -
  have "foldl (\<and>) b bs = (b \<and> list_all id bs)" for b bs
    by (induction bs arbitrary: b) auto
  then show "ws \<noteq> [] \<Longrightarrow> ?thesis"
    by (cases ws) (simp_all add: all_txins_empty_def list.pred_map comp_def)
qed

lemma get_u32_le_mid: "length p + 4 < 2 ^ 64 \<Longrightarrow> get_u32_le (p @ u32_to_le_bytes w @ r) (length p) = Ok w"
  by (simp add: get_u32_le_def get_range_def)

text \<open>The number of inputs of a transaction without witnesses is never read as the marker.\<close>

lemma varint_head_nonzero:
  assumes "0 < n" "n < 2 ^ 63"
  shows "\<exists>b bs. fst (serialize_varint (word_of_nat n)) = b # bs \<and> b \<noteq> 0"
proof -
  let ?v = "word_of_nat n :: u64"
  have u: "unat ?v = n" using assms by simp
  show ?thesis
  proof (cases "n < 0xFD")
    case True
    then have "unat (ucast ?v :: u8) = n" using ucast_small(1) [of ?v] u by simp
    then have "(ucast ?v :: u8) \<noteq> 0" using assms(1) by auto
    then show ?thesis using True u by (simp add: serialize_varint_def word_less_nat_alt)
  qed (simp add: serialize_varint_def word_less_nat_alt u)
qed

lemma marker_absent:
  assumes "txins \<noteq> []" "length txins < 2 ^ 63" "length V = 4"
  shows "has_witness_marker (V @ serialize_array ser txins @ T @ u32_to_le_bytes w @ rest) = Ok False"
proof -
  obtain b bs where b: "fst (serialize_varint (word_of_nat (length txins))) = b # bs" "b \<noteq> 0"
    using varint_head_nonzero [of "length txins"] assms(1,2) by auto
  let ?r = "bs @ concat (map ser txins) @ T @ u32_to_le_bytes w @ rest"
  have "get_range (V @ b # ?r) 4 6 = Some (b # take 1 ?r)"
    using assms(3) by (simp add: get_range_def)
  then show ?thesis using b by (simp add: has_witness_marker_def serialize_array_def)
qed

lemma marker_bytes: "u16_to_be_bytes 0x0001 = [0x00, 0x01]"
  by (simp add: u16_to_be_bytes_def numeral_2_eq_2)

lemma marker_present: "length V = 4 \<Longrightarrow> has_witness_marker (V @ u16_to_be_bytes 0x0001 @ rest) = Ok True"
  unfolding marker_bytes by (simp add: has_witness_marker_def get_range_def)

text \<open>The inputs and outputs between the prefix \<open>P\<close> (version and marker) and what follows.\<close>

lemma Tx_decode_body:
  fixes L :: layouts and x :: Tx and P R :: bytes
  defines "I \<equiv> serialize_array TxIn_serialize (tx_txins x)"
    and "Q \<equiv> serialize_array TxOut_serialize (tx_txouts x)"
  assumes ok: "Tx_ok sha x" and room: "arena_room a (Tx_need L x)"
    and len: "length (P @ I @ Q @ R) < 2 ^ 63"
  shows "\<exists>a1 a2. with_offset (P @ I @ Q @ R) (length P) = Ok (I @ Q @ R) \<and>
    deserialize_array (L TyTxIn) TxIn_deserialize_borrowed a (I @ Q @ R) =
      Ok (tx_txins x, length I, a1) \<and>
    wadd (length P) (length I) = length P + length I \<and>
    with_offset (P @ I @ Q @ R) (length P + length I) = Ok (Q @ R) \<and>
    deserialize_array (L TyTxOut) TxOut_deserialize_borrowed a1 (Q @ R) =
      Ok (tx_txouts x, length Q, a2) \<and>
    wadd (length P + length I) (length Q) = length P + length I + length Q \<and>
    arena_room a2 (if tx_witness_data x = None then 0
       else snd (L TySliceRef) + fst (L TySliceRef) * length (tx_txins x)) \<and>
    arena_after a a2 (array_need (L TyTxIn) (\<lambda>_. 0) (tx_txins x) +
      array_need (L TyTxOut) (\<lambda>_. 0) (tx_txouts x))"
proof -
  have ne: "array_ok TxIn_ok (tx_txins x)" "array_ok TxOut_ok (tx_txouts x)"
    using ok by (simp_all add: Tx_ok_def)
  have room0: "arena_room a (array_need (L TyTxIn) (\<lambda>_. 0) (tx_txins x))"
    by (rule arena_room_mono [OF room]) (simp add: Tx_need_def)
  obtain a1 where ins: "deserialize_array (L TyTxIn) TxIn_deserialize_borrowed a (I @ Q @ R) =
      Ok (tx_txins x, length I, a1)"
    and after1: "arena_after a a1 (array_need (L TyTxIn) (\<lambda>_. 0) (tx_txins x))"
    using txin.array_decode_encode [OF ne(1) room0, of "Q @ R"] len by (auto simp: I_def)
  note room1 = arena_room_after [OF room [unfolded Tx_need_def] after1]
  have room2: "arena_room a1 (array_need (L TyTxOut) (\<lambda>_. 0) (tx_txouts x))"
    by (rule arena_room_mono [OF room1]) simp
  obtain a2 where outs: "deserialize_array (L TyTxOut) TxOut_deserialize_borrowed a1 (Q @ R) =
      Ok (tx_txouts x, length Q, a2)"
    and after2: "arena_after a1 a2 (array_need (L TyTxOut) (\<lambda>_. 0) (tx_txouts x))"
    using txout.array_decode_encode [OF ne(2) room2, of "R"] len by (auto simp: Q_def)
  show ?thesis
    by (rule exI [of _ a1], rule exI [of _ a2])
      (use ins outs len with_offset_at [of _ "P @ I" "Q @ R"] arena_room_after [OF room1 after2]
        arena_after_trans [OF after1 after2] in simp)
qed

lemma Tx_decode_legacy:
  assumes ok: "Tx_ok sha x" and w: "tx_witness_data x = None" and room: "arena_room a (Tx_need L x)"
    and len: "length (Tx_serialize x @ rest) < 2 ^ 63"
  shows "\<exists>a'. Tx_deserialize_borrowed sha L a (Tx_serialize x @ rest) =
    Ok (x, length (Tx_serialize x), a') \<and> arena_after a a' (Tx_need L x)"
proof -
  define V where "V = u32_to_le_bytes (tx_version x)"
  define I where "I = serialize_array TxIn_serialize (tx_txins x)"
  define Q where "Q = serialize_array TxOut_serialize (tx_txouts x)"
  define T where "T = u32_to_le_bytes (tx_locktime x)"
  note defs = V_def I_def Q_def T_def
  have ser: "Tx_serialize x = V @ I @ Q @ T" by (simp add: Tx_serialize_def w defs)
  have lens: "length V = 4" "length T = 4" by (simp_all add: V_def T_def)
  have total: "4 + length I + length Q + 4 + length rest < 2 ^ 63" using len ser lens by simp
  let ?b = "V @ I @ Q @ T @ rest"
  obtain a1 a2 where body: "with_offset ?b 4 = Ok (I @ Q @ T @ rest)"
    "deserialize_array (L TyTxIn) TxIn_deserialize_borrowed a (I @ Q @ T @ rest) =
      Ok (tx_txins x, length I, a1)" "wadd 4 (length I) = 4 + length I"
    "with_offset ?b (4 + length I) = Ok (Q @ T @ rest)"
    "deserialize_array (L TyTxOut) TxOut_deserialize_borrowed a1 (Q @ T @ rest) =
      Ok (tx_txouts x, length Q, a2)" "wadd (4 + length I) (length Q) = 4 + length I + length Q"
    and after: "arena_after a a2 (Tx_need L x)"
    using Tx_decode_body [OF ok room, of V "T @ rest"] total lens w
    by (auto simp: I_def Q_def Tx_need_def)
  have ne: "tx_txins x \<noteq> []" "length (tx_txins x) < 2 ^ 63"
    using ok by (simp_all add: Tx_ok_def array_ok_def)
  have v: "get_u32_le ?b 0 = Ok (tx_version x)" using get_u32_le_mid [of "[]"] by (simp add: V_def)
  have marker: "has_witness_marker ?b = Ok False"
    unfolding I_def T_def by (rule marker_absent [OF ne lens(1)])
  have lock: "get_u32_le ?b (4 + length I + length Q) = Ok (tx_locktime x)"
    using get_u32_le_mid [of "V @ I @ Q" "tx_locktime x" rest] total lens by (simp add: T_def ac_simps)
  have whole: "get_range ?b 0 (4 + length I + length Q + 4) = Some (V @ I @ Q @ T)"
    using lens by (simp add: get_range_def)
  have w4: "wadd (4 + length I + length Q) 4 = 4 + length I + length Q + 4" using total by simp
  have hash: "sha (sha (V @ I @ Q @ T)) = tx_hash x" "tx_hash x = tx_witness_hash x"
    using ok w by (simp_all add: Tx_ok_def txid_def wtxid_def tx_legacy_def defs)
  have x: "x = \<lparr>tx_version = tx_version x, tx_locktime = tx_locktime x, tx_txins = tx_txins x,
      tx_txouts = tx_txouts x, tx_witness_data = None, tx_hash = tx_hash x, tx_witness_hash = tx_hash x\<rparr>"
    using w hash(2) by simp
  have "Tx_deserialize_borrowed sha L a ?b = Ok (x, 4 + length I + length Q + 4, a2)"
    by (subst x, simp only: Tx_deserialize_borrowed_def v marker body lock whole w4 res_bind_simps
        Let_def if_False split_conv ne(1) unwrap_simps option.case hash(1))
  then show ?thesis using after by (simp add: ser lens)
qed

lemma Tx_decode_segwit:
  assumes ok: "Tx_ok sha x" and w: "tx_witness_data x = Some ws"
    and room: "arena_room a (Tx_need L x)" and len: "length (Tx_serialize x @ rest) < 2 ^ 63"
  shows "\<exists>a'. Tx_deserialize_borrowed sha L a (Tx_serialize x @ rest) =
    Ok (x, length (Tx_serialize x), a') \<and> arena_after a a' (Tx_need L x)"
proof -
  define V where "V = u32_to_le_bytes (tx_version x)"
  define M where "M = u16_to_be_bytes 0x0001"
  define I where "I = serialize_array TxIn_serialize (tx_txins x)"
  define Q where "Q = serialize_array TxOut_serialize (tx_txouts x)"
  define W where "W = concat ws"
  define T where "T = u32_to_le_bytes (tx_locktime x)"
  note defs = V_def M_def I_def Q_def W_def T_def
  have ser: "Tx_serialize x = V @ M @ I @ Q @ W @ T" by (simp add: Tx_serialize_def w defs)
  have lens: "length V = 4" "length M = 2" "length T = 4" by (simp_all add: V_def M_def T_def)
  have total: "6 + length I + length Q + length W + 4 + length rest < 2 ^ 63"
    using len ser lens by simp
  let ?b = "V @ M @ I @ Q @ W @ T @ rest"
  let ?n = "length (tx_txins x)" and ?o = "6 + length I + length Q"
  obtain a1 a2 where body: "with_offset ?b 6 = Ok (I @ Q @ W @ T @ rest)"
    "deserialize_array (L TyTxIn) TxIn_deserialize_borrowed a (I @ Q @ W @ T @ rest) =
      Ok (tx_txins x, length I, a1)" "wadd 6 (length I) = 6 + length I"
    "with_offset ?b (6 + length I) = Ok (Q @ W @ T @ rest)"
    "deserialize_array (L TyTxOut) TxOut_deserialize_borrowed a1 (Q @ W @ T @ rest) =
      Ok (tx_txouts x, length Q, a2)" "wadd (6 + length I) (length Q) = ?o"
    and room2: "arena_room a2 (snd (L TySliceRef) + fst (L TySliceRef) * ?n)"
    and after: "arena_after a a2 (array_need (L TyTxIn) (\<lambda>_. 0) (tx_txins x) +
      array_need (L TyTxOut) (\<lambda>_. 0) (tx_txouts x))"
    using Tx_decode_body [OF ok room, of "V @ M" "W @ T @ rest"] total lens w
    by (auto simp: I_def Q_def)
  have ne: "tx_txins x \<noteq> []" and ws: "length ws = ?n" "list_all witness_ok ws"
    using ok w by (simp_all add: Tx_ok_def witnesses_ok_def)
  obtain a3 where alloc: "try_alloc_arenaarray (L TySliceRef) a2 ?n [] =
      Ok (ArenaArray_from_raw_parts ?n :: bytes arena_array, a3)"
    and after3: "arena_after a2 a3 (snd (L TySliceRef) + fst (L TySliceRef) * ?n)"
    by (rule try_alloc_arenaarray_room [OF room2]) blast
  have wits: "read_witnesses ?n ?b ?o (ArenaArray_from_raw_parts ?n) =
      Ok (\<lparr>aa_items = ws, aa_cap = ?n\<rparr>, ?o + length W)"
    using read_witnesses_concat [OF ws(2), of "V @ M @ I @ Q" "T @ rest" "ArenaArray_from_raw_parts ?n"]
      ws(1) total lens by (simp add: ArenaArray_from_raw_parts_def W_def add.assoc)
  have v: "get_u32_le ?b 0 = Ok (tx_version x)" using get_u32_le_mid [of "[]"] by (simp add: V_def)
  have marker: "has_witness_marker ?b = Ok True"
    unfolding M_def by (rule marker_present [OF lens(1)])
  have lock: "get_u32_le ?b (?o + length W) = Ok (tx_locktime x)"
    using get_u32_le_mid [of "V @ M @ I @ Q @ W" "tx_locktime x" rest] total lens
    by (simp add: T_def ac_simps)
  have parts: "get_range ?b 0 4 = Some V" "get_range ?b 6 ?o = Some (I @ Q)"
    "get_range ?b (?o + length W) (?o + length W + 4) = Some T"
    "get_range ?b 0 (?o + length W + 4) = Some (V @ M @ I @ Q @ W @ T)"
    using lens by (simp_all add: get_range_def)
  have w4: "wadd (?o + length W) 4 = ?o + length W + 4" using total by simp
  have empty: "all_txins_empty ws = Ok (list_all (\<lambda>w. length w = 1) ws)"
    by (rule all_txins_empty_eq) (use ws(1) ne in auto)
  have hash: "sha (sha (V @ (I @ Q) @ T)) = tx_hash x"
    using ok w by (simp add: Tx_ok_def txid_def tx_legacy_def defs)
  have whash: "(if list_all (\<lambda>w. length w = 1) ws then Ok (tx_hash x)
      else Ok (sha (sha (V @ M @ I @ Q @ W @ T)))) = Ok (tx_witness_hash x)"
    using ok w ser by (simp add: Tx_ok_def wtxid_def)
  have x: "x = \<lparr>tx_version = tx_version x, tx_locktime = tx_locktime x, tx_txins = tx_txins x,
      tx_txouts = tx_txouts x, tx_witness_data = Some ws, tx_hash = tx_hash x,
      tx_witness_hash = tx_witness_hash x\<rparr>" using w by simp
  have "Tx_deserialize_borrowed sha L a ?b = Ok (x, ?o + length W + 4, a3)"
    by (subst x, simp only: Tx_deserialize_borrowed_def v marker body alloc wits lock parts w4
        res_bind_simps Let_def if_True if_False split_conv ne unwrap_simps option.case hash empty
        whash into_arena_array_def arena_array.simps)
  then show ?thesis using arena_after_trans [OF after after3] w by (simp add: ser lens Tx_need_def add.assoc)
qed

interpretation tx: codec Tx_serialize "Tx_deserialize_borrowed sha L" "Tx_ok sha" "Tx_need L"
  for sha L
proof unfold_locales
  fix x rest a
  assume a: "Tx_ok sha x" "arena_room a (Tx_need L x)" "length (Tx_serialize x @ rest) < 2 ^ 63"
  show "\<exists>a'. Tx_deserialize_borrowed sha L a (Tx_serialize x @ rest) =
      Ok (x, length (Tx_serialize x), a') \<and> arena_after a a' (Tx_need L x)"
    by (cases "tx_witness_data x") (use a Tx_decode_legacy Tx_decode_segwit in blast)+
next
  fix a b x n a'
  assume d: "Tx_deserialize_borrowed sha L a b = Ok (x, n, a')" and len: "length b < 2 ^ 63"
  from d obtain off w where "get_u32_le b off = Ok w" and "n = wadd off 4"
    by (auto simp: Tx_deserialize_borrowed_def res_bind_Ok_iff Let_def split: if_splits)
  then show "n \<le> length b" using get_bounds(2) [OF len] wadd_le [of off 4] by fastforce
qed

section \<open>The storage form without outputs\<close>

lemma length_TxIn_serialize: "TxIn_ok x \<Longrightarrow> length (TxIn_serialize x) =
    40 + length_varint (word_of_nat (length (ti_sig_script x))) + length (ti_sig_script x)"
  by (simp add: TxIn_serialize_def TxIn_ok_def length_serialize_varstr length_varstr_def)

lemma length_serialize_without_txouts:
  assumes "list_all TxIn_ok (tx_txins x)"
  shows "length (serialize_without_txouts x) = serialized_without_txouts_size x"
proof -
  have "length (concat (map TxIn_serialize ts)) =
      sum_list (map (\<lambda>txin. 40 + length_varint (word_of_nat (length (ti_sig_script txin))) +
        length (ti_sig_script txin)) ts)" if "list_all TxIn_ok ts" for ts
    using that by (induction ts) (simp_all add: length_TxIn_serialize)
  from this [OF assms] show ?thesis
    by (auto simp: serialize_without_txouts_def serialized_without_txouts_size_def length_concat
        split: option.split)
qed

lemma without_txouts_decode:
  assumes ok: "Tx_ok sha x" and len: "length (serialize_without_txouts x @ rest) < 2 ^ 63"
    and sz: "sz * length (tx_txins x) < 2 ^ 63"
  shows "deserialize_without_txouts sz (serialize_without_txouts x @ rest) h =
    Ok (x\<lparr>tx_txouts := [], tx_hash := h, tx_witness_hash := EMPTY_HASH\<rparr>,
        length (serialize_without_txouts x))"
proof -
  define V where "V = u32_to_le_bytes (tx_version x)"
  define I where "I = serialize_array TxIn_serialize (tx_txins x)"
  define M where "M = (if tx_witness_data x \<noteq> None then u16_to_be_bytes 0x0001 else [])"
  define W where "W = (case tx_witness_data x of Some ws \<Rightarrow> concat ws | None \<Rightarrow> [])"
  define T where "T = u32_to_le_bytes (tx_locktime x)"
  have ser: "serialize_without_txouts x = V @ M @ I @ W @ T"
    by (simp add: serialize_without_txouts_def serialize_array_def V_def I_def M_def W_def T_def)
  have lens: "length V = 4" "length T = 4" by (simp_all add: V_def T_def)
  define m where "m = length (V @ M)"
  have total: "m + length I + length W + 4 + length rest < 2 ^ 63" using len ser lens by (simp add: m_def)
  let ?b = "V @ M @ I @ W @ T @ rest"
  have ne: "tx_txins x \<noteq> []" "list_all TxIn_ok (tx_txins x)" "length (tx_txins x) < 2 ^ 63"
    and wok: "witnesses_ok x" using ok by (simp_all add: Tx_ok_def array_ok_def)
  have v: "get_u32_le ?b 0 = Ok (tx_version x)" using get_u32_le_mid [of "[]"] by (simp add: V_def)
  have marker: "has_witness_marker ?b = Ok (tx_witness_data x \<noteq> None)"
  proof (cases "tx_witness_data x = None")
    case True
    then show ?thesis using marker_absent [OF ne(1,3) lens(1), of _ W] by (simp add: M_def I_def T_def)
  next
    case False
    then show ?thesis using marker_present [OF lens(1)] by (simp add: M_def)
  qed
  have m: "(if tx_witness_data x \<noteq> None then 6 else 4) = m" by (simp add: m_def lens M_def)
  have off: "with_offset ?b m = Ok (I @ W @ T @ rest)"
    using with_offset_at [of m "V @ M" "I @ W @ T @ rest"] by (simp add: m_def)
  have ins: "deserialize_array_owned sz TxIn_deserialize_owned (I @ W @ T @ rest) =
      Ok (tx_txins x, length I)"
    using txino.array_owned_decode_encode [OF ne(2,3) sz, of "W @ T @ rest"] total lens
    by (simp add: I_def)
  have wits: "(if tx_witness_data x \<noteq> None
      then res_bind (read_witnesses_owned (length (tx_txins x)) ?b (m + length I))
             (\<lambda>(wits, offset). Ok (Some wits, offset))
      else Ok (None, m + length I)) = Ok (tx_witness_data x, m + length I + length W)"
  proof (cases "tx_witness_data x")
    case None
    then show ?thesis by (simp add: W_def)
  next
    case (Some ws)
    then have "length ws = length (tx_txins x)" "list_all witness_ok ws"
      using wok by (simp_all add: witnesses_ok_def)
    then show ?thesis
      using read_witnesses_owned_concat [of ws "V @ M @ I" "T @ rest"] Some total lens
      by (simp add: W_def m_def add.assoc)
  qed
  have lock: "get_u32_le ?b (m + length I + length W) = Ok (tx_locktime x)"
    using get_u32_le_mid [of "V @ M @ I @ W" "tx_locktime x" rest] total lens
    by (simp add: T_def m_def ac_simps)
  have w4: "wadd m (length I) = m + length I"
    "wadd (m + length I + length W) 4 = m + length I + length W + 4" using total by simp_all
  have "deserialize_without_txouts sz ?b h = Ok (\<lparr>tx_version = tx_version x,
      tx_locktime = tx_locktime x, tx_txins = tx_txins x, tx_txouts = [],
      tx_witness_data = tx_witness_data x, tx_hash = h, tx_witness_hash = EMPTY_HASH\<rparr>,
      m + length I + length W + 4)"
    unfolding deserialize_without_txouts_def v res_bind_simps marker m Let_def off ins split_conv
    by (simp only: ne(1) if_False w4 wits res_bind_simps split_conv lock)
  then show ?thesis by (simp add: ser lens m_def)
qed

section \<open>Properties\<close>

text \<open>
  C14: Decoding the serialization of a well-formed transaction from a buffer, whatever follows
  it, returns the transaction and the number of bytes of the serialization, provided the arena
  has room; the two identifiers computed from slices of the buffer are the double hash of the
  serialization without witness data and, when some witness is not empty, of the full
  serialization.
\<close>

theorem tx_decode_encode:
  assumes "Tx_ok sha x" and "arena_room a (Tx_need L x)" and "length (Tx_serialize x @ rest) < 2 ^ 63"
  shows "\<exists>a'. Tx_deserialize_borrowed sha L a (Tx_serialize x @ rest) =
      Ok (x, length (Tx_serialize x), a') \<and> ar_consumed a' \<le> ar_consumed a + Tx_need L x \<and>
    tx_hash x = sha (sha (tx_legacy x)) \<and> tx_witness_hash x = wtxid sha x"
  using tx.decode_encode [OF assms] assms(1)
  by (auto simp: arena_after_def Tx_ok_def txid_def)

definition demo_tx_body :: Tx where
  "demo_tx_body = \<lparr>tx_version = 2, tx_locktime = 7,
     tx_txins = [\<lparr>ti_prevout_hash = replicate 32 1, ti_prevout_index = 0,
       ti_sequence = 0xFFFFFFFF, ti_sig_script = []\<rparr>],
     tx_txouts = [\<lparr>to_value = 5000, to_script = [0x51]\<rparr>],
     tx_witness_data = Some [varstr_array [[1, 2], [3]]],
     tx_hash = [], tx_witness_hash = []\<rparr>"

definition demo_tx :: Tx where
  "demo_tx = demo_tx_body\<lparr>tx_hash := txid id demo_tx_body, tx_witness_hash := wtxid id demo_tx_body\<rparr>"

lemma demo_tx_fields:
  "tx_txins demo_tx = [\<lparr>ti_prevout_hash = replicate 32 1, ti_prevout_index = 0,
     ti_sequence = 0xFFFFFFFF, ti_sig_script = []\<rparr>]"
  "tx_txouts demo_tx = [\<lparr>to_value = 5000, to_script = [0x51]\<rparr>]"
  "tx_witness_data demo_tx = Some [varstr_array [[1, 2], [3]]]"
  by (simp_all add: demo_tx_def demo_tx_body_def)

lemma txid_update [simp]:
  "tx_legacy (x\<lparr>tx_hash := h\<rparr>) = tx_legacy x" "tx_legacy (x\<lparr>tx_witness_hash := h\<rparr>) = tx_legacy x"
  "Tx_serialize (x\<lparr>tx_hash := h\<rparr>) = Tx_serialize x"
  "Tx_serialize (x\<lparr>tx_witness_hash := h\<rparr>) = Tx_serialize x"
  by (simp_all add: tx_legacy_def Tx_serialize_def)

lemma ids_update [simp]:
  "txid sha (x\<lparr>tx_hash := h\<rparr>) = txid sha x" "txid sha (x\<lparr>tx_witness_hash := h\<rparr>) = txid sha x"
  "wtxid sha (x\<lparr>tx_hash := h\<rparr>) = wtxid sha x" "wtxid sha (x\<lparr>tx_witness_hash := h\<rparr>) = wtxid sha x"
  by (simp_all add: txid_def wtxid_def split: option.split)

lemma demo_tx_ok: "Tx_ok id demo_tx"
proof -
  have "witness_ok (varstr_array [[1, 2], [3]])" unfolding witness_ok_def
    by (intro exI conjI, rule refl) simp
  then show ?thesis
    by (simp add: Tx_ok_def demo_tx_fields array_ok_def TxIn_ok_def TxOut_ok_def witnesses_ok_def)
      (simp add: demo_tx_def)
qed

definition demo_layouts :: layouts where
  "demo_layouts t = (48, 8)"

lemma length_demo_tx: "length (Tx_serialize demo_tx) < 100"
  by (simp add: Tx_serialize_def demo_tx_fields serialize_array_def TxIn_serialize_def
      TxOut_serialize_def varstr_array_def length_serialize_varstr length_varstr_def length_varint_def)

theorem tx_decode_encode_witness:
  "\<exists>a'. Tx_deserialize_borrowed id demo_layouts (Arena_new 4096 1000) (Tx_serialize demo_tx @ [9]) =
      Ok (demo_tx, length (Tx_serialize demo_tx), a') \<and>
    ar_consumed a' \<le> ar_consumed (Arena_new 4096 1000) + Tx_need demo_layouts demo_tx \<and>
    tx_hash demo_tx = id (id (tx_legacy demo_tx)) \<and> tx_witness_hash demo_tx = wtxid id demo_tx"
  by (rule tx_decode_encode)
    (use demo_tx_ok length_demo_tx in \<open>simp_all add: arena_room_def arena_inv_def Arena_new_def
        Tx_need_def array_need_def demo_layouts_def demo_tx_fields\<close>)

text \<open>
  Storing a transaction without its outputs and loading it again under its identifier,
  attaching the outputs and recomputing the witness identifier gives back the transaction; the
  size computed beforehand is the size written.
\<close>

lemma stored_tx_restored:
  assumes "Tx_ok sha x" and "length (serialize_without_txouts x) < 2 ^ 63"
    and "sz * length (tx_txins x) < 2 ^ 63"
  shows "res_bind (deserialize_without_txouts sz (serialize_without_txouts x) (tx_hash x))
      (\<lambda>(t, n). res_bind (compute_witness_hash sha (t\<lparr>tx_txouts := tx_txouts x\<rparr>)) (\<lambda>t. Ok (t, n))) =
    Ok (x, serialized_without_txouts_size x)"
proof -
  let ?t = "x\<lparr>tx_witness_hash := EMPTY_HASH\<rparr>"
  have "compute_witness_hash sha ?t = Ok x"
  proof (cases "tx_witness_data x")
    case None
    then show ?thesis using assms(1) by (simp add: compute_witness_hash_def Tx_ok_def wtxid_def)
  next
    case (Some ws)
    then have "ws \<noteq> []" using assms(1) by (auto simp: Tx_ok_def witnesses_ok_def)
    then show ?thesis using assms(1) Some
      by (simp add: compute_witness_hash_def Tx_ok_def wtxid_def all_txins_empty_eq)
  qed
  moreover have "list_all TxIn_ok (tx_txins x)" using assms(1) by (simp add: Tx_ok_def array_ok_def)
  ultimately show ?thesis
    using without_txouts_decode [OF assms(1), of "[]" sz "tx_hash x"] assms(2,3)
      length_serialize_without_txouts [of x] by simp
qed

lemma size_demo_tx: "length (serialize_without_txouts demo_tx) < 100"
  by (simp add: serialize_without_txouts_def demo_tx_fields TxIn_serialize_def
      varstr_array_def length_serialize_varstr length_varstr_def length_varint_def)

end
