(* ===== verification/Merkle.thy ===== *)
theory Merkle
  imports Prelude
begin

text \<open>
  Merkle trees (\<open>src/src/util/merkle.rs\<close>).  The code keeps the hashes of the current level in
  one flat byte vector, hashes pairs of neighbours in place and truncates the vector; the
  reference definition works on a list of hashes, level by level.  The theorems show that the
  in-place computation is the reference computation and never leaves the vector, and that a
  root reported as not mutated determines the list of leaves among the lists of the same depth,
  up to a collision of the hash function (the attack of CVE-2012-2459).
  \<open>Sha256::digest\<close> is the parameter \<open>sha\<close>.
\<close>

section \<open>The tree as a flat vector\<close>

type_synonym MerkleTree = bytes

definition MerkleTree_with_capacity :: "usize \<Rightarrow> MerkleTree" where
  "MerkleTree_with_capacity cap = []"

definition append_hash :: "MerkleTree \<Rightarrow> hash32 \<Rightarrow> MerkleTree" where
  "append_hash t h = t @ h"

definition MerkleTree_len :: "MerkleTree \<Rightarrow> usize" where
  "MerkleTree_len t = length t div 32"

definition MerkleTree_is_empty :: "MerkleTree \<Rightarrow> bool" where
  "MerkleTree_is_empty t \<longleftrightarrow> t = []"

definition mt_get_block :: "MerkleTree \<Rightarrow> usize \<Rightarrow> bytes res" where
  "mt_get_block t block_idx =
     (let block_start = block_idx * 2 * 32 in idx_range t block_start (block_start + 64))"

definition mt_get_hash :: "MerkleTree \<Rightarrow> usize \<Rightarrow> hash32 res" where
  "mt_get_hash t hash_idx =
     (let hash_start = hash_idx * 32 in idx_range t hash_start (hash_start + 32))"

definition mt_set_hash :: "MerkleTree \<Rightarrow> usize \<Rightarrow> hash32 \<Rightarrow> MerkleTree res" where
  "mt_set_hash t index hash = put_slice_at t (index * 32) hash"

fun collapse_from :: "(bytes \<Rightarrow> bytes) \<Rightarrow> usize \<Rightarrow> nat \<Rightarrow> MerkleTree \<Rightarrow> MerkleTree res" where
  "collapse_from sha i 0 t = Ok t"
| "collapse_from sha i (Suc n) t =
     res_bind (mt_get_block t i) (\<lambda>block.
     res_bind (mt_set_hash t i (sha (sha block))) (\<lambda>t.
     collapse_from sha (Suc i) n t))"

text \<open>
  The source marks an odd number of hashes as unreachable with \<open>unreachable_unchecked\<close>; the model
  panics there, so that a proof that the root is computed also shows that it is not reached.
\<close>

definition collapse :: "(bytes \<Rightarrow> bytes) \<Rightarrow> MerkleTree \<Rightarrow> MerkleTree res" where
  "collapse sha t =
     (if odd (MerkleTree_len t) then Panic
      else collapse_from sha 0 (MerkleTree_len t div 2) t)"

fun scan_mutation :: "MerkleTree \<Rightarrow> usize \<Rightarrow> nat \<Rightarrow> bool \<Rightarrow> bool res" where
  "scan_mutation t i 0 mutation = Ok mutation"
| "scan_mutation t i (Suc n) mutation =
     res_bind (mt_get_hash t i) (\<lambda>a.
     res_bind (mt_get_hash t (i + 1)) (\<lambda>b.
     scan_mutation t (Suc i) n (if a = b then True else mutation)))"

definition extend_last :: "MerkleTree \<Rightarrow> MerkleTree" where
  "extend_last t = t @ drop ((MerkleTree_len t - 1) * 32) t"

lemma collapse_from_length: "collapse_from sha i n t = Ok t' \<Longrightarrow> length t' = length t"
  by (induction n arbitrary: i t)
    (auto simp: res_bind_Ok_iff mt_set_hash_def dest: put_slice_at_length)

lemma collapse_length: "collapse sha t = Ok t' \<Longrightarrow> length t' = length t"
  by (auto simp: collapse_def dest: collapse_from_length split: if_splits)

lemma halve_less:
  assumes "1 < MerkleTree_len t"
  shows "MerkleTree_len (take (length (if odd (MerkleTree_len t) then extend_last t else t) div 2) u)
    < MerkleTree_len t"
proof -
  define n r where "n = length t div 32" and "r = length t mod 32"
  then have t: "length t = 32 * n + r" and r: "r < 32" and n: "2 \<le> n"
    using assms by (simp_all add: MerkleTree_len_def)
  have len: "MerkleTree_len t = n" by (simp add: MerkleTree_len_def n_def)
  have "length (extend_last t) = 32 * n + 32 + 2 * r"
    using t n by (simp add: extend_last_def len algebra_simps)
  then have "length (if odd n then extend_last t else t) < 32 * n * 2"
    using t r n by (cases "n = 2") auto
  then have "length (if odd n then extend_last t else t) div 2 < n * 32" by simp
  then have "length (take (length (if odd n then extend_last t else t) div 2) u) div 32 < n"
    by (simp add: div_less_iff_less_mult min_less_iff_disj)
  then show ?thesis by (simp add: len MerkleTree_len_def [of "take _ _"])
qed

function into_root_loop :: "(bytes \<Rightarrow> bytes) \<Rightarrow> MerkleTree \<Rightarrow> bool \<Rightarrow> (hash32 \<times> bool) res" where
  "into_root_loop sha t mutation =
     (if 1 < MerkleTree_len t then
        res_bind (scan_mutation t 0 (MerkleTree_len t - 1) mutation) (\<lambda>mutation.
        res_bind (collapse sha (if odd (MerkleTree_len t) then extend_last t else t)) (\<lambda>t'.
        into_root_loop sha (take (length t' div 2) t') mutation))
      else if t = [] then Ok (replicate 32 0, False)
      else res_bind (mt_get_hash t 0) (\<lambda>h. Ok (h, mutation)))"
  by pat_completeness auto
termination
  by (relation "measure (\<lambda>(sha, t, m). MerkleTree_len t)")
    (auto dest!: collapse_length simp: halve_less simp del: if_split)

declare into_root_loop.simps [simp del]

definition into_root :: "(bytes \<Rightarrow> bytes) \<Rightarrow> MerkleTree \<Rightarrow> (hash32 \<times> bool) res" where
  "into_root sha t = into_root_loop sha t False"

section \<open>The reference: level by level\<close>

fun merkle_level :: "(bytes \<Rightarrow> bytes) \<Rightarrow> hash32 list \<Rightarrow> hash32 list" where
  "merkle_level sha [] = []"
| "merkle_level sha [x] = [sha (sha (x @ x))]"
| "merkle_level sha (x # y # r) = sha (sha (x @ y)) # merkle_level sha r"

fun adj_dup :: "'a list \<Rightarrow> bool" where
  "adj_dup (x # y # r) \<longleftrightarrow> x = y \<or> adj_dup (y # r)"
| "adj_dup _ \<longleftrightarrow> False"

lemma length_merkle_level [simp]: "length (merkle_level sha hs) = (length hs + 1) div 2"
  by (induction sha hs rule: merkle_level.induct) simp_all

function merkle_ref :: "(bytes \<Rightarrow> bytes) \<Rightarrow> hash32 list \<Rightarrow> bool \<Rightarrow> hash32 \<times> bool" where
  "merkle_ref sha hs mutated =
     (if length hs \<le> 1 then (hd hs, mutated)
      else merkle_ref sha (merkle_level sha hs) (mutated \<or> adj_dup hs))"
  by pat_completeness auto
termination
  by (relation "measure (\<lambda>(sha, hs, m). length hs)") auto

declare merkle_ref.simps [simp del]

definition all_hashes :: "bytes list \<Rightarrow> bool" where
  "all_hashes hs \<longleftrightarrow> list_all (\<lambda>h. length h = 32) hs"

lemma all_hashes_simps [simp]:
  "all_hashes []" "all_hashes (h # hs) \<longleftrightarrow> length h = 32 \<and> all_hashes hs"
  "all_hashes (hs @ ks) \<longleftrightarrow> all_hashes hs \<and> all_hashes ks"
  by (simp_all add: all_hashes_def)

lemma all_hashes_level [simp]:
  "(\<And>b. length (sha b) = 32) \<Longrightarrow> all_hashes (merkle_level sha hs)"
  by (induction sha hs rule: merkle_level.induct) simp_all

lemma length_concat_hashes: "all_hashes hs \<Longrightarrow> length (concat hs) = 32 * length hs"
  by (induction hs) simp_all

lemma len_concat [simp]: "all_hashes hs \<Longrightarrow> MerkleTree_len (concat hs) = length hs"
  by (simp add: MerkleTree_len_def length_concat_hashes)

section \<open>The flat vector computes the reference\<close>

lemma concat_split: "i < length hs \<Longrightarrow> concat hs = concat (take i hs) @ hs ! i @ concat (drop (Suc i) hs)"
  by (metis concat.simps(2) concat_append id_take_nth_drop)

lemma all_hashes_take: "all_hashes hs \<Longrightarrow> all_hashes (take i hs)"
  by (metis all_hashes_simps(3) append_take_drop_id)

lemma all_hashes_nth: "all_hashes hs \<Longrightarrow> i < length hs \<Longrightarrow> length (hs ! i) = 32"
  by (simp add: all_hashes_def list_all_length)

lemma mt_get_hash_concat:
  assumes "all_hashes hs" and "i < length hs"
  shows "mt_get_hash (concat hs) i = Ok (hs ! i)"
proof -
  have "length (concat (take i hs)) = i * 32"
    using length_concat_hashes [OF all_hashes_take [OF assms(1)], of i] assms(2) by simp
  from get_range_mid [OF this all_hashes_nth [OF assms]] show ?thesis
    by (subst concat_split [OF assms(2)]) (simp add: mt_get_hash_def idx_range_def)
qed

lemma scan_mutation_concat:
  assumes "all_hashes hs" and "i + n < length hs"
  shows "scan_mutation (concat hs) i n m =
    Ok (m \<or> (\<exists>j\<in>{i..<i + n}. hs ! j = hs ! Suc j))"
  using assms(2)
proof (induction n arbitrary: i m)
  case 0
  then show ?case by simp
next
  case (Suc n)
  have "{i..<i + Suc n} = insert i {Suc i..<Suc i + n}" by auto
  then show ?case using Suc by (simp add: mt_get_hash_concat [OF assms(1)])
qed

lemma ex_nat_split: "(\<exists>j. Q j) \<longleftrightarrow> Q 0 \<or> (\<exists>j. Q (Suc j))"
  by (metis not0_implies_Suc)

lemma adj_dup_nth: "adj_dup xs \<longleftrightarrow> (\<exists>j. Suc j < length xs \<and> xs ! j = xs ! Suc j)"
proof (induction xs rule: adj_dup.induct)
  case (1 x y r)
  then show ?case by (subst ex_nat_split) simp
qed simp_all

lemma collapse_step:
  assumes "all_hashes dn" "length mid = 32 * length dn" "length x = 32" "length y = 32"
    "length h = 32" "h = sha (sha (x @ y))"
  shows "mt_get_block (concat dn @ mid @ x @ y @ r) (length dn) = Ok (x @ y)"
    and "mt_set_hash (concat dn @ mid @ x @ y @ r) (length dn) h =
      Ok (concat (dn @ [h]) @ drop 32 (mid @ x @ y) @ r)"
  using get_range_mid [of "concat dn @ mid" "length dn * 2 * 32" "x @ y" 64 r] assms
  by (simp_all add: mt_get_block_def idx_range_def length_concat_hashes mt_set_hash_def
      put_slice_at_def)

lemma collapse_from_concat:
  assumes "all_hashes dn" "length mid = 32 * length dn" "all_hashes hs" "length hs = 2 * n"
    and sha: "\<And>b. length (sha b) = 32"
  shows "\<exists>junk. collapse_from sha (length dn) n (concat dn @ mid @ concat hs) =
      Ok (concat (dn @ merkle_level sha hs) @ junk) \<and> length junk = 32 * (length dn + n)"
  using assms(1-4)
proof (induction n arbitrary: dn mid hs)
  case 0
  then show ?case by simp
next
  case (Suc n)
  then obtain x y r where hs: "hs = x # y # r"
    by (cases hs rule: adj_dup.cases) auto
  let ?h = "sha (sha (x @ y))"
  have "\<exists>junk. collapse_from sha (length (dn @ [?h])) n
      (concat (dn @ [?h]) @ drop 32 (mid @ x @ y) @ concat r) =
      Ok (concat ((dn @ [?h]) @ merkle_level sha r) @ junk) \<and>
      length junk = 32 * (length (dn @ [?h]) + n)"
    by (rule Suc.IH) (use Suc.prems hs sha in simp_all)
  then show ?case
    using collapse_step [of dn mid x y ?h sha "concat r"] Suc.prems hs sha by simp
qed

lemma collapse_concat:
  assumes "all_hashes hs" "even (length hs)" and sha: "\<And>b. length (sha b) = 32"
  shows "\<exists>junk. collapse sha (concat hs) = Ok (concat (merkle_level sha hs) @ junk) \<and>
    length junk = length (concat (merkle_level sha hs))"
  using collapse_from_concat [of "[]" "[]" hs "length hs div 2" sha] assms
  by (simp add: collapse_def length_concat_hashes)

definition pad_even :: "'a list \<Rightarrow> 'a list" where
  "pad_even xs = (if odd (length xs) then xs @ [last xs] else xs)"

lemma extend_last_concat:
  assumes "all_hashes hs" "hs \<noteq> []"
  shows "extend_last (concat hs) = concat (hs @ [last hs])"
proof -
  have "concat hs = concat (butlast hs) @ last hs"
    using assms(2) by (metis append_butlast_last_id append_Nil2 concat.simps concat_append)
  moreover have "length (concat (butlast hs)) = (length hs - 1) * 32"
    using length_concat_hashes [of "butlast hs"] assms
    by (metis all_hashes_take butlast_conv_take length_butlast mult.commute)
  ultimately have "drop ((length hs - 1) * 32) (concat hs) = last hs" by simp
  then show ?thesis using assms by (simp add: extend_last_def)
qed

lemma pad_even_Cons2: "pad_even (x # y # r) = x # y # pad_even r"
  by (cases r) (simp_all add: pad_even_def)

lemma even_pad: "even (length (pad_even xs))"
  by (simp add: pad_even_def)

lemma merkle_level_pad: "merkle_level sha (pad_even hs) = merkle_level sha hs"
proof (induction sha hs rule: merkle_level.induct)
  case (3 sha x y r)
  then show ?case by (simp add: pad_even_Cons2)
qed (simp_all add: pad_even_def)

lemma all_hashes_pad: "all_hashes hs \<Longrightarrow> all_hashes (pad_even hs)"
  by (cases hs rule: rev_cases) (simp_all add: pad_even_def)

lemma into_root_loop_concat:
  assumes "\<forall>b. length (sha b) = 32" and "all_hashes hs" "hs \<noteq> []"
  shows "into_root_loop sha (concat hs) m = Ok (merkle_ref sha hs m)"
  using assms
proof (induction sha hs m rule: merkle_ref.induct)
  case (1 sha hs m)
  note sha = 1(2)[rule_format] and hs = 1(3,4)
  show ?case
  proof (cases "length hs \<le> 1")
    case True
    with hs(2) obtain h where h: "hs = [h]" by (cases hs rule: adj_dup.cases) auto
    have "h \<noteq> []" "MerkleTree_len h = 1" using hs h by (auto simp: MerkleTree_len_def)
    then show ?thesis using mt_get_hash_concat [OF hs(1), of 0] h
      by (subst into_root_loop.simps) (simp add: merkle_ref.simps)
  next
    case False
    have scan: "scan_mutation (concat hs) 0 (length hs - 1) m = Ok (m \<or> adj_dup hs)"
      using scan_mutation_concat [OF hs(1), of 0 "length hs - 1" m] False
      by (auto simp: adj_dup_nth less_diff_conv)
    have pad: "(if odd (length hs) then extend_last (concat hs) else concat hs) = concat (pad_even hs)"
      using extend_last_concat [OF hs] by (simp add: pad_even_def)
    obtain junk where col: "collapse sha (concat (pad_even hs)) =
        Ok (concat (merkle_level sha hs) @ junk)"
      and junk: "length junk = length (concat (merkle_level sha hs))"
      using collapse_concat [OF all_hashes_pad [OF hs(1)] even_pad, of sha] sha
      by (auto simp: merkle_level_pad)
    have "merkle_level sha hs \<noteq> []" using hs(2) by (cases hs rule: adj_dup.cases) auto
    then have IH: "into_root_loop sha (concat (merkle_level sha hs)) (m \<or> adj_dup hs) =
        Ok (merkle_ref sha (merkle_level sha hs) (m \<or> adj_dup hs))"
      using 1(1) [OF False] sha by simp
    show ?thesis
      using False scan col junk IH hs(1)
      by (subst into_root_loop.simps, subst merkle_ref.simps) (simp add: pad del: One_nat_def)
  qed
qed

lemma into_root_concat:
  assumes "\<forall>b. length (sha b) = 32" and "all_hashes hs"
  shows "into_root sha (concat hs) =
    Ok (if hs = [] then (replicate 32 0, False) else merkle_ref sha hs False)"
proof (cases "hs = []")
  case True
  then show ?thesis by (simp add: into_root_def into_root_loop.simps MerkleTree_len_def)
next
  case False
  then show ?thesis using into_root_loop_concat [OF assms] by (simp add: into_root_def)
qed

section \<open>An unmutated root determines the leaves\<close>

definition collides :: "(bytes \<Rightarrow> bytes) \<Rightarrow> bool" where
  "collides sha \<longleftrightarrow> (\<exists>x y. length x = 64 \<and> length y = 64 \<and> x \<noteq> y \<and> sha (sha x) = sha (sha y))"

fun depth :: "nat \<Rightarrow> nat" where
  "depth n = (if n \<le> 1 then 0 else Suc (depth ((n + 1) div 2)))"

declare depth.simps [simp del]

lemma pair_inj:
  assumes "\<not> collides sha" "sha (sha (x @ y)) = sha (sha (x' @ y'))"
    "length x = 32" "length y = 32" "length x' = 32" "length y' = 32"
  shows "x = x' \<and> y = y'"
proof -
  have "x @ y = x' @ y'" using assms unfolding collides_def
    by (metis length_append numeral_Bit0)
  then show ?thesis using assms by simp
qed

lemma merkle_level_inj_even:
  assumes "\<not> collides sha" "all_hashes hs" "all_hashes ks" "even (length hs)" "even (length ks)"
    and "merkle_level sha hs = merkle_level sha ks"
  shows "hs = ks"
  using assms
proof (induction sha hs arbitrary: ks rule: merkle_level.induct)
  case (1 sha)
  then show ?case by (cases ks rule: adj_dup.cases) auto
next
  case (3 sha x y r)
  then obtain x' y' r' where ks: "ks = x' # y' # r'" by (cases ks rule: adj_dup.cases) auto
  have "x = x' \<and> y = y'" by (rule pair_inj [OF 3(2)]) (use 3(3-7) ks in auto)
  moreover have "r = r'" by (rule "3.IH") (use 3(2-7) ks in auto)
  ultimately show ?case using ks by simp
qed simp

lemma adj_dup_snoc: "adj_dup (xs @ [a, a])"
proof (induction xs)
  case (Cons x xs)
  then show ?case by (cases xs) simp_all
qed simp

lemma adj_dup_pad: "xs \<noteq> [] \<Longrightarrow> adj_dup (xs @ [last xs])"
  by (metis adj_dup_snoc append_butlast_last_id append_assoc append_Cons append_Nil)

lemma pad_even_inj:
  assumes "pad_even hs = pad_even ks" "\<not> adj_dup hs" "\<not> adj_dup ks" "hs \<noteq> []" "ks \<noteq> []"
  shows "hs = ks"
  using assms adj_dup_pad [of hs] adj_dup_pad [of ks] by (auto simp: pad_even_def split: if_splits)

lemma merkle_level_Nil [simp]: "merkle_level sha hs = [] \<longleftrightarrow> hs = []"
  by (cases hs rule: adj_dup.cases) simp_all

lemma merkle_ref_mutated [simp]: "snd (merkle_ref sha hs True) = True"
proof (induction sha hs True rule: merkle_ref.induct)
  case (1 sha hs)
  then show ?case by (subst merkle_ref.simps) auto
qed

lemma merkle_ref_unmutated:
  assumes "merkle_ref sha hs m = (r, False)" "1 < length hs"
  shows "\<not> adj_dup hs \<and> merkle_ref sha (merkle_level sha hs) False = (r, False)"
proof -
  have *: "merkle_ref sha (merkle_level sha hs) (m \<or> adj_dup hs) = (r, False)"
    using assms by (subst (asm) merkle_ref.simps) simp
  then have "\<not> (m \<or> adj_dup hs)" by (metis merkle_ref_mutated snd_conv)
  with * show ?thesis by simp
qed

lemma merkle_ref_binds:
  assumes "\<not> collides sha" "\<forall>b. length (sha b) = 32" "all_hashes hs" "all_hashes ks"
    "hs \<noteq> []" "ks \<noteq> []" "depth (length hs) = depth (length ks)"
    "merkle_ref sha hs m = (r, False)" "merkle_ref sha ks m' = (r, False)"
  shows "hs = ks"
  using assms(3-)
proof (induction "length hs" arbitrary: hs ks m m' rule: less_induct)
  case less
  show ?case
  proof (cases "length hs \<le> 1")
    case True
    then have "length ks \<le> 1" using less.prems(5)
      by (metis depth.simps nat.distinct(1))
    with True obtain h k where "hs = [h]" "ks = [k]" using less.prems(3,4)
      by (cases hs rule: adj_dup.cases; cases ks rule: adj_dup.cases) auto
    then show ?thesis using less.prems(6,7) by (simp add: merkle_ref.simps)
  next
    case False
    then have ks: "1 < length ks" and hs: "1 < length hs" using less.prems(5)
      by (metis depth.simps nat.distinct(1) not_le)+
    note h = merkle_ref_unmutated [OF less.prems(6) hs] and k = merkle_ref_unmutated [OF less.prems(7) ks]
    have "depth ((length hs + 1) div 2) = depth ((length ks + 1) div 2)"
      using less.prems(5) hs ks by (subst (asm) (1 2) depth.simps) simp
    moreover have "merkle_level sha hs \<noteq> []" "merkle_level sha ks \<noteq> []"
      using less.prems(3,4) by simp_all
    ultimately have "merkle_level sha hs = merkle_level sha ks"
      using less.hyps [of "merkle_level sha hs" "merkle_level sha ks" False False] h k hs assms(2) by simp
    then have "merkle_level sha (pad_even hs) = merkle_level sha (pad_even ks)"
      by (simp add: merkle_level_pad)
    then have "pad_even hs = pad_even ks"
      using merkle_level_inj_even [OF assms(1)] less.prems(1,2) all_hashes_pad even_pad by blast
    then show ?thesis using pad_even_inj h k less.prems(3,4) by blast
  qed
qed

section \<open>Properties\<close>

definition merkle_tree_of :: "hash32 list \<Rightarrow> MerkleTree" where
  "merkle_tree_of hs = foldl append_hash (MerkleTree_with_capacity (length hs)) hs"

lemma merkle_tree_of_concat: "merkle_tree_of hs = concat hs"
proof -
  have "foldl append_hash t hs = t @ concat hs" for t
    by (induction hs arbitrary: t) (simp_all add: append_hash_def)
  then show ?thesis by (simp add: merkle_tree_of_def MerkleTree_with_capacity_def)
qed

text \<open>A small function with outputs of 32 bytes, for the examples: it keeps the first 32 bytes.\<close>

definition demo_sha :: "bytes \<Rightarrow> bytes" where
  "demo_sha b = take 32 (b @ replicate 32 0)"

lemma demo_sha_length: "length (demo_sha b) = 32"
  by (simp add: demo_sha_def)

text \<open>
  C13: For every list of 32-byte leaves, \<open>into_root\<close> on the flat vector returns exactly the
  root of the level-by-level reference tree and reports a mutation exactly when some level of
  it has two equal neighbours; the in-place computation never indexes outside the vector and
  never reaches the \<open>unreachable_unchecked\<close> branch.
\<close>

theorem merkle_root_reference:
  assumes "\<forall>b. length (sha b) = 32" and "all_hashes hs"
  shows "into_root sha (merkle_tree_of hs) =
    Ok (if hs = [] then (replicate 32 0, False) else merkle_ref sha hs False)"
  using into_root_concat [OF assms] by (simp add: merkle_tree_of_concat)

theorem merkle_root_reference_witness:
  "into_root demo_sha (merkle_tree_of [replicate 32 1, replicate 32 2, replicate 32 3]) =
   Ok (replicate 32 1, False)"
  using merkle_root_reference [of demo_sha "[replicate 32 1, replicate 32 2, replicate 32 3]"]
  by (simp add: demo_sha_length merkle_ref.simps)
    (simp add: demo_sha_def numeral_eq_Suc)

text \<open>
  Two non-empty lists of leaves of the same tree depth that give the same root, both
  reported as not mutated, are equal, or they exhibit two different 64-byte inputs with the
  same double hash.  Duplicating trailing transactions (CVE-2012-2459) is therefore always
  reported.
\<close>

lemma unmutated_root_binds_leaves:
  assumes "\<forall>b. length (sha b) = 32" and "all_hashes hs" and "all_hashes ks"
    and "hs \<noteq> []" and "ks \<noteq> []" and "depth (length hs) = depth (length ks)"
    and "into_root sha (merkle_tree_of hs) = Ok (root, False)"
    and "into_root sha (merkle_tree_of ks) = Ok (root, False)"
  shows "hs = ks \<or>
    (\<exists>x y. length x = 64 \<and> length y = 64 \<and> x \<noteq> y \<and> sha (sha x) = sha (sha y))"
proof -
  have "merkle_ref sha hs False = (root, False)" "merkle_ref sha ks False = (root, False)"
    using assms into_root_concat [OF assms(1,2)] into_root_concat [OF assms(1,3)]
    by (simp_all add: merkle_tree_of_concat)
  from merkle_ref_binds [OF _ assms(1-6) this] show ?thesis by (auto simp: collides_def)
qed

text \<open>
  The mutation check compares all neighbours of a level, also those that are hashed into
  different parents: a list of distinct pairs such as \<open>[a, b, b, c]\<close> is reported as mutated
  although no duplication of a subtree happened.
\<close>

lemma mutation_check_flags_unpaired_neighbours:
  assumes "\<forall>b. length (sha b) = 32" and "length a = 32" "length b = 32" "length c = 32"
  shows "\<exists>root. into_root sha (merkle_tree_of [a, b, b, c]) = Ok (root, True)"
proof -
  have "snd (merkle_ref sha [a, b, b, c] False) = True"
    by (subst merkle_ref.simps) simp
  then show ?thesis
    using into_root_concat [OF assms(1), of "[a, b, b, c]"] assms(2-)
    by (cases "merkle_ref sha [a, b, b, c] False") (simp add: merkle_tree_of_concat)
qed

end
