(* ===== verification/Pow.thy ===== *)
theory Pow
  imports Prelude
begin

text \<open>
  Proof of work: compact targets (\<open>src/src/util/compact.rs\<close>), retargeting
  (\<open>src/src/util/pow.rs\<close>), and the work and validity of a header
  (\<open>BlockHeaderRef::get_work\<close> and \<open>is_valid\<close> of \<open>src/src/packets/blockheader.rs\<close>).

  \<open>U256\<close> of the crate \<open>primitive_types\<close> is a 256-bit word: shifts drop the bits that leave the
  word, and addition, multiplication and division panic on overflow or a zero divisor, as the
  crate documents.  The proofs read the words as natural numbers.
\<close>

section \<open>Arithmetic of U256\<close>

type_synonym U256 = "256 word"

definition u256_add :: "U256 \<Rightarrow> U256 \<Rightarrow> U256 res" where
  "u256_add a b = (if unat a + unat b < 2 ^ 256 then Ok (a + b) else Panic)"

definition u256_mul :: "U256 \<Rightarrow> U256 \<Rightarrow> U256 res" where
  "u256_mul a b = (if unat a * unat b < 2 ^ 256 then Ok (a * b) else Panic)"

definition u256_div :: "U256 \<Rightarrow> U256 \<Rightarrow> U256 res" where
  "u256_div a b = (if b = 0 then Panic else Ok (a div b))"

fun nat_bits :: "nat \<Rightarrow> nat" where
  "nat_bits n = (if n = 0 then 0 else Suc (nat_bits (n div 2)))"

declare nat_bits.simps [simp del]

definition u256_bits :: "U256 \<Rightarrow> usize" where
  "u256_bits v = nat_bits (unat v)"

definition u256_as_u32 :: "U256 \<Rightarrow> u32 res" where
  "u256_as_u32 v = (if unat v < 2 ^ 32 then Ok (ucast v) else Panic)"

definition u256_from_little_endian :: "bytes \<Rightarrow> U256" where
  "u256_from_little_endian bs = word_of_nat (from_le bs)"

section \<open>Compact targets\<close>

definition u256_from_compact :: "u32 \<Rightarrow> U256" where
  "u256_from_compact compact =
     (let sz = drop_bit 24 compact; w = compact AND 0x007FFFFF; ret = ucast w in
      if sz \<le> 3 then drop_bit (8 * unat (3 - sz)) ret
      else push_bit (8 * unat (sz - 3)) ret)"

definition compact_from_u256 :: "U256 \<Rightarrow> u32 res" where
  "compact_from_u256 value =
     (let sz = (u256_bits value + 7) div 8 in
      res_bind (if sz \<le> 3
                then res_bind (u256_as_u32 value) (\<lambda>v. Ok (push_bit (8 * (3 - sz)) v))
                else u256_as_u32 (drop_bit (8 * (sz - 3)) value)) (\<lambda>compact.
      let (compact, sz) =
        (if compact AND 0x00800000 = 0x00800000 then (drop_bit 8 compact, sz + 1)
         else (compact, sz)) in
      Ok (compact OR word_of_nat (sz * 2 ^ 24))))"

section \<open>Retargeting\<close>

definition POW_TARGET_TIMESPAN :: u64 where
  "POW_TARGET_TIMESPAN = 14 * 24 * 60 * 60"

definition POW_TARGET_SPACING :: u64 where
  "POW_TARGET_SPACING = 10 * 60"

definition POW_LIMIT :: U256 where
  "POW_LIMIT = 2 ^ 224 - 1"

definition DIFFICULTY_ADJUSTMENT_INTERVAL :: u64 where
  "DIFFICULTY_ADJUSTMENT_INTERVAL = POW_TARGET_TIMESPAN div POW_TARGET_SPACING"

text \<open>The clamped time span; the subtraction is one of \<open>u32\<close> values and wraps.\<close>

definition clamped_timespan :: "u32 \<Rightarrow> u32 \<Rightarrow> u64" where
  "clamped_timespan last_timestamp first_block_time =
     (let actual_timestamp = ucast (last_timestamp - first_block_time) in
      if actual_timestamp < POW_TARGET_TIMESPAN div 4 then POW_TARGET_TIMESPAN div 4
      else if POW_TARGET_TIMESPAN * 4 < actual_timestamp then POW_TARGET_TIMESPAN * 4
      else actual_timestamp)"

definition calculate_next_work_required :: "u32 \<Rightarrow> u32 \<Rightarrow> u32 \<Rightarrow> u32 res" where
  "calculate_next_work_required last_timestamp first_block_time last_bits =
     res_bind (u256_mul (u256_from_compact last_bits)
                 (ucast (clamped_timespan last_timestamp first_block_time))) (\<lambda>product.
     res_bind (u256_div product (ucast POW_TARGET_TIMESPAN)) (\<lambda>difficulty.
     compact_from_u256 (if POW_LIMIT < difficulty then POW_LIMIT else difficulty)))"

section \<open>Work of a header\<close>

definition get_work :: "u32 \<Rightarrow> U256 res" where
  "get_work bits =
     (let uncompacted = u256_from_compact bits; inverted = NOT uncompacted in
      res_bind (u256_add uncompacted 1) (\<lambda>divisor.
      res_bind (u256_div inverted divisor) (\<lambda>result.
      u256_add result 1)))"

definition is_valid :: "u32 \<Rightarrow> hash32 \<Rightarrow> bool" where
  "is_valid bits hash \<longleftrightarrow>
     (let target = u256_from_compact bits; hash_number = u256_from_little_endian hash in
      hash_number < target)"

section \<open>Targets as natural numbers\<close>

definition target_nat :: "nat \<Rightarrow> nat" where
  "target_nat c = (let s = c div 2 ^ 24; m = c mod 2 ^ 23 in
     if s \<le> 3 then m div 256 ^ (3 - s) else (m * 256 ^ (s - 3)) mod 2 ^ 256)"

definition byte_len :: "nat \<Rightarrow> nat" where
  "byte_len v = (nat_bits v + 7) div 8"

text \<open>Mantissa and exponent of the compact form.\<close>

definition compact_parts :: "nat \<Rightarrow> nat \<times> nat" where
  "compact_parts v =
     (let s = byte_len v;
          m = (if s \<le> 3 then v * 256 ^ (3 - s) else v div 256 ^ (s - 3)) in
      if 2 ^ 23 \<le> m then (m div 256, s + 1) else (m, s))"

lemma pow_8: "2 ^ (8 * n) = (256 :: nat) ^ n"
  by (simp add: power_mult)

lemma unat_u32_to_u256 [simp]: "unat (ucast (c :: u32) :: U256) = unat c"
proof -
  have "unat c < 2 ^ 32" using unsigned_less [of c] by simp
  then show ?thesis by (simp add: unsigned_ucast_eq take_bit_nat_eq_self_iff)
qed

lemma unat_u64_to_u256 [simp]: "unat (ucast (c :: u64) :: U256) = unat c"
proof -
  have "unat c < 2 ^ 64" using unsigned_less [of c] by simp
  then show ?thesis by (simp add: unsigned_ucast_eq take_bit_nat_eq_self_iff)
qed

lemma unat_u32_to_u64: "unat (ucast (c :: u32) :: u64) = unat c"
proof -
  have "unat c < 2 ^ 32" using unsigned_less [of c] by simp
  then show ?thesis by (simp add: unsigned_ucast_eq take_bit_nat_eq_self_iff)
qed

lemma unat_u256_lt: "unat (v :: U256) < 2 ^ 256"
  using unsigned_less [of v] by simp

lemma unat_u256_from_compact: "unat (u256_from_compact c) = target_nat (unat c)"
proof -
  let ?s = "drop_bit 24 c :: u32"
  have s: "unat ?s = unat c div 2 ^ 24" by (rule unat_drop_bit)
  have "(0x007FFFFF :: u32) = mask 23" by (simp add: mask_eq_exp_minus_1)
  then have w: "unat (c AND 0x007FFFFF) = unat c mod 2 ^ 23" by (simp only: unat_and_mask)
  have le: "?s \<le> 3 \<longleftrightarrow> unat c div 2 ^ 24 \<le> 3" by (simp only: word_le_nat_alt s) simp
  have "unat (3 - ?s) = 3 - unat c div 2 ^ 24" if "?s \<le> 3"
    using unat_sub [OF that] by (simp only: s) simp
  moreover have "unat (?s - 3) = unat c div 2 ^ 24 - 3" if "\<not> ?s \<le> 3"
    using unat_sub [of 3 ?s] that by (simp only: s) simp
  ultimately show ?thesis
    unfolding u256_from_compact_def target_nat_def Let_def
    by (simp only: le unat_drop_bit unat_push_bit w unat_u32_to_u256 pow_8 if_distrib [of unat])
      (simp split: if_split)
qed

lemma bit_0x800000: "bit (0x00800000 :: u32) n \<longleftrightarrow> n = 23"
proof -
  have e: "(0x00800000 :: u32) = 2 ^ 23" by simp
  show ?thesis unfolding e bit_exp_iff by (auto simp: possible_bit_word)
qed

lemma and_0x800000: "x AND 0x00800000 = 0x00800000 \<longleftrightarrow> bit x 23" for x :: u32
proof
  assume "x AND 0x00800000 = 0x00800000"
  then have "bit (x AND 0x00800000) 23 = bit (0x00800000 :: u32) 23" by simp
  then show "bit x 23" unfolding bit_and_iff bit_0x800000 by simp
next
  assume "bit x 23"
  then show "x AND 0x00800000 = 0x00800000"
    by (intro bit_word_eqI) (simp only: bit_and_iff bit_0x800000, blast)
qed

lemma bit_23_nat: "bit x 23 \<longleftrightarrow> 2 ^ 23 \<le> unat x" if "unat x < 2 ^ 24" for x :: u32
proof -
  have "bit x 23 \<longleftrightarrow> bit (unat x) 23" by (simp add: bit_unsigned_iff)
  also have "\<dots> \<longleftrightarrow> odd (unat x div 2 ^ 23)" by (simp add: bit_iff_odd)
  also have "\<dots> \<longleftrightarrow> 2 ^ 23 \<le> unat x"
  proof (cases "2 ^ 23 \<le> unat x")
    case True
    then have "unat x div 2 ^ 23 = 1" using that by (intro div_nat_eqI) simp_all
    then show ?thesis using True by simp
  qed simp
  finally show ?thesis .
qed

lemma nat_bits_bounds: "v \<noteq> 0 \<Longrightarrow> 2 ^ (nat_bits v - 1) \<le> v \<and> v < 2 ^ nat_bits v"
proof (induction v rule: nat_bits.induct)
  case (1 v)
  show ?case
  proof (cases "v div 2 = 0")
    case True
    then have "v = 1" using 1(2) by simp
    then show ?thesis by (simp add: nat_bits.simps)
  next
    case False
    have nz: "nat_bits (v div 2) \<noteq> 0" using False by (simp add: nat_bits.simps)
    have IH: "2 ^ (nat_bits (v div 2) - 1) \<le> v div 2" "v div 2 < 2 ^ nat_bits (v div 2)"
      using 1(1) [OF 1(2) False] by simp_all
    have eq: "nat_bits v = Suc (nat_bits (v div 2))" using 1(2) by (subst nat_bits.simps) simp
    have "2 ^ nat_bits (v div 2) = 2 * (2 :: nat) ^ (nat_bits (v div 2) - 1)"
      using nz by (metis power_eq_if)
    then show ?thesis using IH eq by (simp only: eq power_Suc diff_Suc_1) linarith
  qed
qed

lemma byte_len_bounds:
  assumes "v \<noteq> 0"
  shows "1 \<le> byte_len v" "256 ^ (byte_len v - 1) \<le> v" "v < 256 ^ byte_len v"
proof -
  let ?b = "nat_bits v"
  have b: "1 \<le> ?b" using assms by (simp add: nat_bits.simps)
  then show one: "1 \<le> byte_len v" by (simp add: byte_len_def)
  have "8 * (byte_len v - 1) \<le> ?b - 1" "?b \<le> 8 * byte_len v"
    using b by (simp_all add: byte_len_def)
  then have "(2 :: nat) ^ (8 * (byte_len v - 1)) \<le> 2 ^ (?b - 1)" "(2 :: nat) ^ ?b \<le> 2 ^ (8 * byte_len v)"
    by simp_all
  then show "256 ^ (byte_len v - 1) \<le> v" "v < 256 ^ byte_len v"
    using nat_bits_bounds [OF assms] unfolding pow_8 by linarith+
qed

lemma byte_len_0 [simp]: "byte_len 0 = 0"
  by (simp add: byte_len_def nat_bits.simps)

lemma byte_len_le: "v < 256 ^ n \<Longrightarrow> byte_len v \<le> n"
proof (cases "v = 0")
  case False
  assume "v < 256 ^ n"
  then have "(256 :: nat) ^ (byte_len v - 1) < 256 ^ n"
    using byte_len_bounds(2) [OF False] by linarith
  then show ?thesis by simp
qed simp

lemma byte_len_eq: "256 ^ n \<le> v \<Longrightarrow> v < 256 ^ Suc n \<Longrightarrow> byte_len v = Suc n"
proof -
  assume v: "256 ^ n \<le> v" "v < 256 ^ Suc n"
  then have "v \<noteq> 0" by (metis power_not_zero zero_neq_numeral le_zero_eq)
  then have "(256 :: nat) ^ n < 256 ^ byte_len v" using v(1) byte_len_bounds(3) by (meson le_less_trans)
  then show ?thesis using byte_len_le [OF v(2)] by simp
qed

section \<open>Encoding a target\<close>

definition mantissa :: "nat \<Rightarrow> nat" where
  "mantissa v = (if byte_len v \<le> 3 then v * 256 ^ (3 - byte_len v) else v div 256 ^ (byte_len v - 3))"

lemma compact_parts_eq:
  "compact_parts v =
    (if 2 ^ 23 \<le> mantissa v then (mantissa v div 256, byte_len v + 1) else (mantissa v, byte_len v))"
  by (simp add: compact_parts_def mantissa_def Let_def)

lemma pow_256_split: "a \<le> b \<Longrightarrow> (256 :: nat) ^ b = 256 ^ (b - a) * 256 ^ a"
  by (metis le_add_diff_inverse2 power_add)

lemma mantissa_less: "mantissa v < 2 ^ 24"
proof (cases "v = 0")
  case False
  note b = byte_len_bounds [OF this]
  show ?thesis
  proof (cases "byte_len v \<le> 3")
    case True
    have "v * 256 ^ (3 - byte_len v) < 256 ^ byte_len v * 256 ^ (3 - byte_len v)"
      using b(3) by simp
    also have "\<dots> = 2 ^ 24" using pow_256_split [OF True] by (simp add: mult.commute)
    finally show ?thesis using True by (simp add: mantissa_def)
  next
    case False
    then have "v < 256 ^ 3 * 256 ^ (byte_len v - 3)"
      using b(3) by (metis nat_le_linear power_add le_add_diff_inverse)
    then have "v div 256 ^ (byte_len v - 3) < 256 ^ 3" by (simp add: less_mult_imp_div_less)
    then show ?thesis using False by (simp add: mantissa_def)
  qed
qed (simp add: mantissa_def)

lemma mantissa_ge:
  assumes "v \<noteq> 0"
  shows "2 ^ 16 \<le> mantissa v"
proof (cases "byte_len v \<le> 3")
  case True
  note b = byte_len_bounds [OF assms]
  have "256 ^ (byte_len v - 1) * 256 ^ (3 - byte_len v) \<le> v * 256 ^ (3 - byte_len v)"
    using b(2) by simp
  moreover have "(256 :: nat) ^ (byte_len v - 1) * 256 ^ (3 - byte_len v) = 256 ^ 2"
    using True b(1) by (simp add: power_add [symmetric])
  ultimately have "256 ^ 2 \<le> v * 256 ^ (3 - byte_len v)" by metis
  then show ?thesis using True by (simp add: mantissa_def)
next
  case False
  note b = byte_len_bounds [OF assms]
  have "256 ^ 2 * 256 ^ (byte_len v - 3) = (256 :: nat) ^ (byte_len v - 1)"
    using False unfolding power_add [symmetric] by (intro arg_cong [where f = "power 256"]) simp
  then have "256 ^ 2 * 256 ^ (byte_len v - 3) \<le> v" using b(2) by simp
  then have "256 ^ 2 \<le> v div 256 ^ (byte_len v - 3)"
    by (metis div_le_mono nonzero_mult_div_cancel_right power_not_zero zero_neq_numeral)
  then show ?thesis using False by (simp add: mantissa_def)
qed

lemma compact_parts_bounds:
  assumes "compact_parts v = (m, s)" and "v < 2 ^ 256"
  shows "m < 2 ^ 23" "s \<le> 33" "v \<noteq> 0 \<Longrightarrow> 2 ^ 15 \<le> m"
proof -
  have "byte_len v \<le> 32" by (rule byte_len_le) (use assms(2) in simp)
  then show "s \<le> 33" using assms(1) by (auto simp: compact_parts_eq split: if_splits)
  show "m < 2 ^ 23" using assms(1) mantissa_less [of v] by (auto simp: compact_parts_eq split: if_splits)
  show "v \<noteq> 0 \<Longrightarrow> 2 ^ 15 \<le> m"
    using assms(1) mantissa_ge [of v] by (auto simp: compact_parts_eq split: if_splits)
qed

lemma raw_mantissa:
  fixes val :: U256
  defines "sz \<equiv> (u256_bits val + 7) div 8"
  shows "\<exists>c. (if sz \<le> 3
      then res_bind (u256_as_u32 val) (\<lambda>v. Ok (push_bit (8 * (3 - sz)) v))
      else u256_as_u32 (drop_bit (8 * (sz - 3)) val)) = Ok c \<and> unat c = mantissa (unat val)"
proof -
  have sz: "sz = byte_len (unat val)" by (simp add: sz_def byte_len_def u256_bits_def)
  have lt: "mantissa (unat val) < 2 ^ 32" using mantissa_less [of "unat val"] by simp
  show ?thesis
  proof (cases "sz \<le> 3")
    case True
    have "unat val < 2 ^ 32"
    proof (cases "unat val = 0")
      case False
      have "unat val < 256 ^ sz" using byte_len_bounds(3) [OF False] sz by simp
      also have "\<dots> \<le> 256 ^ 3" using True by (intro power_increasing) simp_all
      finally show ?thesis by simp
    qed simp
    then have "u256_as_u32 val = Ok (ucast val)" "unat (ucast val :: u32) = unat val"
      by (simp_all add: u256_as_u32_def unsigned_ucast_eq take_bit_nat_eq_self)
    moreover have "unat val * 256 ^ (3 - sz) mod 2 ^ 32 = mantissa (unat val)"
      using lt True sz by (simp add: mantissa_def)
    ultimately show ?thesis using True by (simp add: unat_push_bit pow_8 del: push_bit_eq_mult)
  next
    case False
    then have m: "unat (drop_bit (8 * (sz - 3)) val) = mantissa (unat val)"
      by (simp only: unat_drop_bit pow_8 sz mantissa_def) simp
    then show ?thesis using False lt
      by (simp add: u256_as_u32_def unsigned_ucast_eq take_bit_nat_eq_self)
  qed
qed

lemma unat_or_exponent:
  assumes "unat (x :: u32) < 2 ^ 24" and "s < 2 ^ 8"
  shows "unat (x OR word_of_nat (s * 2 ^ 24)) = unat x + s * 2 ^ 24"
proof -
  have "unat (word_of_nat (s * 2 ^ 24) :: u32) = s * 2 ^ 24"
    using assms(2) by (subst unat_of_nat) simp
  then show ?thesis by (simp only: unsigned_or_eq nat_or_shifted [OF assms(1)])
qed

lemma compact_from_u256_parts:
  assumes "compact_parts (unat val) = (m, s)"
  shows "\<exists>c. compact_from_u256 val = Ok c \<and> unat c = m + s * 2 ^ 24"
proof -
  obtain c where c: "(let sz = (u256_bits val + 7) div 8 in if sz \<le> 3
      then res_bind (u256_as_u32 val) (\<lambda>v. Ok (push_bit (8 * (3 - sz)) v))
      else u256_as_u32 (drop_bit (8 * (sz - 3)) val)) = Ok c"
    and m: "unat c = mantissa (unat val)" using raw_mantissa [of val] by (auto simp: Let_def)
  have lt: "unat c < 2 ^ 24" using mantissa_less m by simp
  have top: "c AND 0x00800000 = 0x00800000 \<longleftrightarrow> 2 ^ 23 \<le> mantissa (unat val)"
    unfolding and_0x800000 bit_23_nat [OF lt] m ..
  have sz: "(u256_bits val + 7) div 8 = byte_len (unat val)"
    by (simp add: byte_len_def u256_bits_def)
  have "byte_len (unat val) \<le> 32" by (rule byte_len_le) (use unat_u256_lt [of val] in simp)
  then have small: "byte_len (unat val) < 2 ^ 8" "byte_len (unat val) + 1 < 2 ^ 8" by simp_all
  have drop: "unat (drop_bit 8 c) = mantissa (unat val) div 256" "unat (drop_bit 8 c) < 2 ^ 24"
    using lt by (simp_all only: unat_drop_bit m) simp_all
  show ?thesis
  proof (cases "2 ^ 23 \<le> mantissa (unat val)")
    case True
    then have "compact_from_u256 val =
        Ok (drop_bit 8 c OR word_of_nat ((byte_len (unat val) + 1) * 2 ^ 24))"
      using c top unfolding compact_from_u256_def Let_def by (simp only: sz res_bind_simps if_True split_conv)
    then show ?thesis using True assms unat_or_exponent [OF drop(2) small(2)] drop(1)
      by (auto simp: compact_parts_eq)
  next
    case False
    then have "compact_from_u256 val = Ok (c OR word_of_nat (byte_len (unat val) * 2 ^ 24))"
      using c top unfolding compact_from_u256_def Let_def by (simp only: sz res_bind_simps if_False split_conv)
    then show ?thesis using False assms unat_or_exponent [OF lt small(1)] m
      by (auto simp: compact_parts_eq)
  qed
qed

text \<open>Decoding the encoded target clears the bytes below the mantissa and changes nothing else.\<close>

lemma target_nat_parts: "m < 2 ^ 23 \<Longrightarrow> target_nat (m + s * 2 ^ 24) =
    (if s \<le> 3 then m div 256 ^ (3 - s) else (m * 256 ^ (s - 3)) mod 2 ^ 256)"
proof -
  assume m: "m < 2 ^ 23"
  have "(m + s * 2 ^ 24) div 2 ^ 24 = s" using m by simp
  moreover have "(m + s * 2 ^ 24) mod 2 ^ 23 = m"
    using m mod_mult_self1 [of m "2 * s" "2 ^ 23"] by (simp add: mult.commute)
  ultimately show ?thesis by (simp add: target_nat_def)
qed

lemma truncated_parts:
  assumes "compact_parts v = (m, s)"
  shows "if s \<le> 3 then m div 256 ^ (3 - s) = v else m = v div 256 ^ (s - 3)"
proof (cases "2 ^ 23 \<le> mantissa v")
  case False
  then show ?thesis using assms by (auto simp: compact_parts_eq mantissa_def)
next
  case True
  then have ms: "m = mantissa v div 256" "s = byte_len v + 1" using assms by (auto simp: compact_parts_eq)
  consider "byte_len v \<le> 2" | "byte_len v = 3" | "4 \<le> byte_len v" by linarith
  then show ?thesis
  proof cases
    case 1
    then have "3 - byte_len v = Suc (2 - byte_len v)" by simp
    then show ?thesis using 1 ms by (simp add: mantissa_def)
  next
    case 2
    then show ?thesis using ms by (simp add: mantissa_def)
  next
    case 3
    then have "s - 3 = Suc (byte_len v - 3)" using ms by simp
    then show ?thesis using 3 ms by (simp add: mantissa_def div_mult2_eq [symmetric] mult.commute)
  qed
qed

lemma encoded_target:
  obtains c where "compact_from_u256 v = Ok c"
    and "unat (u256_from_compact c) \<le> unat v"
    and "(unat v - unat (u256_from_compact c)) * 2 ^ 15 \<le> unat v"
proof -
  obtain m s where p: "compact_parts (unat v) = (m, s)" by fastforce
  note lt = unat_u256_lt [of v]
  obtain c where c: "compact_from_u256 v = Ok c" and uc: "unat c = m + s * 2 ^ 24"
    using compact_from_u256_parts [OF p] by blast
  have t: "unat (u256_from_compact c) =
      (if s \<le> 3 then m div 256 ^ (3 - s) else (m * 256 ^ (s - 3)) mod 2 ^ 256)"
    unfolding unat_u256_from_compact uc by (rule target_nat_parts [OF compact_parts_bounds(1) [OF p lt]])
  show thesis
  proof (cases "s \<le> 3")
    case True
    then have "unat (u256_from_compact c) = unat v" using t truncated_parts [OF p] by simp
    then show thesis using c by (intro that [of c]) simp_all
  next
    case False
    define d where "d = (256 :: nat) ^ (s - 3)"
    have m: "m = unat v div d" using truncated_parts [OF p] False by (simp add: d_def)
    have le: "m * d \<le> unat v" unfolding m by (simp add: div_times_less_eq_dividend)
    then have tv: "unat (u256_from_compact c) = m * d" using t lt False by (simp add: d_def)
    have "unat v - m * d < d" unfolding m by (simp add: d_def minus_div_mult_eq_mod)
    moreover have "d * 2 ^ 15 \<le> unat v" if "unat v \<noteq> 0"
    proof -
      have "d * 2 ^ 15 \<le> d * m" using compact_parts_bounds(3) [OF p lt that] by simp
      then show ?thesis using le by (metis mult.commute le_trans)
    qed
    ultimately have "(unat v - m * d) * 2 ^ 15 \<le> unat v" by (cases "unat v = 0") auto
    then show thesis using c tv le by (intro that [of c]) simp_all
  qed
qed

section \<open>Canonical compact values\<close>

text \<open>The sign bit is clear, the mantissa has no leading zero byte, and the target fits.\<close>

definition compact_canonical :: "u32 \<Rightarrow> bool" where
  "compact_canonical c \<longleftrightarrow>
     (let m = unat c mod 2 ^ 24; s = unat c div 2 ^ 24 in
      2 ^ 15 \<le> m \<and> m < 2 ^ 23 \<and> 3 \<le> s \<and> s \<le> 32)"

lemma compact_parts_canonical:
  assumes "2 ^ 15 \<le> m" "m < 2 ^ 23" "3 \<le> s"
  shows "compact_parts (m * 256 ^ (s - 3)) = (m, s)"
proof (cases "256 ^ 2 \<le> m")
  case True
  let ?t = "m * 256 ^ (s - 3)"
  have "256 ^ 2 * 256 ^ (s - 3) \<le> ?t" "?t < 256 ^ 3 * 256 ^ (s - 3)" using True assms(2) by simp_all
  then have "256 ^ (2 + (s - 3)) \<le> ?t" "?t < 256 ^ Suc (2 + (s - 3))" by (simp_all add: power_add)
  then have "byte_len ?t = Suc (2 + (s - 3))" by (rule byte_len_eq)
  then have "byte_len ?t = s" using assms(3) by simp
  then have "byte_len ?t = s \<and> mantissa ?t = m" using assms(3) by (auto simp: mantissa_def)
  then show ?thesis using assms by (simp add: compact_parts_eq)
next
  case False
  let ?t = "m * 256 ^ (s - 3)"
  have "256 * 256 ^ (s - 3) \<le> ?t" "?t < 256 ^ 2 * 256 ^ (s - 3)" using False assms(1) by simp_all
  then have "256 ^ (1 + (s - 3)) \<le> ?t" "?t < 256 ^ Suc (1 + (s - 3))" by (simp_all add: power_add)
  then have "byte_len ?t = Suc (1 + (s - 3))" by (rule byte_len_eq)
  then have len: "byte_len ?t = s - 1" using assms(3) by simp
  have "mantissa ?t = m * 256"
  proof (cases "s \<le> 4")
    case True
    then have "s = 3 \<or> s = 4" using assms(3) by linarith
    then show ?thesis using len by (auto simp: mantissa_def)
  next
    case False
    then have "s - 3 = Suc (s - 4)" by simp
    then show ?thesis using len False by (simp add: mantissa_def)
  qed
  then show ?thesis using len assms by (simp add: compact_parts_eq)
qed

lemma canonical_target:
  assumes "compact_canonical c"
  shows "unat (u256_from_compact c) = unat c mod 2 ^ 24 * 256 ^ (unat c div 2 ^ 24 - 3)"
proof -
  let ?m = "unat c mod 2 ^ 24" and ?s = "unat c div 2 ^ 24"
  have m: "2 ^ 15 \<le> ?m" "?m < 2 ^ 23" "3 \<le> ?s" "?s \<le> 32"
    using assms by (simp_all add: compact_canonical_def Let_def)
  have "?m * 256 ^ (?s - 3) < 2 ^ 24 * 256 ^ (?s - 3)" using m(2) by simp
  also have "\<dots> \<le> 2 ^ 24 * 256 ^ 29" using m(4) by (intro mult_left_mono power_increasing) simp_all
  also have "\<dots> = 2 ^ 256" by simp
  finally have fits: "?m * 256 ^ (?s - 3) < 2 ^ 256" .
  have "unat c = ?m + ?s * 2 ^ 24" by simp
  then have "unat (u256_from_compact c) = target_nat (?m + ?s * 2 ^ 24)"
    by (simp only: unat_u256_from_compact)
  also have "\<dots> = (if ?s \<le> 3 then ?m div 256 ^ (3 - ?s) else (?m * 256 ^ (?s - 3)) mod 2 ^ 256)"
    by (rule target_nat_parts [OF m(2)])
  also have "\<dots> = ?m * 256 ^ (?s - 3)" using fits m(3) by (cases "?s = 3") simp_all
  finally show ?thesis .
qed

section \<open>Retargeting and work\<close>

lemma unat_POW_LIMIT: "unat POW_LIMIT = 2 ^ 224 - 1"
  by (simp add: POW_LIMIT_def)

lemma timespan_values:
  "POW_TARGET_TIMESPAN = 1209600" "POW_TARGET_TIMESPAN div 4 = 302400" "POW_TARGET_TIMESPAN * 4 = 4838400"
  by (simp_all add: POW_TARGET_TIMESPAN_def)

lemma clamped_bounds: "302400 \<le> unat (clamped_timespan l f)" "unat (clamped_timespan l f) \<le> 4838400"
  by (simp_all add: clamped_timespan_def Let_def timespan_values word_less_nat_alt not_less)

definition next_target :: "nat \<Rightarrow> nat \<Rightarrow> nat" where
  "next_target T span = min (2 ^ 224 - 1) (T * span div 1209600)"

lemma next_target_bounds:
  assumes "302400 \<le> span" "span \<le> 4838400" "T \<le> 2 ^ 224 - 1"
  shows "T div 4 \<le> next_target T span" "next_target T span \<le> 4 * T"
proof -
  have "T * 302400 div 1209600 \<le> T * span div 1209600" using assms(1) by (intro div_le_mono) simp
  then show "T div 4 \<le> next_target T span" using assms(3) by (simp add: next_target_def)
  have "T * span div 1209600 \<le> T * 4838400 div 1209600" using assms(2) by (intro div_le_mono) simp
  then show "next_target T span \<le> 4 * T" by (simp add: next_target_def)
qed

lemma next_work_encodes:
  assumes "u256_from_compact bits \<le> POW_LIMIT"
  shows "\<exists>d. calculate_next_work_required l f bits = compact_from_u256 d \<and>
    unat d = next_target (unat (u256_from_compact bits)) (unat (clamped_timespan l f))"
proof -
  let ?T = "u256_from_compact bits" and ?k = "ucast (clamped_timespan l f) :: U256"
  have T: "unat ?T \<le> 2 ^ 224 - 1" using assms unfolding word_le_nat_alt unat_POW_LIMIT .
  have k: "unat ?k \<le> 4838400" using clamped_bounds(2) by simp
  have "unat ?T * unat ?k \<le> (2 ^ 224 - 1) * 4838400" by (rule mult_le_mono [OF T k])
  then have fit: "unat ?T * unat ?k < 2 ^ 256" by simp
  then have mul: "u256_mul ?T ?k = Ok (?T * ?k)" by (simp add: u256_mul_def)
  have um: "unat (?T * ?k) = unat ?T * unat ?k"
    using fit by (simp add: unat_word_ariths(2) del: unat_u64_to_u256)
  let ?q = "?T * ?k div ucast POW_TARGET_TIMESPAN"
  have dv: "u256_div (?T * ?k) (ucast POW_TARGET_TIMESPAN) = Ok ?q"
    by (simp add: u256_div_def timespan_values)
  have uq: "unat ?q = unat ?T * unat ?k div 1209600"
    by (simp only: unat_div um) (simp add: timespan_values)
  let ?d = "if POW_LIMIT < ?q then POW_LIMIT else ?q"
  have "calculate_next_work_required l f bits = compact_from_u256 ?d"
    unfolding calculate_next_work_required_def mul res_bind_simps dv ..
  moreover have "unat ?d = next_target (unat ?T) (unat (clamped_timespan l f))"
    using uq unat_POW_LIMIT by (simp add: next_target_def word_less_nat_alt min_def not_less)
  ultimately show ?thesis by blast
qed

lemma target_not_max: "unat (u256_from_compact bits) + 1 < 2 ^ 256"
proof -
  let ?m = "unat bits mod 2 ^ 23" and ?s = "unat bits div 2 ^ 24"
  have T: "unat (u256_from_compact bits) =
      (if ?s \<le> 3 then ?m div 256 ^ (3 - ?s) else (?m * 256 ^ (?s - 3)) mod 2 ^ 256)"
    by (simp add: unat_u256_from_compact target_nat_def Let_def)
  show ?thesis
  proof (cases "?s \<le> 3")
    case True
    have "?m div 256 ^ (3 - ?s) \<le> ?m" by (rule div_le_dividend)
    also have "?m < 2 ^ 23" by simp
    finally show ?thesis using T True by simp
  next
    case False
    then have "even ((?m * 256 ^ (?s - 3)) mod 2 ^ 256)" by (simp add: dvd_mod_iff)
    then have "unat (u256_from_compact bits) \<noteq> 2 ^ 256 - 1" using T False by auto
    then show ?thesis using unat_u256_lt [of "u256_from_compact bits"] by simp
  qed
qed

lemma unat_not_u256: "unat (NOT x) = 2 ^ 256 - 1 - unat x" for x :: U256
proof -
  have "NOT x = - 1 - x" by (simp add: not_eq_complement)
  then have "unat (NOT x) = unat (- 1 :: U256) - unat x" by (simp add: unat_sub word_order.extremum)
  then show ?thesis by (simp add: unsigned_minus_1_eq_mask mask_eq_exp_minus_1)
qed

lemma get_work_value:
  "get_work bits =
     (if u256_from_compact bits = 0 then Panic
      else Ok (word_of_nat (2 ^ 256 div (unat (u256_from_compact bits) + 1))))"
proof -
  let ?T = "u256_from_compact bits"
  define t where "t = unat ?T"
  have lt: "t + 1 < 2 ^ 256" using target_not_max by (simp add: t_def)
  have add: "u256_add ?T 1 = Ok (?T + 1)" using lt by (simp add: u256_add_def t_def)
  have u1: "unat (?T + 1) = t + 1" using lt by (simp add: unat_word_ariths(1) t_def)
  then have "?T + 1 \<noteq> 0" by (metis Suc_eq_plus1 nat.distinct(1) unat_0)
  then have dv: "u256_div (NOT ?T) (?T + 1) = Ok (NOT ?T div (?T + 1))" by (simp add: u256_div_def)
  have "2 ^ 256 div (t + 1) = Suc ((2 ^ 256 - (t + 1)) div (t + 1))"
    using lt by (intro le_div_geq) simp_all
  then have uq: "unat (NOT ?T div (?T + 1)) + 1 = 2 ^ 256 div (t + 1)"
    by (simp only: unat_div unat_not_u256 u1) (simp add: t_def)
  have work: "get_work bits = u256_add (NOT ?T div (?T + 1)) 1"
    by (simp add: get_work_def Let_def add dv)
  show ?thesis
  proof (cases "?T = 0")
    case True
    then show ?thesis using work uq by (simp add: u256_add_def t_def)
  next
    case False
    then have "1 \<le> t" by (simp add: t_def unat_gt_0 Suc_le_eq)
    then have "2 ^ 256 div (t + 1) \<le> 2 ^ 256 div 2" by (intro div_le_mono2) simp_all
    then have "unat (NOT ?T div (?T + 1)) + 1 < 2 ^ 256" using uq by simp
    then have "get_work bits = Ok (NOT ?T div (?T + 1) + 1)"
      unfolding work u256_add_def by simp
    moreover have "NOT ?T div (?T + 1) + 1 = word_of_nat (unat (NOT ?T div (?T + 1)) + 1)"
      by (simp add: of_nat_unat)
    ultimately show ?thesis using False uq by (simp only: t_def if_False)
  qed
qed

section \<open>Properties\<close>

text \<open>
  Encoding any 256-bit target in compact form returns a value (no panic of the checked
  conversions), and decoding it again gives a target that is not above the original and misses
  it by at most one part in \<open>2 ^ 15\<close>.
\<close>

lemma compact_encoding_precision:
  "\<exists>c. compact_from_u256 v = Ok c \<and> unat (u256_from_compact c) \<le> unat v \<and>
     (unat v - unat (u256_from_compact c)) * 2 ^ 15 \<le> unat v"
  by (rule encoded_target [of v]) blast

text \<open>
  Compact values with a clear sign bit, a normalised mantissa and a target that fits into
  256 bits survive decoding and encoding unchanged.
\<close>

lemma compact_round_trip:
  assumes "compact_canonical c"
  shows "compact_from_u256 (u256_from_compact c) = Ok c"
proof -
  let ?m = "unat c mod 2 ^ 24" and ?s = "unat c div 2 ^ 24"
  have "2 ^ 15 \<le> ?m" "?m < 2 ^ 23" "3 \<le> ?s"
    using assms by (simp_all add: compact_canonical_def Let_def)
  then have "compact_parts (unat (u256_from_compact c)) = (?m, ?s)"
    unfolding canonical_target [OF assms] by (rule compact_parts_canonical)
  from compact_from_u256_parts [OF this] obtain c' where
    "compact_from_u256 (u256_from_compact c) = Ok c'" "unat c' = ?m + ?s * 2 ^ 24" by blast
  moreover have "?m + ?s * 2 ^ 24 = unat c" by simp
  ultimately show ?thesis by (metis unsigned_word_eqI)
qed

text \<open>
  C18: When the previous target \<open>T\<close> is within the limit, retargeting returns a compact value; its
  target is the encoding of \<open>d\<close>, the previous target scaled by the clamped time span and cut at
  the limit, so the difficulty changes at most by a factor of four in either direction.
\<close>

theorem retarget_bounds:
  assumes "u256_from_compact bits \<le> POW_LIMIT"
  shows "\<exists>c d. calculate_next_work_required t1 t0 bits = Ok c \<and>
    d = min (2 ^ 224 - 1)
      (unat (u256_from_compact bits) * unat (clamped_timespan t1 t0) div 1209600) \<and>
    unat (u256_from_compact c) \<le> d \<and> (d - unat (u256_from_compact c)) * 2 ^ 15 \<le> d \<and>
    unat (u256_from_compact bits) div 4 \<le> d \<and> d \<le> 4 * unat (u256_from_compact bits)"
proof -
  let ?T = "unat (u256_from_compact bits)" and ?k = "unat (clamped_timespan t1 t0)"
  obtain w where w: "calculate_next_work_required t1 t0 bits = compact_from_u256 w"
      "unat w = next_target ?T ?k"
    using next_work_encodes [OF assms] by blast
  obtain c where c: "compact_from_u256 w = Ok c" "unat (u256_from_compact c) \<le> unat w"
      "(unat w - unat (u256_from_compact c)) * 2 ^ 15 \<le> unat w"
    by (rule encoded_target [of w])
  have T: "?T \<le> 2 ^ 224 - 1" using assms unfolding word_le_nat_alt unat_POW_LIMIT .
  note b = next_target_bounds [OF clamped_bounds T, of t1 t0]
  show ?thesis using w c b by (intro exI [of _ c] exI [of _ "unat w"]) (simp add: next_target_def)
qed

theorem retarget_bounds_witness:
  "\<exists>c d. calculate_next_work_required 1262152739 1261130161 0x1d00ffff = Ok c \<and>
    d = min (2 ^ 224 - 1)
      (unat (u256_from_compact 0x1d00ffff) * unat (clamped_timespan 1262152739 1261130161) div 1209600) \<and>
    unat (u256_from_compact c) \<le> d \<and> (d - unat (u256_from_compact c)) * 2 ^ 15 \<le> d \<and>
    unat (u256_from_compact 0x1d00ffff) div 4 \<le> d \<and> d \<le> 4 * unat (u256_from_compact 0x1d00ffff)"
  by (rule retarget_bounds)
    (simp add: word_le_nat_alt unat_POW_LIMIT unat_u256_from_compact target_nat_def)

text \<open>
  When the last block of the period carries an earlier time stamp than the first one, the
  unsigned subtraction wraps and, instead of the shortest span, the longest span is used: the
  target is multiplied by four.
\<close>

lemma negative_timespan_wraps:
  assumes "t1 < t0" and "unat t0 - unat t1 \<le> 2 ^ 31"
  shows "clamped_timespan t1 t0 = POW_TARGET_TIMESPAN * 4"
proof -
  have "unat t1 < unat t0" using assms(1) by (simp add: word_less_nat_alt)
  then have "unat (t1 - t0) = 2 ^ 32 - (unat t0 - unat t1)"
    using unsigned_less [of t0] by (simp add: unat_sub_if')
  then have "4838400 < unat (t1 - t0)" using assms(2) by simp
  moreover have "unat (ucast (t1 - t0) :: u64) = unat (t1 - t0)"
    by (rule unat_u32_to_u64)
  ultimately show ?thesis
    by (simp add: clamped_timespan_def Let_def timespan_values word_less_nat_alt del: unsigned_ucast_eq)
qed

text \<open>
  A header that passes \<open>is_valid\<close> has a computable work, equal to the expected number of
  hashes \<open>2 ^ 256 div (target + 1)\<close>; the checked additions of \<open>get_work\<close> overflow exactly for a
  zero target, which no valid header has.
\<close>

lemma valid_header_work:
  assumes "is_valid bits hash"
  shows "\<exists>w. get_work bits = Ok w \<and> unat w = 2 ^ 256 div (unat (u256_from_compact bits) + 1)"
proof -
  let ?T = "u256_from_compact bits"
  have nz: "?T \<noteq> 0" using assms by (auto simp: is_valid_def Let_def)
  then have "2 ^ 256 div (unat ?T + 1) \<le> 2 ^ 256 div 2"
    by (intro div_le_mono2) (simp_all add: unat_gt_0 Suc_le_eq)
  then have "unat (word_of_nat (2 ^ 256 div (unat ?T + 1)) :: U256) = 2 ^ 256 div (unat ?T + 1)"
    by (subst unat_of_nat) simp
  then show ?thesis using nz by (simp add: get_work_value)
qed

lemma from_le_zeros: "from_le (replicate n 0) = 0"
  by (induction n) simp_all

end
