(* ===== verification/BlockCodec.thy ===== *)
theory BlockCodec
  imports TxCodec Merkle Pow
begin

text \<open>
  Block headers (\<open>src/src/packets/blockheader.rs\<close>), the headers message
  (\<open>headers.rs\<close>), blocks (\<open>block.rs\<close>) and the genesis header (\<open>src/src/util/genesis.rs\<close>).

  A decoded header carries its hash and has passed the proof-of-work check; a decoded block has
  passed the check of its transactions against the Merkle root.  \<open>Sha256::digest\<close> is the
  parameter \<open>sha\<close>.
\<close>

section \<open>Headers\<close>

record BlockHeader =
  bh_version :: u32
  bh_parent :: hash32
  bh_merkle_root :: hash32
  bh_timestamp :: u32
  bh_bits :: u32
  bh_nonce :: u32
  bh_txs_count :: VarInt
  bh_hash :: hash32

definition BlockHeader_default :: BlockHeader where
  "BlockHeader_default = \<lparr>bh_version = 0, bh_parent = EMPTY_HASH, bh_merkle_root = EMPTY_HASH,
     bh_timestamp = 0, bh_bits = 0, bh_nonce = 0, bh_txs_count = 0, bh_hash = EMPTY_HASH\<rparr>"

definition header_work :: "BlockHeader \<Rightarrow> U256 res" where
  "header_work h = get_work (bh_bits h)"

definition header_is_valid :: "BlockHeader \<Rightarrow> bool" where
  "header_is_valid h = is_valid (bh_bits h) (bh_hash h)"

definition BlockHeader_deserialize_borrowed :: "(bytes \<Rightarrow> bytes) \<Rightarrow> BlockHeader decoder" where
  "BlockHeader_deserialize_borrowed sha a buffer =
     res_bind (get_u32_le buffer 0) (\<lambda>version.
     res_bind (get_hash buffer 4) (\<lambda>parent.
     res_bind (get_hash buffer 36) (\<lambda>merkle_root.
     res_bind (get_u32_le buffer 68) (\<lambda>timestamp.
     res_bind (get_u32_le buffer 72) (\<lambda>bits.
     res_bind (get_u32_le buffer 76) (\<lambda>nonce.
     res_bind (with_offset buffer 80) (\<lambda>b.
     res_bind (deserialize_varint b) (\<lambda>(txs_count, offset).
     res_bind (opt_unwrap (get_range buffer 0 80)) (\<lambda>raw.
     let hash = sha (sha raw);
         h = \<lparr>bh_version = version, bh_parent = parent, bh_merkle_root = merkle_root,
              bh_timestamp = timestamp, bh_bits = bits, bh_nonce = nonce,
              bh_txs_count = txs_count, bh_hash = hash\<rparr> in
     if \<not> header_is_valid h then Err (Msg ''invalid header'')
     else Ok (h, wadd 80 offset, a))))))))))"

definition BlockHeader_serialize :: "BlockHeader \<Rightarrow> bytes" where
  "BlockHeader_serialize h =
     u32_to_le_bytes (bh_version h) @ bh_parent h @ bh_merkle_root h @
     u32_to_le_bytes (bh_timestamp h) @ u32_to_le_bytes (bh_bits h) @ u32_to_le_bytes (bh_nonce h) @
     fst (serialize_varint (bh_txs_count h))"

definition BlockHeader_construct ::
  "(bytes \<Rightarrow> bytes) \<Rightarrow> u32 \<Rightarrow> hash32 \<Rightarrow> hash32 \<Rightarrow> u32 \<Rightarrow> u32 \<Rightarrow> u32 \<Rightarrow> VarInt \<Rightarrow> BlockHeader res" where
  "BlockHeader_construct sha version parent merkle_root timestamp bits nonce txs_count =
     (let s = \<lparr>bh_version = version, bh_parent = parent, bh_merkle_root = merkle_root,
          bh_timestamp = timestamp, bh_bits = bits, bh_nonce = nonce, bh_txs_count = txs_count,
          bh_hash = EMPTY_HASH\<rparr> in
      res_bind (opt_unwrap (get_range (BlockHeader_serialize s) 0 80)) (\<lambda>raw.
      Ok (s\<lparr>bh_hash := sha (sha raw)\<rparr>)))"

definition BlockHeaderOwned_from :: "BlockHeader \<Rightarrow> BlockHeader" where
  "BlockHeaderOwned_from v = \<lparr>bh_version = bh_version v, bh_parent = bh_parent v,
     bh_merkle_root = bh_merkle_root v, bh_timestamp = bh_timestamp v, bh_bits = bh_bits v,
     bh_nonce = bh_nonce v, bh_txs_count = bh_txs_count v, bh_hash = bh_hash v\<rparr>"

definition GENESIS_HEADER :: "(bytes \<Rightarrow> bytes) \<Rightarrow> BlockHeader res" where
  "GENESIS_HEADER sha =
     BlockHeader_construct sha 0x01 (replicate 32 0)
       [0x3b, 0xa3, 0xed, 0xfd, 0x7a, 0x7b, 0x12, 0xb2, 0x7a, 0xc7, 0x2c, 0x3e, 0x67, 0x76,
        0x8f, 0x61, 0x7f, 0xc8, 0x1b, 0xc3, 0x88, 0x8a, 0x51, 0x32, 0x3a, 0x9f, 0xb8, 0xaa,
        0x4b, 0x1e, 0x5e, 0x4a]
       1231006505 0x1d00ffff 0x7c2bac1d 1"

text \<open>The eighty bytes that are hashed.\<close>

definition header_raw :: "BlockHeader \<Rightarrow> bytes" where
  "header_raw h =
     u32_to_le_bytes (bh_version h) @ bh_parent h @ bh_merkle_root h @
     u32_to_le_bytes (bh_timestamp h) @ u32_to_le_bytes (bh_bits h) @ u32_to_le_bytes (bh_nonce h)"

definition BlockHeader_ok :: "(bytes \<Rightarrow> bytes) \<Rightarrow> BlockHeader \<Rightarrow> bool" where
  "BlockHeader_ok sha h \<longleftrightarrow> length (bh_parent h) = 32 \<and> length (bh_merkle_root h) = 32 \<and>
     bh_hash h = sha (sha (header_raw h)) \<and> header_is_valid h"

lemma header_serialize_raw:
  "BlockHeader_serialize h = header_raw h @ fst (serialize_varint (bh_txs_count h))"
  by (simp add: BlockHeader_serialize_def header_raw_def)

lemma length_header_raw:
  "length (bh_parent h) = 32 \<Longrightarrow> length (bh_merkle_root h) = 32 \<Longrightarrow> length (header_raw h) = 80"
  by (simp add: header_raw_def)

lemma header_fields:
  assumes "length (bh_parent h) = 32" "length (bh_merkle_root h) = 32"
  shows "get_u32_le (header_raw h @ r) 0 = Ok (bh_version h)"
    "get_hash (header_raw h @ r) 4 = Ok (bh_parent h)"
    "get_hash (header_raw h @ r) 36 = Ok (bh_merkle_root h)"
    "get_u32_le (header_raw h @ r) 68 = Ok (bh_timestamp h)"
    "get_u32_le (header_raw h @ r) 72 = Ok (bh_bits h)"
    "get_u32_le (header_raw h @ r) 76 = Ok (bh_nonce h)"
  using assms by (simp_all add: header_raw_def wire_simps)

lemma header_decode_encode:
  assumes "BlockHeader_ok sha h"
  shows "BlockHeader_deserialize_borrowed sha a (BlockHeader_serialize h @ rest) =
    Ok (h, length (BlockHeader_serialize h), a)"
proof -
  have l: "length (bh_parent h) = 32" "length (bh_merkle_root h) = 32"
    and hash: "bh_hash h = sha (sha (header_raw h))" "header_is_valid h"
    using assms by (simp_all add: BlockHeader_ok_def)
  let ?r = "fst (serialize_varint (bh_txs_count h)) @ rest"
  have raw: "get_range (header_raw h @ ?r) 0 80 = Some (header_raw h)"
    using length_header_raw [OF l] by (simp add: get_range_def)
  have off: "with_offset (header_raw h @ ?r) 80 = Ok ?r"
    by (rule with_offset_at) (simp add: length_header_raw [OF l])
  have "\<lparr>bh_version = bh_version h, bh_parent = bh_parent h, bh_merkle_root = bh_merkle_root h,
      bh_timestamp = bh_timestamp h, bh_bits = bh_bits h, bh_nonce = bh_nonce h,
      bh_txs_count = bh_txs_count h, bh_hash = sha (sha (header_raw h))\<rparr> = h"
    using hash(1) by simp
  then show ?thesis
    using hash(2) length_varint_bounds [of "bh_txs_count h"]
    by (simp add: BlockHeader_deserialize_borrowed_def header_serialize_raw header_fields [OF l]
        raw off deserialize_serialize_varint length_header_raw [OF l])
qed

interpretation header: codec BlockHeader_serialize "BlockHeader_deserialize_borrowed sha"
  "BlockHeader_ok sha" "\<lambda>_. 0" for sha
proof unfold_locales
  fix h rest a
  assume "BlockHeader_ok sha h" "arena_room a 0"
  then show "\<exists>a'. BlockHeader_deserialize_borrowed sha a (BlockHeader_serialize h @ rest) =
      Ok (h, length (BlockHeader_serialize h), a') \<and> arena_after a a' 0"
    using header_decode_encode by (auto dest: arena_roomD)
next
  fix a b h n a'
  assume d: "BlockHeader_deserialize_borrowed sha a b = Ok (h, n, a')" and len: "length b < 2 ^ 63"
  from d obtain v off where v: "deserialize_varint (drop 80 b) = Ok (v, off)" "80 \<le> length b"
    and n: "n = wadd 80 off"
    by (auto simp: BlockHeader_deserialize_borrowed_def res_bind_Ok_iff Let_def with_offset_def
        get_from_def ok_or_def split: if_splits option.splits)
  have "length (drop 80 b) < 2 ^ 63" using len by simp
  from deserialize_varint_bounds [OF v(1) this] show "n \<le> length b"
    using v(2) n wadd_le [of 80 off] by auto
qed

section \<open>The headers message\<close>

definition HEADERS_COMMAND :: bytes where
  "HEADERS_COMMAND = command12 ''headers''"

record Headers =
  headers_inner :: "BlockHeader list"

definition Headers_deserialize_borrowed :: "(bytes \<Rightarrow> bytes) \<Rightarrow> layouts \<Rightarrow> Headers decoder" where
  "Headers_deserialize_borrowed sha L a buffer =
     res_bind (deserialize_array (L TyBlockHeader) (BlockHeader_deserialize_borrowed sha) a buffer)
       (\<lambda>(deserialized, consumed, a). Ok (\<lparr>headers_inner = deserialized\<rparr>, consumed, a))"

definition Headers_serialize :: "Headers \<Rightarrow> bytes" where
  "Headers_serialize x = serialize_array BlockHeader_serialize (headers_inner x)"

definition HeadersOwned_from :: "Headers \<Rightarrow> Headers" where
  "HeadersOwned_from v = \<lparr>headers_inner = map BlockHeaderOwned_from (headers_inner v)\<rparr>"

interpretation headers: codec Headers_serialize "Headers_deserialize_borrowed sha L"
  "\<lambda>x. array_ok (BlockHeader_ok sha) (headers_inner x)"
  "\<lambda>x. array_need (L TyBlockHeader) (\<lambda>_. 0) (headers_inner x)" for sha L
  by (rule codec.wrapped_codec [OF header.array_codec, where mk = "\<lambda>xs. \<lparr>headers_inner = xs\<rparr>"])
    (simp_all add: Headers_serialize_def Headers_deserialize_borrowed_def)

section \<open>Blocks\<close>

definition BLOCK_COMMAND :: bytes where
  "BLOCK_COMMAND = command12 ''block''"

record Block =
  bl_header :: BlockHeader
  bl_txs :: "Tx list"

definition Block_deserialize_borrowed :: "(bytes \<Rightarrow> bytes) \<Rightarrow> layouts \<Rightarrow> Block decoder" where
  "Block_deserialize_borrowed sha L allocator buffer =
     res_bind (BlockHeader_deserialize_borrowed sha allocator buffer) (\<lambda>(header, _, a).
     res_bind (with_offset buffer 80) (\<lambda>b.
     res_bind (deserialize_array (L TyTx) (Tx_deserialize_borrowed sha L) a b) (\<lambda>(txs, offset, a).
     let txs_count = (if odd (length txs) then length txs + 1 else length txs);
         merkle_tree = foldl (\<lambda>t tx. append_hash t (tx_hash tx))
           (MerkleTree_with_capacity txs_count) txs in
     res_bind (into_root sha merkle_tree) (\<lambda>(merkle_root, mutated).
     if mutated then Err (Msg ''merkle root mutated'')
     else if merkle_root \<noteq> bh_merkle_root header then Err (Msg ''merkle root does not match'')
     else Ok (\<lparr>bl_header = header, bl_txs = txs\<rparr>, wadd offset 80, a)))))"

definition Block_serialize :: "Block \<Rightarrow> bytes" where
  "Block_serialize x = BlockHeader_serialize (bl_header x) @ concat (map Tx_serialize (bl_txs x))"

definition BlockOwned_from :: "Block \<Rightarrow> Block" where
  "BlockOwned_from v = \<lparr>bl_header = BlockHeaderOwned_from (bl_header v),
     bl_txs = map TxOwned_from (bl_txs v)\<rparr>"

definition commitment_prefix :: bytes where
  "commitment_prefix = [0x6a, 0x24, 0xaa, 0x21, 0xa9, 0xed]"

definition is_commitment :: "TxOut \<Rightarrow> bool res" where
  "is_commitment txout =
     (if 38 \<le> length (to_script txout)
      then res_bind (idx_range (to_script txout) 0 6) (\<lambda>p. Ok (p = commitment_prefix))
      else Ok False)"

fun append_witness_hashes :: "usize \<Rightarrow> Tx list \<Rightarrow> MerkleTree \<Rightarrow> MerkleTree" where
  "append_witness_hashes i [] t = t"
| "append_witness_hashes i (tx # txs) t =
     append_witness_hashes (Suc i) txs
       (append_hash t (if i = 0 then EMPTY_HASH else tx_witness_hash tx))"

text \<open>The body of the loop for the output that carries the commitment.\<close>

definition check_commitment :: "(bytes \<Rightarrow> bytes) \<Rightarrow> Tx list \<Rightarrow> Tx \<Rightarrow> TxOut \<Rightarrow> unit res" where
  "check_commitment sha txs coinbase_tx txout =
     (case tx_witness_data coinbase_tx of
        None \<Rightarrow> Err (Msg ''missing witness data for coinbase tx in a witness block'')
      | Some wd \<Rightarrow>
          res_bind (idx_at wd 0) (\<lambda>coinbase_witness.
          if length coinbase_witness \<noteq> 34 \<or> take 2 coinbase_witness \<noteq> [0x01, 32]
          then Err (Msg ''invalid coinbase witness in a witness block'')
          else
            res_bind (res_unwrap (get_hash (to_script txout) 6)) (\<lambda>witness_commitment.
            res_bind (idx_range coinbase_witness 2 34) (\<lambda>witness_reserve_value.
            let witness_tree = append_witness_hashes 0 txs (MerkleTree_with_capacity (length txs)) in
            res_bind (into_root sha witness_tree) (\<lambda>(witness_root, mutated).
            if mutated then Err (Msg ''witness root mutated'')
            else if witness_commitment \<noteq> sha (sha (witness_root @ witness_reserve_value))
            then Err (Msg ''witness commitment is invalid'')
            else Ok ())))))"

fun commitment_loop :: "(bytes \<Rightarrow> bytes) \<Rightarrow> Tx list \<Rightarrow> Tx \<Rightarrow> TxOut list \<Rightarrow> unit res" where
  "commitment_loop sha txs coinbase_tx [] = Ok ()"
| "commitment_loop sha txs coinbase_tx (txout # txouts) =
     res_bind (is_commitment txout) (\<lambda>c.
     if c then check_commitment sha txs coinbase_tx txout
     else commitment_loop sha txs coinbase_tx txouts)"

definition verify_witness_commitment :: "(bytes \<Rightarrow> bytes) \<Rightarrow> Block \<Rightarrow> unit res" where
  "verify_witness_commitment sha x =
     res_bind (idx_at (bl_txs x) 0) (\<lambda>coinbase_tx.
     commitment_loop sha (bl_txs x) coinbase_tx (rev (tx_txouts coinbase_tx)))"

section \<open>Contract of blocks\<close>

definition Block_ok :: "(bytes \<Rightarrow> bytes) \<Rightarrow> Block \<Rightarrow> bool" where
  "Block_ok sha x \<longleftrightarrow> BlockHeader_ok sha (bl_header x) \<and> array_ok (Tx_ok sha) (bl_txs x) \<and>
     bh_txs_count (bl_header x) = word_of_nat (length (bl_txs x)) \<and>
     into_root sha (merkle_tree_of (map tx_hash (bl_txs x))) =
       Ok (bh_merkle_root (bl_header x), False)"

definition Block_need :: "layouts \<Rightarrow> Block \<Rightarrow> nat" where
  "Block_need L x = array_need (L TyTx) (Tx_need L) (bl_txs x)"

lemma merkle_tree_of_txs:
  "foldl (\<lambda>t tx. append_hash t (tx_hash tx)) (MerkleTree_with_capacity n) txs =
    merkle_tree_of (map tx_hash txs)"
  by (simp add: merkle_tree_of_def foldl_map MerkleTree_with_capacity_def)

lemma Block_decode_encode:
  assumes ok: "Block_ok sha x" and room: "arena_room a (Block_need L x)"
    and len: "length (Block_serialize x @ rest) < 2 ^ 63"
  shows "\<exists>a'. Block_deserialize_borrowed sha L a (Block_serialize x @ rest) =
    Ok (x, length (Block_serialize x), a') \<and> arena_after a a' (Block_need L x)"
proof -
  let ?h = "bl_header x" and ?txs = "bl_txs x"
  have h: "BlockHeader_ok sha ?h" and txs: "array_ok (Tx_ok sha) ?txs"
    and count: "bh_txs_count ?h = word_of_nat (length ?txs)"
    and root: "into_root sha (merkle_tree_of (map tx_hash ?txs)) = Ok (bh_merkle_root ?h, False)"
    using ok by (simp_all add: Block_ok_def)
  have raw: "length (header_raw ?h) = 80"
    by (rule length_header_raw) (use h in \<open>simp_all add: BlockHeader_ok_def\<close>)
  have ser: "Block_serialize x = header_raw ?h @ serialize_array Tx_serialize ?txs"
    by (simp add: Block_serialize_def header_serialize_raw serialize_array_def count)
  have hd: "BlockHeader_deserialize_borrowed sha a (Block_serialize x @ rest) =
      Ok (?h, length (BlockHeader_serialize ?h), a)"
    using header_decode_encode [OF h, of a "concat (map Tx_serialize ?txs) @ rest"]
    by (simp add: Block_serialize_def)
  have off: "with_offset (Block_serialize x @ rest) 80 = Ok (serialize_array Tx_serialize ?txs @ rest)"
    using with_offset_at [of 80 "header_raw ?h"] raw by (simp add: ser)
  obtain a' where arr: "deserialize_array (L TyTx) (Tx_deserialize_borrowed sha L) a
      (serialize_array Tx_serialize ?txs @ rest) =
      Ok (?txs, length (serialize_array Tx_serialize ?txs), a')"
    and after: "arena_after a a' (Block_need L x)"
    using tx.array_decode_encode [OF txs room [unfolded Block_need_def], of rest] len
    by (auto simp: ser Block_need_def)
  have "wadd (length (serialize_array Tx_serialize ?txs)) 80 = length (Block_serialize x)"
    using len raw by (simp add: ser)
  then have "Block_deserialize_borrowed sha L a (Block_serialize x @ rest) =
      Ok (x, length (Block_serialize x), a')"
    using hd off arr root by (simp add: Block_deserialize_borrowed_def merkle_tree_of_txs Let_def)
  then show ?thesis using after by blast
qed

interpretation block: codec Block_serialize "Block_deserialize_borrowed sha L" "Block_ok sha"
  "Block_need L" for sha L
proof (unfold_locales, rule Block_decode_encode)
  fix a b x n a'
  assume d: "Block_deserialize_borrowed sha L a b = Ok (x, n, a')" and len: "length b < 2 ^ 63"
  from d obtain a1 txs off where
    t: "deserialize_array (L TyTx) (Tx_deserialize_borrowed sha L) a1 (drop 80 b) = Ok (txs, off, a')"
      "80 \<le> length b" and n: "n = wadd off 80"
    by (auto simp: Block_deserialize_borrowed_def res_bind_Ok_iff Let_def with_offset_def
        get_from_def ok_or_def split: if_splits option.splits)
  have "length (drop 80 b) < 2 ^ 63" using len by simp
  from tx.array_consumes [OF t(1) this] show "n \<le> length b"
    using t(2) n wadd_le [of off 80] by simp
qed assumption+

section \<open>What a decoded block satisfies\<close>

lemma take_slices:
  "take 80 b = take 4 b @ take 32 (drop 4 b) @ take 32 (drop 36 b) @ take 4 (drop 68 b) @
     take 4 (drop 72 b) @ take 4 (drop 76 b)"
  using take_add [of 4 76 b] take_add [of 32 44 "drop 4 b"] take_add [of 32 12 "drop 36 b"]
    take_add [of 4 8 "drop 68 b"] take_add [of 4 4 "drop 72 b"] by simp

lemma get_u32_le_slice:
  "get_u32_le b off = Ok w \<Longrightarrow> off < 1000 \<Longrightarrow> u32_to_le_bytes w = take 4 (drop off b) \<and> off + 4 \<le> length b"
  by (auto simp: get_u32_le_def ok_or_def get_range_def u32_bytes_back split: option.splits if_splits)

lemma get_hash_slice:
  "get_hash b off = Ok h \<Longrightarrow> off < 1000 \<Longrightarrow> h = take 32 (drop off b) \<and> off + 32 \<le> length b"
  by (auto simp: get_hash_def ok_or_def get_range_def split: option.splits if_splits)

lemma decoded_header:
  assumes "BlockHeader_deserialize_borrowed sha a b = Ok (h, n, a')"
  shows "80 \<le> length b" "header_raw h = take 80 b" "length (bh_merkle_root h) = 32"
    "bh_hash h = sha (sha (take 80 b))" "header_is_valid h" "a' = a"
proof -
  from assms have
    f: "get_u32_le b 0 = Ok (bh_version h)" "get_hash b 4 = Ok (bh_parent h)"
       "get_hash b 36 = Ok (bh_merkle_root h)" "get_u32_le b 68 = Ok (bh_timestamp h)"
       "get_u32_le b 72 = Ok (bh_bits h)" "get_u32_le b 76 = Ok (bh_nonce h)"
    and r: "bh_hash h = sha (sha (take 80 b))" "header_is_valid h" "a' = a" "80 \<le> length b"
    by (auto simp: BlockHeader_deserialize_borrowed_def res_bind_Ok_iff Let_def opt_unwrap_def
        get_range_def split: if_splits option.splits)
  show "80 \<le> length b" "bh_hash h = sha (sha (take 80 b))" "header_is_valid h" "a' = a" by (fact r)+
  show "header_raw h = take 80 b"
    unfolding header_raw_def take_slices
    using get_u32_le_slice [OF f(1)] get_hash_slice [OF f(2)] get_hash_slice [OF f(3)]
      get_u32_le_slice [OF f(4)] get_u32_le_slice [OF f(5)] get_u32_le_slice [OF f(6)] by simp
  show "length (bh_merkle_root h) = 32" using get_hash_slice [OF f(3)] by (auto simp: min_def)
qed

lemma decoded_items:
  assumes "deserialize_items d n a b off = Ok (xs, m, a')" and "\<And>a b x k a'. d a b = Ok (x, k, a') \<Longrightarrow> P x"
  shows "list_all P xs"
  using assms(1)
proof (induction n arbitrary: a off xs)
  case (Suc n)
  then show ?case using assms(2) by (auto simp: res_bind_Ok_iff)
qed simp

lemma decoded_tx_hash:
  assumes "Tx_deserialize_borrowed sha L a b = Ok (x, n, a')"
  shows "\<exists>raw. tx_hash x = sha (sha raw)"
  using assms by (auto simp: Tx_deserialize_borrowed_def res_bind_Ok_iff Let_def split: if_splits)

lemma decoded_block:
  assumes "Block_deserialize_borrowed sha L a b = Ok (x, n, a')"
  shows "\<exists>k. BlockHeader_deserialize_borrowed sha a b = Ok (bl_header x, k, a)"
    "into_root sha (merkle_tree_of (map tx_hash (bl_txs x))) = Ok (bh_merkle_root (bl_header x), False)"
    "list_all (\<lambda>tx. \<exists>raw. tx_hash tx = sha (sha raw)) (bl_txs x)"
proof -
  from assms obtain h k a1 r off a2 where
    h: "BlockHeader_deserialize_borrowed sha a b = Ok (h, k, a1)"
    and t: "deserialize_array (L TyTx) (Tx_deserialize_borrowed sha L) a1 r = Ok (bl_txs x, off, a2)"
    and m: "into_root sha (merkle_tree_of (map tx_hash (bl_txs x))) = Ok (bh_merkle_root h, False)"
    and x: "bl_header x = h"
    by (auto simp: Block_deserialize_borrowed_def res_bind_Ok_iff Let_def merkle_tree_of_txs
        split: if_splits)
  from h decoded_header(6) [OF h] x
  show "\<exists>k. BlockHeader_deserialize_borrowed sha a b = Ok (bl_header x, k, a)" by blast
  show "into_root sha (merkle_tree_of (map tx_hash (bl_txs x))) = Ok (bh_merkle_root (bl_header x), False)"
    using m x by simp
  from t obtain c a3 o' where
    "deserialize_items (Tx_deserialize_borrowed sha L) c a3 r o' = Ok (bl_txs x, off, a2)"
    by (auto simp: deserialize_array_def res_bind_Ok_iff)
  then show "list_all (\<lambda>tx. \<exists>raw. tx_hash tx = sha (sha raw)) (bl_txs x)"
    by (rule decoded_items) (rule decoded_tx_hash)
qed

lemma header_raw_merkle:
  assumes "header_raw h = header_raw k" "length (bh_parent h) = length (bh_parent k)"
    "length (bh_merkle_root h) = length (bh_merkle_root k)"
  shows "bh_merkle_root h = bh_merkle_root k"
  using assms by (simp add: header_raw_def)

section \<open>Properties\<close>

text \<open>
  C11: Whatever bytes a peer sends, a block that is decoded has a header whose hash is the double
  hash of the first eighty bytes and lies below the target of its bits, and the Merkle root of
  the decoded transactions, computed without a mutation, is the one in the header.
\<close>

theorem decoded_block_checked:
  assumes "Block_deserialize_borrowed sha L a b = Ok (x, n, a')"
  shows "80 \<le> length b \<and> bh_hash (bl_header x) = sha (sha (take 80 b)) \<and>
    header_raw (bl_header x) = take 80 b \<and> header_is_valid (bl_header x) \<and>
    into_root sha (merkle_tree_of (map tx_hash (bl_txs x))) = Ok (bh_merkle_root (bl_header x), False)"
proof -
  obtain k where h: "BlockHeader_deserialize_borrowed sha a b = Ok (bl_header x, k, a)"
    using decoded_block(1) [OF assms] by blast
  show ?thesis using decoded_header [OF h] decoded_block(2) [OF assms] by simp
qed

text \<open>A block of one transaction, for a hash function with outputs of 32 zero bytes.\<close>

definition zero_sha :: "bytes \<Rightarrow> bytes" where
  "zero_sha b = replicate 32 0"

definition demo_block :: Block where
  "demo_block = \<lparr>bl_header = \<lparr>bh_version = 1, bh_parent = replicate 32 1,
       bh_merkle_root = replicate 32 0, bh_timestamp = 1231006505, bh_bits = 0x1d00ffff,
       bh_nonce = 5, bh_txs_count = 1, bh_hash = replicate 32 0\<rparr>,
     bl_txs = [demo_tx_body\<lparr>tx_hash := txid zero_sha demo_tx_body,
       tx_witness_hash := wtxid zero_sha demo_tx_body\<rparr>]\<rparr>"

lemma demo_witness_ok: "witness_ok (varstr_array [[1, 2], [3]])"
  unfolding witness_ok_def by (intro exI conjI, rule refl) simp

lemma demo_block_ok: "Block_ok zero_sha demo_block"
proof -
  have valid: "header_is_valid (bl_header demo_block)"
    by (simp add: header_is_valid_def demo_block_def is_valid_def word_less_nat_alt
        unat_u256_from_compact target_nat_def u256_from_little_endian_def from_le_zeros)
  have root: "into_root zero_sha (merkle_tree_of (map tx_hash (bl_txs demo_block))) =
      Ok (replicate 32 0, False)"
    unfolding merkle_tree_of_concat
    by (subst into_root_concat)
      (simp_all add: demo_block_def txid_def zero_sha_def merkle_ref.simps)
  have tx: "Tx_ok zero_sha (hd (bl_txs demo_block))"
    using demo_witness_ok by (simp add: demo_block_def Tx_ok_def array_ok_def TxIn_ok_def TxOut_ok_def
        witnesses_ok_def) (simp add: demo_tx_body_def TxIn_ok_def TxOut_ok_def)
  show ?thesis using valid root tx
    by (simp add: Block_ok_def BlockHeader_ok_def array_ok_def demo_block_def zero_sha_def)
qed

lemma demo_block_size: "length (Block_serialize demo_block) < 1000"
  by (simp add: Block_serialize_def BlockHeader_serialize_def demo_block_def length_varint_def)
    (simp add: Tx_serialize_def demo_tx_body_def serialize_array_def TxIn_serialize_def
      TxOut_serialize_def varstr_array_def length_serialize_varstr length_varstr_def length_varint_def)

lemma demo_block_decodes: "\<exists>a'. Block_deserialize_borrowed zero_sha demo_layouts (Arena_new 4096 1000)
    (Block_serialize demo_block) = Ok (demo_block, length (Block_serialize demo_block), a')"
proof -
  note demo_block_size
  moreover have "arena_room (Arena_new 4096 1000) (Block_need demo_layouts demo_block)"
    by (simp add: arena_room_def arena_inv_def Arena_new_def Block_need_def Tx_need_def array_need_def
        demo_layouts_def demo_block_def demo_tx_body_def)
  ultimately show ?thesis
    using block.decode_encode [OF demo_block_ok, of "Arena_new 4096 1000" demo_layouts "[]"] by auto
qed

theorem decoded_block_checked_witness:
  "80 \<le> length (Block_serialize demo_block) \<and>
   bh_hash (bl_header demo_block) = zero_sha (zero_sha (take 80 (Block_serialize demo_block))) \<and>
   header_raw (bl_header demo_block) = take 80 (Block_serialize demo_block) \<and>
   header_is_valid (bl_header demo_block) \<and>
   into_root zero_sha (merkle_tree_of (map tx_hash (bl_txs demo_block))) =
     Ok (bh_merkle_root (bl_header demo_block), False)"
  using demo_block_decodes decoded_block_checked by blast



text \<open>
  Decoding the serialization of a well-formed block, followed by any bytes, returns the block
  and the exact number of bytes, although the transaction count is part of the header's
  serialization and is read twice.
\<close>

lemma block_round_trip:
  assumes "Block_ok sha x" and "arena_room a (Block_need L x)"
    and "length (Block_serialize x @ rest) < 2 ^ 63"
  shows "\<exists>a'. Block_deserialize_borrowed sha L a (Block_serialize x @ rest) =
    Ok (x, length (Block_serialize x), a') \<and> ar_consumed a' \<le> ar_consumed a + Block_need L x"
  using block.decode_encode [OF assms] by (auto simp: arena_after_def)

section \<open>Witness commitments\<close>

definition has_commitment :: "TxOut \<Rightarrow> bool" where
  "has_commitment txout \<longleftrightarrow> 38 \<le> length (to_script txout) \<and> take 6 (to_script txout) = commitment_prefix"

lemma is_commitment_eq: "is_commitment txout = Ok (has_commitment txout)"
  by (simp add: is_commitment_def has_commitment_def idx_range_def get_range_def)

lemma commitment_loop_find:
  "commitment_loop sha txs cb outs =
     (case find has_commitment outs of None \<Rightarrow> Ok () | Some txout \<Rightarrow> check_commitment sha txs cb txout)"
  by (induction outs) (simp_all add: is_commitment_eq)

lemma append_witness_hashes_Suc:
  "append_witness_hashes (Suc i) txs t = t @ concat (map tx_witness_hash txs)"
  by (induction txs arbitrary: i t) (simp_all add: append_hash_def)

lemma witness_tree:
  "append_witness_hashes 0 (cb # txs) (MerkleTree_with_capacity n) =
    merkle_tree_of (EMPTY_HASH # map tx_witness_hash txs)"
  by (simp add: append_witness_hashes_Suc merkle_tree_of_concat append_hash_def
      MerkleTree_with_capacity_def)

lemma reserve_split: "length w = 34 \<Longrightarrow> take 2 w = [a, b] \<Longrightarrow> w = a # b # take 32 (drop 2 w)"
  using append_take_drop_id [of 2 w] by simp

text \<open>
  When the coinbase has an output with the commitment prefix, an accepted witness commitment
  means: the last such output carries the double hash of the root over the witness identifiers
  (zero for the coinbase) and the 32-byte reserved value of the coinbase witness.
\<close>

lemma witness_commitment_checked:
  assumes "verify_witness_commitment sha x = Ok ()" and "bl_txs x = cb # txs"
    and "find has_commitment (rev (tx_txouts cb)) = Some txout"
  shows "\<exists>reserve ws root. tx_witness_data cb = Some ((0x01 # 32 # reserve) # ws) \<and>
    length reserve = 32 \<and>
    into_root sha (merkle_tree_of (EMPTY_HASH # map tx_witness_hash txs)) = Ok (root, False) \<and>
    take 32 (drop 6 (to_script txout)) = sha (sha (root @ reserve))"
proof -
  have c: "check_commitment sha (cb # txs) cb txout = Ok ()"
    using assms by (simp add: verify_witness_commitment_def idx_at_def get_at_def commitment_loop_find)
  have len: "38 \<le> length (to_script txout)"
    using assms(3) by (auto simp: find_Some_iff has_commitment_def)
  then have com: "get_hash (to_script txout) 6 = Ok (take 32 (drop 6 (to_script txout)))"
    by (simp add: get_hash_def get_range_def)
  from c obtain wd where wd: "tx_witness_data cb = Some wd"
    by (auto simp: check_commitment_def split: option.splits)
  from c wd obtain w ws where w: "wd = w # ws" by (cases wd) (auto simp: check_commitment_def idx_at_def get_at_def)
  from c wd w com have l: "length w = 34" "take 2 w = [0x01, 32]"
    by (auto simp: check_commitment_def idx_at_def get_at_def split: if_splits)
  then have r: "idx_range w 2 34 = Ok (take 32 (drop 2 w))" by (simp add: idx_range_def get_range_def)
  from c wd w com l r obtain root where
    "into_root sha (merkle_tree_of (EMPTY_HASH # map tx_witness_hash txs)) = Ok (root, False)"
    "take 32 (drop 6 (to_script txout)) = sha (sha (root @ take 32 (drop 2 w)))"
    by (auto simp: check_commitment_def idx_at_def get_at_def witness_tree res_bind_Ok_iff
        simp del: append_witness_hashes.simps split: if_splits)
  moreover have "w = 0x01 # 32 # take 32 (drop 2 w)" by (rule reserve_split [OF l])
  ultimately show ?thesis using wd w l(1)
    by (intro exI [of _ "take 32 (drop 2 w)"] exI [of _ ws] exI [of _ root]) simp
qed

definition demo_coinbase :: Tx where
  "demo_coinbase = demo_tx_body\<lparr>tx_txouts := [\<lparr>to_value = 0,
       to_script = commitment_prefix @ replicate 32 0\<rparr>],
     tx_witness_data := Some [0x01 # 32 # replicate 32 0]\<rparr>"

end
