(* ===== verification/Packet.thy ===== *)
theory Packet
  imports BlockCodec
begin

text \<open>
  Framing of messages: the payload enums and their dispatch
  (\<open>src/src/packets/packetpayload.rs\<close>), packet headers and magic numbers
  (\<open>packetheader.rs\<close>, \<open>magic.rs\<close>), reading a packet from the stream
  (\<open>packet.rs\<close>, \<open>src/src/util/speedtracker.rs\<close>, \<open>read_and_send_messages\<close> of
  \<open>src/src/connect/mod.rs\<close>) and writing one (\<open>src/src/connect/connection.rs\<close>).

  A TCP stream is the list of bytes that arrive on it before it is closed.  The arena that a pool
  hands out for a packet is an argument.  The enums \<open>ReceivedPayload\<close> and \<open>PayloadToSend\<close> have
  the same variants and are one datatype.
\<close>

section \<open>Payloads\<close>

datatype Payload =
    PPing Ping
  | PInv Inv
  | PVersion Version
  | PVerAck
  | PAddr Addr
  | PAddrV2 AddrV2
  | PGetAddr
  | PPong Pong
  | PSendHeaders
  | PSendAddrV2
  | PTx Tx
  | PBlock Block
  | PGetData GetData
  | PHeaders Headers
  | PGetHeaders GetHeaders
  | PNotFound NotFound

fun Payload_serialize :: "Payload \<Rightarrow> bytes" where
  "Payload_serialize (PVersion x) = Version_serialize x"
| "Payload_serialize PVerAck = VerAck_serialize ()"
| "Payload_serialize (PPing x) = Ping_serialize x"
| "Payload_serialize (PPong x) = Pong_serialize x"
| "Payload_serialize PSendHeaders = SendHeaders_serialize ()"
| "Payload_serialize PSendAddrV2 = SendAddrV2_serialize ()"
| "Payload_serialize (PTx x) = Tx_serialize x"
| "Payload_serialize (PBlock x) = Block_serialize x"
| "Payload_serialize (PAddr x) = Addr_serialize x"
| "Payload_serialize (PAddrV2 x) = AddrV2_serialize x"
| "Payload_serialize PGetAddr = GetAddr_serialize ()"
| "Payload_serialize (PGetData x) = GetData_serialize x"
| "Payload_serialize (PInv x) = Inv_serialize x"
| "Payload_serialize (PHeaders x) = Headers_serialize x"
| "Payload_serialize (PGetHeaders x) = GetHeaders_serialize x"
| "Payload_serialize (PNotFound x) = NotFound_serialize x"

fun Payload_command :: "Payload \<Rightarrow> bytes" where
  "Payload_command (PVersion _) = VERSION_COMMAND"
| "Payload_command PVerAck = VERACK_COMMAND"
| "Payload_command (PPing _) = PING_COMMAND"
| "Payload_command (PPong _) = PONG_COMMAND"
| "Payload_command PSendHeaders = SENDHEADERS_COMMAND"
| "Payload_command PSendAddrV2 = SENDADDRV2_COMMAND"
| "Payload_command (PTx _) = TX_COMMAND"
| "Payload_command (PBlock _) = BLOCK_COMMAND"
| "Payload_command (PAddr _) = ADDR_COMMAND"
| "Payload_command (PAddrV2 _) = ADDRV2_COMMAND"
| "Payload_command PGetAddr = GETADDR_COMMAND"
| "Payload_command (PGetData _) = GETDATA_COMMAND"
| "Payload_command (PInv _) = INV_COMMAND"
| "Payload_command (PHeaders _) = HEADERS_COMMAND"
| "Payload_command (PGetHeaders _) = GETHEADERS_COMMAND"
| "Payload_command (PNotFound _) = NOTFOUND_COMMAND"

text \<open>The first four bytes of the double hash, as a little-endian number.\<close>

definition shorthash :: "(bytes \<Rightarrow> bytes) \<Rightarrow> bytes \<Rightarrow> bytes" where
  "shorthash sha buffer = take 4 (sha (sha buffer))"

text \<open>Allocation of the value in the arena, decoding it in place, and the variant around it.\<close>

definition decode_as :: "usize \<times> usize \<Rightarrow> 'a decoder \<Rightarrow> ('a \<Rightarrow> Payload) \<Rightarrow> arena \<Rightarrow> bytes \<Rightarrow>
    (Payload option \<times> arena) res" where
  "decode_as lay d mk allocator buffer =
     res_bind (try_alloc lay allocator []) (\<lambda>(_, a).
     res_bind (d a buffer) (\<lambda>(v, _, a). Ok (Some (mk v), a)))"

definition deserialize_payload ::
  "(bytes \<Rightarrow> bytes) \<Rightarrow> layouts \<Rightarrow> arena \<Rightarrow> bytes \<Rightarrow> u32 \<Rightarrow> bytes \<Rightarrow> (Payload option \<times> arena) res" where
  "deserialize_payload sha L a buffer checksum command =
     (let short = u32_from_le_bytes (shorthash sha buffer) in
      if short \<noteq> checksum then Err (InvalidChecksum checksum short)
      else if command = VERSION_COMMAND then
        decode_as (L TyVersion) Version_deserialize_borrowed PVersion a buffer
      else if command = VERACK_COMMAND then
        decode_as (L TyVerAck) VerAck_deserialize_borrowed (\<lambda>_. PVerAck) a buffer
      else if command = PING_COMMAND then
        decode_as (L TyPing) Ping_deserialize_borrowed PPing a buffer
      else if command = PONG_COMMAND then
        decode_as (L TyPong) Pong_deserialize_borrowed PPong a buffer
      else if command = SENDADDRV2_COMMAND then
        decode_as (L TySendAddrV2) SendAddrV2_deserialize_borrowed (\<lambda>_. PSendAddrV2) a buffer
      else if command = SENDHEADERS_COMMAND then
        decode_as (L TySendHeaders) SendHeaders_deserialize_borrowed (\<lambda>_. PSendHeaders) a buffer
      else if command = TX_COMMAND then
        decode_as (L TyTx) (Tx_deserialize_borrowed sha L) PTx a buffer
      else if command = BLOCK_COMMAND then
        decode_as (L TyBlock) (Block_deserialize_borrowed sha L) PBlock a buffer
      else if command = ADDR_COMMAND then
        decode_as (L TyAddr) (Addr_deserialize_borrowed L) PAddr a buffer
      else if command = ADDRV2_COMMAND then
        decode_as (L TyAddrV2) (AddrV2_deserialize_borrowed L) PAddrV2 a buffer
      else if command = INV_COMMAND then
        decode_as (L TyInv) (Inv_deserialize_borrowed L) PInv a buffer
      else if command = HEADERS_COMMAND then
        decode_as (L TyHeaders) (Headers_deserialize_borrowed sha L) PHeaders a buffer
      else if command = GETHEADERS_COMMAND then
        decode_as (L TyGetHeaders) (GetHeaders_deserialize_borrowed L) PGetHeaders a buffer
      else if command = NOTFOUND_COMMAND then
        decode_as (L TyNotFound) (NotFound_deserialize_borrowed L) PNotFound a buffer
      else Ok (None, a))"

section \<open>Packets on a stream\<close>

definition MAGIC_MAINNET :: u32 where
  "MAGIC_MAINNET = 0xD9B4BEF9"
definition MAGIC_TESTNET :: u32 where
  "MAGIC_TESTNET = 0xDAB5BFFA"
definition MAGIC_TESTNET3 :: u32 where
  "MAGIC_TESTNET3 = 0x0709110B"
definition MAGIC_SIGNET :: u32 where
  "MAGIC_SIGNET = 0x40CF030A"
definition MAGIC_NAMECOIN :: u32 where
  "MAGIC_NAMECOIN = 0xFEB4BEF9"
definition ACTIVE_MAGIC :: u32 where
  "ACTIVE_MAGIC = MAGIC_MAINNET"

definition MAX_PACKET_SIZE :: usize where
  "MAX_PACKET_SIZE = 4 * 1024 * 1024"

definition SMALL_ARENA_SIZE :: usize where
  "SMALL_ARENA_SIZE = 8 * 1024"

record PacketHeader =
  ph_magic :: u32
  ph_command :: bytes
  ph_length :: u32
  ph_checksum :: u32

record Packet =
  pk_header :: PacketHeader
  pk_payload :: "Payload option"

text \<open>\<open>read_exact\<close>: an error when the stream ends before \<open>n\<close> bytes.\<close>

definition read_exact :: "nat \<Rightarrow> bytes \<Rightarrow> (bytes \<times> bytes) res" where
  "read_exact n stream =
     (if n \<le> length stream then Ok (take n stream, drop n stream) else Err (Msg ''early eof''))"

definition read_header :: "bytes \<Rightarrow> (PacketHeader \<times> bytes) res" where
  "read_header stream =
     res_bind (read_exact 4 stream) (\<lambda>(magic, stream).
     res_bind (read_exact 12 stream) (\<lambda>(command, stream).
     res_bind (read_exact 4 stream) (\<lambda>(len, stream).
     res_bind (read_exact 4 stream) (\<lambda>(checksum, stream).
     if MAX_PACKET_SIZE < unat (u32_from_le_bytes len) then Err (Msg ''packet size too large'')
     else Ok (\<lparr>ph_magic = u32_from_le_bytes magic, ph_command = command,
               ph_length = u32_from_le_bytes len, ph_checksum = u32_from_le_bytes checksum\<rparr>, stream)))))"

text \<open>
  \<open>ReadPayloadBytes::poll\<close>: the \<open>i\<close>-th successful \<open>poll_read\<close> delivers at most \<open>chunk i + 1\<close>
  bytes, nothing only at the end of the stream.
\<close>

function read_payload_loop ::
  "(nat \<Rightarrow> nat) \<Rightarrow> nat \<Rightarrow> bytes \<Rightarrow> bytes \<Rightarrow> nat \<Rightarrow> (bytes \<times> bytes) res" where
  "read_payload_loop chunk i stream buf rem =
     (if rem \<noteq> 0 then
        (let got = take (min rem (Suc (chunk i))) stream in
         if got = [] then Err (Msg ''early eof'')
         else read_payload_loop chunk (Suc i) (drop (length got) stream) (buf @ got) (rem - length got))
      else Ok (buf, stream))"
  by pat_completeness auto
termination
  by (relation "measure (\<lambda>(chunk, i, stream, buf, rem). rem)") (auto simp: min_def)

declare read_payload_loop.simps [simp del]

definition read_payload :: "(nat \<Rightarrow> nat) \<Rightarrow> bytes \<Rightarrow> nat \<Rightarrow> (bytes \<times> bytes) res" where
  "read_payload chunk stream n = read_payload_loop chunk 0 stream [] n"

text \<open>The pools: \<open>large\<close> and \<open>small\<close> are the reset arenas they hand out.\<close>

definition read_packet ::
  "(bytes \<Rightarrow> bytes) \<Rightarrow> layouts \<Rightarrow> arena \<Rightarrow> arena \<Rightarrow> (nat \<Rightarrow> nat) \<Rightarrow> bytes \<Rightarrow> (Packet \<times> bytes) res" where
  "read_packet sha L large small chunk stream =
     res_bind (read_header stream) (\<lambda>(header, stream).
     let n = unat (ph_length header);
         allocator = (if SMALL_ARENA_SIZE div 2 < n then large else small) in
     res_bind (res_unwrap (try_alloc_array_fill_copy (1, 1) allocator n (0 :: u8) [])) (\<lambda>(_, _, a).
     res_bind (read_payload chunk stream n) (\<lambda>(buffer, stream).
     res_bind (case deserialize_payload sha L a buffer (ph_checksum header) (ph_command header) of
                 Ok (payload, _) \<Rightarrow> Ok payload
               | Err e \<Rightarrow> Ok None
               | Panic \<Rightarrow> Panic) (\<lambda>payload.
     Ok (\<lparr>pk_header = header, pk_payload = payload\<rparr>, stream)))))"

definition write_packet :: "(bytes \<Rightarrow> bytes) \<Rightarrow> Payload \<Rightarrow> bytes" where
  "write_packet sha packet =
     (let buf = Payload_serialize packet in
      u32_to_le_bytes ACTIVE_MAGIC @ Payload_command packet @
      u32_to_le_bytes (word_of_nat (length buf)) @ shorthash sha buf @ buf)"

text \<open>
  The reader task: what it sends on its channel until the first error; a panic ends the task
  and closes the channel without an error on it.
\<close>

lemma read_exact_Ok: "read_exact n s = Ok (x, s') \<longleftrightarrow> n \<le> length s \<and> x = take n s \<and> s' = drop n s"
  by (auto simp: read_exact_def)

lemma read_header_consumes: "read_header s = Ok (h, s') \<Longrightarrow> length s = length s' + 24"
  by (auto simp: read_header_def res_bind_Ok_iff read_exact_Ok split: if_splits)

lemma take_length_take: "take (length (take k s)) s = take k s"
  by (cases "k \<le> length s") (simp_all add: min_def)

lemma read_payload_loop_eq:
  "read_payload_loop chunk i stream buf rem =
     (if rem \<le> length stream then Ok (buf @ take rem stream, drop rem stream)
      else Err (Msg ''early eof''))"
proof (induction chunk i stream buf rem rule: read_payload_loop.induct)
  case (1 chunk i stream buf rem)
  define got where "got = take (min rem (Suc (chunk i))) stream"
  show ?case
  proof (cases "rem \<noteq> 0 \<and> got \<noteq> []")
    case True
    have le: "length got \<le> rem" "length got \<le> length stream" by (simp_all add: got_def)
    have "take rem stream = got @ take (rem - length got) (drop (length got) stream)"
      using le_add_diff_inverse [OF le(1)] take_add [of "length got" "rem - length got" stream]
        take_length_take [of "min rem (Suc (chunk i))" stream] by (simp only: got_def)
    moreover have "read_payload_loop chunk i stream buf rem =
        read_payload_loop chunk (Suc i) (drop (length got) stream) (buf @ got) (rem - length got)"
      using True by (subst read_payload_loop.simps) (simp only: Let_def got_def [symmetric], simp)
    ultimately show ?thesis
      using 1 [OF _ got_def] True le by (simp add: diff_le_mono le_diff_conv)
  next
    case False
    then show ?thesis by (subst read_payload_loop.simps) (auto simp: Let_def got_def)
  qed
qed

lemma read_payload_eq:
  "read_payload chunk stream n =
     (if n \<le> length stream then Ok (take n stream, drop n stream) else Err (Msg ''early eof''))"
  by (simp add: read_payload_def read_payload_loop_eq)

lemma read_packet_consumes: "read_packet sha L large small chunk s = Ok (p, s') \<Longrightarrow> length s' + 24 \<le> length s"
  by (auto simp: read_packet_def res_bind_Ok_iff Let_def read_payload_eq split: if_splits
      dest!: read_header_consumes)

function read_and_send_messages ::
  "(bytes \<Rightarrow> bytes) \<Rightarrow> layouts \<Rightarrow> arena \<Rightarrow> arena \<Rightarrow> (nat \<Rightarrow> nat) \<Rightarrow> bytes \<Rightarrow> Packet res list" where
  "read_and_send_messages sha L large small chunk stream =
     (case read_packet sha L large small chunk stream of
        Ok (packet, stream') \<Rightarrow> Ok packet # read_and_send_messages sha L large small chunk stream'
      | Err e \<Rightarrow> [Err e]
      | Panic \<Rightarrow> [])"
  by pat_completeness auto
termination
  by (relation "measure (\<lambda>(sha, L, large, small, chunk, stream). length stream)")
    (auto dest: read_packet_consumes)

declare read_and_send_messages.simps [simp del]

section \<open>Dispatch is the inverse of serialization\<close>

lemmas command_defs = VERSION_COMMAND_def VERACK_COMMAND_def PING_COMMAND_def PONG_COMMAND_def
  SENDADDRV2_COMMAND_def SENDHEADERS_COMMAND_def TX_COMMAND_def BLOCK_COMMAND_def ADDR_COMMAND_def
  ADDRV2_COMMAND_def INV_COMMAND_def HEADERS_COMMAND_def GETHEADERS_COMMAND_def NOTFOUND_COMMAND_def
  GETADDR_COMMAND_def GETDATA_COMMAND_def

lemma zeros_not_Cons: "(replicate 8 0 :: bytes) \<noteq> 118 # bs"
proof
  assume "(replicate 8 0 :: bytes) = 118 # bs"
  then have "hd (replicate 8 0 :: bytes) = 118" by (simp only: list.sel)
  then show False by (simp add: hd_replicate)
qed

lemma commands_distinct:
  "distinct [GETDATA_COMMAND, GETADDR_COMMAND, NOTFOUND_COMMAND, GETHEADERS_COMMAND,
     HEADERS_COMMAND, INV_COMMAND, ADDRV2_COMMAND, ADDR_COMMAND, BLOCK_COMMAND, TX_COMMAND,
     SENDHEADERS_COMMAND, SENDADDRV2_COMMAND, PONG_COMMAND, PING_COMMAND, VERACK_COMMAND,
     VERSION_COMMAND]"
  by (simp add: command_defs command12_def zeros_not_Cons zeros_not_Cons [symmetric])

lemma command_length [simp]: "length (Payload_command p) = 12"
  by (cases p) (simp_all add: command_defs command12_def)

context codec
begin

lemma decode_as_encoded:
  assumes "ok x" and "arena_room a (snd lay + fst lay + need x)" and "length (ser x) < 2 ^ 63"
  shows "\<exists>a'. decode_as lay deser mk a (ser x) = Ok (Some (mk x), a')"
proof -
  obtain loc a1 where alloc: "try_alloc lay a [] = Ok (loc, a1)"
    and after: "arena_after a a1 (snd lay + fst lay)"
    by (rule try_alloc_room [of a lay]) (use assms(2) in \<open>auto elim: arena_room_mono\<close>)
  obtain a2 where "deser a1 (ser x) = Ok (x, length (ser x), a2)"
    using decode_encode [OF assms(1) arena_room_after [OF assms(2) after], of "[]"] assms(3) by auto
  then show ?thesis using alloc by (simp add: decode_as_def)
qed

end

text \<open>What the other side of a connection makes of a payload that was sent.\<close>

definition received :: "Payload \<Rightarrow> Payload option" where
  "received p = (case p of PGetAddr \<Rightarrow> None | PGetData _ \<Rightarrow> None | _ \<Rightarrow> Some p)"

fun Payload_ok :: "(bytes \<Rightarrow> bytes) \<Rightarrow> Payload \<Rightarrow> bool" where
  "Payload_ok sha (PVersion x) \<longleftrightarrow> Version_ok x"
| "Payload_ok sha (PTx x) \<longleftrightarrow> Tx_ok sha x"
| "Payload_ok sha (PBlock x) \<longleftrightarrow> Block_ok sha x"
| "Payload_ok sha (PAddr x) \<longleftrightarrow> array_ok NetAddr_ok (addr_inner x)"
| "Payload_ok sha (PAddrV2 x) \<longleftrightarrow> array_ok NetAddrV2_ok (addrv2_inner x)"
| "Payload_ok sha (PInv x) \<longleftrightarrow> array_ok InventoryVector_ok (inv_inner x)"
| "Payload_ok sha (PHeaders x) \<longleftrightarrow> array_ok (BlockHeader_ok sha) (headers_inner x)"
| "Payload_ok sha (PGetHeaders x) \<longleftrightarrow> GetHeaders_ok x"
| "Payload_ok sha (PNotFound x) \<longleftrightarrow> array_ok InventoryVector_ok (notfound_inner x)"
| "Payload_ok sha _ \<longleftrightarrow> True"

definition room_for :: "usize \<times> usize \<Rightarrow> nat" where
  "room_for lay = snd lay + fst lay"

fun Payload_need :: "layouts \<Rightarrow> Payload \<Rightarrow> nat" where
  "Payload_need L (PVersion x) = room_for (L TyVersion)"
| "Payload_need L PVerAck = room_for (L TyVerAck)"
| "Payload_need L (PPing x) = room_for (L TyPing)"
| "Payload_need L (PPong x) = room_for (L TyPong)"
| "Payload_need L PSendAddrV2 = room_for (L TySendAddrV2)"
| "Payload_need L PSendHeaders = room_for (L TySendHeaders)"
| "Payload_need L (PTx x) = room_for (L TyTx) + Tx_need L x"
| "Payload_need L (PBlock x) = room_for (L TyBlock) + Block_need L x"
| "Payload_need L (PAddr x) = room_for (L TyAddr) + array_need (L TyNetAddr) (\<lambda>_. 0) (addr_inner x)"
| "Payload_need L (PAddrV2 x) =
     room_for (L TyAddrV2) + array_need (L TyNetAddrV2) (\<lambda>_. 0) (addrv2_inner x)"
| "Payload_need L (PInv x) = room_for (L TyInv) + array_need (L TyInventoryVector) (\<lambda>_. 0) (inv_inner x)"
| "Payload_need L (PHeaders x) =
     room_for (L TyHeaders) + array_need (L TyBlockHeader) (\<lambda>_. 0) (headers_inner x)"
| "Payload_need L (PGetHeaders x) = room_for (L TyGetHeaders) + GetHeaders_need L x"
| "Payload_need L (PNotFound x) =
     room_for (L TyNotFound) + array_need (L TyInventoryVector) (\<lambda>_. 0) (notfound_inner x)"
| "Payload_need L _ = 0"

lemmas decode_rules = version.decode_as_encoded ping.decode_as_encoded pong.decode_as_encoded
  verack.decode_as_encoded [where mk = "\<lambda>_. PVerAck"]
  sendaddrv2.decode_as_encoded [where mk = "\<lambda>_. PSendAddrV2"]
  sendheaders.decode_as_encoded [where mk = "\<lambda>_. PSendHeaders"]
  tx.decode_as_encoded block.decode_as_encoded addr.decode_as_encoded addrv2.decode_as_encoded
  inv.decode_as_encoded headers.decode_as_encoded getheaders.decode_as_encoded
  notfound.decode_as_encoded

lemma deserialize_payload_encoded:
  assumes "Payload_ok sha p" and "arena_room a (Payload_need L p)"
    and "length (Payload_serialize p) < 2 ^ 63"
  shows "\<exists>a'. deserialize_payload sha L a (Payload_serialize p)
      (u32_from_le_bytes (shorthash sha (Payload_serialize p))) (Payload_command p) =
    Ok (received p, a')"
  using assms commands_distinct
  by (cases p) (simp_all add: deserialize_payload_def received_def room_for_def decode_rules)

section \<open>A packet on the wire\<close>

definition header_of :: "(bytes \<Rightarrow> bytes) \<Rightarrow> Payload \<Rightarrow> PacketHeader" where
  "header_of sha p = \<lparr>ph_magic = ACTIVE_MAGIC, ph_command = Payload_command p,
     ph_length = word_of_nat (length (Payload_serialize p)),
     ph_checksum = u32_from_le_bytes (shorthash sha (Payload_serialize p))\<rparr>"

definition arena_for :: "arena \<Rightarrow> arena \<Rightarrow> nat \<Rightarrow> arena" where
  "arena_for large small n = (if SMALL_ARENA_SIZE div 2 < n then large else small)"

text \<open>The payload can be encoded, fits into a packet, and its arena has room to decode it.\<close>

definition sendable :: "(bytes \<Rightarrow> bytes) \<Rightarrow> layouts \<Rightarrow> arena \<Rightarrow> arena \<Rightarrow> Payload \<Rightarrow> bool" where
  "sendable sha L large small p \<longleftrightarrow> Payload_ok sha p \<and>
     (let n = length (Payload_serialize p) in
      n \<le> MAX_PACKET_SIZE \<and> arena_room (arena_for large small n) (1 + n + Payload_need L p))"

lemma read_header_written:
  assumes "\<forall>b. length (sha b) = 32" and "length (Payload_serialize p) \<le> MAX_PACKET_SIZE"
  shows "read_header (write_packet sha p @ rest) = Ok (header_of sha p, Payload_serialize p @ rest)"
proof -
  have "unat (word_of_nat (length (Payload_serialize p)) :: u32) = length (Payload_serialize p)"
    using assms(2) by (subst unat_of_nat) (simp add: MAX_PACKET_SIZE_def)
  then show ?thesis using assms
    by (simp add: read_header_def write_packet_def read_exact_def Let_def header_of_def shorthash_def)
qed

lemma buffer_alloc:
  assumes "arena_room a (1 + n)"
  shows "\<exists>loc a1. try_alloc_array_fill_copy (1, 1) a n v [] = Ok (loc, replicate n v, a1) \<and>
    arena_after a a1 (1 + n)"
  by (rule try_alloc_array_room [of a "(1, 1)" n v]) (use assms in auto)

lemma read_packet_written:
  assumes sha: "\<forall>b. length (sha b) = 32" and p: "sendable sha L large small p"
  shows "read_packet sha L large small chunk (write_packet sha p @ rest) =
    Ok (\<lparr>pk_header = header_of sha p, pk_payload = received p\<rparr>, rest)"
proof -
  define n where "n = length (Payload_serialize p)"
  have n: "n \<le> MAX_PACKET_SIZE" and ok: "Payload_ok sha p"
    and room: "arena_room (arena_for large small n) (1 + n + Payload_need L p)"
    using p by (simp_all add: sendable_def n_def Let_def)
  have un: "unat (ph_length (header_of sha p)) = n"
    using n by (simp add: header_of_def n_def [symmetric] MAX_PACKET_SIZE_def) (subst unat_of_nat, simp)
  obtain loc a1 where alloc: "try_alloc_array_fill_copy (1, 1) (arena_for large small n) n (0 :: u8) [] =
      Ok (loc, replicate n 0, a1)" and after: "arena_after (arena_for large small n) a1 (1 + n)"
    using buffer_alloc [OF arena_room_mono [OF room], of n "0 :: u8"] by auto
  obtain a2 where "deserialize_payload sha L a1 (Payload_serialize p)
      (u32_from_le_bytes (shorthash sha (Payload_serialize p))) (Payload_command p) = Ok (received p, a2)"
    using deserialize_payload_encoded [OF ok arena_room_after [OF room after]] n
    by (auto simp: MAX_PACKET_SIZE_def n_def)
  then show ?thesis
    using read_header_written [OF sha, of p rest] n alloc un
    by (simp add: read_packet_def Let_def read_payload_eq n_def [symmetric] arena_for_def [symmetric])
      (simp add: n_def header_of_def)
qed

section \<open>Properties\<close>


lemma demo_sendable: "sendable zero_sha demo_layouts (Arena_new 4096 100000) (Arena_new 4096 8192) PGetAddr"
  "sendable zero_sha demo_layouts (Arena_new 4096 100000) (Arena_new 4096 8192) (PPing \<lparr>ping_nonce = 7\<rparr>)"
  by (simp_all add: sendable_def arena_for_def arena_room_def arena_inv_def Arena_new_def
      SMALL_ARENA_SIZE_def MAX_PACKET_SIZE_def room_for_def demo_layouts_def GetAddr_serialize_def
      Ping_serialize_def)


text \<open>
  A packet whose checksum does not match its payload is delivered without a payload, never
  decoded, and does not end the connection.
\<close>

lemma bad_checksum_ignored:
  assumes "read_header stream = Ok (header, body)" and "unat (ph_length header) \<le> length body"
    and "u32_from_le_bytes (shorthash sha (take (unat (ph_length header)) body)) \<noteq> ph_checksum header"
    and "arena_room (arena_for large small (unat (ph_length header))) (1 + unat (ph_length header))"
  shows "read_packet sha L large small chunk stream =
    Ok (\<lparr>pk_header = header, pk_payload = None\<rparr>, drop (unat (ph_length header)) body)"
proof -
  let ?n = "unat (ph_length header)"
  obtain loc a1 where "try_alloc_array_fill_copy (1, 1) (arena_for large small ?n) ?n (0 :: u8) [] =
      Ok (loc, replicate ?n 0, a1)"
    using buffer_alloc [OF assms(4), of "0 :: u8"] by blast
  then show ?thesis using assms(1-3)
    by (simp add: read_packet_def Let_def arena_for_def [symmetric] read_payload_eq deserialize_payload_def)
qed

definition demo_bad_stream :: bytes where
  "demo_bad_stream = u32_to_le_bytes ACTIVE_MAGIC @ PING_COMMAND @ u32_to_le_bytes 1 @
     u32_to_le_bytes 5 @ [42]"

lemma demo_bad_header: "read_header demo_bad_stream =
   Ok (\<lparr>ph_magic = ACTIVE_MAGIC, ph_command = PING_COMMAND, ph_length = 1, ph_checksum = 5\<rparr>, [42])"
proof -
  have "length PING_COMMAND = 12" using command_length [of "PPing undefined"] by simp
  then show ?thesis
    by (simp add: read_header_def demo_bad_stream_def read_exact_def MAX_PACKET_SIZE_def)
qed

text \<open>
  The magic number of a received packet is never compared with the one of the network: a
  header with any other magic number in its first four bytes is accepted just the same.
\<close>

lemma magic_not_checked:
  assumes "read_header (m @ stream) = Ok (header, body)" and "length m = 4" and "length m' = 4"
  shows "read_header (m' @ stream) = Ok (header\<lparr>ph_magic := u32_from_le_bytes m'\<rparr>, body)"
  using assms
  by (auto simp: read_header_def res_bind_Ok_iff read_exact_Ok split: if_splits)

end
