(* ===== verification/Connect.thy ===== *)
theory Connect
  imports Packet
begin

text \<open>
  Connections: the handshake of \<open>src/src/connect/mod.rs\<close> as a loop over what the reader task puts
  on the channel, and the pools of arenas of \<open>src/src/packets/arenapool.rs\<close> as a step
  relation on the pool and the threads inside \<open>get_arena\<close>.

  Writes are taken to succeed; what is written is collected in order.  The deadline of the
  handshake and the I/O of the socket are not modelled.
\<close>

section \<open>The handshake\<close>

definition handle_packet_during_handshaking ::
  "Payload \<Rightarrow> bool \<Rightarrow> Version option \<Rightarrow> (Payload list option \<times> bool \<times> Version option) res" where
  "handle_packet_during_handshaking packet success remote_version =
     (case packet of
        PVersion v \<Rightarrow>
          if remote_version \<noteq> None then Err (Msg ''sent the version packet more than once'')
          else Ok (None, success, Some (VersionOwned_from v))
      | PVerAck \<Rightarrow>
          (case remote_version of
             None \<Rightarrow> Err (Msg ''sent verack before version'')
           | Some rv \<Rightarrow>
               Ok (Some ((if 70016 < ver_version rv then [PSendAddrV2] else []) @ [PVerAck] @
                         (if 70012 < ver_version rv then [PSendHeaders] else [])),
                   True, remote_version))
      | PPing ping \<Rightarrow>
          Ok (Some [PPong \<lparr>pong_nonce = ping_nonce ping\<rparr>], success, remote_version)
      | _ \<Rightarrow> Ok (None, success, remote_version))"

definition handle_received ::
  "Packet \<Rightarrow> Version option \<Rightarrow> (Payload list option \<times> bool \<times> Version option) res" where
  "handle_received packet remote_version =
     (case pk_payload packet of
        Some p \<Rightarrow> handle_packet_during_handshaking p False remote_version
      | None \<Rightarrow> Ok (None, False, remote_version))"

fun handshake_loop :: "Packet res list \<Rightarrow> Version option \<Rightarrow> Payload list \<Rightarrow> Version res \<times> Payload list" where
  "handshake_loop [] remote_version sent = (Err (Msg ''read chan closed''), sent)"
| "handshake_loop (r # rs) remote_version sent =
     (case r of
        Ok packet \<Rightarrow>
          (case handle_received packet remote_version of
             Ok (responses, finished, remote_version) \<Rightarrow>
               (let sent = sent @ (case responses of Some ps \<Rightarrow> ps | None \<Rightarrow> []) in
                if finished then (opt_unwrap remote_version, sent)
                else handshake_loop rs remote_version sent)
           | Err e \<Rightarrow> (Err e, sent)
           | Panic \<Rightarrow> (Panic, sent))
      | Err e \<Rightarrow> (Err e, sent)
      | Panic \<Rightarrow> (Panic, sent))"

definition own_version :: "u64 \<Rightarrow> u64 \<Rightarrow> u64 \<Rightarrow> Version" where
  "own_version now nonce height = \<lparr>ver_services = 9, ver_timestamp = now,
     ver_addrrecv = NetAddrShort_default, ver_addrfrom = NetAddrShort_default,
     ver_nonce = nonce, ver_user_agent = map of_char ''semikek'', ver_start_height = ucast height,
     ver_version = 70016, ver_announce = False\<rparr>"

definition handshake :: "u64 \<Rightarrow> u64 \<Rightarrow> u64 \<Rightarrow> Packet res list \<Rightarrow> Version res \<times> Payload list" where
  "handshake now nonce height inputs = handshake_loop inputs None [PVersion (own_version now nonce height)]"

subsection \<open>What a successful handshake has seen and sent\<close>

fun payload_of :: "Packet res \<Rightarrow> Payload option" where
  "payload_of (Ok packet) = pk_payload packet"
| "payload_of _ = None"

text \<open>A packet that changes nothing but, for a ping, calls for a pong.\<close>

definition quiet :: "Packet res \<Rightarrow> bool" where
  "quiet r \<longleftrightarrow> (\<exists>packet. r = Ok packet) \<and>
     (case payload_of r of Some (PVersion _) \<Rightarrow> False | Some PVerAck \<Rightarrow> False | _ \<Rightarrow> True)"

definition pong_for :: "Packet res \<Rightarrow> Payload list" where
  "pong_for r = (case payload_of r of Some (PPing p) \<Rightarrow> [PPong \<lparr>pong_nonce = ping_nonce p\<rparr>] | _ \<Rightarrow> [])"

definition final_messages :: "Version \<Rightarrow> Payload list" where
  "final_messages v = (if 70016 < ver_version v then [PSendAddrV2] else []) @ [PVerAck] @
     (if 70012 < ver_version v then [PSendHeaders] else [])"

lemma handshake_loop_quiet:
  assumes "quiet r"
  shows "handshake_loop (r # rs) rv sent = handshake_loop rs rv (sent @ pong_for r)"
proof -
  obtain packet where r: "r = Ok packet" using assms by (auto simp: quiet_def)
  then show ?thesis using assms
    by (cases "pk_payload packet")
      (auto simp: quiet_def pong_for_def handle_received_def handle_packet_during_handshaking_def
        split: Payload.splits)
qed

lemma handshake_loop_skip:
  "list_all quiet pre \<Longrightarrow>
   handshake_loop (pre @ rs) rv sent = handshake_loop rs rv (sent @ concat (map pong_for pre))"
proof (induction pre arbitrary: sent)
  case (Cons r pre)
  then show ?case using handshake_loop_quiet [of r "pre @ rs"] by simp
qed simp

text \<open>Every input starts with a quiet prefix; what follows is nothing or a packet that is not quiet.\<close>

lemma quiet_prefix: "\<exists>pre rest. rs = pre @ rest \<and> list_all quiet pre \<and> (rest = [] \<or> \<not> quiet (hd rest))"
proof (intro exI conjI)
  show "rs = takeWhile quiet rs @ dropWhile quiet rs" by simp
  show "list_all quiet (takeWhile quiet rs)" by (metis list_all_iff set_takeWhileD)
  show "dropWhile quiet rs = [] \<or> \<not> quiet (hd (dropWhile quiet rs))" using hd_dropWhile by blast
qed

lemma not_quiet_cases:
  assumes "\<not> quiet r"
  obtains (err) e where "r = Err e" | (panic) "r = Panic"
    | (version) packet v where "r = Ok packet" "pk_payload packet = Some (PVersion v)"
    | (verack) packet where "r = Ok packet" "pk_payload packet = Some PVerAck"
  using assms by (cases r) (auto simp: quiet_def split: option.splits Payload.splits)

lemma after_version:
  assumes "fst (handshake_loop rs (Some v) sent) = Ok w"
  shows "\<exists>mid packet post. rs = mid @ Ok packet # post \<and> list_all quiet mid \<and>
    pk_payload packet = Some PVerAck \<and> w = v \<and>
    handshake_loop rs (Some v) sent = (Ok v, sent @ concat (map pong_for mid) @ final_messages v)"
proof -
  obtain mid rest where rs: "rs = mid @ rest" "list_all quiet mid" "rest = [] \<or> \<not> quiet (hd rest)"
    using quiet_prefix by blast
  note skip = handshake_loop_skip [OF rs(2), of rest "Some v" sent]
  show ?thesis
  proof (cases rest)
    case Nil
    then show ?thesis using assms rs skip by simp
  next
    case (Cons r post)
    then have "\<not> quiet r" using rs(3) by simp
    then show ?thesis
      by (cases rule: not_quiet_cases)
        (use assms rs skip Cons in \<open>auto simp: handle_received_def
          handle_packet_during_handshaking_def final_messages_def\<close>)
  qed
qed

lemma before_version:
  assumes "fst (handshake_loop rs None sent) = Ok w"
  shows "\<exists>pre packet rest. rs = pre @ Ok packet # rest \<and> list_all quiet pre \<and>
    (\<exists>v. pk_payload packet = Some (PVersion v) \<and>
      handshake_loop rs None sent = handshake_loop rest (Some v) (sent @ concat (map pong_for pre)))"
proof -
  obtain pre rest where rs: "rs = pre @ rest" "list_all quiet pre" "rest = [] \<or> \<not> quiet (hd rest)"
    using quiet_prefix by blast
  note skip = handshake_loop_skip [OF rs(2), of rest None sent]
  show ?thesis
  proof (cases rest)
    case Nil
    then show ?thesis using assms rs skip by simp
  next
    case (Cons r post)
    then have "\<not> quiet r" using rs(3) by simp
    then show ?thesis
      by (cases rule: not_quiet_cases)
        (use assms rs skip Cons in \<open>auto simp: handle_received_def
          handle_packet_during_handshaking_def\<close>)
  qed
qed

text \<open>
  C16: A handshake succeeds exactly when the channel delivers, among packets that are neither, one
  version message and after it a verack; it then returns that version, and has sent the own
  version, one pong per ping in order, and the final messages chosen by the peer's version.
\<close>

theorem handshake_success:
  "fst (handshake now nonce height inputs) = Ok v \<longleftrightarrow>
   (\<exists>pre pv mid pa post. inputs = pre @ Ok pv # mid @ Ok pa # post \<and>
     list_all quiet pre \<and> list_all quiet mid \<and>
     pk_payload pv = Some (PVersion v) \<and> pk_payload pa = Some PVerAck \<and>
     snd (handshake now nonce height inputs) =
       PVersion (own_version now nonce height) # concat (map pong_for (pre @ mid)) @ final_messages v)"
  (is "?success \<longleftrightarrow> ?shape")
proof
  assume s: ?success
  from before_version [OF s [unfolded handshake_def]] obtain pre pv rest u where
    1: "inputs = pre @ Ok pv # rest" "list_all quiet pre" "pk_payload pv = Some (PVersion u)"
    and run: "handshake now nonce height inputs = handshake_loop rest (Some u)
      ([PVersion (own_version now nonce height)] @ concat (map pong_for pre))"
    unfolding handshake_def by blast
  have "fst (handshake_loop rest (Some u)
      ([PVersion (own_version now nonce height)] @ concat (map pong_for pre))) = Ok v" using s run by simp
  from after_version [OF this] obtain mid pa post where
    2: "rest = mid @ Ok pa # post" "list_all quiet mid" "pk_payload pa = Some PVerAck" "v = u"
    and "snd (handshake now nonce height inputs) = ([PVersion (own_version now nonce height)] @
      concat (map pong_for pre)) @ concat (map pong_for mid) @ final_messages u"
    using run by auto
  then show ?shape using 1
    by (intro exI [of _ pre] exI [of _ pv] exI [of _ mid] exI [of _ pa] exI [of _ post]) simp
next
  assume ?shape
  then obtain pre pv mid pa post where
    i: "inputs = pre @ Ok pv # mid @ Ok pa # post" "list_all quiet pre" "list_all quiet mid"
      "pk_payload pv = Some (PVersion v)" "pk_payload pa = Some PVerAck" by blast
  then show ?success
    by (simp add: handshake_def handshake_loop_skip handle_received_def
        handle_packet_during_handshaking_def)
qed

text \<open>
  A peer that announces exactly protocol version 70016, the first one with address version 2
  messages and the one this client announces itself, is not sent \<open>sendaddrv2\<close>.
\<close>

lemma sendaddrv2_not_sent_at_70016:
  assumes "fst (handshake now nonce height inputs) = Ok v" and "ver_version v = 70016"
  shows "PSendAddrV2 \<notin> set (snd (handshake now nonce height inputs))"
proof -
  have "PSendAddrV2 \<notin> set (pong_for r)" for r
    by (auto simp: pong_for_def split: option.splits Payload.splits)
  moreover obtain pre mid where "snd (handshake now nonce height inputs) =
      PVersion (own_version now nonce height) # concat (map pong_for (pre @ mid)) @ final_messages v"
  proof -
    from before_version [OF assms(1) [unfolded handshake_def]] obtain pre rest u where
      run: "handshake now nonce height inputs = handshake_loop rest (Some u)
        ([PVersion (own_version now nonce height)] @ concat (map pong_for pre))"
      unfolding handshake_def by blast
    from after_version [OF assms(1) [unfolded run]] run show thesis by (auto intro: that)
  qed
  ultimately show ?thesis using assms(2) by (auto simp: final_messages_def)
qed

definition demo_handshake_inputs :: "Packet res list" where
  "demo_handshake_inputs =
     (let h = \<lparr>ph_magic = 0, ph_command = [], ph_length = 0, ph_checksum = 0\<rparr> in
      [Ok \<lparr>pk_header = h, pk_payload = Some (PVersion (own_version 1 2 3))\<rparr>,
       Ok \<lparr>pk_header = h, pk_payload = Some (PPing \<lparr>ping_nonce = 5\<rparr>)\<rparr>,
       Ok \<lparr>pk_header = h, pk_payload = Some PVerAck\<rparr>])"

section \<open>Pools of arenas\<close>

record ArenaPool =
  ap_available :: nat
  ap_current_size :: usize
  ap_current_limit :: usize

definition ArenaPool_new :: "usize \<Rightarrow> ArenaPool" where
  "ArenaPool_new initial_size =
     \<lparr>ap_available = initial_size, ap_current_size = initial_size, ap_current_limit = initial_size\<rparr>"

text \<open>
  Where a thread is inside \<open>get_arena\<close>: before \<open>pool.get()\<close>, with an arena taken and the
  counters loaded one after the other, in the inner loop that may drop the arena, after a
  time-out with the counters loaded, in the inner loop that may add an arena, between the
  successful exchange and \<open>try_add\<close>, and outside with an arena in use.
\<close>

datatype pool_thread =
    Getting
  | Took
  | TookSize usize
  | Dropping usize usize
  | TimedOut
  | TimedOutSize usize
  | Growing usize usize
  | Adding
  | Using

inductive pool_step :: "usize \<Rightarrow> ArenaPool \<times> pool_thread list \<Rightarrow> ArenaPool \<times> pool_thread list \<Rightarrow> bool"
  for B :: usize where
  get_ok: "i < length ts \<Longrightarrow> ts ! i = Getting \<Longrightarrow> 0 < ap_available p \<Longrightarrow>
    pool_step B (p, ts) (p\<lparr>ap_available := ap_available p - 1\<rparr>, ts[i := Took])"
| load_size: "i < length ts \<Longrightarrow> ts ! i = Took \<Longrightarrow>
    pool_step B (p, ts) (p, ts[i := TookSize (ap_current_size p)])"
| keep: "i < length ts \<Longrightarrow> ts ! i = TookSize cur \<Longrightarrow> cur \<le> ap_current_limit p \<Longrightarrow>
    pool_step B (p, ts) (p, ts[i := Using])"
| too_many: "i < length ts \<Longrightarrow> ts ! i = TookSize cur \<Longrightarrow> ap_current_limit p < cur \<Longrightarrow>
    pool_step B (p, ts) (p, ts[i := Dropping cur (ap_current_limit p)])"
| drop_ok: "i < length ts \<Longrightarrow> ts ! i = Dropping cur limit \<Longrightarrow> limit < cur \<Longrightarrow>
    ap_current_size p = cur \<Longrightarrow>
    pool_step B (p, ts) (p\<lparr>ap_current_size := cur - 1\<rparr>, ts[i := Getting])"
| drop_retry: "i < length ts \<Longrightarrow> ts ! i = Dropping cur limit \<Longrightarrow> limit < cur \<Longrightarrow>
    pool_step B (p, ts) (p, ts[i := Dropping (ap_current_size p) limit])"
| drop_exit: "i < length ts \<Longrightarrow> ts ! i = Dropping cur limit \<Longrightarrow> cur \<le> limit \<Longrightarrow>
    pool_step B (p, ts) (p\<lparr>ap_available := ap_available p + 1\<rparr>, ts[i := Getting])"
| time_out: "i < length ts \<Longrightarrow> ts ! i = Getting \<Longrightarrow> pool_step B (p, ts) (p, ts[i := TimedOut])"
| grow_size: "i < length ts \<Longrightarrow> ts ! i = TimedOut \<Longrightarrow>
    pool_step B (p, ts) (p, ts[i := TimedOutSize (ap_current_size p)])"
| grow_limit: "i < length ts \<Longrightarrow> ts ! i = TimedOutSize cur \<Longrightarrow>
    pool_step B (p, ts) (p, ts[i := Growing cur (ap_current_limit p)])"
| grow_ok: "i < length ts \<Longrightarrow> ts ! i = Growing cur limit \<Longrightarrow> cur < limit \<Longrightarrow>
    ap_current_size p = cur \<Longrightarrow>
    pool_step B (p, ts) (p\<lparr>ap_current_size := cur + 1\<rparr>, ts[i := Adding])"
| grow_retry: "i < length ts \<Longrightarrow> ts ! i = Growing cur limit \<Longrightarrow> cur < limit \<Longrightarrow>
    pool_step B (p, ts) (p, ts[i := Growing (ap_current_size p) limit])"
| grow_exit: "i < length ts \<Longrightarrow> ts ! i = Growing cur limit \<Longrightarrow> limit \<le> cur \<Longrightarrow>
    pool_step B (p, ts) (p, ts[i := Getting])"
| add: "i < length ts \<Longrightarrow> ts ! i = Adding \<Longrightarrow>
    pool_step B (p, ts) (p\<lparr>ap_available := ap_available p + 1\<rparr>, ts[i := Getting])"
| release: "i < length ts \<Longrightarrow> ts ! i = Using \<Longrightarrow>
    pool_step B (p, ts) (p\<lparr>ap_available := ap_available p + 1\<rparr>, ts[i := Getting])"
| set_limit: "new_limit \<le> B \<Longrightarrow> pool_step B (p, ts) (p\<lparr>ap_current_limit := new_limit\<rparr>, ts)"

inductive pool_reachable :: "usize \<Rightarrow> usize \<Rightarrow> nat \<Rightarrow> ArenaPool \<times> pool_thread list \<Rightarrow> bool"
  for B initial_size n where
  start: "pool_reachable B initial_size n (ArenaPool_new initial_size, replicate n Getting)"
| step: "pool_reachable B initial_size n s \<Longrightarrow> pool_step B s s' \<Longrightarrow> pool_reachable B initial_size n s'"

text \<open>The arenas a thread accounts for, and the limits it has seen.\<close>

fun thread_arenas :: "pool_thread \<Rightarrow> nat" where
  "thread_arenas Took = 1"
| "thread_arenas (TookSize _) = 1"
| "thread_arenas (Dropping _ _) = 1"
| "thread_arenas Adding = 1"
| "thread_arenas Using = 1"
| "thread_arenas _ = 0"

fun seen_limit :: "usize \<Rightarrow> pool_thread \<Rightarrow> bool" where
  "seen_limit B (Growing cur limit) \<longleftrightarrow> limit \<le> B"
| "seen_limit B _ \<longleftrightarrow> True"

definition pool_inv :: "usize \<Rightarrow> ArenaPool \<times> pool_thread list \<Rightarrow> bool" where
  "pool_inv B s \<longleftrightarrow> (case s of (p, ts) \<Rightarrow>
     ap_available p + sum_list (map thread_arenas ts) = ap_current_size p \<and>
     ap_current_size p \<le> B \<and> ap_current_limit p \<le> B \<and> list_all (seen_limit B) ts)"

lemma sum_list_map_update:
  "i < length ts \<Longrightarrow> sum_list (map f (ts[i := t])) + f (ts ! i) = sum_list (map f ts) + (f t :: nat)"
  by (induction ts arbitrary: i) (auto simp: nth_Cons split: nat.split)

lemma list_all_update: "list_all P ts \<Longrightarrow> P t \<Longrightarrow> list_all P (ts[i := t])"
  by (auto simp: list_all_iff dest!: set_update_subset_insert [THEN subsetD])

lemma list_all_nthD: "list_all P ts \<Longrightarrow> i < length ts \<Longrightarrow> P (ts ! i)"
  by (simp add: list_all_length)

text \<open>One thread moves; the arena it gains or loses is accounted for.\<close>

lemma pool_inv_move:
  assumes "pool_inv B (p, ts)" and "i < length ts" and "seen_limit B t"
    and "ap_available p' + thread_arenas t + ap_current_size p =
      ap_available p + thread_arenas (ts ! i) + ap_current_size p'"
    and "ap_current_size p' \<le> B" and "ap_current_limit p' = ap_current_limit p"
  shows "pool_inv B (p', ts[i := t])"
  using assms sum_list_map_update [OF assms(2), of thread_arenas t]
  by (auto simp: pool_inv_def list_all_update)

lemma pool_invD:
  assumes "pool_inv B (p, ts)"
  shows "ap_current_size p \<le> B" "ap_current_limit p \<le> B"
    and "i < length ts \<Longrightarrow> seen_limit B (ts ! i)"
    and "i < length ts \<Longrightarrow> thread_arenas (ts ! i) \<le> ap_current_size p"
  using assms list_all_nthD [of "seen_limit B" ts i] sum_list_map_update [of i ts thread_arenas Getting]
  by (auto simp: pool_inv_def)

lemma pool_step_inv: "pool_step B s s' \<Longrightarrow> pool_inv B s \<Longrightarrow> pool_inv B s'"
proof (induction rule: pool_step.induct)
  case (set_limit new_limit p ts)
  then show ?case by (simp add: pool_inv_def)
next
  case (grow_ok i ts cur limit p)
  have "limit \<le> B" using pool_invD(3) [OF grow_ok.prems grow_ok.hyps(1)] grow_ok.hyps(2) by simp
  then show ?case by (intro pool_inv_move [OF grow_ok.prems]) (use grow_ok.hyps in simp_all)
next
  case (grow_retry i ts cur limit p)
  note d = pool_invD [OF grow_retry.prems]
  show ?case by (intro pool_inv_move [OF grow_retry.prems])
      (use grow_retry.hyps d(1) d(3) [of i] in simp_all)
next
  case (drop_ok i ts cur limit p)
  note d = pool_invD [OF drop_ok.prems]
  show ?case by (intro pool_inv_move [OF drop_ok.prems]) (use drop_ok.hyps d(1) in simp_all)
next
  case (grow_limit i ts cur p)
  note d = pool_invD [OF grow_limit.prems]
  show ?case by (intro pool_inv_move [OF grow_limit.prems]) (use grow_limit.hyps d(1,2) in simp_all)
qed (frule pool_invD(1), erule pool_inv_move; simp)+

lemma pool_reachable_inv:
  "pool_reachable B initial_size n s \<Longrightarrow> initial_size \<le> B \<Longrightarrow> pool_inv B s"
proof (induction rule: pool_reachable.induct)
  case start
  then show ?case
    by (simp add: pool_inv_def ArenaPool_new_def sum_list_replicate list_all_iff map_replicate_const)
qed (rule pool_step_inv)



end
