(* ===== verification/Peers.thy ===== *)
theory Peers
  imports Connect
begin

text \<open>
  The peers the crawler knows: addresses of \<open>src/src/types/addressportnetwork.rs\<close>, the ring buffer of
  peers that were online lately (\<open>src/src/util/online_list.rs\<close>), the address manager
  (\<open>src/src/addrman/mod.rs\<close>) and the set of connected peers (\<open>src/src/crawler/peertracker.rs\<close>).

  \<open>SystemTime\<close> and \<open>Duration\<close> are nanoseconds; a reading of the clock and a random number are
  arguments.  A \<open>HashMap\<close> to the unit type is the set of its keys.
\<close>

section \<open>Peers that were online lately\<close>

type_synonym system_time = int
type_synonym duration = int

definition checked_sub :: "system_time \<Rightarrow> duration \<Rightarrow> system_time option" where
  "checked_sub t d = (if t - d < - (2 ^ 63) * 1000000000 then None else Some (t - d))"

record AddressPortNetwork =
  apn_network_id :: NetworkId
  apn_port :: u16
  apn_address :: bytes

definition AddressPortNetwork_default :: AddressPortNetwork where
  "AddressPortNetwork_default = \<lparr>apn_network_id = NetError, apn_port = 0, apn_address = []\<rparr>"

record AddressPortNetworkWithServicesAndTime =
  op_apn :: AddressPortNetwork
  op_services :: u64
  op_last_online :: system_time

definition online_default :: AddressPortNetworkWithServicesAndTime where
  "online_default = \<lparr>op_apn = AddressPortNetwork_default, op_services = 0, op_last_online = 0\<rparr>"

record OnlineList =
  ol_peers :: "AddressPortNetworkWithServicesAndTime list"
  ol_threshold :: duration
  ol_end :: usize
  ol_start :: usize
  ol_known :: "AddressPortNetwork set"

definition OnlineList_new :: "duration \<Rightarrow> OnlineList" where
  "OnlineList_new threshold = \<lparr>ol_peers = replicate 32 online_default, ol_threshold = threshold,
     ol_end = 0, ol_start = 0, ol_known = {}\<rparr>"

definition OnlineList_length :: "OnlineList \<Rightarrow> usize" where
  "OnlineList_length l =
     (if ol_end l < ol_start l then wsub (wadd (ol_end l) (length (ol_peers l))) (ol_start l)
      else wsub (ol_end l) (ol_start l))"

fun trim_loop :: "system_time \<Rightarrow> usize \<Rightarrow> usize \<Rightarrow> nat \<Rightarrow> OnlineList \<Rightarrow> OnlineList res" where
  "trim_loop rn start i 0 l = Ok l"
| "trim_loop rn start i (Suc n) l =
     (let real_i = wadd i start mod length (ol_peers l) in
      res_bind (idx_at (ol_peers l) real_i) (\<lambda>item.
      res_bind (opt_unwrap (checked_sub rn (ol_threshold l))) (\<lambda>limit.
      if op_last_online item < limit
      then trim_loop rn start (Suc i) n (l\<lparr>ol_start := wadd (ol_start l) 1 mod length (ol_peers l),
             ol_known := ol_known l - {op_apn item}\<rparr>)
      else Ok l)))"

definition OnlineList_trim :: "system_time \<Rightarrow> OnlineList \<Rightarrow> OnlineList res" where
  "OnlineList_trim rn l = trim_loop rn (ol_start l) 0 (length (ol_peers l)) l"

text \<open>The new vector of the growth is filled up to its capacity, which is the one asked for.\<close>

definition peer_online ::
  "system_time \<Rightarrow> AddressPortNetwork \<Rightarrow> u64 \<Rightarrow> system_time \<Rightarrow> OnlineList \<Rightarrow> OnlineList res" where
  "peer_online rn peer services last_online l =
     res_bind (OnlineList_trim rn l) (\<lambda>l.
     if peer \<in> ol_known l then Ok l
     else
       let l = l\<lparr>ol_known := insert peer (ol_known l)\<rparr> in
       res_bind (idx_at (ol_peers l) (ol_end l)) (\<lambda>_.
       let l = l\<lparr>ol_peers := (ol_peers l)[ol_end l :=
                   \<lparr>op_apn = peer, op_services = services, op_last_online = last_online\<rparr>]\<rparr>;
           l = l\<lparr>ol_end := wadd (ol_end l) 1 mod length (ol_peers l)\<rparr> in
       if ol_end l = ol_start l then
         let old_size = length (ol_peers l);
             new_peers = drop (ol_end l) (ol_peers l) @ take (ol_end l) (ol_peers l);
             new_peers = new_peers @ replicate (wmul old_size 2 - length new_peers) online_default in
         Ok (l\<lparr>ol_peers := new_peers, ol_start := 0, ol_end := old_size\<rparr>)
       else Ok l))"

text \<open>\<open>index\<close> is the number drawn from \<open>0..len\<close>.\<close>

fun random_loop ::
  "OnlineList \<Rightarrow> u64 \<Rightarrow> usize \<Rightarrow> nat \<Rightarrow> AddressPortNetwork option res" where
  "random_loop l requirement i 0 = Ok None"
| "random_loop l requirement i (Suc n) =
     (let real_i = i mod length (ol_peers l) in
      res_bind (idx_at (ol_peers l) real_i) (\<lambda>p.
      if op_services p AND requirement = requirement then Ok (Some (op_apn p))
      else random_loop l requirement (Suc i) n))"

definition OnlineList_random :: "usize \<Rightarrow> OnlineList \<Rightarrow> u64 option \<Rightarrow> AddressPortNetwork option res" where
  "OnlineList_random index l services =
     (let len = OnlineList_length l in
      if len = 0 then Ok None
      else
        (case services of
           None \<Rightarrow> res_bind (idx_at (ol_peers l) index) (\<lambda>p. Ok (Some (op_apn p)))
         | Some requirement \<Rightarrow> random_loop l requirement index len))"

section \<open>The address manager\<close>

text \<open>The writes that are handed to SQLite.\<close>

datatype peer_write =
    InsertPeer AddressPortNetwork u64
  | DeletePeer AddressPortNetwork
  | BanPeer AddressPortNetwork system_time system_time "string list"
  | UpdatePeerFromVersion AddressPortNetwork u64 u32 bytes
  | UpdatePeerFirstOnline AddressPortNetwork u64

record AddrMan =
  am_to_check :: "AddressPortNetwork list"
  am_known :: "AddressPortNetwork set"
  am_online :: OnlineList

definition AddrMan_default :: AddrMan where
  "AddrMan_default = \<lparr>am_to_check = [], am_known = {}, am_online = OnlineList_new (60 * 3 * 1000000000)\<rparr>"

text \<open>\<open>all_peers\<close> is what SQLite holds.\<close>

definition addrman_start :: "AddressPortNetwork list \<Rightarrow> AddrMan \<Rightarrow> AddrMan" where
  "addrman_start all_peers m = m\<lparr>am_known := am_known m \<union> set all_peers, am_to_check := all_peers\<rparr>"

definition get_peers_to_check :: "AddrMan \<Rightarrow> AddressPortNetwork list \<times> AddrMan" where
  "get_peers_to_check m = (am_to_check m, m\<lparr>am_to_check := []\<rparr>)"

fun not_known :: "AddressPortNetwork list \<Rightarrow> AddressPortNetwork set \<Rightarrow> AddressPortNetwork list \<times> AddressPortNetwork set" where
  "not_known [] w = ([], w)"
| "not_known (apn # apns) w =
     (if apn \<notin> w then let (new, w) = not_known apns (insert apn w) in (apn # new, w)
      else not_known apns w)"

definition peers_seen :: "AddressPortNetwork list \<Rightarrow> u64 \<Rightarrow> AddrMan \<Rightarrow> peer_write list \<times> AddrMan" where
  "peers_seen apns time m =
     (let (should_pass_to_sqlite, w) = not_known apns (am_known m);
          m = m\<lparr>am_known := w\<rparr> in
      if should_pass_to_sqlite = [] then ([], m)
      else (map (\<lambda>apn. InsertPeer apn time) should_pass_to_sqlite,
            m\<lparr>am_to_check := am_to_check m @ should_pass_to_sqlite\<rparr>))"

definition BAN_PEER_DURATION :: duration where
  "BAN_PEER_DURATION = 3600 * 24 * 14 * 1000000000"

definition delete_and_ban_peer ::
  "system_time \<Rightarrow> AddressPortNetwork \<Rightarrow> string list \<Rightarrow> peer_write list res" where
  "delete_and_ban_peer rn apn reasons =
     res_bind (opt_unwrap (if 2 ^ 63 * 1000000000 \<le> rn + BAN_PEER_DURATION then None
                           else Some (rn + BAN_PEER_DURATION))) (\<lambda>banned_until.
     Ok [DeletePeer apn, BanPeer apn rn banned_until reasons])"

text \<open>\<open>rn\<close> is read before the lock is taken, \<open>now\<close> in \<open>trim\<close>.\<close>

definition update_peer_online ::
  "system_time \<Rightarrow> system_time \<Rightarrow> AddressPortNetwork \<Rightarrow> u64 \<Rightarrow> AddrMan \<Rightarrow> AddrMan res" where
  "update_peer_online rn now apn services m =
     res_bind (peer_online now apn services rn (am_online m)) (\<lambda>w. Ok (m\<lparr>am_online := w\<rparr>))"

definition on_peer_version_received ::
  "u64 \<Rightarrow> AddressPortNetwork \<Rightarrow> u64 \<Rightarrow> u32 \<Rightarrow> bytes \<Rightarrow> peer_write list" where
  "on_peer_version_received now apn services block_height user_agent =
     [UpdatePeerFromVersion apn services block_height user_agent, UpdatePeerFirstOnline apn now]"

definition get_alive_peer :: "usize \<Rightarrow> u64 option \<Rightarrow> AddrMan \<Rightarrow> AddressPortNetwork option res" where
  "get_alive_peer index services m = OnlineList_random index (am_online m) services"

text \<open>
  One element of the list is one round of the loop: the number drawn and the state it meets; \<open>connect\<close> is
  \<open>connect_and_handshake\<close>.  The result is \<open>None\<close> while no round has succeeded.
\<close>

fun connect_to_good_peer ::
  "(AddressPortNetwork \<Rightarrow> 'c res) \<Rightarrow> u64 option \<Rightarrow> (usize \<times> AddrMan) list \<Rightarrow> 'c option res" where
  "connect_to_good_peer connect services [] = Ok None"
| "connect_to_good_peer connect services ((index, m) # rounds) =
     res_bind (get_alive_peer index services m) (\<lambda>peer.
     case peer of
       Some peer \<Rightarrow>
         (case connect peer of
            Ok conn \<Rightarrow> Ok (Some conn)
          | Err _ \<Rightarrow> connect_to_good_peer connect services rounds
          | Panic \<Rightarrow> Panic)
     | None \<Rightarrow> connect_to_good_peer connect services rounds)"

section \<open>Connected peers\<close>

definition TrackedConnection_new :: "AddressPortNetwork \<Rightarrow> AddressPortNetwork set \<Rightarrow> AddressPortNetwork set res" where
  "TrackedConnection_new apn connected = (if apn \<in> connected then Panic else Ok (insert apn connected))"

definition TrackedConnection_drop :: "AddressPortNetwork \<Rightarrow> AddressPortNetwork set \<Rightarrow> AddressPortNetwork set res" where
  "TrackedConnection_drop apn connected = (if apn \<in> connected then Ok (connected - {apn}) else Panic)"

definition is_connected_now :: "AddressPortNetwork \<Rightarrow> AddressPortNetwork set \<Rightarrow> bool" where
  "is_connected_now apn connected \<longleftrightarrow> apn \<in> connected"

text \<open>
  The crawl tasks and the address manager together: \<open>cs_batch\<close> are the peers that the loop of
  \<open>crawl_forever\<close> has still to spawn a task for, a task is connected or not, and \<open>cs_banned\<close> are the peers
  whose task has ended with the ban.
\<close>

record crawl_system =
  cs_man :: AddrMan
  cs_batch :: "AddressPortNetwork list"
  cs_tasks :: "(AddressPortNetwork \<times> bool) list"
  cs_connected :: "AddressPortNetwork set"
  cs_banned :: "AddressPortNetwork list"

inductive crawl_step :: "crawl_system \<Rightarrow> crawl_system \<Rightarrow> bool" where
  seen: "peers_seen apns time (cs_man s) = (writes, m) \<Longrightarrow> crawl_step s (s\<lparr>cs_man := m\<rparr>)"
| take: "cs_batch s = [] \<Longrightarrow> get_peers_to_check (cs_man s) = (peers_to_check, m) \<Longrightarrow>
    crawl_step s (s\<lparr>cs_man := m, cs_batch := peers_to_check\<rparr>)"
| spawn: "cs_batch s = peer # peers \<Longrightarrow>
    crawl_step s (s\<lparr>cs_batch := peers, cs_tasks := cs_tasks s @ [(peer, False)]\<rparr>)"
| connect: "cs_tasks s = xs @ (peer, False) # ys \<Longrightarrow> TrackedConnection_new peer (cs_connected s) = Ok connected \<Longrightarrow>
    crawl_step s (s\<lparr>cs_tasks := xs @ (peer, True) # ys, cs_connected := connected\<rparr>)"
| disconnect: "cs_tasks s = xs @ (peer, True) # ys \<Longrightarrow> TrackedConnection_drop peer (cs_connected s) = Ok connected \<Longrightarrow>
    crawl_step s (s\<lparr>cs_tasks := xs @ (peer, False) # ys, cs_connected := connected\<rparr>)"
| ban: "cs_tasks s = xs @ (peer, False) # ys \<Longrightarrow> delete_and_ban_peer rn peer reasons = Ok writes \<Longrightarrow>
    crawl_step s (s\<lparr>cs_tasks := xs @ ys, cs_banned := cs_banned s @ [peer]\<rparr>)"

inductive crawl_reachable :: "AddressPortNetwork list \<Rightarrow> crawl_system \<Rightarrow> bool" for all_peers where
  start: "crawl_reachable all_peers \<lparr>cs_man = addrman_start all_peers AddrMan_default, cs_batch = [],
    cs_tasks = [], cs_connected = {}, cs_banned = []\<rparr>"
| step: "crawl_reachable all_peers s \<Longrightarrow> crawl_step s s' \<Longrightarrow> crawl_reachable all_peers s'"

section \<open>The ring as a list\<close>

definition slot :: "OnlineList \<Rightarrow> nat \<Rightarrow> AddressPortNetworkWithServicesAndTime" where
  "slot l k = ol_peers l ! ((ol_start l + k) mod length (ol_peers l))"

definition window :: "OnlineList \<Rightarrow> AddressPortNetworkWithServicesAndTime list" where
  "window l = map (slot l) [0..<OnlineList_length l]"

definition stale :: "system_time \<Rightarrow> OnlineList \<Rightarrow> AddressPortNetworkWithServicesAndTime \<Rightarrow> bool" where
  "stale t l p \<longleftrightarrow> op_last_online p < t - ol_threshold l"

definition ring_ok :: "system_time \<Rightarrow> OnlineList \<Rightarrow> bool" where
  "ring_ok t l \<longleftrightarrow>
     ol_start l < length (ol_peers l) \<and> ol_end l < length (ol_peers l) \<and> length (ol_peers l) < 2 ^ 62 \<and>
     0 < t - ol_threshold l \<and>
     (\<forall>k. OnlineList_length l \<le> k \<and> k < length (ol_peers l) \<longrightarrow> stale t l (slot l k))"

text \<open>
  The abstract list: entries leave at the front once they are stale, and a peer is appended unless it
  is listed.
\<close>

definition online_spec ::
  "system_time \<Rightarrow> AddressPortNetwork \<Rightarrow> u64 \<Rightarrow> system_time \<Rightarrow> AddressPortNetworkWithServicesAndTime list \<Rightarrow>
   AddressPortNetworkWithServicesAndTime list" where
  "online_spec limit peer services last_online ps =
     (let live = dropWhile (\<lambda>p. op_last_online p < limit) ps in
      if peer \<in> op_apn ` set live then live
      else live @ [\<lparr>op_apn = peer, op_services = services, op_last_online = last_online\<rparr>])"

definition listed_once :: "OnlineList \<Rightarrow> bool" where
  "listed_once l \<longleftrightarrow> distinct (map op_apn (window l)) \<and> ol_known l = op_apn ` set (window l)"

lemma ring_length:
  assumes "ol_start l < length (ol_peers l)" "ol_end l < length (ol_peers l)" "length (ol_peers l) < 2 ^ 62"
  shows "OnlineList_length l < length (ol_peers l)"
    and "(ol_start l + OnlineList_length l) mod length (ol_peers l) = ol_end l"
  using assms by (auto simp: OnlineList_length_def)

lemma ring_length_unique:
  assumes "ol_start l < length (ol_peers l)" "k < length (ol_peers l)" "length (ol_peers l) < 2 ^ 62"
    and "(ol_start l + k) mod length (ol_peers l) = ol_end l"
  shows "OnlineList_length l = k"
proof (cases "ol_start l + k < length (ol_peers l)")
  case True
  then show ?thesis using assms by (auto simp: OnlineList_length_def)
next
  case False
  then have "ol_end l = ol_start l + k - length (ol_peers l)"
    using assms by (simp add: le_mod_geq)
  then show ?thesis using False assms by (auto simp: OnlineList_length_def)
qed

lemma slot_inject:
  assumes "s < n" "k < n" "j < n" "(s + k) mod n = (s + j) mod (n :: nat)"
  shows "k = j"
proof -
  have "(s + k) mod n = (if s + k < n then s + k else s + k - n)" "(s + j) mod n = (if s + j < n then s + j else s + j - n)"
    using assms(1-3) by (simp_all add: le_mod_geq)
  then show ?thesis using assms by (auto split: if_splits)
qed

lemma trim_loop_eq:
  assumes "ol_start l = (start + i) mod length (ol_peers l)" "i + n \<le> length (ol_peers l)"
    and "start < length (ol_peers l)" "length (ol_peers l) < 2 ^ 62" "0 < rn - ol_threshold l"
  shows "trim_loop rn start i n l =
    (let gone = takeWhile (stale rn l) (map (slot l) [0..<n]) in
     Ok (l\<lparr>ol_start := (ol_start l + length gone) mod length (ol_peers l),
           ol_known := ol_known l - op_apn ` set gone\<rparr>))"
  using assms
proof (induction n arbitrary: i l)
  case 0
  then show ?case by simp
next
  case (Suc n)
  let ?N = "length (ol_peers l)" and ?p = "slot l 0"
  define m where "m = l\<lparr>ol_start := (ol_start l + 1) mod ?N, ol_known := ol_known l - {op_apn ?p}\<rparr>"
  define rest where "rest = takeWhile (stale rn m) (map (slot m) [0..<n])"
  have sel: "ol_start m = Suc (ol_start l) mod ?N" "ol_peers m = ol_peers l" "ol_end m = ol_end l"
    "ol_threshold m = ol_threshold l" "ol_known m = ol_known l - {op_apn ?p}"
    by (simp_all add: m_def)
  have E: "stale rn m = stale rn l" by (rule ext) (simp add: stale_def sel)
  have pos: "0 < ?N" using Suc.prems(3) by linarith
  have idx: "idx_at (ol_peers l) (wadd i start mod ?N) = Ok ?p"
    using Suc.prems pos by (simp add: idx_at_def get_at_def slot_def add.commute [of i])
  have lim: "checked_sub rn (ol_threshold l) = Some (rn - ol_threshold l)"
    using Suc.prems(5) by (simp add: checked_sub_def)
  have start: "ol_start l < ?N" using Suc.prems(1) pos by simp
  then have upd: "l\<lparr>ol_start := wadd (ol_start l) 1 mod ?N, ol_known := ol_known l - {op_apn ?p}\<rparr> = m"
    using Suc.prems(4) by (simp add: m_def)
  have "slot m k = slot l (Suc k)" for k
    using mod_add_left_eq [of "Suc (ol_start l)" ?N k] by (simp add: slot_def sel)
  then have slots: "map (slot l) [0..<Suc n] = ?p # map (slot m) [0..<n]"
    by (simp add: upt_conv_Cons map_Suc_upt [symmetric] del: upt_Suc)
  have "trim_loop rn start (Suc i) n m = Ok (m\<lparr>ol_start := (ol_start m + length rest) mod length (ol_peers m),
      ol_known := ol_known m - op_apn ` set rest\<rparr>)"
    unfolding rest_def by (subst Suc.IH) (use Suc.prems in \<open>simp_all add: Let_def sel mod_Suc_eq\<close>)
  also have "\<dots> = Ok (l\<lparr>ol_start := (ol_start l + Suc (length rest)) mod ?N,
      ol_known := ol_known l - insert (op_apn ?p) (op_apn ` set rest)\<rparr>)"
    using mod_add_left_eq [of "Suc (ol_start l)" ?N "length rest"]
    by (simp add: sel Diff_insert2 [symmetric] m_def)
  finally have loop: "trim_loop rn start (Suc i) n m = \<dots>" .
  show ?case
  proof (cases "stale rn l ?p")
    case True
    then have "takeWhile (stale rn l) (map (slot l) [0..<Suc n]) = ?p # rest" unfolding slots rest_def E by simp
    then show ?thesis
      using idx lim upd loop True by (simp add: Let_def stale_def [of rn l ?p] del: upt_Suc)
  next
    case False
    then have "takeWhile (stale rn l) (map (slot l) [0..<Suc n]) = []" unfolding slots by simp
    then show ?thesis
      using idx lim False start by (simp add: Let_def stale_def [of rn l ?p] del: upt_Suc)
  qed
qed

lemma slots_split:
  assumes "OnlineList_length l \<le> length (ol_peers l)"
  shows "map (slot l) [0..<length (ol_peers l)] =
    window l @ map (slot l) [OnlineList_length l..<length (ol_peers l)]"
  using assms by (simp add: window_def map_append [symmetric] upt_add_eq_append [symmetric] del: map_append)
    (metis le_add_diff_inverse upt_add_eq_append zero_le)

text \<open>The oldest \<open>j\<close> entries leave.\<close>

lemma drop_oldest:
  assumes "ring_ok t l" "t \<le> now" "j \<le> OnlineList_length l"
    and "\<forall>p \<in> set (take j (window l)). stale now l p"
    and "l' = l\<lparr>ol_start := (ol_start l + j) mod length (ol_peers l), ol_known := K\<rparr>"
  shows "ring_ok now l'" "window l' = drop j (window l)" "OnlineList_length l' = OnlineList_length l - j"
proof -
  let ?n = "length (ol_peers l)" and ?len = "OnlineList_length l"
  have r: "ol_start l < ?n" "ol_end l < ?n" "?n < 2 ^ 62" using assms(1) by (auto simp: ring_ok_def)
  have len: "?len < ?n" "(ol_start l + ?len) mod ?n = ol_end l" using ring_length [OF r] by auto
  have sel: "ol_start l' = (ol_start l + j) mod ?n" "ol_peers l' = ol_peers l" "ol_end l' = ol_end l"
    "ol_threshold l' = ol_threshold l"
    using assms(5) by simp_all
  have shift: "slot l' k = slot l (j + k)" for k by (simp add: slot_def sel mod_add_left_eq add.assoc)
  show len': "OnlineList_length l' = ?len - j"
  proof (rule ring_length_unique)
    obtain d where d: "?len = j + d" using assms(3) le_Suc_ex by blast
    show "(ol_start l' + (?len - j)) mod length (ol_peers l') = ol_end l'"
      using len(2) unfolding d by (simp add: sel mod_add_left_eq add.assoc)
    have "0 < ?n" using r(1) by linarith
    then show "ol_start l' < length (ol_peers l')" by (simp add: sel)
  qed (use sel r len in auto)
  show "window l' = drop j (window l)"
    using assms(3) by (intro nth_equalityI) (auto simp: window_def len' shift)
  have "stale now l' (slot l' k)" if k: "?len - j \<le> k" "k < ?n" for k
  proof (cases "j + k < ?n")
    case True
    then have "stale t l (slot l (j + k))" using assms(1) k by (auto simp: ring_ok_def)
    then show ?thesis using assms(2) by (simp add: shift stale_def sel)
  next
    case False
    then have "ol_start l + (j + k) = ol_start l + (j + k - ?n) + ?n" by linarith
    then have "slot l (j + k) = slot l (j + k - ?n)" unfolding slot_def by (metis mod_add_self2)
    moreover have "j + k - ?n < j" using k False assms(3) len by linarith
    ultimately have "slot l (j + k) \<in> set (take j (window l))"
      using assms(3) by (force simp: window_def take_map in_set_conv_nth intro!: exI [of _ "j + k - ?n"])
    then show ?thesis using assms(4) by (simp add: shift stale_def sel)
  qed
  moreover have "0 < ?n" using r(1) by linarith
  ultimately show "ring_ok now l'" using assms(1,2) r len' by (auto simp: ring_ok_def sel)
qed
text \<open>
  The loop of \<open>trim\<close> stops at the first entry that is not stale.  When there is none it runs through
  all slots and ends where it began: nothing leaves.
\<close>

lemma trim_window:
  assumes "ring_ok t l" "t \<le> now"
  shows "OnlineList_trim now l = Ok (l\<lparr>ol_start := (ol_start l + length (takeWhile (stale now l) (window l))) mod length (ol_peers l),
      ol_known := ol_known l - op_apn ` set (takeWhile (stale now l) (window l))\<rparr>) \<and>
    (\<exists>p \<in> set (window l). \<not> stale now l p) \<or>
    (\<exists>gone. OnlineList_trim now l = Ok (l\<lparr>ol_known := ol_known l - gone\<rparr>) \<and> op_apn ` set (window l) \<subseteq> gone) \<and>
    (\<forall>p \<in> set (window l). stale now l p)"
proof -
  let ?n = "length (ol_peers l)" and ?len = "OnlineList_length l"
  let ?dead = "map (slot l) [?len..<?n]" and ?E = "stale now l"
  have r: "ol_start l < ?n" "ol_end l < ?n" "?n < 2 ^ 62" "0 < now - ol_threshold l"
    using assms by (auto simp: ring_ok_def)
  have len: "?len < ?n" using ring_length [OF r(1-3)] by auto
  have trim: "OnlineList_trim now l = (let gone = takeWhile ?E (window l @ ?dead) in
     Ok (l\<lparr>ol_start := (ol_start l + length gone) mod ?n, ol_known := ol_known l - op_apn ` set gone\<rparr>))"
    using trim_loop_eq [of l "ol_start l" 0 ?n now] r slots_split [of l] len by (simp add: OnlineList_trim_def)
  show ?thesis
  proof (cases "\<forall>p \<in> set (window l). ?E p")
    case True
    have "\<forall>p \<in> set ?dead. ?E p" using assms by (fastforce simp: ring_ok_def stale_def)
    then have "takeWhile ?E (window l @ ?dead) = window l @ ?dead" using True by (simp add: takeWhile_eq_all_conv)
    moreover have "length (window l @ ?dead) = ?n" using len by (simp add: window_def)
    ultimately have "OnlineList_trim now l = Ok (l\<lparr>ol_start := ol_start l,
        ol_known := ol_known l - op_apn ` set (window l @ ?dead)\<rparr>)"
      using trim r(1) by (simp only: Let_def) simp
    then show ?thesis using True by (intro disjI2) (auto intro!: exI [of _ "op_apn ` set (window l @ ?dead)"])
  next
    case False
    then have "takeWhile ?E (window l @ ?dead) = takeWhile ?E (window l)" by (auto simp: takeWhile_append1)
    then show ?thesis using trim False by (simp add: Let_def)
  qed
qed

text \<open>A new entry goes behind the newest one; a ring that is full is doubled.\<close>

lemma append_newest:
  assumes "ring_ok t l" "length (ol_peers l) < 2 ^ 61"
    and "l1 = l\<lparr>ol_known := K, ol_peers := (ol_peers l)[ol_end l := e],
      ol_end := (ol_end l + 1) mod length (ol_peers l)\<rparr>"
    and "l2 = (if ol_end l1 = ol_start l1
      then l1\<lparr>ol_peers := drop (ol_end l1) (ol_peers l1) @ take (ol_end l1) (ol_peers l1) @
             replicate (length (ol_peers l1)) online_default, ol_start := 0, ol_end := length (ol_peers l1)\<rparr>
      else l1)"
  shows "ring_ok t l2" "window l2 = window l @ [e]"
proof -
  let ?n = "length (ol_peers l)" and ?len = "OnlineList_length l"
  have r: "ol_start l < ?n" "ol_end l < ?n" "?n < 2 ^ 62" "0 < t - ol_threshold l" using assms(1) by (auto simp: ring_ok_def)
  have len: "?len < ?n" "(ol_start l + ?len) mod ?n = ol_end l" using ring_length [OF r(1-3)] by auto
  have pos: "0 < ?n" using r(1) by linarith
  have sel: "ol_start l1 = ol_start l" "length (ol_peers l1) = ?n" "ol_end l1 = (ol_end l + 1) mod ?n"
    "ol_threshold l1 = ol_threshold l"
    using assms(3) by simp_all
  have slot1: "slot l1 k = (if k = ?len then e else slot l k)" if k: "k < ?n" for k
  proof -
    have "k = ?len \<longleftrightarrow> (ol_start l + k) mod ?n = ol_end l"
      using slot_inject [OF r(1) k len(1)] len(2) by metis
    moreover have "slot l1 k = (ol_peers l)[ol_end l := e] ! ((ol_start l + k) mod ?n)"
      using assms(3) by (simp add: slot_def)
    ultimately show ?thesis using r(2) by (simp add: slot_def nth_list_update)
  qed
  have win1: "map (slot l1) [0..<?len + 1] = window l @ [e]"
    using len by (simp add: window_def slot1)
  have end1: "(ol_start l + (?len + 1)) mod ?n = ol_end l1"
    using len(2) by (simp add: sel) (metis mod_Suc_eq)
  show "ring_ok t l2" "window l2 = window l @ [e]"
  proof (atomize (full), cases "?len + 1 = ?n")
    case True
    then have full: "ol_end l1 = ol_start l1" using end1 r(1) by (simp add: sel)
    have l2: "ol_start l2 = 0" "ol_end l2 = ?n" "ol_threshold l2 = ol_threshold l"
      "ol_peers l2 = drop (ol_start l) (ol_peers l1) @ take (ol_start l) (ol_peers l1) @ replicate ?n online_default"
      using full assms(4) sel by auto
    have len2: "OnlineList_length l2 = ?n" "length (ol_peers l2) = 2 * ?n"
      using l2 sel r by (simp_all add: OnlineList_length_def)
    have slot2: "slot l2 k = (if k < ?n then slot l1 k else online_default)" if k: "k < 2 * ?n" for k
    proof -
      have at: "slot l2 k = ol_peers l2 ! k" using k len2(2) l2(1) by (simp add: slot_def)
      consider "ol_start l + k < ?n" | "k < ?n" "?n \<le> ol_start l + k" | "?n \<le> k" by linarith
      then show ?thesis
      proof cases
        case 1
        then have "slot l1 k = ol_peers l1 ! (ol_start l + k)" by (simp add: slot_def sel)
        then show ?thesis using 1 at l2(4) sel(2) by (simp add: nth_append)
      next
        case 2
        then have "slot l1 k = ol_peers l1 ! (ol_start l + k - ?n)" using r(1) by (simp add: slot_def sel le_mod_geq)
        moreover have "ol_peers l2 ! k = ol_peers l1 ! (k - (?n - ol_start l))"
          using 2 r(1) l2(4) sel(2) by (simp add: nth_append)
        moreover have "k - (?n - ol_start l) = ol_start l + k - ?n" using 2 r(1) by linarith
        ultimately show ?thesis using 2 at by simp
      next
        case 3
        then have "ol_peers l2 ! k = replicate ?n online_default ! (k - ?n)"
          using r(1) l2(4) sel(2) by (simp add: nth_append)
        then show ?thesis using 3 at k by simp
      qed
    qed
    have "window l2 = map (slot l1) [0..<?n]" by (simp add: window_def len2 slot2)
    then have "window l2 = window l @ [e]" using win1 by (simp only: True)
    moreover have "ring_ok t l2"
      using l2 len2 slot2 r assms(2) by (auto simp: ring_ok_def stale_def online_default_def)
    ultimately show "ring_ok t l2 \<and> window l2 = window l @ [e]" by simp
  next
    case False
    then have more: "?len + 1 < ?n" using len(1) by linarith
    have "ol_end l1 \<noteq> ol_start l1"
    proof
      assume "ol_end l1 = ol_start l1"
      then have "(ol_start l + (?len + 1)) mod ?n = (ol_start l + 0) mod ?n" using end1 r(1) by (simp add: sel)
      then show False using slot_inject [OF r(1) more pos] by simp
    qed
    then have l2: "l2 = l1" using assms(4) by simp
    have len1: "OnlineList_length l1 = ?len + 1"
      by (rule ring_length_unique) (use sel r more end1 in auto)
    have "window l1 = window l @ [e]" using win1 by (simp add: window_def len1)
    moreover have "ring_ok t l1"
      using assms(1) more pos by (auto simp: ring_ok_def sel len1 slot1 stale_def)
    ultimately show "ring_ok t l2 \<and> window l2 = window l @ [e]" unfolding l2 by simp
  qed
qed

lemma peer_online_eq:
  assumes "OnlineList_trim rn l = Ok l'" "peer \<notin> ol_known l'" "ring_ok t l'" "length (ol_peers l') < 2 ^ 61"
  shows "\<exists>l''. peer_online rn peer services last_online l = Ok l'' \<and> ring_ok t l'' \<and>
    ol_threshold l'' = ol_threshold l' \<and> ol_known l'' = insert peer (ol_known l') \<and>
    window l'' = window l' @ [\<lparr>op_apn = peer, op_services = services, op_last_online = last_online\<rparr>]"
proof -
  let ?n = "length (ol_peers l')"
  let ?e = "\<lparr>op_apn = peer, op_services = services, op_last_online = last_online\<rparr>"
  define l1 where "l1 = l'\<lparr>ol_known := insert peer (ol_known l'), ol_peers := (ol_peers l')[ol_end l' := ?e],
      ol_end := (ol_end l' + 1) mod ?n\<rparr>"
  define l2 where "l2 = (if ol_end l1 = ol_start l1
      then l1\<lparr>ol_peers := drop (ol_end l1) (ol_peers l1) @ take (ol_end l1) (ol_peers l1) @
             replicate (length (ol_peers l1)) online_default, ol_start := 0, ol_end := length (ol_peers l1)\<rparr>
      else l1)"
  have r: "ol_end l' < ?n" "?n < 2 ^ 62" using assms(3) by (auto simp: ring_ok_def)
  then have end1: "wadd (ol_end l') 1 mod ?n = (ol_end l' + 1) mod ?n" by simp
  have sel: "length (ol_peers l1) = ?n" "ol_end l1 = (ol_end l' + 1) mod ?n" "ol_start l1 = ol_start l'" by (simp_all add: l1_def)
  have le: "ol_end l1 \<le> ?n" unfolding sel using r(1) by (meson less_imp_le mod_less_divisor order_le_less_trans zero_le)
  have idx: "idx_at (ol_peers l') (ol_end l') = Ok (ol_peers l' ! ol_end l')"
    using r(1) by (simp add: idx_at_def get_at_def)
  have "peer_online rn peer services last_online l = Ok l2"
    using assms(1,2) idx end1 sel le r(2)
    by (simp add: peer_online_def Let_def l2_def l1_def)
  moreover have "ol_threshold l2 = ol_threshold l'" "ol_known l2 = insert peer (ol_known l')"
    by (simp_all add: l2_def l1_def)
  ultimately show ?thesis using append_newest [OF assms(3,4) l1_def l2_def] by blast
qed

lemma ring_ok_new: "threshold < t \<Longrightarrow> ring_ok t (OnlineList_new threshold) \<and> window (OnlineList_new threshold) = []"
  by (auto simp: ring_ok_def OnlineList_new_def OnlineList_length_def window_def slot_def stale_def online_default_def)

lemma dropWhile_eq_drop_length: "dropWhile P xs = drop (length (takeWhile P xs)) xs"
  by (induction xs) auto

lemma stale_limit: "stale t l = (\<lambda>p. op_last_online p < t - ol_threshold l)"
  by (rule ext) (simp add: stale_def)

lemma distinct_split:
  assumes "distinct (map f xs)"
  shows "f ` set xs - f ` set (take n xs) = f ` set (drop n xs)"
proof -
  have "set (map f (take n xs)) \<inter> set (map f (drop n xs)) = {}"
    using assms by (metis append_take_drop_id distinct_append map_append)
  moreover have "set xs = set (take n xs) \<union> set (drop n xs)" by (metis append_take_drop_id set_append)
  ultimately show ?thesis by auto
qed

section \<open>The peers that are waiting\<close>

lemma not_known_new:
  assumes "not_known apns w = (new, w')"
  shows "distinct new \<and> set new \<inter> w = {} \<and> w' = w \<union> set new \<and> set new = set apns - w"
  using assms
proof (induction apns w arbitrary: new w' rule: not_known.induct)
  case (2 apn apns w)
  show ?case
  proof (cases "apn \<in> w")
    case True
    then show ?thesis using "2.IH"(2) "2.prems" by auto
  next
    case False
    obtain n1 w1 where n: "not_known apns (insert apn w) = (n1, w1)" by fastforce
    then have "new = apn # n1" "w' = w1" using "2.prems" False by simp_all
    then show ?thesis using "2.IH"(1) [OF False n] False by auto
  qed
qed simp

lemma peers_seen_eq:
  assumes "peers_seen apns time m = (writes, m')"
  shows "\<exists>new. distinct new \<and> set new = set apns - am_known m \<and> writes = map (\<lambda>apn. InsertPeer apn time) new \<and>
    am_to_check m' = am_to_check m @ new \<and> am_known m' = am_known m \<union> set new"
proof -
  obtain new w where nw: "not_known apns (am_known m) = (new, w)" by fastforce
  then show ?thesis
    using assms not_known_new [OF nw] by (auto simp: peers_seen_def Let_def split: if_splits intro!: exI [of _ new])
qed

definition peers_of :: "crawl_system \<Rightarrow> AddressPortNetwork list" where
  "peers_of s = map fst (cs_tasks s) @ cs_banned s @ cs_batch s @ am_to_check (cs_man s)"

definition crawl_ok :: "crawl_system \<Rightarrow> bool" where
  "crawl_ok s \<longleftrightarrow> distinct (peers_of s) \<and> set (peers_of s) = am_known (cs_man s) \<and>
     cs_connected s = {peer. (peer, True) \<in> set (cs_tasks s)}"

lemma crawl_step_ok: "crawl_step s s' \<Longrightarrow> crawl_ok s \<Longrightarrow> crawl_ok s'"
proof (induction rule: crawl_step.induct)
  case (seen apns time s writes m)
  then obtain new where "distinct new" "set new = set apns - am_known (cs_man s)"
    "am_to_check m = am_to_check (cs_man s) @ new" "am_known m = am_known (cs_man s) \<union> set new"
    using peers_seen_eq [OF seen(1)] by blast
  note new = this
  have p: "peers_of (s\<lparr>cs_man := m\<rparr>) = peers_of s @ new" by (simp add: peers_of_def new(3))
  have old: "distinct (peers_of s)" "set (peers_of s) = am_known (cs_man s)"
    using seen(2) by (auto simp: crawl_ok_def)
  have "distinct (peers_of s @ new)" using new(1,2) old by auto
  moreover have "set (peers_of s @ new) = am_known m" using new(4) old(2) by simp
  ultimately show ?case using seen(2) unfolding crawl_ok_def p by simp
next
  case (connect s xs peer ys connected)
  then show ?case by (auto simp: crawl_ok_def peers_of_def TrackedConnection_new_def split: if_splits)
next
  case (disconnect s xs peer ys connected)
  have "peer \<notin> fst ` set xs" "peer \<notin> fst ` set ys"
    using disconnect(1,3) by (auto simp: crawl_ok_def peers_of_def)
  then have "(peer, True) \<notin> set xs" "(peer, True) \<notin> set ys" by force+
  moreover have "connected = cs_connected s - {peer}"
    using disconnect(2) by (simp add: TrackedConnection_drop_def split: if_splits)
  ultimately show ?case using disconnect(1,3) by (auto simp: crawl_ok_def peers_of_def)
qed (auto simp: crawl_ok_def peers_of_def get_peers_to_check_def)

lemma crawl_reachable_ok:
  assumes "crawl_reachable all_peers s" "distinct all_peers"
  shows "crawl_ok s"
  using assms
  by (induction rule: crawl_reachable.induct)
    (auto simp: crawl_step_ok, auto simp: crawl_ok_def peers_of_def addrman_start_def AddrMan_default_def)

section \<open>Concrete peers\<close>

definition demo_peer :: "u16 \<Rightarrow> AddressPortNetwork" where
  "demo_peer port = \<lparr>apn_network_id = IPv4, apn_port = port, apn_address = [127, 0, 0, 1]\<rparr>"

definition demo_online :: "u16 \<Rightarrow> system_time \<Rightarrow> AddressPortNetworkWithServicesAndTime" where
  "demo_online port t = \<lparr>op_apn = demo_peer port, op_services = 1, op_last_online = t\<rparr>"

definition demo_ring :: "AddressPortNetworkWithServicesAndTime list \<Rightarrow> usize \<Rightarrow> AddressPortNetwork set \<Rightarrow> OnlineList" where
  "demo_ring ps start known = \<lparr>ol_peers = ps @ [online_default, online_default], ol_threshold = 10,
     ol_end = length ps, ol_start = start, ol_known = known\<rparr>"

lemma demo_ring_window:
  "window (demo_ring [a] 0 K) = [a]" "window (demo_ring [a, b] 1 K) = [b]"
  by (simp_all add: window_def slot_def OnlineList_length_def demo_ring_def)

lemma demo_ring_ok:
  "ring_ok 150 (demo_ring [a] 0 K)"
  "op_last_online a = 100 \<Longrightarrow> ring_ok 200 (demo_ring [a, b] 1 K)"
proof -
  have len: "OnlineList_length (demo_ring [a] 0 K) = 1" "OnlineList_length (demo_ring [a, b] 1 K) = 1"
    by (simp_all add: OnlineList_length_def demo_ring_def)
  have "slot (demo_ring [a] 0 K) k = online_default" if "1 \<le> k" "k < 3" for k
  proof -
    have "k = 1 \<or> k = 2" using that by linarith
    then show ?thesis by (auto simp: slot_def demo_ring_def)
  qed
  then show "ring_ok 150 (demo_ring [a] 0 K)"
    unfolding ring_ok_def len by (simp add: stale_def) (simp add: demo_ring_def online_default_def)
  have "slot (demo_ring [a, b] 1 K) k \<in> {a, online_default}" if "1 \<le> k" "k < 4" for k
  proof -
    have "k = 1 \<or> k = 2 \<or> k = 3" using that by linarith
    then show ?thesis by (auto simp: slot_def demo_ring_def)
  qed
  then show "ring_ok 200 (demo_ring [a, b] 1 K)" if "op_last_online a = 100"
    unfolding ring_ok_def len using that
    by (fastforce simp: stale_def demo_ring_def online_default_def)
qed

text \<open>
  C19: As long as some entry is not stale, or there is none at all, \<open>peer_online\<close> implements the abstract
  list: stale entries leave at the front and a peer that is not listed is appended.
\<close>

theorem online_list_refines:
  assumes "ring_ok t l" "listed_once l" "t \<le> now" "length (ol_peers l) < 2 ^ 61"
    and "window l = [] \<or> (\<exists>p \<in> set (window l). \<not> stale now l p)"
  shows "\<exists>l'. peer_online now peer services last_online l = Ok l' \<and> ring_ok now l' \<and> listed_once l' \<and>
    window l' = online_spec (now - ol_threshold l) peer services last_online (window l)"
proof -
  let ?j = "length (takeWhile (stale now l) (window l))"
  define l1 where "l1 = l\<lparr>ol_start := (ol_start l + ?j) mod length (ol_peers l),
      ol_known := ol_known l - op_apn ` set (takeWhile (stale now l) (window l))\<rparr>"
  have j: "?j \<le> OnlineList_length l" using length_takeWhile_le [of "stale now l" "window l"] by (simp add: window_def)
  have gone: "takeWhile (stale now l) (window l) = take ?j (window l)" by (metis takeWhile_eq_take)
  have "\<forall>p \<in> set (take ?j (window l)). stale now l p" unfolding gone [symmetric] by (auto dest: set_takeWhileD)
  note r1 = drop_oldest [OF assms(1,3) j this l1_def]
  have trim: "\<exists>K. OnlineList_trim now l = Ok (l1\<lparr>ol_known := K\<rparr>) \<and> K = op_apn ` set (window l1)"
  proof (cases "window l = []")
    case True
    moreover have "ol_known l = {}" using assms(2) True by (simp add: listed_once_def)
    moreover have "ol_start l < length (ol_peers l)" using assms(1) by (simp add: ring_ok_def)
    moreover have "window l1 = []" using r1(2) True by simp
    ultimately show ?thesis using trim_window [OF assms(1,3)] by (auto simp: l1_def)
  next
    case False
    then have "OnlineList_trim now l = Ok l1" using trim_window [OF assms(1,3)] assms(5) unfolding l1_def by blast
    moreover have "ol_known l1 = op_apn ` set (window l1)"
      unfolding r1(2) distinct_split [OF assms(2) [unfolded listed_once_def, THEN conjunct1], symmetric]
      using assms(2) gone by (simp add: l1_def listed_once_def)
    ultimately show ?thesis by auto
  qed
  then obtain K where K: "OnlineList_trim now l = Ok (l1\<lparr>ol_known := K\<rparr>)" "K = op_apn ` set (window l1)" by blast
  let ?l1 = "l1\<lparr>ol_known := K\<rparr>"
  have same: "slot ?l1 = slot l1" "OnlineList_length ?l1 = OnlineList_length l1" "stale now ?l1 = stale now l1"
    by (simp_all add: slot_def OnlineList_length_def stale_def fun_eq_iff)
  then have w: "window ?l1 = window l1" "ring_ok now ?l1" using r1(1) by (simp_all add: window_def ring_ok_def)
  have live: "window l1 = dropWhile (\<lambda>p. op_last_online p < now - ol_threshold l) (window l)"
    unfolding r1(2) stale_limit [of now l] dropWhile_eq_drop_length ..
  have dist: "distinct (map op_apn (window l1))"
    using assms(2) unfolding r1(2) listed_once_def by (simp add: drop_map [symmetric] distinct_drop)
  show ?thesis
  proof (cases "peer \<in> K")
    case True
    then have "peer_online now peer services last_online l = Ok ?l1" using K(1) by (simp add: peer_online_def)
    moreover have "listed_once ?l1" using dist K(2) w by (simp add: listed_once_def)
    ultimately show ?thesis using w True live unfolding K(2) online_spec_def by (auto simp: Let_def)
  next
    case False
    have "length (ol_peers ?l1) < 2 ^ 61" using assms(4) by (simp add: l1_def)
    from peer_online_eq [OF K(1) _ w(2) this, of peer services last_online] False obtain l2 where l2:
      "peer_online now peer services last_online l = Ok l2" "ring_ok now l2" "ol_known l2 = insert peer K"
      "window l2 = window l1 @ [\<lparr>op_apn = peer, op_services = services, op_last_online = last_online\<rparr>]"
      unfolding w(1) by auto
    moreover have "listed_once l2" using dist l2 False K(2) by (auto simp: listed_once_def)
    ultimately show ?thesis using False live unfolding K(2) online_spec_def by (auto simp: Let_def)
  qed
qed

theorem online_list_refines_witness:
  "\<exists>l'. peer_online 100 (demo_peer 7) 1 100 (OnlineList_new 10) = Ok l' \<and> window l' = [demo_online 7 100]"
proof -
  have "ring_ok 100 (OnlineList_new 10)" "window (OnlineList_new 10) = []" using ring_ok_new [of 10 100] by simp_all
  moreover have "listed_once (OnlineList_new 10)" using calculation(2) by (simp add: listed_once_def OnlineList_new_def)
  ultimately show ?thesis
    using online_list_refines [of 100 "OnlineList_new 10" 100 "demo_peer 7" 1 100]
    by (auto simp: OnlineList_new_def online_spec_def demo_online_def)
qed

text \<open>
  When all entries are stale \<open>trim\<close> runs once around the ring and removes none of them; it only
  forgets which peers are listed.  A peer that comes online is appended behind the stale entries, also
  when it is one of them.
\<close>

lemma stale_entries_kept:
  assumes "ring_ok t l" "listed_once l" "t \<le> now" "length (ol_peers l) < 2 ^ 61" "\<forall>p \<in> set (window l). stale now l p"
  shows "\<exists>l'. peer_online now peer services last_online l = Ok l' \<and> ol_known l' = {peer} \<and>
    window l' = window l @ [\<lparr>op_apn = peer, op_services = services, op_last_online = last_online\<rparr>]"
proof -
  obtain gone where gone: "OnlineList_trim now l = Ok (l\<lparr>ol_known := ol_known l - gone\<rparr>)" "op_apn ` set (window l) \<subseteq> gone"
    using trim_window [OF assms(1,3)] assms(5) by blast
  let ?l = "l\<lparr>ol_known := {}\<rparr>"
  have trim: "OnlineList_trim now l = Ok ?l" using gone assms(2) by (simp add: listed_once_def)
  have same: "slot ?l = slot l" "OnlineList_length ?l = OnlineList_length l" "stale t ?l = stale t l"
    by (simp_all add: slot_def OnlineList_length_def stale_def fun_eq_iff)
  then have "window ?l = window l" "ring_ok t ?l" using assms(1) by (simp_all add: window_def ring_ok_def)
  then show ?thesis
    using peer_online_eq [OF trim _ _ , of peer t services last_online] assms(4) by auto
qed

text \<open>
  \<open>random\<close> counts from the first slot of the vector instead of \<open>start\<close>: once as many entries have left
  as are listed, every number it can draw leads to an entry that is stale and no longer listed.
\<close>

lemma random_returns_removed:
  assumes "ring_ok t l" "0 < OnlineList_length l" "OnlineList_length l \<le> ol_start l" "ol_start l \<le> ol_end l"
    and "index < OnlineList_length l"
  shows "\<exists>p. OnlineList_random index l None = Ok (Some (op_apn p)) \<and> p = ol_peers l ! index \<and>
    op_last_online p < t - ol_threshold l"
proof -
  let ?n = "length (ol_peers l)"
  have r: "ol_start l < ?n" "ol_end l < ?n" "?n < 2 ^ 62" using assms(1) by (auto simp: ring_ok_def)
  have len: "OnlineList_length l = ol_end l - ol_start l" using assms(4) by (simp add: OnlineList_length_def)
  have "slot l (?n - ol_start l + index) = ol_peers l ! index"
    using r assms(3,5) by (simp add: slot_def)
  moreover have "OnlineList_length l \<le> ?n - ol_start l + index" "?n - ol_start l + index < ?n"
    using r assms(3,4,5) len by linarith+
  ultimately have "stale t l (ol_peers l ! index)" using assms(1) unfolding ring_ok_def by metis
  moreover have "index < ?n" using assms(3,5) r(1) by linarith
  ultimately show ?thesis
    using assms(2) by (simp add: OnlineList_random_def idx_at_def get_at_def stale_def)
qed

text \<open>
  C20: Every peer gets one crawl task: in every reachable configuration of the address manager and the
  crawl tasks no peer has two tasks or a task and a place in a queue, a banned peer is not crawled again,
  and the assertions about the set of connected peers hold.
\<close>

theorem one_crawl_per_peer:
  assumes "crawl_reachable all_peers s" "distinct all_peers"
  shows "distinct (map fst (cs_tasks s) @ cs_banned s @ cs_batch s @ am_to_check (cs_man s)) \<and>
    (\<forall>(peer, connected) \<in> set (cs_tasks s).
       (if connected then TrackedConnection_drop peer (cs_connected s) else TrackedConnection_new peer (cs_connected s)) \<noteq> Panic)"
proof -
  have ok: "distinct (peers_of s)" "cs_connected s = {peer. (peer, True) \<in> set (cs_tasks s)}"
    using crawl_reachable_ok [OF assms] by (auto simp: crawl_ok_def)
  then have dist: "distinct (map fst (cs_tasks s))" by (simp add: peers_of_def)
  have "(if connected then TrackedConnection_drop peer (cs_connected s)
      else TrackedConnection_new peer (cs_connected s)) \<noteq> Panic" if "(peer, connected) \<in> set (cs_tasks s)" for peer connected
    using eq_key_imp_eq_value [OF dist that, of True] that
    by (auto simp: ok(2) TrackedConnection_new_def TrackedConnection_drop_def)
  then show ?thesis using ok(1) unfolding peers_of_def by blast
qed

theorem one_crawl_per_peer_witness:
  "let s = \<lparr>cs_man = (addrman_start [demo_peer 7] AddrMan_default)\<lparr>am_to_check := []\<rparr>, cs_batch = [],
       cs_tasks = [(demo_peer 7, True)], cs_connected = {demo_peer 7}, cs_banned = []\<rparr> in
   crawl_reachable [demo_peer 7] s \<and> TrackedConnection_drop (demo_peer 7) (cs_connected s) \<noteq> Panic"
proof -
  let ?m = "(addrman_start [demo_peer 7] AddrMan_default)\<lparr>am_to_check := []\<rparr>"
  let ?s = "\<lparr>cs_man = ?m, cs_batch = [], cs_tasks = [(demo_peer 7, True)], cs_connected = {demo_peer 7}, cs_banned = []\<rparr>"
  note start = crawl_reachable.start [of "[demo_peer 7]"]
  note r1 = crawl_reachable.step [OF start crawl_step.take [where m = ?m and peers_to_check = "[demo_peer 7]"]]
  note r2 = crawl_reachable.step [OF r1 crawl_step.spawn [where peer = "demo_peer 7" and peers = "[]"]]
  note r3 = crawl_reachable.step [OF r2 crawl_step.connect [where xs = "[]" and ys = "[]" and peer = "demo_peer 7"
        and connected = "{demo_peer 7}"]]
  have "crawl_reachable [demo_peer 7] ?s"
    using r3 by (simp add: get_peers_to_check_def addrman_start_def AddrMan_default_def TrackedConnection_new_def)
  with one_crawl_per_peer [OF this] show ?thesis by (simp add: Let_def)
qed

end
