(* ===== verification/Chain.thy ===== *)
theory Chain
  imports BlockCodec
begin

text \<open>
  The tree of known headers and the chain of most work (\<open>src/src/chainman/chain.rs\<close> and the
  functions of \<open>src/src/chainman/mod.rs\<close> that read or change it).

  The hash maps and sets of \<open>Chain\<close> are partial maps and sets.  Loops that follow the parents of
  a header end only when the map has no cycle, so they are partial functions into \<open>option\<close>:
  \<open>None\<close> is a loop that does not end, \<open>Some\<close> of an outcome is a loop that ended.  Block numbers
  (\<open>u64\<close>) are natural numbers with wrapping arithmetic, like \<open>usize\<close> values.
\<close>

section \<open>Computations with loops\<close>

type_synonym 'a loop = "'a res option"

definition loop_bind :: "'a loop \<Rightarrow> ('a \<Rightarrow> 'b loop) \<Rightarrow> 'b loop" where
  "loop_bind m f =
     (case m of None \<Rightarrow> None | Some (Ok x) \<Rightarrow> f x | Some (Err e) \<Rightarrow> Some (Err e) | Some Panic \<Rightarrow> Some Panic)"

lemma loop_bind_simps [simp]:
  "loop_bind (Some (Ok x)) f = f x"
  "loop_bind (Some (Err e)) f = Some (Err e)"
  "loop_bind (Some Panic) f = Some Panic"
  "loop_bind None f = None"
  by (simp_all add: loop_bind_def)

section \<open>State\<close>

text \<open>\<open>String\<close> values are lists of Unicode scalar values.\<close>

type_synonym rust_string = "nat list"

record BlockHeaderWithNumber =
  bn_header :: BlockHeader
  bn_number :: usize
  bn_fetched_full :: bool
  bn_total_work :: U256
  bn_coinbase_ascii :: "rust_string option"

record Chain =
  ch_top_header :: BlockHeaderWithNumber
  ch_known_headers :: "hash32 \<rightharpoonup> BlockHeaderWithNumber"
  ch_number_to_hash :: "usize \<rightharpoonup> hash32"
  ch_most_work_chain :: "hash32 set"

record HeaderApplicationResult =
  har_removed_blocks :: "(hash32 \<times> usize) list"
  har_added_blocks :: "(hash32 \<times> usize) list"

text \<open>
  The globals: the chain, the counter \<open>DOWNLOADED_BLOCKS\<close>, and the headers handed to
  \<open>db::sqlite::insert_header\<close>, newest last.
\<close>

record ChainMan =
  cm_chain :: Chain
  cm_downloaded_blocks :: usize
  cm_inserted :: "BlockHeaderWithNumber list"

abbreviation bn_hash :: "BlockHeaderWithNumber \<Rightarrow> hash32" where
  "bn_hash x \<equiv> bh_hash (bn_header x)"

abbreviation bn_parent :: "BlockHeaderWithNumber \<Rightarrow> hash32" where
  "bn_parent x \<equiv> bh_parent (bn_header x)"

definition Chain_default :: "(bytes \<Rightarrow> bytes) \<Rightarrow> Chain res" where
  "Chain_default sha =
     res_bind (GENESIS_HEADER sha) (\<lambda>gh.
     res_bind (header_work gh) (\<lambda>w.
     let genesis = \<lparr>bn_header = gh, bn_number = 0, bn_fetched_full = False, bn_total_work = w,
           bn_coinbase_ascii = None\<rparr> in
     Ok \<lparr>ch_top_header = genesis, ch_known_headers = [bh_hash gh \<mapsto> genesis],
         ch_number_to_hash = [0 \<mapsto> bh_hash gh], ch_most_work_chain = {bh_hash gh}\<rparr>))"

section \<open>Ancestors and difficulty\<close>

partial_function (option) get_ancestor ::
  "Chain \<Rightarrow> BlockHeaderWithNumber \<Rightarrow> usize \<Rightarrow> BlockHeaderWithNumber option option" where
  "get_ancestor c top_hdr height =
     (if height < bn_number top_hdr
      then (case ch_known_headers c (bn_parent top_hdr) of
              Some next_hdr \<Rightarrow> get_ancestor c next_hdr height
            | None \<Rightarrow> Some None)
      else Some (Some top_hdr))"

definition get_next_bits_required :: "Chain \<Rightarrow> BlockHeaderWithNumber \<Rightarrow> u32 loop" where
  "get_next_bits_required c hdr =
     (if wadd (bn_number hdr) 1 mod unat DIFFICULTY_ADJUSTMENT_INTERVAL \<noteq> 0
      then Some (Ok (bh_bits (bn_header hdr)))
      else
        (let first_height = wsub (bn_number hdr) (unat DIFFICULTY_ADJUSTMENT_INTERVAL - 1) in
         case get_ancestor c hdr first_height of
           None \<Rightarrow> None
         | Some None \<Rightarrow> Some Panic
         | Some (Some first_header) \<Rightarrow>
             Some (calculate_next_work_required (bh_timestamp (bn_header hdr))
               (bh_timestamp (bn_header first_header)) (bh_bits (bn_header hdr)))))"

definition update_most_work_chain :: "HeaderApplicationResult \<Rightarrow> Chain \<Rightarrow> Chain" where
  "update_most_work_chain r c =
     foldl (\<lambda>c (hash, number). c\<lparr>ch_most_work_chain := insert hash (ch_most_work_chain c),
               ch_number_to_hash := (ch_number_to_hash c)(number \<mapsto> hash)\<rparr>)
       (foldl (\<lambda>c (hash, _). c\<lparr>ch_most_work_chain := ch_most_work_chain c - {hash}\<rparr>) c
          (har_removed_blocks r))
       (har_added_blocks r)"

section \<open>Downloaded blocks\<close>

partial_function (option) downloaded_from :: "Chain \<Rightarrow> BlockHeaderWithNumber \<Rightarrow> usize loop" where
  "downloaded_from c hdr =
     (if bn_fetched_full hdr then Some (Ok (wadd (bn_number hdr) 1))
      else if bn_number hdr = 0 then Some (Ok 0)
      else (case ch_known_headers c (bn_parent hdr) of
              Some p \<Rightarrow> downloaded_from c p
            | None \<Rightarrow> Some Panic))"

definition calculate_downloaded_blocks :: "Chain \<Rightarrow> usize loop" where
  "calculate_downloaded_blocks c = downloaded_from c (ch_top_header c)"

partial_function (option) top_downloaded_from ::
  "Chain \<Rightarrow> BlockHeaderWithNumber \<Rightarrow> hash32 option loop" where
  "top_downloaded_from c hdr =
     (if bn_fetched_full hdr then Some (Ok (Some (bn_hash hdr)))
      else if bn_number hdr = 0 then Some (Ok None)
      else (case ch_known_headers c (bn_parent hdr) of
              Some p \<Rightarrow> top_downloaded_from c p
            | None \<Rightarrow> Some Panic))"

definition get_top_downloaded_block_hash :: "Chain \<Rightarrow> hash32 option loop" where
  "get_top_downloaded_block_hash c = top_downloaded_from c (ch_top_header c)"

partial_function (option) missing_from ::
  "Chain \<Rightarrow> BlockHeaderWithNumber \<Rightarrow> hash32 list \<Rightarrow> (hash32 list \<times> usize) option" where
  "missing_from c hdr found =
     (let found = found @ [bn_hash hdr] in
      if bn_number hdr = 0 then Some (found, bn_number hdr)
      else (case ch_known_headers c (bn_parent hdr) of
              None \<Rightarrow> Some (found, bn_number hdr)
            | Some p \<Rightarrow>
                if bn_fetched_full p then Some (found, bn_number hdr)
                else missing_from c p found))"

definition get_block_hashes_to_download :: "ChainMan \<Rightarrow> (hash32 list \<times> usize) option option" where
  "get_block_hashes_to_download m =
     (if bn_number (ch_top_header (cm_chain m)) < cm_downloaded_blocks m then Some None
      else (case missing_from (cm_chain m) (ch_top_header (cm_chain m)) [] of
              None \<Rightarrow> None
            | Some (found, last_added) \<Rightarrow> Some (Some (rev found, last_added))))"

section \<open>The index of the chain of most work\<close>

partial_function (option) main_chain_from ::
  "Chain \<Rightarrow> BlockHeaderWithNumber \<Rightarrow> hash32 set \<Rightarrow> (usize \<rightharpoonup> hash32) \<Rightarrow> (hash32 set \<times> (usize \<rightharpoonup> hash32)) loop" where
  "main_chain_from c hdr hashes numbers =
     (let hashes = insert (bn_hash hdr) hashes; numbers = numbers(bn_number hdr \<mapsto> bn_hash hdr) in
      if bn_number hdr = 0 then Some (Ok (hashes, numbers))
      else (case ch_known_headers c (bn_parent hdr) of
              None \<Rightarrow> Some Panic
            | Some p \<Rightarrow> main_chain_from c p hashes numbers))"

definition generate_top_work_chain_hashset :: "Chain \<Rightarrow> Chain loop" where
  "generate_top_work_chain_hashset c =
     loop_bind (main_chain_from c (ch_top_header c) {} Map.empty) (\<lambda>(hashes, numbers).
     Some (Ok (c\<lparr>ch_most_work_chain := hashes, ch_number_to_hash := numbers\<rparr>)))"

definition load_headers_from_sqlite :: "BlockHeaderWithNumber list \<Rightarrow> ChainMan \<Rightarrow> ChainMan loop" where
  "load_headers_from_sqlite headers m =
     loop_bind (generate_top_work_chain_hashset
       (foldl (\<lambda>c new_header.
          (if bn_total_work (ch_top_header c) < bn_total_work new_header
           then c\<lparr>ch_top_header := new_header\<rparr> else c)
          \<lparr>ch_known_headers := (ch_known_headers c)(bn_hash new_header \<mapsto> new_header)\<rparr>)
        (cm_chain m) headers)) (\<lambda>c.
     loop_bind (calculate_downloaded_blocks c) (\<lambda>n.
     Some (Ok (m\<lparr>cm_chain := c, cm_downloaded_blocks := n\<rparr>))))"

section \<open>Applying headers\<close>

text \<open>The two loops that find the fork point, with the blocks they visit.\<close>

partial_function (option) find_same_height ::
  "Chain \<Rightarrow> usize \<Rightarrow> hash32 \<Rightarrow> usize \<Rightarrow> (hash32 \<times> usize) list \<Rightarrow>
   ((hash32 \<times> usize) list \<times> hash32 \<times> usize) loop" where
  "find_same_height c parent_number last_hash last_number visited_old =
     (case ch_known_headers c last_hash of
        None \<Rightarrow> Some Panic
      | Some header \<Rightarrow>
          if bn_number header = parent_number then Some (Ok (visited_old, last_hash, last_number))
          else find_same_height c parent_number (bn_parent header) (wsub last_number 1)
                 (visited_old @ [(bn_hash header, bn_number header)]))"

partial_function (option) step_back ::
  "Chain \<Rightarrow> hash32 \<Rightarrow> usize \<Rightarrow> hash32 \<Rightarrow> usize \<Rightarrow> (hash32 \<times> usize) list \<Rightarrow> (hash32 \<times> usize) list \<Rightarrow>
   ((hash32 \<times> usize) list \<times> (hash32 \<times> usize) list) loop" where
  "step_back c from_new_hash from_new_number from_old_hash from_old_number visited_new visited_old =
     (if from_new_hash = from_old_hash then Some (Ok (visited_new, visited_old))
      else
        (case ch_known_headers c from_old_hash of
           None \<Rightarrow> Some Panic
         | Some from_old \<Rightarrow>
             (case ch_known_headers c from_new_hash of
                None \<Rightarrow> Some Panic
              | Some from_new \<Rightarrow>
                  step_back c (bn_parent from_new) (wsub from_new_number 1)
                    (bn_parent from_old) (wsub from_old_number 1)
                    (visited_new @ [(from_new_hash, from_new_number)])
                    (visited_old @ [(from_old_hash, from_old_number)]))))"

definition find_fork ::
  "Chain \<Rightarrow> BlockHeaderWithNumber \<Rightarrow> usize \<Rightarrow> ((hash32 \<times> usize) list \<times> (hash32 \<times> usize) list) loop" where
  "find_fork c new_header parent_number =
     loop_bind (find_same_height c parent_number (bn_hash (ch_top_header c)) (bn_number (ch_top_header c))
         [(bn_hash (ch_top_header c), bn_number (ch_top_header c))])
       (\<lambda>(visited_old, from_old_hash, from_old_number).
     step_back c (bn_parent new_header) (bn_number new_header) from_old_hash from_old_number
       [(bn_hash new_header, bn_number new_header)] visited_old)"

text \<open>
  The text of the error for a wrong difficulty is shortened to its constant part.  The gauge
  \<open>METRIC_TOP_HEADER_HEIGHT\<close> is not modelled.
\<close>

definition validate_and_apply_header_inner ::
  "BlockHeader \<Rightarrow> ChainMan \<Rightarrow> bool \<Rightarrow> (HeaderApplicationResult option \<times> ChainMan) loop" where
  "validate_and_apply_header_inner header m is_headersync =
     (let w = cm_chain m in
      if ch_known_headers w (bh_hash header) \<noteq> None then Some (Ok (None, m)) else
      case ch_known_headers w (bh_parent header) of
        None \<Rightarrow> Some (Err (Msg ''dont have the parent''))
      | Some parent \<Rightarrow>
          loop_bind (get_next_bits_required w parent) (\<lambda>expected_bits.
          if expected_bits \<noteq> bh_bits header then Some (Err (Msg ''invalid difficulty transition''))
          else loop_bind (Some (res_bind (header_work header) (u256_add (bn_total_work parent))))
            (\<lambda>new_total_work.
          let new_header = \<lparr>bn_header = BlockHeaderOwned_from header,
                bn_number = wadd (bn_number parent) 1, bn_fetched_full = False,
                bn_total_work = new_total_work, bn_coinbase_ascii = None\<rparr>;
              w = w\<lparr>ch_known_headers := (ch_known_headers w)(bn_hash new_header \<mapsto> new_header)\<rparr>;
              m = m\<lparr>cm_chain := w, cm_inserted := cm_inserted m @ [new_header]\<rparr> in
          if bn_total_work new_header < bn_total_work (ch_top_header w) then Some (Ok (None, m))
          else if is_headersync then Some (Ok (None, m\<lparr>cm_chain := w\<lparr>ch_top_header := new_header\<rparr>\<rparr>))
          else if bn_parent new_header = bn_hash (ch_top_header w)
          then Some (Ok (Some \<lparr>har_removed_blocks = [],
                              har_added_blocks = [(bn_hash new_header, bn_number new_header)]\<rparr>,
                         m\<lparr>cm_chain := w\<lparr>ch_top_header := new_header\<rparr>\<rparr>))
          else
            loop_bind (find_fork w new_header (bn_number parent)) (\<lambda>(visited_new, visited_old).
            let w = w\<lparr>ch_top_header := new_header\<rparr> in
            loop_bind (calculate_downloaded_blocks w) (\<lambda>new_count.
            Some (Ok (Some \<lparr>har_removed_blocks = visited_old, har_added_blocks = rev visited_new\<rparr>,
                      m\<lparr>cm_chain := w, cm_downloaded_blocks := new_count\<rparr>)))))))"

text \<open>
  The loop stops at the first header that is refused; the headers before it stay applied, so
  the outcome carries the state in both cases.
\<close>

fun validate_and_apply_headers :: "BlockHeader list \<Rightarrow> ChainMan \<Rightarrow> (unit res \<times> ChainMan) loop" where
  "validate_and_apply_headers [] m = Some (Ok (Ok (), m))"
| "validate_and_apply_headers (header # headers) m =
     (case validate_and_apply_header_inner header m True of
        None \<Rightarrow> None
      | Some Panic \<Rightarrow> Some Panic
      | Some (Err e) \<Rightarrow> Some (Ok (Err e, m))
      | Some (Ok (_, m')) \<Rightarrow> validate_and_apply_headers headers m')"

section \<open>Marking blocks as downloaded\<close>

text \<open>
  \<open>String::from_utf8_lossy\<close>: every maximal prefix of an ill-formed sequence becomes the
  replacement character U+FFFD.  \<open>utf8_tail\<close> lists, for a leading byte, the ranges of the
  bytes that have to follow it.
\<close>

definition utf8_tail :: "nat \<Rightarrow> (nat \<times> nat) list option" where
  "utf8_tail b =
     (if b < 128 then Some []
      else if 194 \<le> b \<and> b \<le> 223 then Some [(128, 191)]
      else if b = 224 then Some [(160, 191), (128, 191)]
      else if b = 237 then Some [(128, 159), (128, 191)]
      else if 225 \<le> b \<and> b \<le> 239 then Some [(128, 191), (128, 191)]
      else if b = 240 then Some [(144, 191), (128, 191), (128, 191)]
      else if 241 \<le> b \<and> b \<le> 243 then Some [(128, 191), (128, 191), (128, 191)]
      else if b = 244 then Some [(128, 143), (128, 191), (128, 191)]
      else None)"

text \<open>The initial bits of a code point in a leading byte with \<open>n\<close> bytes after it.\<close>

definition utf8_lead :: "nat \<Rightarrow> nat \<Rightarrow> nat" where
  "utf8_lead n b = (if n = 0 then b else b mod 2 ^ (6 - n))"

fun utf8_follow :: "nat \<Rightarrow> (nat \<times> nat) list \<Rightarrow> bytes \<Rightarrow> nat option \<times> bytes" where
  "utf8_follow acc [] bs = (Some acc, bs)"
| "utf8_follow acc (_ # _) [] = (None, [])"
| "utf8_follow acc ((lo, hi) # rs) (b # bs) =
     (if lo \<le> unat b \<and> unat b \<le> hi then utf8_follow (acc * 64 + unat b mod 64) rs bs
      else (None, b # bs))"

lemma utf8_follow_length: "length (snd (utf8_follow acc rs bs)) \<le> length bs"
  by (induction acc rs bs rule: utf8_follow.induct) auto

function from_utf8_lossy :: "bytes \<Rightarrow> rust_string" where
  "from_utf8_lossy [] = []"
| "from_utf8_lossy (b # bs) =
     (case utf8_tail (unat b) of
        None \<Rightarrow> 0xFFFD # from_utf8_lossy bs
      | Some rs \<Rightarrow>
          (let p = utf8_follow (utf8_lead (length rs) (unat b)) rs bs in
           (case fst p of Some c \<Rightarrow> c | None \<Rightarrow> 0xFFFD) # from_utf8_lossy (snd p)))"
  by pat_completeness auto
termination
  by (relation "measure length") (auto simp: less_Suc_eq_le utf8_follow_length)

fun mark_blocks ::
  "(hash32 \<times> bytes) list \<Rightarrow> (hash32 \<rightharpoonup> BlockHeaderWithNumber) \<Rightarrow> (hash32 \<rightharpoonup> BlockHeaderWithNumber) res" where
  "mark_blocks [] known = Ok known"
| "mark_blocks ((block, coinbase_ascii) # bs) known =
     (case known block of
        None \<Rightarrow> Panic
      | Some h \<Rightarrow> mark_blocks bs (known(block \<mapsto>
          h\<lparr>bn_fetched_full := True, bn_coinbase_ascii := Some (from_utf8_lossy coinbase_ascii)\<rparr>)))"

definition mark_as_downloaded :: "hash32 list \<Rightarrow> bytes list \<Rightarrow> ChainMan \<Rightarrow> ChainMan loop" where
  "mark_as_downloaded blocks coinbase_asciis m =
     loop_bind (Some (mark_blocks (zip blocks coinbase_asciis) (ch_known_headers (cm_chain m)))) (\<lambda>known.
     let w = (cm_chain m)\<lparr>ch_known_headers := known\<rparr> in
     case known (bn_hash (ch_top_header w)) of
       None \<Rightarrow> Some Panic
     | Some h \<Rightarrow>
         let w = w\<lparr>ch_top_header := (ch_top_header w)\<lparr>bn_fetched_full := bn_fetched_full h\<rparr>\<rparr> in
         loop_bind (calculate_downloaded_blocks w) (\<lambda>n.
         Some (Ok (m\<lparr>cm_chain := w, cm_downloaded_blocks := n\<rparr>))))"

section \<open>Locators\<close>

partial_function (option) locator_loop ::
  "Chain \<Rightarrow> BlockHeaderWithNumber \<Rightarrow> usize \<Rightarrow> hash32 list \<Rightarrow> hash32 list loop" where
  "locator_loop c cur step block_locator =
     (if 0 < bn_number cur then
        (let step = (if 10 \<le> length block_locator then wmul step 2 else step);
             step = (if bn_number cur < step then bn_number cur else step) in
         case get_ancestor c cur (wsub (bn_number cur) step) of
           None \<Rightarrow> None
         | Some None \<Rightarrow> Some Panic
         | Some (Some new) \<Rightarrow> locator_loop c new step (block_locator @ [bn_hash new]))
      else Some (Ok block_locator))"

definition build_get_headers :: "Chain \<Rightarrow> GetHeaders loop" where
  "build_get_headers r =
     (if bn_number (ch_top_header r) = 0
      then Some (Ok \<lparr>gh_version = 70016, gh_block_locator = [bn_hash (ch_top_header r)],
                     gh_hash_stop = replicate 32 0\<rparr>)
      else
        loop_bind (locator_loop r (ch_top_header r) 1 [bn_hash (ch_top_header r)]) (\<lambda>block_locator.
        Some (Ok \<lparr>gh_version = 70016, gh_block_locator = block_locator,
                  gh_hash_stop = replicate 32 0\<rparr>)))"

fun headers_to_send :: "Chain \<Rightarrow> hash32 \<Rightarrow> usize \<Rightarrow> nat \<Rightarrow> BlockHeader list res" where
  "headers_to_send r block_stop number 0 = Ok []"
| "headers_to_send r block_stop number (Suc n) =
     (case ch_number_to_hash r number of
        None \<Rightarrow> Panic
      | Some hash \<Rightarrow>
          if hash = block_stop then Ok []
          else (case ch_known_headers r hash of
                  None \<Rightarrow> Panic
                | Some h \<Rightarrow>
                    res_bind (headers_to_send r block_stop (wadd number 1) n) (\<lambda>hs.
                    Ok (bn_header h # hs))))"

definition respond_to_getheaders :: "Chain \<Rightarrow> hash32 list \<Rightarrow> hash32 \<Rightarrow> BlockHeader list option res" where
  "respond_to_getheaders r locator block_stop =
     (case find (\<lambda>hash. hash \<in> ch_most_work_chain r) locator of
        None \<Rightarrow> Ok None
      | Some matched_hash \<Rightarrow>
          (case ch_known_headers r matched_hash of
             None \<Rightarrow> Panic
           | Some header \<Rightarrow>
               let blocks_to_send_count = wsub (bn_number (ch_top_header r)) (bn_number header) in
               if blocks_to_send_count = 0 then Ok None
               else res_bind (headers_to_send r block_stop (bn_number header)
                      (if 2000 < blocks_to_send_count then 2000 else blocks_to_send_count))
                    (\<lambda>hs. Ok (Some hs))))"

section \<open>Queries\<close>

definition get_top_header_hash :: "Chain \<Rightarrow> hash32" where
  "get_top_header_hash c = bn_hash (ch_top_header c)"

definition get_top_header_number :: "Chain \<Rightarrow> usize" where
  "get_top_header_number c = bn_number (ch_top_header c)"

definition get_header_by_hash :: "Chain \<Rightarrow> hash32 \<Rightarrow> BlockHeaderWithNumber option" where
  "get_header_by_hash c hash = ch_known_headers c hash"

definition get_hash_by_number :: "Chain \<Rightarrow> usize \<Rightarrow> hash32 option" where
  "get_hash_by_number c number = ch_number_to_hash c number"

partial_function (option) top_synced_hash_from :: "Chain \<Rightarrow> hash32 \<Rightarrow> hash32 option loop" where
  "top_synced_hash_from c last_hash =
     (case ch_known_headers c last_hash of
        None \<Rightarrow> Some Panic
      | Some header \<Rightarrow>
          if bn_fetched_full header then Some (Ok (Some last_hash))
          else if bn_parent header = replicate 32 0 then Some (Ok None)
          else top_synced_hash_from c (bn_parent header))"

definition get_top_synced_header_hash :: "Chain \<Rightarrow> hash32 option loop" where
  "get_top_synced_header_hash c = top_synced_hash_from c (bn_hash (ch_top_header c))"

partial_function (option) top_synced_number_from :: "Chain \<Rightarrow> hash32 \<Rightarrow> usize loop" where
  "top_synced_number_from c last_hash =
     (case ch_known_headers c last_hash of
        None \<Rightarrow> Some Panic
      | Some header \<Rightarrow>
          if bn_fetched_full header then Some (Ok (bn_number header))
          else if bn_parent header = replicate 32 0 then Some (Ok 0)
          else top_synced_number_from c (bn_parent header))"

definition get_top_synced_header_number :: "Chain \<Rightarrow> usize loop" where
  "get_top_synced_header_number c = top_synced_number_from c (bn_hash (ch_top_header c))"

partial_function (option) coinbase_asciis_from ::
  "Chain \<Rightarrow> hash32 \<Rightarrow> (hash32 \<times> usize \<times> u64 \<times> rust_string) list \<Rightarrow>
   (hash32 \<times> usize \<times> u64 \<times> rust_string) list loop" where
  "coinbase_asciis_from c last_hash result =
     (case ch_known_headers c last_hash of
        None \<Rightarrow> Some Panic
      | Some header \<Rightarrow>
          let result = (case bn_coinbase_ascii header of
                Some v \<Rightarrow> result @ [(last_hash, bn_number header, ucast (bh_timestamp (bn_header header)), v)]
              | None \<Rightarrow> result) in
          if bn_parent header = replicate 32 0 then Some (Ok result)
          else coinbase_asciis_from c (bn_parent header) result)"

definition get_blocks_with_timestamps_and_coinbase_asciis ::
  "Chain \<Rightarrow> hash32 \<Rightarrow> (hash32 \<times> usize \<times> u64 \<times> rust_string) list loop" where
  "get_blocks_with_timestamps_and_coinbase_asciis c last_hash =
     loop_bind (coinbase_asciis_from c last_hash []) (\<lambda>result. Some (Ok (rev result)))"

fun get_parents_loop ::
  "Chain \<Rightarrow> nat \<Rightarrow> BlockHeaderWithNumber \<Rightarrow> hash32 list \<Rightarrow> hash32 list" where
  "get_parents_loop c 0 hdr result = result"
| "get_parents_loop c (Suc n) hdr result =
     (if bn_parent hdr = replicate 32 0 then result
      else (case ch_known_headers c (bn_parent hdr) of
              Some p \<Rightarrow> get_parents_loop c n p (result @ [bn_hash p])
            | None \<Rightarrow> result))"

definition get_parents :: "Chain \<Rightarrow> hash32 \<Rightarrow> usize \<Rightarrow> hash32 list" where
  "get_parents c hash limit =
     (case ch_known_headers c hash of
        Some v \<Rightarrow> get_parents_loop c limit v []
      | None \<Rightarrow> [])"

definition filter_tx_spends :: "Chain \<Rightarrow> (u32 \<times> hash32 \<times> hash32) list \<Rightarrow> (u32 \<times> hash32) list" where
  "filter_tx_spends c spends =
     map (\<lambda>(i, tx, block). (i, tx)) (filter (\<lambda>(i, tx, block). block \<in> ch_most_work_chain c) spends)"

fun try_get_block_timestamps_and_numbers_and_cb_asciis ::
  "Chain \<Rightarrow> hash32 list \<Rightarrow> (u64 \<times> usize \<times> rust_string) list res" where
  "try_get_block_timestamps_and_numbers_and_cb_asciis c [] = Ok []"
| "try_get_block_timestamps_and_numbers_and_cb_asciis c (hash # hashes) =
     (case ch_known_headers c hash of
        Some v \<Rightarrow>
          res_bind (try_get_block_timestamps_and_numbers_and_cb_asciis c hashes) (\<lambda>r.
          Ok ((ucast (bh_timestamp (bn_header v)), bn_number v,
               case bn_coinbase_ascii v of Some a \<Rightarrow> a | None \<Rightarrow> []) # r))
      | None \<Rightarrow> Err (Msg ''header not found''))"

fun get_block_timestamps_and_numbers :: "Chain \<Rightarrow> hash32 list \<Rightarrow> (u64 list \<times> usize list) res" where
  "get_block_timestamps_and_numbers c [] = Ok ([], [])"
| "get_block_timestamps_and_numbers c (hash # hashes) =
     (case ch_known_headers c hash of
        Some v \<Rightarrow>
          res_bind (get_block_timestamps_and_numbers c hashes) (\<lambda>(timestamps, numbers).
          Ok (ucast (bh_timestamp (bn_header v)) # timestamps, bn_number v # numbers))
      | None \<Rightarrow> Panic)"

datatype Address =
    P2PKFull rust_string
  | P2PKShort rust_string
  | P2PKH rust_string
  | P2SH rust_string
  | P2WSH rust_string
  | P2WPKH rust_string
  | Taproot rust_string
  | OpReturn
  | Unknown
  | Coinbase

record AddressTransaction =
  at_transaction_hash :: hash32
  at_block_hash :: hash32
  at_block_number :: usize
  at_timestamp :: u32
  at_value :: i64
  at_single_other_address :: "Address option"
  at_distinct_other_addresses :: usize

fun filter_and_populate_address_txs ::
  "Chain \<Rightarrow> (hash32 \<times> hash32 \<times> i64) list \<Rightarrow> AddressTransaction list res" where
  "filter_and_populate_address_txs c [] = Ok []"
| "filter_and_populate_address_txs c ((tx, block_hash, v) # txs) =
     (if block_hash \<in> ch_most_work_chain c then
        (case ch_known_headers c block_hash of
           Some block \<Rightarrow>
             res_bind (filter_and_populate_address_txs c txs) (\<lambda>r.
             Ok (\<lparr>at_transaction_hash = tx, at_block_hash = block_hash,
                  at_block_number = bn_number block, at_timestamp = bh_timestamp (bn_header block),
                  at_value = v, at_single_other_address = None, at_distinct_other_addresses = 0\<rparr> # r))
         | None \<Rightarrow> Panic)
      else filter_and_populate_address_txs c txs)"

text \<open>\<open>now\<close> is the system time in seconds since the epoch.\<close>

definition need_ihd :: "u64 \<Rightarrow> Chain \<Rightarrow> bool" where
  "need_ihd now c =
     (let top_header_time = ucast (bh_timestamp (bn_header (ch_top_header c))) in
      top_header_time < now \<and> 24 * 3600 < now - top_header_time)"

section \<open>Header synchronisation\<close>

text \<open>
  One packet during header synchronisation: whether to leave the connection, the responses, and
  the new state.  Moving the deadline is left out.
\<close>

definition handle_packet_during_headersync ::
  "u64 \<Rightarrow> Headers option \<Rightarrow> ChainMan \<Rightarrow> (bool \<times> GetHeaders list option \<times> ChainMan) loop" where
  "handle_packet_during_headersync now packet m =
     (case packet of
        None \<Rightarrow> Some (Ok (False, None, m))
      | Some headers \<Rightarrow>
          if headers_inner headers = [] then Some (Ok (True, None, m))
          else
            loop_bind (validate_and_apply_headers (headers_inner headers) m) (\<lambda>(r, m).
            case r of
              Ok _ \<Rightarrow>
                Some (if need_ihd now (cm_chain m)
                      then Ok (False, Some [\<lparr>gh_version = 70016,
                             gh_block_locator = [bh_hash (last (headers_inner headers))],
                             gh_hash_stop = replicate 32 0\<rparr>], m)
                      else Ok (True, None, m))
            | _ \<Rightarrow> Some (Ok (True, None, m))))"

end
