(* ===== verification/ChainInv.thy ===== *)
theory ChainInv
  imports Chain
begin

text \<open>
  Well-formedness of the tree of headers, kept by every operation on it, and what the loops over
  the parents of a header compute under it.

  A header is \<open>linked\<close> when its number is one above the number of its known parent and its total
  work is the parent's plus its own; a header with number zero is the only root.  The reference
  for the loops is \<open>line\<close>, the list of a header and its ancestors, newest first.
\<close>

section \<open>Well-formed trees of headers\<close>

type_synonym known = "hash32 \<rightharpoonup> BlockHeaderWithNumber"

definition linked :: "known \<Rightarrow> BlockHeaderWithNumber \<Rightarrow> bool" where
  "linked known x \<longleftrightarrow> bn_number x < 2 ^ 64 \<and> u256_from_compact (bh_bits (bn_header x)) \<le> POW_LIMIT \<and>
     (if bn_number x = 0 then bn_parent x = EMPTY_HASH
      else bn_parent x \<noteq> EMPTY_HASH \<and>
        (\<exists>p w. known (bn_parent x) = Some p \<and> bn_number x = Suc (bn_number p) \<and>
           header_work (bn_header x) = Ok w \<and>
           unat (bn_total_work x) = unat (bn_total_work p) + unat w))"

definition known_ok :: "known \<Rightarrow> bool" where
  "known_ok known \<longleftrightarrow> known EMPTY_HASH = None \<and>
     (\<forall>h x. known h = Some x \<longrightarrow> bn_hash x = h \<and> linked known x) \<and>
     (\<forall>x y. x \<in> ran known \<longrightarrow> y \<in> ran known \<longrightarrow> bn_number x = 0 \<longrightarrow> bn_number y = 0 \<longrightarrow>
        bn_hash x = bn_hash y)"

text \<open>
  The top header is stored twice; the copies may differ in the text of the coinbase only.  It has
  the most work of all known headers.
\<close>

definition top_ok :: "Chain \<Rightarrow> bool" where
  "top_ok c \<longleftrightarrow>
     (\<exists>t. ch_known_headers c (bn_hash (ch_top_header c)) = Some t \<and>
        ch_top_header c = t\<lparr>bn_coinbase_ascii := bn_coinbase_ascii (ch_top_header c)\<rparr>) \<and>
     (\<forall>x \<in> ran (ch_known_headers c). bn_total_work x \<le> bn_total_work (ch_top_header c))"

text \<open>Every header has the difficulty that its parent demands.\<close>

definition difficulty_ok :: "Chain \<Rightarrow> bool" where
  "difficulty_ok c \<longleftrightarrow>
     (\<forall>x \<in> ran (ch_known_headers c). \<forall>p. ch_known_headers c (bn_parent x) = Some p \<longrightarrow>
        get_next_bits_required c p = Some (Ok (bh_bits (bn_header x))))"

definition chain_ok :: "Chain \<Rightarrow> bool" where
  "chain_ok c \<longleftrightarrow> known_ok (ch_known_headers c) \<and> top_ok c \<and> difficulty_ok c"

primrec line_of :: "known \<Rightarrow> nat \<Rightarrow> BlockHeaderWithNumber \<Rightarrow> BlockHeaderWithNumber list" where
  "line_of known 0 x = [x]"
| "line_of known (Suc n) x =
     x # (case known (bn_parent x) of Some p \<Rightarrow> line_of known n p | None \<Rightarrow> [])"

definition line :: "known \<Rightarrow> BlockHeaderWithNumber \<Rightarrow> BlockHeaderWithNumber list" where
  "line known x = line_of known (bn_number x) x"

lemma known_okD:
  assumes "known_ok known" and "known h = Some x"
  shows "bn_hash x = h" "linked known x"
  using assms by (auto simp: known_ok_def)

lemma known_ok_linked: "known_ok known \<Longrightarrow> x \<in> ran known \<Longrightarrow> linked known x"
  by (auto simp: ran_def known_ok_def)

lemma linked_parent:
  assumes "linked known x" and "bn_number x \<noteq> 0"
  obtains p where "known (bn_parent x) = Some p" "bn_number x = Suc (bn_number p)"
  using assms by (auto simp: linked_def)

lemma linked_root: "linked known x \<Longrightarrow> bn_parent x = replicate 32 0 \<longleftrightarrow> bn_number x = 0"
  by (auto simp: linked_def EMPTY_HASH_def split: if_splits)

text \<open>Induction along the ancestors of a linked header.\<close>

lemma linked_induct [consumes 2, case_names root child]:
  assumes "known_ok known" and "linked known x"
    and "\<And>x. linked known x \<Longrightarrow> bn_number x = 0 \<Longrightarrow> P x"
    and "\<And>x p. linked known x \<Longrightarrow> linked known p \<Longrightarrow> known (bn_parent x) = Some p \<Longrightarrow>
      bn_number x = Suc (bn_number p) \<Longrightarrow> bn_hash p = bn_parent x \<Longrightarrow> P p \<Longrightarrow> P x"
  shows "P x"
  using assms(2)
proof (induction "bn_number x" arbitrary: x)
  case 0
  then show ?case using assms(3) by simp
next
  case (Suc n)
  then obtain p where p: "known (bn_parent x) = Some p" "bn_number x = Suc (bn_number p)"
    using linked_parent by (metis nat.distinct(1))
  then have "linked known p" "bn_hash p = bn_parent x" using known_okD [OF assms(1)] by auto
  then show ?case using assms(4) [OF Suc.prems _ p] Suc.hyps p by simp
qed

lemma line_root [simp]: "bn_number x = 0 \<Longrightarrow> line known x = [x]"
  by (simp add: line_def)

lemma line_child [simp]:
  "known (bn_parent x) = Some p \<Longrightarrow> bn_number x = Suc (bn_number p) \<Longrightarrow> line known x = x # line known p"
  by (simp add: line_def)

lemma line_not_Nil [simp]: "line known x \<noteq> []"
  by (cases "bn_number x") (simp_all add: line_def)

lemma line_head [simp]: "line known x ! 0 = x"
  by (cases "bn_number x") (simp_all add: line_def)

lemma line_unfold: "line known x = x # tl (line known x)"
  by (cases "bn_number x") (simp_all add: line_def)

lemma line_length:
  assumes "known_ok known" "linked known x"
  shows "length (line known x) = Suc (bn_number x)"
  using assms by (induction rule: linked_induct) simp_all

lemma line_number:
  assumes "known_ok known" "linked known x"
  shows "i \<le> bn_number x \<Longrightarrow> bn_number (line known x ! i) = bn_number x - i"
  using assms
proof (induction arbitrary: i rule: linked_induct)
  case (child x p)
  then show ?case by (cases i) simp_all
qed simp

lemma line_linked:
  assumes "known_ok known" "linked known x"
  shows "\<forall>y \<in> set (line known x). linked known y"
  using assms by (induction rule: linked_induct) simp_all

lemma line_known:
  assumes "known_ok known" "linked known x"
  shows "\<forall>y \<in> set (tl (line known x)). known (bn_hash y) = Some y"
  using assms
proof (induction rule: linked_induct)
  case (child x p)
  have "set (line known p) = insert p (set (tl (line known p)))"
    by (subst line_unfold) simp
  then show ?case using child by auto
qed simp

lemma line_drop:
  assumes "known_ok known" "linked known x"
  shows "i \<le> bn_number x \<Longrightarrow> drop i (line known x) = line known (line known x ! i)"
  using assms
proof (induction arbitrary: i rule: linked_induct)
  case (child x p)
  then show ?case by (cases i) simp_all
qed simp

lemma get_ancestor_line:
  assumes "known_ok (ch_known_headers c)" "linked (ch_known_headers c) x"
  shows "height \<le> bn_number x \<Longrightarrow>
    get_ancestor c x height = Some (Some (line (ch_known_headers c) x ! (bn_number x - height)))"
  using assms
proof (induction rule: linked_induct)
  case (root x)
  then show ?case by (simp add: get_ancestor.simps)
next
  case (child x p)
  then show ?case by (subst get_ancestor.simps) (auto simp: Suc_diff_le)
qed

section \<open>Difficulty\<close>

lemma interval_value: "unat DIFFICULTY_ADJUSTMENT_INTERVAL = 2016"
  by (simp add: DIFFICULTY_ADJUSTMENT_INTERVAL_def POW_TARGET_TIMESPAN_def POW_TARGET_SPACING_def)

lemma next_work_within_limit:
  assumes "u256_from_compact bits \<le> POW_LIMIT"
  obtains b where "calculate_next_work_required t1 t0 bits = Ok b" "u256_from_compact b \<le> POW_LIMIT"
proof -
  obtain d where d: "calculate_next_work_required t1 t0 bits = compact_from_u256 d"
      "unat d = next_target (unat (u256_from_compact bits)) (unat (clamped_timespan t1 t0))"
    using next_work_encodes [OF assms] by blast
  obtain b where b: "compact_from_u256 d = Ok b" "unat (u256_from_compact b) \<le> unat d"
    by (rule encoded_target [of d])
  have "unat d \<le> 2 ^ 224 - 1" unfolding d by (simp add: next_target_def)
  then have "u256_from_compact b \<le> POW_LIMIT"
    using b(2) unfolding word_le_nat_alt unat_POW_LIMIT by linarith
  then show thesis using that d(1) b(1) by simp
qed

text \<open>The ancestor that starts the period of a header.\<close>

definition period_start :: "known \<Rightarrow> BlockHeaderWithNumber \<Rightarrow> BlockHeaderWithNumber" where
  "period_start known x = line known x ! 2015"

lemma next_bits_required:
  assumes "known_ok (ch_known_headers c)" "linked (ch_known_headers c) x" "bn_number x + 1 < 2 ^ 64"
  shows "get_next_bits_required c x =
    Some (if Suc (bn_number x) mod 2016 \<noteq> 0 then Ok (bh_bits (bn_header x))
      else calculate_next_work_required (bh_timestamp (bn_header x))
        (bh_timestamp (bn_header (period_start (ch_known_headers c) x))) (bh_bits (bn_header x)))"
proof (cases "Suc (bn_number x) mod 2016 = 0")
  case True
  then have "2015 \<le> bn_number x" using mod_less [of "Suc (bn_number x)" 2016] by linarith
  then show ?thesis using True assms
    by (simp add: get_next_bits_required_def interval_value get_ancestor_line period_start_def Let_def)
next
  case False
  then show ?thesis using assms by (simp add: get_next_bits_required_def interval_value)
qed

lemma next_bits_total:
  assumes "known_ok (ch_known_headers c)" "linked (ch_known_headers c) x" "bn_number x + 1 < 2 ^ 64"
  obtains b where "get_next_bits_required c x = Some (Ok b)" "u256_from_compact b \<le> POW_LIMIT"
proof (cases "Suc (bn_number x) mod 2016 = 0")
  case True
  have "u256_from_compact (bh_bits (bn_header x)) \<le> POW_LIMIT" using assms by (simp add: linked_def)
  then obtain b where "calculate_next_work_required (bh_timestamp (bn_header x))
        (bh_timestamp (bn_header (period_start (ch_known_headers c) x))) (bh_bits (bn_header x)) = Ok b"
      "u256_from_compact b \<le> POW_LIMIT"
    by (rule next_work_within_limit)
  then show ?thesis using that next_bits_required [OF assms] True by simp
next
  case False
  then show ?thesis using that next_bits_required [OF assms] assms(2) by (simp add: linked_def)
qed

section \<open>Adding a header\<close>

definition fresh_child :: "known \<Rightarrow> BlockHeaderWithNumber \<Rightarrow> bool" where
  "fresh_child known x \<longleftrightarrow> known (bn_hash x) = None \<and> bn_hash x \<noteq> EMPTY_HASH \<and>
     linked known x \<and> bn_number x \<noteq> 0"

lemma linked_mono: "linked known x \<Longrightarrow> known \<subseteq>\<^sub>m known' \<Longrightarrow> linked known' x"
  by (auto simp: linked_def map_le_def dom_def split: if_splits)

lemma fresh_child_le: "fresh_child known x \<Longrightarrow> known \<subseteq>\<^sub>m known(bn_hash x \<mapsto> x)"
  by (auto simp: map_le_def fresh_child_def)

lemma known_ok_insert:
  assumes "known_ok known" "fresh_child known x"
  shows "known_ok (known(bn_hash x \<mapsto> x))"
  unfolding known_ok_def
proof (intro conjI allI impI)
  note le = fresh_child_le [OF assms(2)]
  have "EMPTY_HASH \<noteq> bn_hash x" using assms(2) by (auto simp: fresh_child_def)
  then show "(known(bn_hash x \<mapsto> x)) EMPTY_HASH = None"
    using assms(1) by (simp add: known_ok_def)
  show "bn_hash y = h" if "(known(bn_hash x \<mapsto> x)) h = Some y" for h y
    using that known_okD(1) [OF assms(1)] by (simp split: if_splits)
  show "linked (known(bn_hash x \<mapsto> x)) y" if "(known(bn_hash x \<mapsto> x)) h = Some y" for h y
  proof (rule linked_mono [OF _ le])
    show "linked known y"
      using that assms(2) known_okD(2) [OF assms(1)] by (auto simp: fresh_child_def split: if_splits)
  qed
  have ran: "ran (known(bn_hash x \<mapsto> x)) = insert x (ran known)"
    using assms(2) by (simp add: ran_map_upd fresh_child_def)
  show "bn_hash y = bn_hash z" if "y \<in> ran (known(bn_hash x \<mapsto> x))" "z \<in> ran (known(bn_hash x \<mapsto> x))"
    "bn_number y = 0" "bn_number z = 0" for y z
  proof -
    have "y \<noteq> x" "z \<noteq> x" using that(3,4) assms(2) by (auto simp: fresh_child_def)
    then have "y \<in> ran known" "z \<in> ran known" using that(1,2) unfolding ran by simp_all
    then show ?thesis using that(3,4) assms(1) unfolding known_ok_def by blast
  qed
qed

lemma line_mono:
  assumes "known_ok known" "linked known x" "known \<subseteq>\<^sub>m known'"
  shows "line known' x = line known x"
  using assms
proof (induction rule: linked_induct)
  case (child x p)
  then have "known' (bn_parent x) = Some p" by (auto simp: map_le_def dom_def)
  then show ?case using child by simp
qed simp

lemma next_bits_mono:
  assumes "known_ok (ch_known_headers c)" "linked (ch_known_headers c) x" "bn_number x + 1 < 2 ^ 64"
    and "known_ok (ch_known_headers c')" "ch_known_headers c \<subseteq>\<^sub>m ch_known_headers c'"
  shows "get_next_bits_required c' x = get_next_bits_required c x"
  using assms by (simp add: next_bits_required linked_mono [OF assms(2,5)] period_start_def
    line_mono [OF assms(1,2,5)])

text \<open>Room for \<open>n\<close> more headers before the numbers wrap.\<close>

definition number_room :: "nat \<Rightarrow> Chain \<Rightarrow> bool" where
  "number_room n c \<longleftrightarrow> (\<forall>x \<in> ran (ch_known_headers c). bn_number x + n < 2 ^ 64)"

lemma number_room_parent:
  "number_room (Suc n) c \<Longrightarrow> ch_known_headers c h = Some x \<Longrightarrow> bn_number x + 1 < 2 ^ 64"
  by (fastforce simp: number_room_def ran_def)

lemma difficulty_ok_insert:
  assumes "known_ok (ch_known_headers c)" "difficulty_ok c" "number_room (Suc n) c"
    and "fresh_child (ch_known_headers c) x" "ch_known_headers c (bn_parent x) = Some p"
    and "get_next_bits_required c p = Some (Ok (bh_bits (bn_header x)))"
    and "ch_known_headers c' = (ch_known_headers c)(bn_hash x \<mapsto> x)"
  shows "difficulty_ok c'"
  unfolding difficulty_ok_def
proof (intro ballI allI impI)
  fix y q
  assume y: "y \<in> ran (ch_known_headers c')" and q: "ch_known_headers c' (bn_parent y) = Some q"
  let ?k = "ch_known_headers c"
  have le: "?k \<subseteq>\<^sub>m ch_known_headers c'" using fresh_child_le [OF assms(4)] assms(7) by simp
  have ok': "known_ok (ch_known_headers c')" using known_ok_insert [OF assms(1,4)] assms(7) by simp
  have old: "y = x \<or> y \<in> ran ?k"
    using y assms(4,7) by (auto simp: ran_map_upd fresh_child_def)
  then have "linked ?k y" using assms(4) known_ok_linked [OF assms(1)] by (auto simp: fresh_child_def)
  then have "?k (bn_parent y) = Some q"
  proof (cases "bn_number y = 0")
    case True
    then have "bn_parent y = EMPTY_HASH" using \<open>linked ?k y\<close> by (simp add: linked_def)
    then show ?thesis using q ok' by (simp add: known_ok_def)
  next
    case False
    then obtain r where "?k (bn_parent y) = Some r" using \<open>linked ?k y\<close> linked_parent by blast
    then show ?thesis using q le by (auto simp: map_le_def dom_def)
  qed
  moreover have "get_next_bits_required c q = Some (Ok (bh_bits (bn_header y)))"
    using old calculation assms(2,5,6) by (auto simp: difficulty_ok_def)
  moreover have "linked ?k q" using known_okD(2) [OF assms(1) calculation(1)] .
  ultimately show "get_next_bits_required c' q = Some (Ok (bh_bits (bn_header y)))"
    using next_bits_mono [OF assms(1) \<open>linked ?k q\<close> number_room_parent [OF assms(3)] ok' le] by simp
qed

lemma top_ok_insert:
  assumes "top_ok c" "fresh_child (ch_known_headers c) x"
    and "ch_known_headers c' = (ch_known_headers c)(bn_hash x \<mapsto> x)"
    and "ch_top_header c' =
      (if bn_total_work x < bn_total_work (ch_top_header c) then ch_top_header c else x)"
  shows "top_ok c'"
proof -
  have ran: "ran (ch_known_headers c') = insert x (ran (ch_known_headers c))"
    using assms(2,3) by (simp add: ran_map_upd fresh_child_def)
  have "\<exists>t. ch_known_headers c' (bn_hash (ch_top_header c')) = Some t \<and>
      ch_top_header c' = t\<lparr>bn_coinbase_ascii := bn_coinbase_ascii (ch_top_header c')\<rparr>"
    using assms by (auto simp: top_ok_def fresh_child_def)
  moreover have "\<forall>y \<in> ran (ch_known_headers c'). bn_total_work y \<le> bn_total_work (ch_top_header c')"
    using assms(1,4) by (auto simp: top_ok_def ran)
  ultimately show ?thesis by (simp add: top_ok_def)
qed

lemma chain_ok_insert:
  assumes "chain_ok c" "number_room (Suc n) c" "fresh_child (ch_known_headers c) x"
    and "ch_known_headers c (bn_parent x) = Some p"
    and "get_next_bits_required c p = Some (Ok (bh_bits (bn_header x)))"
    and "ch_known_headers c' = (ch_known_headers c)(bn_hash x \<mapsto> x)"
    and "ch_top_header c' =
      (if bn_total_work x < bn_total_work (ch_top_header c) then ch_top_header c else x)"
  shows "chain_ok c'"
  unfolding chain_ok_def
proof (intro conjI)
  note ok = assms(1) [unfolded chain_ok_def]
  show "known_ok (ch_known_headers c')" unfolding assms(6) using ok assms(3) by (simp add: known_ok_insert)
  show "top_ok c'" by (rule top_ok_insert [OF _ assms(3,6,7)]) (simp add: ok)
  show "difficulty_ok c'" by (rule difficulty_ok_insert [OF _ _ assms(2-6)]) (simp_all add: ok)
qed

section \<open>Applying a header\<close>

definition expected_work :: "BlockHeader \<Rightarrow> nat" where
  "expected_work h = 2 ^ 256 div (unat (u256_from_compact (bh_bits h)) + 1)"

lemma valid_work:
  assumes "header_is_valid h"
  obtains w where "header_work h = Ok w" "unat w = expected_work h"
proof -
  let ?T = "u256_from_compact (bh_bits h)"
  have nz: "?T \<noteq> 0" using assms by (auto simp: header_is_valid_def is_valid_def Let_def)
  then have "2 ^ 256 div (unat ?T + 1) \<le> 2 ^ 256 div 2"
    by (intro div_le_mono2) (simp_all add: unat_gt_0 Suc_le_eq)
  then have "unat (word_of_nat (2 ^ 256 div (unat ?T + 1)) :: U256) = 2 ^ 256 div (unat ?T + 1)"
    by (subst unat_of_nat) simp
  then show ?thesis using that nz by (simp add: get_work_value header_work_def expected_work_def)
qed

text \<open>What a peer's header has to satisfy before it is applied; the decoder checks its validity.\<close>

definition applicable :: "BlockHeader \<Rightarrow> bool" where
  "applicable h \<longleftrightarrow> header_is_valid h \<and> bh_hash h \<noteq> EMPTY_HASH"

definition child_of :: "BlockHeaderWithNumber \<Rightarrow> BlockHeader \<Rightarrow> U256 \<Rightarrow> BlockHeaderWithNumber" where
  "child_of p h w = \<lparr>bn_header = h, bn_number = Suc (bn_number p), bn_fetched_full = False,
     bn_total_work = bn_total_work p + w, bn_coinbase_ascii = None\<rparr>"

lemma BlockHeaderOwned_from_id [simp]: "BlockHeaderOwned_from h = h"
  by (simp add: BlockHeaderOwned_from_def)

lemma unat_add_small: "unat (a :: U256) + unat b < 2 ^ 256 \<Longrightarrow> unat (a + b) = unat a + unat b"
  by (simp add: unat_word_ariths)

lemma child_fresh:
  assumes "known_ok known" "known (bh_hash h) = None" "known (bh_parent h) = Some p" "applicable h"
    and "bn_number p + 1 < 2 ^ 64" "u256_from_compact (bh_bits h) \<le> POW_LIMIT"
    and "header_work h = Ok w" "unat (bn_total_work p) + unat w < 2 ^ 256"
  shows "fresh_child known (child_of p h w)"
proof -
  have "bh_parent h \<noteq> EMPTY_HASH" using assms(1,3) by (auto simp: known_ok_def)
  then show ?thesis using assms
    by (simp add: fresh_child_def linked_def child_of_def applicable_def unat_add_small)
qed

lemma u256_add_Ok: "unat a + unat b < 2 ^ 256 \<Longrightarrow> u256_add a b = Ok (a + b)"
  by (simp add: u256_add_def)

definition with_header :: "BlockHeaderWithNumber \<Rightarrow> ChainMan \<Rightarrow> ChainMan" where
  "with_header x m = m\<lparr>cm_chain := (cm_chain m)
     \<lparr>ch_known_headers := (ch_known_headers (cm_chain m))(bn_hash x \<mapsto> x)\<rparr>,
     cm_inserted := cm_inserted m @ [x]\<rparr>"

definition with_top :: "BlockHeaderWithNumber \<Rightarrow> ChainMan \<Rightarrow> ChainMan" where
  "with_top x m = m\<lparr>cm_chain := (cm_chain m)\<lparr>ch_top_header := x\<rparr>\<rparr>"

text \<open>The branches after the checks, in terms of the new entry.\<close>

lemma apply_accepted:
  assumes "ch_known_headers (cm_chain m) (bh_hash h) = None"
    and "ch_known_headers (cm_chain m) (bh_parent h) = Some p"
    and "get_next_bits_required (cm_chain m) p = Some (Ok (bh_bits h))"
    and "header_work h = Ok w" "unat (bn_total_work p) + unat w < 2 ^ 256" "bn_number p + 1 < 2 ^ 64"
  defines "x \<equiv> child_of p h w"
  shows "validate_and_apply_header_inner h m is_headersync =
    (let m' = with_header x m; old = ch_top_header (cm_chain m) in
     if bn_total_work x < bn_total_work old then Some (Ok (None, m'))
     else if is_headersync then Some (Ok (None, with_top x m'))
     else if bn_parent x = bn_hash old
     then Some (Ok (Some \<lparr>har_removed_blocks = [], har_added_blocks = [(bn_hash x, bn_number x)]\<rparr>,
            with_top x m'))
     else loop_bind (find_fork (cm_chain m') x (bn_number p)) (\<lambda>(visited_new, visited_old).
          loop_bind (calculate_downloaded_blocks (cm_chain (with_top x m'))) (\<lambda>new_count.
          Some (Ok (Some \<lparr>har_removed_blocks = visited_old, har_added_blocks = rev visited_new\<rparr>,
            (with_top x m')\<lparr>cm_downloaded_blocks := new_count\<rparr>)))))"
  using assms(1-6)
  by (simp add: validate_and_apply_header_inner_def Let_def u256_add_Ok with_header_def with_top_def
      x_def child_of_def)

lemma top_work: "top_ok c \<Longrightarrow> ch_known_headers c h = Some x \<Longrightarrow> bn_total_work x \<le> bn_total_work (ch_top_header c)"
  by (auto simp: top_ok_def ran_def)

lemma apply_header_cases [consumes 4, case_names present refused accepted]:
  assumes "chain_ok (cm_chain m)" "number_room (Suc n) (cm_chain m)" "applicable h"
    and "unat (bn_total_work (ch_top_header (cm_chain m))) + expected_work h < 2 ^ 256"
  obtains (present) "validate_and_apply_header_inner h m hs = Some (Ok (None, m))"
      "bh_hash h \<in> dom (ch_known_headers (cm_chain m))"
  | (refused) e where "validate_and_apply_header_inner h m hs = Some (Err e)"
  | (accepted) p w where "ch_known_headers (cm_chain m) (bh_hash h) = None"
      "ch_known_headers (cm_chain m) (bh_parent h) = Some p"
      "get_next_bits_required (cm_chain m) p = Some (Ok (bh_bits h))"
      "header_work h = Ok w" "unat w = expected_work h"
      "unat (bn_total_work p) + unat w < 2 ^ 256" "bn_number p + 1 < 2 ^ 64"
      "fresh_child (ch_known_headers (cm_chain m)) (child_of p h w)"
proof -
  let ?c = "cm_chain m"
  let ?k = "ch_known_headers ?c"
  have ok: "known_ok ?k" "top_ok ?c" using assms(1) by (simp_all add: chain_ok_def)
  show thesis
  proof (cases "?k (bh_hash h)")
    case (Some y)
    then show thesis using present by (auto simp: validate_and_apply_header_inner_def Let_def)
  next
    case unknown: None
    show thesis
    proof (cases "?k (bh_parent h)")
      case None
      then show thesis using refused unknown by (simp add: validate_and_apply_header_inner_def Let_def)
    next
      case parent: (Some p)
      have num: "bn_number p + 1 < 2 ^ 64" by (rule number_room_parent [OF assms(2) parent])
      obtain b where b: "get_next_bits_required ?c p = Some (Ok b)" "u256_from_compact b \<le> POW_LIMIT"
        by (rule next_bits_total [OF ok(1) known_okD(2) [OF ok(1) parent] num])
      show thesis
      proof (cases "b = bh_bits h")
        case False
        then show thesis using refused unknown parent b
          by (simp add: validate_and_apply_header_inner_def Let_def)
      next
        case True
        obtain w where w: "header_work h = Ok w" "unat w = expected_work h"
          using assms(3) by (auto simp: applicable_def elim: valid_work)
        have "unat (bn_total_work p) + unat w < 2 ^ 256"
          using top_work [OF ok(2) parent] assms(4) w(2) by (simp add: word_le_nat_alt)
        then show thesis
          using accepted [OF unknown parent _ w _ num] b True
            child_fresh [OF ok(1) unknown parent assms(3) num _ w(1)] by simp
      qed
    qed
  qed
qed

lemma child_of_simps [simp]:
  "bn_header (child_of p h w) = h" "bn_number (child_of p h w) = Suc (bn_number p)"
  "bn_fetched_full (child_of p h w) = False" "bn_total_work (child_of p h w) = bn_total_work p + w"
  by (simp_all add: child_of_def)

lemma with_simps [simp]:
  "ch_known_headers (cm_chain (with_header x m)) = (ch_known_headers (cm_chain m))(bn_hash x \<mapsto> x)"
  "ch_top_header (cm_chain (with_header x m)) = ch_top_header (cm_chain m)"
  "ch_most_work_chain (cm_chain (with_header x m)) = ch_most_work_chain (cm_chain m)"
  "ch_number_to_hash (cm_chain (with_header x m)) = ch_number_to_hash (cm_chain m)"
  "ch_known_headers (cm_chain (with_top x m)) = ch_known_headers (cm_chain m)"
  "ch_top_header (cm_chain (with_top x m)) = x"
  "ch_most_work_chain (cm_chain (with_top x m)) = ch_most_work_chain (cm_chain m)"
  "ch_number_to_hash (cm_chain (with_top x m)) = ch_number_to_hash (cm_chain m)"
  by (simp_all add: with_header_def with_top_def)

lemma number_room_insert:
  assumes "number_room (Suc n) c" "ch_known_headers c h = Some p" "bn_number x = Suc (bn_number p)"
    and "ch_known_headers c' = (ch_known_headers c)(k \<mapsto> x)"
  shows "number_room n c'"
proof -
  have "ran (ch_known_headers c') \<subseteq> insert x (ran (ch_known_headers c))"
    using assms(4) by (auto simp: ran_def)
  moreover have "bn_number x + n < 2 ^ 64"
    using assms(1-3) by (fastforce simp: number_room_def ran_def)
  moreover have "bn_number y + n < 2 ^ 64" if "y \<in> ran (ch_known_headers c)" for y
    using assms(1) that by (fastforce simp: number_room_def)
  ultimately show ?thesis by (auto simp: number_room_def)
qed

text \<open>One header during the header synchronisation.\<close>

lemma headersync_step:
  assumes "chain_ok (cm_chain m)" "number_room (Suc n) (cm_chain m)" "applicable h"
    and "unat (bn_total_work (ch_top_header (cm_chain m))) + expected_work h < 2 ^ 256"
  shows "(\<exists>e. validate_and_apply_header_inner h m True = Some (Err e)) \<or>
    (\<exists>m'. validate_and_apply_header_inner h m True = Some (Ok (None, m')) \<and>
       chain_ok (cm_chain m') \<and> number_room n (cm_chain m') \<and>
       ch_known_headers (cm_chain m) \<subseteq>\<^sub>m ch_known_headers (cm_chain m') \<and>
       bh_hash h \<in> dom (ch_known_headers (cm_chain m')) \<and>
       bn_total_work (ch_top_header (cm_chain m)) \<le> bn_total_work (ch_top_header (cm_chain m')) \<and>
       unat (bn_total_work (ch_top_header (cm_chain m'))) \<le>
         unat (bn_total_work (ch_top_header (cm_chain m))) + expected_work h)"
  using assms
proof (cases rule: apply_header_cases [where hs = True])
  case present
  then show ?thesis using assms(1,2) by (auto simp: number_room_def)
next
  case (refused e)
  then show ?thesis by blast
next
  case (accepted p w)
  define x where "x = child_of p h w"
  define m' where "m' = (if bn_total_work x < bn_total_work (ch_top_header (cm_chain m))
    then with_header x m else with_top x (with_header x m))"
  have res: "validate_and_apply_header_inner h m True = Some (Ok (None, m'))"
    using apply_accepted [OF accepted(1-4,6,7), of True] by (simp add: x_def m'_def Let_def)
  have fresh: "fresh_child (ch_known_headers (cm_chain m)) x" using accepted(8) by (simp add: x_def)
  have known: "ch_known_headers (cm_chain m') = (ch_known_headers (cm_chain m))(bn_hash x \<mapsto> x)"
    by (simp add: m'_def)
  have topm: "ch_top_header (cm_chain m') = (if bn_total_work x < bn_total_work (ch_top_header (cm_chain m))
    then ch_top_header (cm_chain m) else x)" by (simp add: m'_def)
  have "chain_ok (cm_chain m')"
    by (rule chain_ok_insert [OF assms(1,2) fresh _ _ known topm, of p]) (simp_all add: x_def accepted)
  moreover have "number_room n (cm_chain m')"
    by (rule number_room_insert [OF assms(2) accepted(2) _ known]) (simp add: x_def)
  moreover have "unat (bn_total_work x) \<le> unat (bn_total_work (ch_top_header (cm_chain m))) + expected_work h"
    using top_work [OF _ accepted(2)] assms(1) accepted(5,6)
    by (simp add: x_def unat_add_small chain_ok_def word_le_nat_alt)
  moreover have "bh_hash h = bn_hash x" by (simp add: x_def)
  ultimately show ?thesis using res fresh_child_le [OF fresh] by (auto simp: known topm)
qed

lemma headers_applied:
  assumes "chain_ok (cm_chain m)" "number_room (length hs) (cm_chain m)" "list_all applicable hs"
    and "unat (bn_total_work (ch_top_header (cm_chain m))) + sum_list (map expected_work hs) < 2 ^ 256"
  shows "\<exists>r m'. validate_and_apply_headers hs m = Some (Ok (r, m')) \<and> chain_ok (cm_chain m') \<and>
    ch_known_headers (cm_chain m) \<subseteq>\<^sub>m ch_known_headers (cm_chain m') \<and>
    (r = Ok () \<longrightarrow> bh_hash ` set hs \<subseteq> dom (ch_known_headers (cm_chain m'))) \<and>
    bn_total_work (ch_top_header (cm_chain m)) \<le> bn_total_work (ch_top_header (cm_chain m'))"
  using assms
proof (induction hs arbitrary: m)
  case (Cons h hs)
  have room: "number_room (Suc (length hs)) (cm_chain m)" and h: "applicable h" and hs: "list_all applicable hs"
    using Cons.prems by simp_all
  have w: "unat (bn_total_work (ch_top_header (cm_chain m))) + expected_work h < 2 ^ 256"
    using Cons.prems(4) by simp
  consider (err) e where "validate_and_apply_header_inner h m True = Some (Err e)"
    | (ok) m1 where "validate_and_apply_header_inner h m True = Some (Ok (None, m1))"
       "chain_ok (cm_chain m1)" "number_room (length hs) (cm_chain m1)"
       "ch_known_headers (cm_chain m) \<subseteq>\<^sub>m ch_known_headers (cm_chain m1)"
       "bh_hash h \<in> dom (ch_known_headers (cm_chain m1))"
       "bn_total_work (ch_top_header (cm_chain m)) \<le> bn_total_work (ch_top_header (cm_chain m1))"
       "unat (bn_total_work (ch_top_header (cm_chain m1))) \<le>
         unat (bn_total_work (ch_top_header (cm_chain m))) + expected_work h"
    using headersync_step [OF Cons.prems(1) room h w] by blast
  then show ?case
  proof cases
    case err
    then show ?thesis using Cons.prems(1) by simp
  next
    case ok
    have "unat (bn_total_work (ch_top_header (cm_chain m1))) + sum_list (map expected_work hs) < 2 ^ 256"
      using ok(7) Cons.prems(4) by simp
    from Cons.IH [OF ok(2,3) hs this] obtain r m' where r:
      "validate_and_apply_headers hs m1 = Some (Ok (r, m'))" "chain_ok (cm_chain m')"
      "ch_known_headers (cm_chain m1) \<subseteq>\<^sub>m ch_known_headers (cm_chain m')"
      "r = Ok () \<longrightarrow> bh_hash ` set hs \<subseteq> dom (ch_known_headers (cm_chain m'))"
      "bn_total_work (ch_top_header (cm_chain m1)) \<le> bn_total_work (ch_top_header (cm_chain m'))"
      by blast
    have "bh_hash h \<in> dom (ch_known_headers (cm_chain m'))"
      using ok(5) map_le_implies_dom_le [OF r(3)] by blast
    then show ?thesis using ok(1,6) r map_le_trans [OF ok(4) r(3)] by auto
  qed
qed simp

text \<open>
  C1: A headers message during the header synchronisation always leaves a well-formed chain,
  whatever tree its headers form and however far they get before one is refused: every header
  is linked to its parent with the right number, total work and difficulty, the top header has
  the most work, nothing known is lost and the work of the top never falls; no loop over the
  parents runs forever and nothing panics.  Further headers are requested only after all headers
  of the message are known.
\<close>

theorem header_sync_invariant:
  assumes "chain_ok (cm_chain m)" "list_all applicable (headers_inner msg)"
    and "number_room (length (headers_inner msg)) (cm_chain m)"
    and "unat (bn_total_work (ch_top_header (cm_chain m))) +
      sum_list (map expected_work (headers_inner msg)) < 2 ^ 256"
  shows "\<exists>stop responses m'. handle_packet_during_headersync now (Some msg) m =
      Some (Ok (stop, responses, m')) \<and> chain_ok (cm_chain m') \<and>
    ch_known_headers (cm_chain m) \<subseteq>\<^sub>m ch_known_headers (cm_chain m') \<and>
    bn_total_work (ch_top_header (cm_chain m)) \<le> bn_total_work (ch_top_header (cm_chain m')) \<and>
    (responses \<noteq> None \<longrightarrow> \<not> stop \<and>
       bh_hash ` set (headers_inner msg) \<subseteq> dom (ch_known_headers (cm_chain m')))"
proof (cases "headers_inner msg = []")
  case True
  then show ?thesis using assms(1) by (auto simp: handle_packet_during_headersync_def)
next
  case False
  obtain r m' where r: "validate_and_apply_headers (headers_inner msg) m = Some (Ok (r, m'))"
    "chain_ok (cm_chain m')" "ch_known_headers (cm_chain m) \<subseteq>\<^sub>m ch_known_headers (cm_chain m')"
    "r = Ok () \<longrightarrow> bh_hash ` set (headers_inner msg) \<subseteq> dom (ch_known_headers (cm_chain m'))"
    "bn_total_work (ch_top_header (cm_chain m)) \<le> bn_total_work (ch_top_header (cm_chain m'))"
    using headers_applied [OF assms(1,3,2,4)] by blast
  then show ?thesis using False
    by (cases r) (auto simp: handle_packet_during_headersync_def)
qed

section \<open>The initial chain\<close>

lemma GENESIS_HEADER_Ok:
  obtains h where "GENESIS_HEADER sha = Ok h" "bh_bits h = 0x1d00ffff" "bh_parent h = EMPTY_HASH"
    "bh_hash h = sha (sha (header_raw h))"
proof -
  define h where "h = \<lparr>bh_version = 0x01, bh_parent = replicate 32 0, bh_merkle_root =
       [0x3b, 0xa3, 0xed, 0xfd, 0x7a, 0x7b, 0x12, 0xb2, 0x7a, 0xc7, 0x2c, 0x3e, 0x67, 0x76,
        0x8f, 0x61, 0x7f, 0xc8, 0x1b, 0xc3, 0x88, 0x8a, 0x51, 0x32, 0x3a, 0x9f, 0xb8, 0xaa,
        0x4b, 0x1e, 0x5e, 0x4a], bh_timestamp = 1231006505, bh_bits = 0x1d00ffff,
       bh_nonce = 0x7c2bac1d, bh_txs_count = 1, bh_hash = EMPTY_HASH\<rparr>"
  have len: "length (header_raw h) = 80" by (rule length_header_raw) (simp_all add: h_def)
  have "GENESIS_HEADER sha = Ok (h\<lparr>bh_hash := sha (sha (header_raw h))\<rparr>)"
    using len unfolding GENESIS_HEADER_def BlockHeader_construct_def h_def [symmetric] Let_def
    by (simp add: get_range_def header_serialize_raw)
  moreover have "header_raw (h\<lparr>bh_hash := sha (sha (header_raw h))\<rparr>) = header_raw h"
    by (simp add: header_raw_def)
  ultimately show thesis using that by (simp add: h_def EMPTY_HASH_def)
qed

lemma genesis_target: "u256_from_compact 0x1d00ffff \<le> POW_LIMIT" "u256_from_compact 0x1d00ffff \<noteq> 0"
  by (simp_all add: word_le_nat_alt unat_POW_LIMIT unat_u256_from_compact target_nat_def
      flip: unat_0_iff)

lemma Chain_default_ok:
  assumes "\<And>b. sha (sha b) \<noteq> EMPTY_HASH"
  obtains c where "Chain_default sha = Ok c" "chain_ok c" "bn_number (ch_top_header c) = 0"
    "ch_known_headers c = [bn_hash (ch_top_header c) \<mapsto> ch_top_header c]"
    "unat (bn_total_work (ch_top_header c)) = expected_work (bn_header (ch_top_header c))"
    "bh_bits (bn_header (ch_top_header c)) = 0x1d00ffff"
    "bn_hash (ch_top_header c) = sha (sha (header_raw (bn_header (ch_top_header c))))"
    "ch_most_work_chain c = {bn_hash (ch_top_header c)}"
    "ch_number_to_hash c = [0 \<mapsto> bn_hash (ch_top_header c)]"
proof -
  obtain h where h: "GENESIS_HEADER sha = Ok h" "bh_bits h = 0x1d00ffff" "bh_parent h = EMPTY_HASH"
    "bh_hash h = sha (sha (header_raw h))"
    by (rule GENESIS_HEADER_Ok)
  define w where "w = (word_of_nat (expected_work h) :: U256)"
  have w: "header_work h = Ok w" using genesis_target(2) h(2)
    by (simp add: header_work_def get_work_value w_def expected_work_def)
  have uw: "unat w = expected_work h" unfolding w_def expected_work_def h(2)
    by (simp add: unat_of_nat unat_u256_from_compact target_nat_def)
  define g where "g = \<lparr>bn_header = h, bn_number = 0, bn_fetched_full = False, bn_total_work = w,
    bn_coinbase_ascii = None\<rparr>"
  define c where "c = \<lparr>ch_top_header = g, ch_known_headers = [bh_hash h \<mapsto> g],
    ch_number_to_hash = [0 \<mapsto> bh_hash h], ch_most_work_chain = {bh_hash h}\<rparr>"
  have ne: "bh_hash h \<noteq> EMPTY_HASH" using assms h(4) by simp
  have "known_ok (ch_known_headers c)"
    using ne h genesis_target by (auto simp: known_ok_def c_def g_def linked_def split: if_splits)
  moreover have "top_ok c" by (auto simp: top_ok_def c_def g_def)
  moreover have "difficulty_ok c" using ne h(3) by (auto simp: difficulty_ok_def c_def g_def split: if_splits)
  ultimately have "chain_ok c" by (simp add: chain_ok_def)
  moreover have "Chain_default sha = Ok c" by (simp add: Chain_default_def h w c_def g_def Let_def)
  ultimately show thesis using that h uw by (auto simp: c_def g_def)
qed

text \<open>A small chain for the witnesses: the hash of every header is given by a byte.\<close>

definition demo_hash :: "u8 \<Rightarrow> hash32" where
  "demo_hash b = b # replicate 31 0"

definition demo_header :: "u8 \<Rightarrow> hash32 \<Rightarrow> BlockHeader" where
  "demo_header b parent = BlockHeader_default\<lparr>bh_parent := parent, bh_bits := 0x1d00ffff,
     bh_hash := demo_hash b\<rparr>"

definition byte_sha :: "bytes \<Rightarrow> bytes" where
  "byte_sha b = demo_hash 1"

lemma demo_hash_simps [simp]:
  "demo_hash a = demo_hash b \<longleftrightarrow> a = b" "demo_hash a = EMPTY_HASH \<longleftrightarrow> a = 0"
  "EMPTY_HASH = demo_hash a \<longleftrightarrow> a = 0"
  by (auto simp: demo_hash_def EMPTY_HASH_def numeral_eq_Suc)

lemma demo_target: "unat (u256_from_compact 0x1d00ffff) = 65535 * 256 ^ 26"
  by (simp add: unat_u256_from_compact target_nat_def)

lemma demo_applicable: "b \<noteq> 0 \<Longrightarrow> applicable (demo_header b parent)"
proof -
  have b: "unat b < 256" using unsigned_less [of b] by simp
  then have "unat (ucast b :: U256) = unat b" by (simp add: unsigned_ucast_eq take_bit_nat_eq_self_iff)
  then have "unat (u256_from_little_endian (demo_hash b)) = unat b"
    by (simp add: u256_from_little_endian_def demo_hash_def from_le_zeros)
  moreover note b
  ultimately have "u256_from_little_endian (demo_hash b) < u256_from_compact 0x1d00ffff"
    by (simp add: word_less_nat_alt demo_target)
  then show "b \<noteq> 0 \<Longrightarrow> ?thesis"
    by (simp add: applicable_def header_is_valid_def is_valid_def demo_header_def Let_def)
qed

lemma demo_work: "expected_work (demo_header b parent) = 4295032833"
  by (simp add: expected_work_def demo_header_def demo_target)

lemma demo_room:
  assumes "Chain_default sha = Ok c" "ch_known_headers c = [h \<mapsto> x]" "bn_number x = 0" "n < 2 ^ 64"
  shows "number_room n c"
  using assms by (simp add: number_room_def ran_def)

theorem header_sync_invariant_witness:
  "\<exists>c stop responses m'. Chain_default byte_sha = Ok c \<and>
    handle_packet_during_headersync 2000000000
      (Some \<lparr>headers_inner = [demo_header 2 (demo_hash 1), demo_header 3 (demo_hash 1)]\<rparr>)
      \<lparr>cm_chain = c, cm_downloaded_blocks = 0, cm_inserted = []\<rparr> =
      Some (Ok (stop, responses, m')) \<and> chain_ok (cm_chain m')"
proof -
  obtain c where c: "Chain_default byte_sha = Ok c" "chain_ok c" "bn_number (ch_top_header c) = 0"
    "ch_known_headers c = [bn_hash (ch_top_header c) \<mapsto> ch_top_header c]"
    "unat (bn_total_work (ch_top_header c)) = expected_work (bn_header (ch_top_header c))"
    "bh_bits (bn_header (ch_top_header c)) = 0x1d00ffff"
    by (rule Chain_default_ok [of byte_sha]) (simp add: byte_sha_def, blast)
  have "unat (bn_total_work (ch_top_header c)) = 4295032833"
    using c(5,6) by (simp add: expected_work_def demo_target)
  note c = c this
  let ?m = "\<lparr>cm_chain = c, cm_downloaded_blocks = 0, cm_inserted = []\<rparr>"
  let ?hs = "[demo_header 2 (demo_hash 1), demo_header 3 (demo_hash 1)]"
  have room: "number_room (length ?hs) c" by (rule demo_room [OF c(1,4,3)]) simp
  have "\<exists>stop responses m'. handle_packet_during_headersync 2000000000
      (Some \<lparr>headers_inner = ?hs\<rparr>) ?m = Some (Ok (stop, responses, m')) \<and> chain_ok (cm_chain m') \<and>
    ch_known_headers (cm_chain ?m) \<subseteq>\<^sub>m ch_known_headers (cm_chain m') \<and>
    bn_total_work (ch_top_header (cm_chain ?m)) \<le> bn_total_work (ch_top_header (cm_chain m')) \<and>
    (responses \<noteq> None \<longrightarrow> \<not> stop \<and>
       bh_hash ` set (headers_inner \<lparr>headers_inner = ?hs\<rparr>) \<subseteq> dom (ch_known_headers (cm_chain m')))"
    by (rule header_sync_invariant)
      (use c room in \<open>simp_all add: demo_applicable demo_work\<close>)
  then show ?thesis using c(1) by blast
qed

end
