(* ===== verification/ChainFork.thy ===== *)
theory ChainFork
  imports ChainInv
begin

text \<open>
  Reorganisations: the blocks that \<open>validate_and_apply_header_inner\<close> reports as removed and added
  when a new header moves the top to another branch, and the index of the chain of most work
  after \<open>update_most_work_chain\<close>; the walks from the top that count and list blocks.
\<close>

section \<open>Hashes along a line\<close>

definition hashes :: "known \<Rightarrow> BlockHeaderWithNumber \<Rightarrow> hash32 list" where
  "hashes known x = map bn_hash (line known x)"

lemma hashes_root: "bn_number x = 0 \<Longrightarrow> hashes known x = [bn_hash x]"
  by (simp add: hashes_def)

lemma hashes_child:
  "known (bn_parent x) = Some p \<Longrightarrow> bn_number x = Suc (bn_number p) \<Longrightarrow>
   hashes known x = bn_hash x # hashes known p"
  by (simp add: hashes_def)

lemma hashes_length:
  "known_ok known \<Longrightarrow> linked known x \<Longrightarrow> length (hashes known x) = Suc (bn_number x)"
  by (simp add: hashes_def line_length)

text \<open>The two copies of a header have the same ancestors.\<close>

lemma hashes_coinbase: "hashes known (x\<lparr>bn_coinbase_ascii := a\<rparr>) = hashes known x"
  by (cases "bn_number x") (simp_all add: hashes_def line_def)

lemma linked_coinbase: "linked known (x\<lparr>bn_coinbase_ascii := a\<rparr>) = linked known x"
  by (simp add: linked_def)

lemma hashes_distinct:
  assumes "known_ok known" "known h = Some x"
  shows "distinct (hashes known x)"
proof -
  have x: "linked known x" "bn_hash x = h" using known_okD [OF assms] by simp_all
  have "set (line known x) = insert x (set (tl (line known x)))"
    by (subst line_unfold) simp
  then have kn: "\<forall>y \<in> set (line known x). known (bn_hash y) = Some y"
    using line_known [OF assms(1) x(1)] assms(2) x(2) by auto
  have "hashes known x ! i \<noteq> hashes known x ! j" if "i < j" "j < length (line known x)" for i j
  proof
    assume eq: "hashes known x ! i = hashes known x ! j"
    have "line known x ! i = line known x ! j"
      using kn eq that by (auto simp: hashes_def set_conv_nth) (metis option.inject order.strict_trans)
    then have "bn_number x - i = bn_number x - j"
      using that line_number [OF assms(1) x(1)] line_length [OF assms(1) x(1)] by (metis less_Suc_eq_le less_imp_le order.strict_trans)
    then show False using that line_length [OF assms(1) x(1)] by simp
  qed
  then show ?thesis
    unfolding distinct_conv_nth by (metis hashes_def length_map linorder_neqE_nat)
qed

section \<open>The fork point\<close>

text \<open>The entries that the loops collect: hashes of a line with falling numbers.\<close>

fun visited :: "nat \<Rightarrow> usize \<Rightarrow> hash32 list \<Rightarrow> (hash32 \<times> usize) list" where
  "visited 0 n hs = []"
| "visited (Suc k) n [] = []"
| "visited (Suc k) n (h # hs) = (h, n) # visited k (wsub n 1) hs"

lemma visited_hashes: "k \<le> length hs \<Longrightarrow> map fst (visited k n hs) = take k hs"
  by (induction k n hs rule: visited.induct) simp_all

lemma find_same_height_line:
  assumes "known_ok (ch_known_headers c)" "linked (ch_known_headers c) x"
  shows "ch_known_headers c (bn_hash x) = Some x \<Longrightarrow> n \<le> bn_number x \<Longrightarrow>
    find_same_height c n (bn_hash x) (bn_number x) acc =
    Some (Ok (acc @ visited (bn_number x - n) (bn_number x) (hashes (ch_known_headers c) x),
      hashes (ch_known_headers c) x ! (bn_number x - n), n))"
  using assms
proof (induction arbitrary: acc rule: linked_induct)
  case (root x)
  then show ?case by (subst find_same_height.simps) (simp add: hashes_root)
next
  case (child x p)
  show ?case
  proof (cases "n = bn_number x")
    case True
    show ?thesis using child.hyps(3,4,5) child.prems True
      by (subst find_same_height.simps) (simp add: hashes_child)
  next
    case False
    then have le: "n \<le> bn_number p" using child.hyps(3,4,5) child.prems by simp
    have "ch_known_headers c (bn_hash p) = Some p" using child.hyps(3,5) by simp
    from child.IH [OF this le] show ?thesis using child.hyps(3,4,5) child.prems False le
      by (subst find_same_height.simps) (simp add: hashes_child Suc_diff_le)
  qed
qed

text \<open>Two headers with the same number meet: below \<open>k\<close> their lines differ, from \<open>k\<close> on they agree.\<close>

definition meet_at :: "nat \<Rightarrow> known \<Rightarrow> BlockHeaderWithNumber \<Rightarrow> BlockHeaderWithNumber \<Rightarrow> bool" where
  "meet_at k known x y \<longleftrightarrow> k \<le> bn_number x \<and> drop k (hashes known x) = drop k (hashes known y) \<and>
     (\<forall>i < k. hashes known x ! i \<noteq> hashes known y ! i)"

lemma step_back_line:
  assumes "known_ok (ch_known_headers c)" "linked (ch_known_headers c) x"
  shows "ch_known_headers c (bn_hash x) = Some x \<Longrightarrow> ch_known_headers c (bn_hash y) = Some y \<Longrightarrow>
    bn_number y = bn_number x \<Longrightarrow>
    \<exists>k. meet_at k (ch_known_headers c) x y \<and>
      step_back c (bn_hash x) nn (bn_hash y) on vn vo =
      Some (Ok (vn @ visited k nn (hashes (ch_known_headers c) x),
                vo @ visited k on (hashes (ch_known_headers c) y)))"
  using assms
proof (induction arbitrary: y nn on vn vo rule: linked_induct)
  case (root x)
  then have "x \<in> ran (ch_known_headers c)" "y \<in> ran (ch_known_headers c)" by (auto simp: ran_def)
  moreover have "bn_number x = 0" "bn_number y = 0" using root.hyps root.prems by simp_all
  ultimately have "bn_hash x = bn_hash y" using assms(1) unfolding known_ok_def by blast
  then have "x = y" using root.prems by (metis option.inject)
  then show ?case by (intro exI [of _ 0], subst step_back.simps) (simp add: meet_at_def)
next
  case (child x p)
  show ?case
  proof (cases "bn_hash x = bn_hash y")
    case True
    then have "x = y" using child.prems by (metis option.inject)
    then show ?thesis by (intro exI [of _ 0], subst step_back.simps) (simp add: meet_at_def)
  next
    case False
    have "linked (ch_known_headers c) y" using known_okD [OF assms(1) child.prems(2)] by simp
    then obtain q where q: "ch_known_headers c (bn_parent y) = Some q" "bn_number y = Suc (bn_number q)"
      by (rule linked_parent) (use child.hyps(3,4,5) child.prems in simp)
    have hq: "bn_hash q = bn_parent y" using known_okD [OF assms(1) q(1)] by simp
    obtain k where k: "meet_at k (ch_known_headers c) p q"
      "step_back c (bn_hash p) (wsub nn 1) (bn_hash q) (wsub on 1)
         (vn @ [(bn_hash x, nn)]) (vo @ [(bn_hash y, on)]) =
       Some (Ok (vn @ [(bn_hash x, nn)] @ visited k (wsub nn 1) (hashes (ch_known_headers c) p),
                 vo @ [(bn_hash y, on)] @ visited k (wsub on 1) (hashes (ch_known_headers c) q)))"
      using child.IH [of q "wsub nn 1" "wsub on 1" "vn @ [(bn_hash x, nn)]" "vo @ [(bn_hash y, on)]"]
        child.hyps(3,4,5) child.prems q hq by auto
    have "meet_at (Suc k) (ch_known_headers c) x y"
      using k(1) False child.hyps(3,4,5) child.prems q by (auto simp: meet_at_def hashes_child nth_Cons')
    moreover have "step_back c (bn_hash x) nn (bn_hash y) on vn vo =
      step_back c (bn_hash p) (wsub nn 1) (bn_hash q) (wsub on 1)
         (vn @ [(bn_hash x, nn)]) (vo @ [(bn_hash y, on)])"
      using False child.hyps(3,4,5) child.prems q hq by (subst step_back.simps) simp
    ultimately show ?thesis using k(2) child.hyps(3,4,5) child.prems q
      by (intro exI [of _ "Suc k"]) (simp add: hashes_child)
  qed
qed

lemma line_entry:
  assumes "known_ok known" "known h = Some x" "i \<le> bn_number x"
  obtains y where "line known x ! i = y" "known (bn_hash y) = Some y" "bn_number y = bn_number x - i"
    "hashes known y = drop i (hashes known x)" "hashes known x ! i = bn_hash y"
proof -
  have x: "linked known x" "bn_hash x = h" using known_okD [OF assms(1,2)] by simp_all
  have len: "i < length (line known x)" using line_length [OF assms(1) x(1)] assms(3) by simp
  let ?y = "line known x ! i"
  have "known (bn_hash ?y) = Some ?y"
  proof (cases i)
    case 0
    then show ?thesis using assms(2) x(2) by simp
  next
    case (Suc j)
    then have "?y \<in> set (tl (line known x))" using len by (auto simp: nth_tl [symmetric] intro!: nth_mem)
    then show ?thesis using line_known [OF assms(1) x(1)] by blast
  qed
  then show thesis
    using that line_number [OF assms(1) x(1) assms(3)] line_drop [OF assms(1) x(1) assms(3)] len
    by (auto simp: hashes_def drop_map)
qed

text \<open>The blocks of both branches above the point where they meet.\<close>

lemma find_fork_line:
  assumes "known_ok (ch_known_headers c)" "linked (ch_known_headers c) x"
    and "ch_known_headers c (bn_hash t) = Some t"
    and "ch_top_header c = t\<lparr>bn_coinbase_ascii := a\<rparr>"
    and "ch_known_headers c (bn_parent x) = Some p" "bn_number x = Suc (bn_number p)"
    and "bn_number p \<le> bn_number t"
  obtains k vn vo where "find_fork c x (bn_number p) = Some (Ok (vn, vo))"
    "k \<le> bn_number p"
    "map fst vn = take (Suc k) (hashes (ch_known_headers c) x)"
    "set (map fst vo) = set (bn_hash t # take (bn_number t - bn_number p + k) (hashes (ch_known_headers c) t))"
    "drop (Suc k) (hashes (ch_known_headers c) x) =
     drop (bn_number t - bn_number p + k) (hashes (ch_known_headers c) t)"
    "vn = (bn_hash x, bn_number x) # visited k (bn_number x) (hashes (ch_known_headers c) p)"
proof -
  let ?k = "ch_known_headers c" and ?d = "bn_number t - bn_number p"
  have t: "linked ?k t" "?d \<le> bn_number t" using known_okD [OF assms(1,3)] by simp_all
  have p: "linked ?k p" "bn_hash p = bn_parent x" using known_okD [OF assms(1,5)] by simp_all
  obtain y where y: "?k (bn_hash y) = Some y" "bn_number y = bn_number t - ?d"
    "hashes ?k y = drop ?d (hashes ?k t)" "hashes ?k t ! ?d = bn_hash y"
    by (rule line_entry [OF assms(1,3) t(2)])
  have yp: "bn_number y = bn_number p" using y(2) assms(7) by simp
  let ?vo = "(bn_hash t, bn_number t) # visited ?d (bn_number t) (hashes ?k t)"
  obtain k where k: "meet_at k ?k p y"
    "step_back c (bn_hash p) (bn_number x) (bn_hash y) (bn_number p) [(bn_hash x, bn_number x)] ?vo =
     Some (Ok ([(bn_hash x, bn_number x)] @ visited k (bn_number x) (hashes ?k p),
       ?vo @ visited k (bn_number p) (hashes ?k y)))"
    using step_back_line [OF assms(1) p(1) _ y(1) yp] assms(5) p(2) by metis
  have "find_same_height c (bn_number p) (bn_hash t) (bn_number t) [(bn_hash t, bn_number t)] =
    Some (Ok (?vo, bn_hash y, bn_number p))"
    using find_same_height_line [OF assms(1) t(1) assms(3,7)] y(4) by simp
  then have res: "find_fork c x (bn_number p) =
    Some (Ok ((bn_hash x, bn_number x) # visited k (bn_number x) (hashes ?k p),
      ?vo @ visited k (bn_number p) (hashes ?k y)))"
    using k(2) p(2) assms(4) by (simp add: find_fork_def)
  have kp: "k \<le> bn_number p" using k(1) by (simp add: meet_at_def)
  have len: "length (hashes ?k p) = Suc (bn_number p)" "length (hashes ?k t) = Suc (bn_number t)"
    "length (hashes ?k y) = Suc (bn_number p)"
    using hashes_length [OF assms(1)] p(1) t(1) y(3) assms(7) by simp_all
  have hx: "hashes ?k x = bn_hash x # hashes ?k p" using assms(5,6) by (rule hashes_child)
  have "drop k (hashes ?k p) = drop k (hashes ?k y)" using k(1) by (simp add: meet_at_def)
  then have meet: "drop (Suc k) (hashes ?k x) = drop (?d + k) (hashes ?k t)"
    using hx y(3) by (simp add: add.commute)
  have "take (?d + k) (hashes ?k t) = take ?d (hashes ?k t) @ take k (hashes ?k y)"
    using y(3) by (simp add: take_add)
  then have old: "set (map fst (?vo @ visited k (bn_number p) (hashes ?k y))) =
      set (bn_hash t # take (?d + k) (hashes ?k t))"
    using kp len by (simp add: visited_hashes)
  have new: "map fst ((bn_hash x, bn_number x) # visited k (bn_number x) (hashes ?k p)) =
      take (Suc k) (hashes ?k x)"
    using kp len hx by (simp add: visited_hashes)
  show thesis by (rule that [OF res kp new old meet refl])
qed

section \<open>Walks from the top\<close>

lemma downloaded_line:
  assumes "known_ok (ch_known_headers c)" "linked (ch_known_headers c) x"
  shows "downloaded_from c x = Some (Ok
    (case find bn_fetched_full (line (ch_known_headers c) x) of Some y \<Rightarrow> wadd (bn_number y) 1 | None \<Rightarrow> 0))"
  using assms
proof (induction rule: linked_induct)
  case (root x)
  then show ?case by (subst downloaded_from.simps) simp
next
  case (child x p)
  from child.IH child.hyps(3,4) show ?case by (subst downloaded_from.simps) simp
qed

section \<open>Switching the chain of most work\<close>

lemma removed_fold:
  "foldl (\<lambda>c (hash, _). c\<lparr>ch_most_work_chain := ch_most_work_chain c - {hash}\<rparr>) c rs =
    c\<lparr>ch_most_work_chain := ch_most_work_chain c - set (map fst rs)\<rparr>"
proof (induction rs arbitrary: c)
  case (Cons r rs)
  obtain h n where r: "r = (h, n)" by (cases r)
  have "ch_most_work_chain c - {h} - set (map fst rs) = ch_most_work_chain c - set (map fst (r # rs))"
    by (auto simp: r)
  then show ?case by (simp only: r foldl_Cons case_prod_conv Cons.IH) simp
qed simp

lemma added_fold:
  "foldl (\<lambda>c (hash, number). c\<lparr>ch_most_work_chain := insert hash (ch_most_work_chain c),
               ch_number_to_hash := (ch_number_to_hash c)(number \<mapsto> hash)\<rparr>) c rs =
    c\<lparr>ch_most_work_chain := ch_most_work_chain c \<union> set (map fst rs),
      ch_number_to_hash := ch_number_to_hash c ++ map_of (rev (map prod.swap rs))\<rparr>"
proof (induction rs arbitrary: c)
  case (Cons r rs)
  obtain h n where r: "r = (h, n)" by (cases r)
  have "(ch_number_to_hash c)(n \<mapsto> h) ++ map_of (rev (map prod.swap rs)) =
    ch_number_to_hash c ++ map_of (rev (map prod.swap (r # rs)))"
    by (rule ext) (simp add: map_add_def map_of_append r split: option.split)
  then show ?case by (simp only: r foldl_Cons case_prod_conv Cons.IH) (simp add: fun_upd_def)
qed simp

lemma update_most_work_chain_simps [simp]:
  "ch_known_headers (update_most_work_chain r c) = ch_known_headers c"
  "ch_top_header (update_most_work_chain r c) = ch_top_header c"
  "ch_most_work_chain (update_most_work_chain r c) =
     ch_most_work_chain c - set (map fst (har_removed_blocks r)) \<union> set (map fst (har_added_blocks r))"
  "ch_number_to_hash (update_most_work_chain r c) =
     ch_number_to_hash c ++ map_of (rev (map prod.swap (har_added_blocks r)))"
  unfolding update_most_work_chain_def removed_fold added_fold by simp_all

lemma parent_number:
  assumes "known_ok known" "linked known x" "known (bn_parent x) = Some p"
  shows "bn_number x = Suc (bn_number p)"
proof (cases "bn_number x = 0")
  case True
  then have "bn_parent x = EMPTY_HASH" using assms(2) unfolding linked_def by simp
  then show ?thesis using assms(1,3) unfolding known_ok_def by simp
next
  case False
  then show ?thesis using linked_parent [OF assms(2)] assms(3) by (metis option.inject)
qed

lemma chain_ok_cong:
  assumes "chain_ok c" "ch_known_headers c' = ch_known_headers c" "ch_top_header c' = ch_top_header c"
  shows "chain_ok c'"
proof -
  have ok: "known_ok (ch_known_headers c)" using assms(1) by (simp add: chain_ok_def)
  have "get_next_bits_required c' p = get_next_bits_required c p"
    if "x \<in> ran (ch_known_headers c)" "ch_known_headers c (bn_parent x) = Some p" for x p
  proof -
    have x: "linked (ch_known_headers c) x" using known_ok_linked [OF ok that(1)] .
    have "bn_number p + 1 < 2 ^ 64"
      using parent_number [OF ok x that(2)] x unfolding linked_def by simp
    then show ?thesis
      by (rule next_bits_mono [OF ok known_okD(2) [OF ok that(2)]]) (simp_all add: assms(2) ok)
  qed
  then show ?thesis using assms by (simp add: chain_ok_def top_ok_def difficulty_ok_def)
qed

text \<open>The index of the chain of most work lists the hashes of the top header and its ancestors.\<close>

definition main_set_ok :: "Chain \<Rightarrow> bool" where
  "main_set_ok c \<longleftrightarrow> ch_most_work_chain c = set (hashes (ch_known_headers c) (ch_top_header c))"

lemma hashes_mono:
  "known_ok known \<Longrightarrow> linked known x \<Longrightarrow> known \<subseteq>\<^sub>m known' \<Longrightarrow> hashes known' x = hashes known x"
  by (metis hashes_def line_mono)

lemma switched_set:
  assumes "drop j old = drop k new" "distinct old"
  shows "set old - set (take j old) \<union> set (take k new) = set new"
proof -
  have "set old = set (take j old) \<union> set (drop j old)" "set new = set (take k new) \<union> set (drop k new)"
    by (metis append_take_drop_id set_append)+
  moreover have "set (take j old) \<inter> set (drop j old) = {}"
    using set_take_disj_set_drop_if_distinct [OF assms(2)] by simp
  ultimately show ?thesis using assms(1) by auto
qed

text \<open>
  What a new top means for the chain of most work: the removed blocks are the newest \<open>j\<close> blocks of
  the old branch, the added ones the newest \<open>k\<close> of the new branch, oldest first.
\<close>

definition switched :: "Chain \<Rightarrow> HeaderApplicationResult \<Rightarrow> Chain \<Rightarrow> bool" where
  "switched c har c' \<longleftrightarrow>
     (\<exists>j k. drop j (hashes (ch_known_headers c) (ch_top_header c)) =
            drop k (hashes (ch_known_headers c') (ch_top_header c')) \<and>
        set (map fst (har_removed_blocks har)) =
          set (take j (hashes (ch_known_headers c) (ch_top_header c))) \<and>
        map fst (har_added_blocks har) =
          rev (take k (hashes (ch_known_headers c') (ch_top_header c'))))"

lemma switched_main_set:
  assumes "switched c har c'" "main_set_ok c" "distinct (hashes (ch_known_headers c) (ch_top_header c))"
    and "ch_most_work_chain c' = ch_most_work_chain c"
  shows "main_set_ok (update_most_work_chain har c')"
proof -
  obtain j k where jk: "drop j (hashes (ch_known_headers c) (ch_top_header c)) =
            drop k (hashes (ch_known_headers c') (ch_top_header c'))"
      "set (map fst (har_removed_blocks har)) = set (take j (hashes (ch_known_headers c) (ch_top_header c)))"
      "map fst (har_added_blocks har) = rev (take k (hashes (ch_known_headers c') (ch_top_header c')))"
    using assms(1) unfolding switched_def by blast
  show ?thesis
    using switched_set [OF jk(1) assms(3)] assms(2,4) unfolding main_set_ok_def
    by (simp only: update_most_work_chain_simps jk(2,3) set_rev)
qed

lemma top_entry:
  assumes "chain_ok c"
  obtains t where "ch_known_headers c (bn_hash t) = Some t" "bn_hash (ch_top_header c) = bn_hash t"
    "ch_top_header c = t\<lparr>bn_coinbase_ascii := bn_coinbase_ascii (ch_top_header c)\<rparr>"
    "linked (ch_known_headers c) t" "bn_number (ch_top_header c) = bn_number t"
    "hashes (ch_known_headers c) (ch_top_header c) = hashes (ch_known_headers c) t"
    "distinct (hashes (ch_known_headers c) t)"
proof -
  have ok: "known_ok (ch_known_headers c)" using assms by (simp add: chain_ok_def)
  obtain t where t: "ch_known_headers c (bn_hash (ch_top_header c)) = Some t"
    "ch_top_header c = t\<lparr>bn_coinbase_ascii := bn_coinbase_ascii (ch_top_header c)\<rparr>"
    using assms by (auto simp: chain_ok_def top_ok_def)
  have h: "bn_hash (ch_top_header c) = bn_hash t" "linked (ch_known_headers c) t"
    using known_okD [OF ok t(1)] by simp_all
  have n: "bn_number (ch_top_header c) = bn_number t" by (subst t(2)) simp
  have "hashes (ch_known_headers c) (ch_top_header c) = hashes (ch_known_headers c) t"
    by (subst t(2)) (rule hashes_coinbase)
  then show thesis using that [OF _ h(1) t(2) h(2) n] t(1) h(1) hashes_distinct [OF ok t(1)] by simp
qed

text \<open>The fork branch of \<open>validate_and_apply_header_inner\<close>.\<close>

lemma fork_switches:
  assumes "chain_ok c" "fresh_child (ch_known_headers c) x" "ch_known_headers c (bn_parent x) = Some p"
    and "bn_number p \<le> bn_number (ch_top_header c)" "bn_parent x \<noteq> bn_hash (ch_top_header c)"
    and "ch_known_headers w = (ch_known_headers c)(bn_hash x \<mapsto> x)" "ch_top_header w = ch_top_header c"
    and "ch_known_headers w' = ch_known_headers w" "ch_top_header w' = x"
  obtains vn vo k where "find_fork w x (bn_number p) = Some (Ok (vn, vo))"
    "switched c \<lparr>har_removed_blocks = vo, har_added_blocks = rev vn\<rparr> w'"
    "k \<le> bn_number p" "vn = (bn_hash x, bn_number x) # visited k (bn_number x) (hashes (ch_known_headers c) p)"
proof -
  let ?k = "ch_known_headers c" and ?w = "ch_known_headers w"
  have ok: "known_ok ?k" using assms(1) by (simp add: chain_ok_def)
  have le: "?k \<subseteq>\<^sub>m ?w" using fresh_child_le [OF assms(2)] assms(6) by simp
  have okw: "known_ok ?w" using known_ok_insert [OF ok assms(2)] assms(6) by simp
  have x: "linked ?k x" "?w (bn_hash x) = Some x" using assms(2,6) by (simp_all add: fresh_child_def)
  obtain t where t: "?k (bn_hash t) = Some t" "bn_hash (ch_top_header c) = bn_hash t"
    "ch_top_header c = t\<lparr>bn_coinbase_ascii := bn_coinbase_ascii (ch_top_header c)\<rparr>"
    "linked ?k t" "bn_number (ch_top_header c) = bn_number t"
    "hashes ?k (ch_top_header c) = hashes ?k t" "distinct (hashes ?k t)"
    by (rule top_entry [OF assms(1)])
  have tw: "?w (bn_hash t) = Some t" "?w (bn_parent x) = Some p"
    using t(1) assms(3) le by (auto simp: map_le_def dom_def)
  have num: "bn_number x = Suc (bn_number p)" by (rule parent_number [OF ok x(1) assms(3)])
  have topw: "ch_top_header w = t\<lparr>bn_coinbase_ascii := bn_coinbase_ascii (ch_top_header c)\<rparr>"
    using t(3) assms(7) by simp
  have pt: "bn_number p \<le> bn_number t" using assms(4) t(5) by simp
  let ?d = "bn_number t - bn_number p"
  obtain k vn vo where f: "find_fork w x (bn_number p) = Some (Ok (vn, vo))" "k \<le> bn_number p"
    "map fst vn = take (Suc k) (hashes ?w x)"
    "set (map fst vo) = set (bn_hash t # take (?d + k) (hashes ?w t))"
    "drop (Suc k) (hashes ?w x) = drop (?d + k) (hashes ?w t)"
    "vn = (bn_hash x, bn_number x) # visited k (bn_number x) (hashes ?w p)"
    by (rule find_fork_line [OF okw linked_mono [OF x(1) le] tw(1) topw tw(2) num pt])
  have ht: "hashes ?w t = hashes ?k t" by (rule hashes_mono [OF ok t(4) le])
  have hx: "hashes ?w x = bn_hash x # hashes ?w p" using tw(2) num by (rule hashes_child)
  have pos: "?d + k \<noteq> 0"
  proof
    assume "?d + k = 0"
    then have "hashes ?w p = hashes ?k t" using f(5) hx ht by simp
    then have "hd (hashes ?w p) = hd (hashes ?k t)" by simp
    then have "bn_hash p = bn_hash t" by (simp add: hashes_def hd_conv_nth)
    then show False using known_okD(1) [OF ok assms(3)] assms(5) t(2) by simp
  qed
  have "bn_hash t \<in> set (take (?d + k) (hashes ?k t))"
    using pos by (subst hashes_def, subst line_unfold) (simp add: take_Cons')
  then have old: "set (map fst vo) = set (take (?d + k) (hashes ?k (ch_top_header c)))"
    using f(4) ht t(6) by auto
  have "switched c \<lparr>har_removed_blocks = vo, har_added_blocks = rev vn\<rparr> w'"
    unfolding switched_def assms(8,9)
    by (rule exI [of _ "?d + k"], rule exI [of _ "Suc k"])
      (use f(3,5) ht t(6) old in \<open>simp flip: rev_map\<close>)
  moreover have "hashes ?w p = hashes ?k p" by (rule hashes_mono [OF ok known_okD(2) [OF ok assms(3)] le])
  ultimately show thesis using that f(1,2,6) by simp
qed

text \<open>The branch for a header on the top.\<close>

lemma extension_switches:
  assumes "chain_ok c" "fresh_child (ch_known_headers c) x" "bn_parent x = bn_hash (ch_top_header c)"
    and "ch_known_headers w = (ch_known_headers c)(bn_hash x \<mapsto> x)" "ch_top_header w = x"
  shows "switched c \<lparr>har_removed_blocks = [], har_added_blocks = [(bn_hash x, bn_number x)]\<rparr> w"
proof -
  let ?k = "ch_known_headers c" and ?w = "ch_known_headers w"
  have ok: "known_ok ?k" using assms(1) by (simp add: chain_ok_def)
  have le: "?k \<subseteq>\<^sub>m ?w" using fresh_child_le [OF assms(2)] assms(4) by simp
  obtain t where t: "?k (bn_hash t) = Some t" "bn_hash (ch_top_header c) = bn_hash t"
    "linked ?k t" "hashes ?k (ch_top_header c) = hashes ?k t"
    using top_entry [OF assms(1)] by metis
  have pt: "?k (bn_parent x) = Some t" using t(1,2) assms(3) by simp
  then have "?w (bn_parent x) = Some t" using le by (auto simp: map_le_def dom_def)
  then have "hashes ?w x = bn_hash x # hashes ?w t"
    using parent_number [OF ok _ pt] assms(2) by (simp add: hashes_child fresh_child_def)
  then have hx: "hashes ?w x = bn_hash x # hashes ?k t" using hashes_mono [OF ok t(3) le] by simp
  show ?thesis unfolding switched_def assms(5)
    by (rule exI [of _ 0], rule exI [of _ "Suc 0"]) (simp add: hx t(4))
qed

text \<open>The number of downloaded blocks: one more than the highest downloaded block below the top.\<close>

lemma top_linked:
  assumes "chain_ok c"
  shows "linked (ch_known_headers c) (ch_top_header c)"
proof -
  obtain t where t: "linked (ch_known_headers c) t"
    "ch_top_header c = t\<lparr>bn_coinbase_ascii := bn_coinbase_ascii (ch_top_header c)\<rparr>"
    using top_entry [OF assms] by metis
  show ?thesis by (subst t(2)) (simp add: linked_coinbase t(1))
qed

lemma top_downloaded_total:
  assumes "chain_ok c"
  shows "\<exists>n. calculate_downloaded_blocks c = Some (Ok n)"
  using downloaded_line top_linked [OF assms] assms
  unfolding chain_ok_def calculate_downloaded_blocks_def by blast

text \<open>A header that may become the top: the checks pass and its entry is as heavy as the top.\<close>

definition heavy_header :: "ChainMan \<Rightarrow> BlockHeader \<Rightarrow> BlockHeaderWithNumber \<Rightarrow> bool" where
  "heavy_header m h p \<longleftrightarrow> applicable h \<and> number_room 1 (cm_chain m) \<and>
     ch_known_headers (cm_chain m) (bh_hash h) = None \<and>
     ch_known_headers (cm_chain m) (bh_parent h) = Some p \<and>
     get_next_bits_required (cm_chain m) p = Some (Ok (bh_bits h)) \<and>
     unat (bn_total_work (ch_top_header (cm_chain m))) \<le> unat (bn_total_work p) + expected_work h \<and>
     unat (bn_total_work (ch_top_header (cm_chain m))) + expected_work h < 2 ^ 256"

lemma heavy_header_entry:
  assumes "heavy_header m h p" "known_ok (ch_known_headers (cm_chain m))" "top_ok (cm_chain m)"
  obtains x where "bn_header x = h" "bn_number x = Suc (bn_number p)"
    "fresh_child (ch_known_headers (cm_chain m)) x" "ch_known_headers (cm_chain m) (bn_parent x) = Some p"
    "\<not> bn_total_work x < bn_total_work (ch_top_header (cm_chain m))"
    "validate_and_apply_header_inner h m False =
      (let m' = with_header x m in
       if bn_parent x = bn_hash (ch_top_header (cm_chain m))
       then Some (Ok (Some \<lparr>har_removed_blocks = [], har_added_blocks = [(bn_hash x, bn_number x)]\<rparr>,
            with_top x m'))
       else loop_bind (find_fork (cm_chain m') x (bn_number p)) (\<lambda>(visited_new, visited_old).
          loop_bind (calculate_downloaded_blocks (cm_chain (with_top x m'))) (\<lambda>new_count.
          Some (Ok (Some \<lparr>har_removed_blocks = visited_old, har_added_blocks = rev visited_new\<rparr>,
            (with_top x m')\<lparr>cm_downloaded_blocks := new_count\<rparr>)))))"
proof -
  let ?c = "cm_chain m"
  note a = assms(1) [unfolded heavy_header_def]
  have unknown: "ch_known_headers ?c (bh_hash h) = None" and parent: "ch_known_headers ?c (bh_parent h) = Some p"
    and bits: "get_next_bits_required ?c p = Some (Ok (bh_bits h))" and app: "applicable h"
    using a by simp_all
  obtain w where w: "header_work h = Ok w" "unat w = expected_work h"
    using app unfolding applicable_def by (auto elim: valid_work)
  have num: "bn_number p + 1 < 2 ^ 64" by (rule number_room_parent [of 0 _ _ p, OF _ parent]) (use a in simp)
  have sum: "unat (bn_total_work p) + unat w < 2 ^ 256"
    using top_work [OF assms(3) parent] a w(2) by (simp add: word_le_nat_alt)
  define x where "x = child_of p h w"
  have "u256_from_compact (bh_bits h) \<le> POW_LIMIT"
    by (rule next_bits_total [OF assms(2) known_okD(2) [OF assms(2) parent] num]) (use bits in simp)
  then have fresh: "fresh_child (ch_known_headers ?c) x"
    unfolding x_def by (rule child_fresh [OF assms(2) unknown parent app num _ w(1) sum])
  have heavy: "\<not> bn_total_work x < bn_total_work (ch_top_header ?c)"
    using a sum w(2) by (simp add: x_def unat_add_small not_less word_le_nat_alt)
  show thesis
    by (rule that [OF _ _ fresh _ heavy])
      (use apply_accepted [OF unknown parent bits w(1) sum num, of False, folded x_def] heavy parent in
        \<open>simp_all add: Let_def x_def\<close>)
qed

text \<open>The outcome for a heavy header: an extension of the top, or a fork whose parent is not above it.\<close>

lemma heavy_header_applies:
  assumes "chain_ok (cm_chain m)" "heavy_header m h p" "bn_number p \<le> bn_number (ch_top_header (cm_chain m))"
  obtains x vn vo m' where "bn_header x = h" "bn_number x = Suc (bn_number p)"
    "validate_and_apply_header_inner h m False =
      Some (Ok (Some \<lparr>har_removed_blocks = vo, har_added_blocks = rev vn\<rparr>, m'))"
    "cm_chain m' = cm_chain (with_top x (with_header x m))" "chain_ok (cm_chain m')"
    "switched (cm_chain m) \<lparr>har_removed_blocks = vo, har_added_blocks = rev vn\<rparr> (cm_chain m')"
    "bh_parent h \<noteq> bn_hash (ch_top_header (cm_chain m)) \<Longrightarrow> \<exists>k \<le> bn_number p.
       vn = (bn_hash x, bn_number x) # visited k (bn_number x) (hashes (ch_known_headers (cm_chain m)) p)"
proof -
  let ?c = "cm_chain m"
  have ok: "known_ok (ch_known_headers ?c)" and top: "top_ok ?c" using assms(1) by (simp_all add: chain_ok_def)
  obtain x where x: "bn_header x = h" "bn_number x = Suc (bn_number p)"
    "fresh_child (ch_known_headers ?c) x" "ch_known_headers ?c (bn_parent x) = Some p"
    "\<not> bn_total_work x < bn_total_work (ch_top_header ?c)"
    and applied: "validate_and_apply_header_inner h m False =
      (let m' = with_header x m in
       if bn_parent x = bn_hash (ch_top_header ?c)
       then Some (Ok (Some \<lparr>har_removed_blocks = [], har_added_blocks = [(bn_hash x, bn_number x)]\<rparr>,
            with_top x m'))
       else loop_bind (find_fork (cm_chain m') x (bn_number p)) (\<lambda>(visited_new, visited_old).
          loop_bind (calculate_downloaded_blocks (cm_chain (with_top x m'))) (\<lambda>new_count.
          Some (Ok (Some \<lparr>har_removed_blocks = visited_old, har_added_blocks = rev visited_new\<rparr>,
            (with_top x m')\<lparr>cm_downloaded_blocks := new_count\<rparr>)))))"
    by (rule heavy_header_entry [OF assms(2) ok top])
  let ?m = "with_header x m" and ?w = "with_top x (with_header x m)"
  have known: "ch_known_headers (cm_chain ?w) = (ch_known_headers ?c)(bn_hash x \<mapsto> x)" by simp
  have room: "number_room (Suc 0) ?c" and bits: "get_next_bits_required ?c p = Some (Ok (bh_bits (bn_header x)))"
    using assms(2) x(1) unfolding heavy_header_def by simp_all
  have okw: "chain_ok (cm_chain ?w)"
    by (rule chain_ok_insert [OF assms(1) room x(3,4) bits known]) (use x(5) in simp)
  show thesis
  proof (cases "bn_parent x = bn_hash (ch_top_header ?c)")
    case True
    have "switched ?c \<lparr>har_removed_blocks = [], har_added_blocks = rev [(bn_hash x, bn_number x)]\<rparr> (cm_chain ?w)"
      using extension_switches [OF assms(1) x(3) True known] by simp
    then show thesis using that [of x "[]" "[(bn_hash x, bn_number x)]" ?w] applied True okw x(1,2)
      by (simp add: Let_def)
  next
    case False
    obtain vn vo k where f: "find_fork (cm_chain ?m) x (bn_number p) = Some (Ok (vn, vo))"
      "switched ?c \<lparr>har_removed_blocks = vo, har_added_blocks = rev vn\<rparr> (cm_chain ?w)" "k \<le> bn_number p"
      "vn = (bn_hash x, bn_number x) # visited k (bn_number x) (hashes (ch_known_headers ?c) p)"
      by (rule fork_switches [OF assms(1) x(3,4) assms(3) False, of "cm_chain ?m" "cm_chain ?w"]) simp_all
    obtain n where n: "calculate_downloaded_blocks (cm_chain ?w) = Some (Ok n)"
      using top_downloaded_total [OF okw] by blast
    have "validate_and_apply_header_inner h m False =
        Some (Ok (Some \<lparr>har_removed_blocks = vo, har_added_blocks = rev vn\<rparr>, ?w\<lparr>cm_downloaded_blocks := n\<rparr>))"
      using applied False f(1) n by (simp add: Let_def)
    then show thesis
      using that [of x vo vn "?w\<lparr>cm_downloaded_blocks := n\<rparr>"] f(2-4) okw x(1,2) by auto
  qed
qed

section \<open>A small tree with a fork\<close>

text \<open>Three blocks on the chain of most work and a side branch of one block on the first.\<close>

definition demo_entry :: "u8 \<Rightarrow> hash32 \<Rightarrow> nat \<Rightarrow> BlockHeaderWithNumber" where
  "demo_entry b parent n = \<lparr>bn_header = demo_header b parent, bn_number = n, bn_fetched_full = False,
     bn_total_work = word_of_nat ((n + 1) * 4295032833), bn_coinbase_ascii = None\<rparr>"

definition demo_known :: known where
  "demo_known = [demo_hash 1 \<mapsto> demo_entry 1 EMPTY_HASH 0, demo_hash 2 \<mapsto> demo_entry 2 (demo_hash 1) 1,
     demo_hash 3 \<mapsto> demo_entry 3 (demo_hash 2) 2, demo_hash 4 \<mapsto> demo_entry 4 (demo_hash 1) 1]"

definition demo_chain :: Chain where
  "demo_chain = \<lparr>ch_top_header = demo_entry 3 (demo_hash 2) 2, ch_known_headers = demo_known,
     ch_number_to_hash = [0 \<mapsto> demo_hash 1, 1 \<mapsto> demo_hash 2, 2 \<mapsto> demo_hash 3],
     ch_most_work_chain = {demo_hash 1, demo_hash 2, demo_hash 3}\<rparr>"

definition demo_man :: "Chain \<Rightarrow> ChainMan" where
  "demo_man c = \<lparr>cm_chain = c, cm_downloaded_blocks = 0, cm_inserted = []\<rparr>"

lemma demo_man_chain [simp]: "cm_chain (demo_man c) = c"
  by (simp add: demo_man_def)

lemma demo_header_simps [simp]:
  "bh_hash (demo_header b parent) = demo_hash b" "bh_parent (demo_header b parent) = parent"
  "bh_bits (demo_header b parent) = 0x1d00ffff"
  by (simp_all add: demo_header_def)

lemma demo_entry_simps [simp]:
  "bn_header (demo_entry b parent n) = demo_header b parent" "bn_number (demo_entry b parent n) = n"
  by (simp_all add: demo_entry_def)

lemma demo_header_work: "header_work (demo_header b parent) = Ok (word_of_nat 4295032833)"
  using demo_target by (auto simp: header_work_def get_work_value)

lemma demo_total_work: "n < 100 \<Longrightarrow> unat (bn_total_work (demo_entry b parent n)) = (n + 1) * 4295032833"
  unfolding demo_entry_def by (simp only: BlockHeaderWithNumber.simps, subst unat_of_nat) simp

lemma demo_linked:
  assumes "n < 100" "known (bn_parent x) = Some (demo_entry a q n)" "x = demo_entry b parent (Suc n)"
    "parent \<noteq> EMPTY_HASH"
  shows "linked known x"
  unfolding assms(3) linked_def
  using assms genesis_target demo_total_work [of n] demo_total_work [of "Suc n" b parent]
  by (cases "n = 99") (simp_all add: demo_header_work demo_entry_def unat_of_nat)

lemma demo_root: "linked known (demo_entry b EMPTY_HASH 0)"
  using genesis_target by (simp add: linked_def)

lemma demo_known_simps [simp]:
  "demo_known (demo_hash 1) = Some (demo_entry 1 EMPTY_HASH 0)"
  "demo_known (demo_hash 2) = Some (demo_entry 2 (demo_hash 1) 1)"
  "demo_known (demo_hash 3) = Some (demo_entry 3 (demo_hash 2) 2)"
  "demo_known (demo_hash 4) = Some (demo_entry 4 (demo_hash 1) 1)"
  "demo_known (demo_hash 5) = None" "demo_known EMPTY_HASH = None"
  by (simp_all add: demo_known_def)

lemma demo_known_cases:
  assumes "demo_known h = Some x"
  obtains "h = demo_hash 1" "x = demo_entry 1 EMPTY_HASH 0" | "h = demo_hash 2" "x = demo_entry 2 (demo_hash 1) 1"
  | "h = demo_hash 3" "x = demo_entry 3 (demo_hash 2) 2" | "h = demo_hash 4" "x = demo_entry 4 (demo_hash 1) 1"
  using assms by (auto simp: demo_known_def split: if_splits)

lemma demo_known_ok: "known_ok demo_known"
  unfolding known_ok_def
proof (intro conjI allI impI)
  show "bn_hash x = h" if "demo_known h = Some x" for h x
    using that by (cases rule: demo_known_cases) simp_all
  show "linked demo_known x" if "demo_known h = Some x" for h x
    using that
  proof (cases rule: demo_known_cases)
    case 1
    then show ?thesis by (simp add: demo_root)
  next
    case 2
    show ?thesis unfolding 2 by (rule demo_linked [of 0 _ _ 1 EMPTY_HASH 2 "demo_hash 1"]) simp_all
  next
    case 3
    show ?thesis unfolding 3
      by (rule demo_linked [of 1 _ _ 2 "demo_hash 1" 3 "demo_hash 2"]) (simp_all add: numeral_2_eq_2)
  next
    case 4
    show ?thesis unfolding 4 by (rule demo_linked [of 0 _ _ 1 EMPTY_HASH 4 "demo_hash 1"]) simp_all
  qed
  show "bn_hash x = bn_hash y" if "x \<in> ran demo_known" "y \<in> ran demo_known" "bn_number x = 0" "bn_number y = 0" for x y
    using that by (auto simp: ran_def elim!: demo_known_cases)
qed simp

lemma demo_bits:
  assumes "known_ok (ch_known_headers c)" "ch_known_headers c k = Some (demo_entry b parent n)" "n < 100"
  shows "get_next_bits_required c (demo_entry b parent n) = Some (Ok 0x1d00ffff)"
  using next_bits_required [OF assms(1) known_okD(2) [OF assms(1,2)]] assms(3) by simp

lemma demo_chain_ok: "chain_ok demo_chain"
proof -
  have "top_ok demo_chain"
    unfolding top_ok_def
  proof (intro conjI ballI)
    show "bn_total_work x \<le> bn_total_work (ch_top_header demo_chain)" if "x \<in> ran (ch_known_headers demo_chain)" for x
      using that by (auto simp: ran_def demo_chain_def word_le_nat_alt demo_total_work elim!: demo_known_cases)
  qed (simp add: demo_chain_def demo_entry_def)
  moreover have "difficulty_ok demo_chain"
    unfolding difficulty_ok_def
  proof (intro ballI allI impI)
    fix x p
    assume "x \<in> ran (ch_known_headers demo_chain)" and p: "ch_known_headers demo_chain (bn_parent x) = Some p"
    then have "bh_bits (bn_header x) = 0x1d00ffff"
      by (auto simp: ran_def demo_chain_def elim!: demo_known_cases)
    moreover obtain b q n where "p = demo_entry b q n" "n < 100"
      using p by (auto simp: demo_chain_def elim!: demo_known_cases)
    ultimately show "get_next_bits_required demo_chain p = Some (Ok (bh_bits (bn_header x)))"
      using demo_bits [of demo_chain] p demo_known_ok by (simp add: demo_chain_def)
  qed
  ultimately show ?thesis using demo_known_ok by (simp add: chain_ok_def demo_chain_def)
qed

lemma demo_main_set_ok: "main_set_ok demo_chain"
  by (auto simp: main_set_ok_def demo_chain_def hashes_def)

lemma demo_heavy: "heavy_header (demo_man demo_chain) (demo_header 5 (demo_hash 4)) (demo_entry 4 (demo_hash 1) 1)"
proof -
  have "number_room 1 demo_chain"
    by (auto simp: number_room_def demo_chain_def ran_def elim!: demo_known_cases)
  moreover have "get_next_bits_required demo_chain (demo_entry 4 (demo_hash 1) 1) = Some (Ok 0x1d00ffff)"
    by (rule demo_bits [of _ "demo_hash 4"]) (simp_all add: demo_chain_def demo_known_ok)
  ultimately show ?thesis
    by (simp add: heavy_header_def demo_applicable demo_chain_def demo_total_work demo_work)
qed



lemma find_same_height_missing:
  assumes "known_ok (ch_known_headers c)" "linked (ch_known_headers c) x"
  shows "ch_known_headers c (bn_hash x) = Some x \<Longrightarrow> bn_number x < n \<Longrightarrow>
    find_same_height c n (bn_hash x) nn acc = Some Panic"
  using assms
proof (induction arbitrary: nn acc rule: linked_induct)
  case (root x)
  have "bn_parent x = EMPTY_HASH" using root.hyps unfolding linked_def by simp
  then have "ch_known_headers c (bn_parent x) = None" using assms(1) unfolding known_ok_def by simp
  then have "find_same_height c n (bn_parent x) k acc' = Some Panic" for k acc'
    by (subst find_same_height.simps) simp
  then show ?case using root.prems by (subst find_same_height.simps) simp
next
  case (child x p)
  have p: "ch_known_headers c (bn_hash p) = Some p" "bn_number p < n" using child.hyps(3,4,5) child.prems by simp_all
  show ?case using child.IH [OF p] child.hyps(5) child.prems
    by (subst find_same_height.simps) simp
qed

text \<open>
  C5: A header on a branch with more blocks than the chain of most work, heavy enough to become
  the top, ends the thread in a panic (and poisons the lock of the chain) instead of a
  reorganisation: the search for the block at the parent's height starts from the top and walks
  past the genesis block when the parent is higher than the top.
\<close>

theorem higher_branch_panics:
  assumes "known_ok (ch_known_headers (cm_chain m))" "top_ok (cm_chain m)" "heavy_header m h p"
    and "bn_number (ch_top_header (cm_chain m)) < bn_number p"
  shows "validate_and_apply_header_inner h m False = Some Panic"
proof -
  let ?c = "cm_chain m"
  obtain x where x: "fresh_child (ch_known_headers ?c) x" "ch_known_headers ?c (bn_parent x) = Some p"
    and applied: "validate_and_apply_header_inner h m False =
      (let m' = with_header x m in
       if bn_parent x = bn_hash (ch_top_header ?c)
       then Some (Ok (Some \<lparr>har_removed_blocks = [], har_added_blocks = [(bn_hash x, bn_number x)]\<rparr>,
            with_top x m'))
       else loop_bind (find_fork (cm_chain m') x (bn_number p)) (\<lambda>(visited_new, visited_old).
          loop_bind (calculate_downloaded_blocks (cm_chain (with_top x m'))) (\<lambda>new_count.
          Some (Ok (Some \<lparr>har_removed_blocks = visited_old, har_added_blocks = rev visited_new\<rparr>,
            (with_top x m')\<lparr>cm_downloaded_blocks := new_count\<rparr>)))))"
    by (rule heavy_header_entry [OF assms(3,1,2)])
  let ?w = "ch_known_headers (cm_chain (with_header x m))"
  have okw: "known_ok ?w" using known_ok_insert [OF assms(1) x(1)] by simp
  obtain t where t: "ch_known_headers ?c (bn_hash (ch_top_header ?c)) = Some t"
    "ch_top_header ?c = t\<lparr>bn_coinbase_ascii := bn_coinbase_ascii (ch_top_header ?c)\<rparr>"
    using assms(2) unfolding top_ok_def by blast
  have nt: "bn_number (ch_top_header ?c) = bn_number t" by (subst t(2)) simp
  have "bn_parent x \<noteq> bn_hash (ch_top_header ?c)"
    using t(1) x(2) assms(4) nt by auto
  moreover have "?w (bn_hash t) = Some t" "bn_hash (ch_top_header ?c) = bn_hash t"
    using t(1) known_okD(1) [OF assms(1) t(1)] x(1) by (auto simp: fresh_child_def)
  then have "find_fork (cm_chain (with_header x m)) x (bn_number p) = Some Panic"
    using find_same_height_missing [OF okw known_okD(2) [OF okw], of _ t "bn_number p"] assms(4) nt
    by (simp add: find_fork_def)
  ultimately show ?thesis using applied by (simp add: Let_def)
qed

lemma visited_lookup:
  "0 < n \<Longrightarrow> k \<le> length hs \<Longrightarrow>
   map_of (map prod.swap (visited k n hs)) (n - 1) = (if 2 \<le> k then Some (hs ! 1) else None)"
  by (cases k; cases hs; cases "k - 1"; cases "tl hs") auto

text \<open>
  The index by number is wrong after every fork deeper than one block: the entries collected
  for the new branch carry numbers that are one too high, so the number of the new top's parent
  does not lead to that parent afterwards.
\<close>

lemma fork_misnumbers_parent:
  assumes "chain_ok (cm_chain m)" "heavy_header m h p"
    and "bn_number p \<le> bn_number (ch_top_header (cm_chain m))"
    and "bh_parent h \<noteq> bn_hash (ch_top_header (cm_chain m))"
    and "ch_number_to_hash (cm_chain m) (bn_number p) \<noteq> Some (bh_parent h)"
  shows "\<exists>har m'. validate_and_apply_header_inner h m False = Some (Ok (Some har, m')) \<and>
    get_hash_by_number (update_most_work_chain har (cm_chain m')) (bn_number p) \<noteq> Some (bh_parent h)"
proof -
  let ?c = "cm_chain m"
  have ok: "known_ok (ch_known_headers ?c)" using assms(1) by (simp add: chain_ok_def)
  obtain x vn vo m' where x: "bn_number x = Suc (bn_number p)"
    and res: "validate_and_apply_header_inner h m False =
      Some (Ok (Some \<lparr>har_removed_blocks = vo, har_added_blocks = rev vn\<rparr>, m'))"
    and m': "cm_chain m' = cm_chain (with_top x (with_header x m))"
    and vn: "\<exists>k \<le> bn_number p. vn = (bn_hash x, bn_number x) #
      visited k (bn_number x) (hashes (ch_known_headers ?c) p)"
    by (rule heavy_header_applies [OF assms(1-3)]) (use assms(4) in blast)
  obtain k where k: "k \<le> bn_number p"
    "vn = (bn_hash x, bn_number x) # visited k (bn_number x) (hashes (ch_known_headers ?c) p)"
    using vn by blast
  let ?hs = "hashes (ch_known_headers ?c) p"
  have parent: "ch_known_headers ?c (bh_parent h) = Some p" using assms(2) by (simp add: heavy_header_def)
  have p: "linked (ch_known_headers ?c) p" "bn_hash p = bh_parent h" using known_okD [OF ok parent] by simp_all
  have len: "length ?hs = Suc (bn_number p)" by (rule hashes_length [OF ok p(1)])
  have "map_of (map prod.swap vn) (bn_number p) = (if 2 \<le> k then Some (?hs ! 1) else None)"
    using visited_lookup [of "bn_number x" k ?hs] x k(1) len by (simp add: k(2))
  moreover have "?hs ! 1 \<noteq> bh_parent h" if "2 \<le> k"
  proof -
    have "?hs ! 0 \<noteq> ?hs ! 1"
      using hashes_distinct [OF ok parent] that k(1) len by (simp add: nth_eq_iff_index_eq)
    moreover have "?hs ! 0 = bn_hash p" using len by (simp add: hashes_def)
    ultimately show ?thesis using p(2) by simp
  qed
  ultimately have "get_hash_by_number (update_most_work_chain
      \<lparr>har_removed_blocks = vo, har_added_blocks = rev vn\<rparr> (cm_chain m')) (bn_number p) \<noteq> Some (bh_parent h)"
    using assms(5) m' by (auto simp: get_hash_by_number_def map_add_def rev_map split: option.splits)
  then show ?thesis using res by blast
qed

text \<open>A side branch of two blocks that together are lighter than the block on top.\<close>

definition hard_entry :: BlockHeaderWithNumber where
  "hard_entry = \<lparr>bn_header = (demo_header 2 (demo_hash 1))\<lparr>bh_bits := 0x1d006666\<rparr>, bn_number = 1,
     bn_fetched_full = False, bn_total_work = word_of_nat (4295032833 + 10737582082), bn_coinbase_ascii = None\<rparr>"

definition high_known :: known where
  "high_known = [demo_hash 1 \<mapsto> demo_entry 1 EMPTY_HASH 0, demo_hash 2 \<mapsto> hard_entry,
     demo_hash 3 \<mapsto> demo_entry 3 (demo_hash 1) 1, demo_hash 4 \<mapsto> demo_entry 4 (demo_hash 3) 2]"

definition high_chain :: Chain where
  "high_chain = \<lparr>ch_top_header = hard_entry, ch_known_headers = high_known,
     ch_number_to_hash = [0 \<mapsto> demo_hash 1, 1 \<mapsto> demo_hash 2],
     ch_most_work_chain = {demo_hash 1, demo_hash 2}\<rparr>"

lemma hard_entry_linked:
  assumes "known (demo_hash 1) = Some (demo_entry 1 EMPTY_HASH 0)"
  shows "linked known hard_entry"
proof -
  have t: "unat (u256_from_compact 0x1d006666) = 0x6666 * 256 ^ 26"
    by (simp add: unat_u256_from_compact target_nat_def)
  then have "header_work (bn_header hard_entry) = Ok (word_of_nat 10737582082)"
    by (auto simp: header_work_def get_work_value hard_entry_def)
  moreover have "u256_from_compact 0x1d006666 \<le> POW_LIMIT"
    by (simp add: word_le_nat_alt unat_POW_LIMIT t)
  ultimately show ?thesis
    using assms demo_total_work [of 0] by (simp add: linked_def hard_entry_def unat_of_nat)
qed

lemma high_known_simps:
  "high_known (demo_hash 1) = Some (demo_entry 1 EMPTY_HASH 0)" "high_known (demo_hash 2) = Some hard_entry"
  "high_known (demo_hash 3) = Some (demo_entry 3 (demo_hash 1) 1)"
  "high_known (demo_hash 4) = Some (demo_entry 4 (demo_hash 3) 2)"
  "high_known (demo_hash 5) = None" "high_known EMPTY_HASH = None"
  by (simp_all add: high_known_def)

lemma high_known_cases:
  assumes "high_known h = Some x"
  obtains "h = demo_hash 1" "x = demo_entry 1 EMPTY_HASH 0" | "h = demo_hash 2" "x = hard_entry"
  | "h = demo_hash 3" "x = demo_entry 3 (demo_hash 1) 1" | "h = demo_hash 4" "x = demo_entry 4 (demo_hash 3) 2"
  using assms by (auto simp: high_known_def split: if_splits)

lemma high_known_ok: "known_ok high_known"
  unfolding known_ok_def
proof (intro conjI allI impI)
  show "bn_hash x = h" if "high_known h = Some x" for h x
    using that by (cases rule: high_known_cases) (simp_all add: hard_entry_def)
  show "linked high_known x" if "high_known h = Some x" for h x
    using that
  proof (cases rule: high_known_cases)
    case 1
    then show ?thesis by (simp add: demo_root)
  next
    case 2
    show ?thesis unfolding 2 by (rule hard_entry_linked) (simp add: high_known_simps)
  next
    case 3
    show ?thesis unfolding 3
      by (rule demo_linked [of 0 _ _ 1 EMPTY_HASH 3 "demo_hash 1"]) (simp_all add: high_known_simps)
  next
    case 4
    show ?thesis unfolding 4
      by (rule demo_linked [of 1 _ _ 3 "demo_hash 1" 4 "demo_hash 3"])
        (simp_all add: high_known_simps Suc_1 del: One_nat_def)
  qed
  show "bn_hash x = bn_hash y" if "x \<in> ran high_known" "y \<in> ran high_known" "bn_number x = 0" "bn_number y = 0" for x y
    using that by (auto simp: ran_def hard_entry_def elim!: high_known_cases)
qed (simp add: high_known_simps)

theorem higher_branch_panics_witness:
  "validate_and_apply_header_inner (demo_header 5 (demo_hash 4)) (demo_man high_chain) False = Some Panic"
proof (rule higher_branch_panics)
  have hw: "unat (bn_total_work hard_entry) = 15032614915" by (simp add: hard_entry_def unat_of_nat)
  show "known_ok (ch_known_headers (cm_chain (demo_man high_chain)))"
    by (simp add: high_chain_def high_known_ok)
  show "top_ok (cm_chain (demo_man high_chain))"
    unfolding top_ok_def
    by (auto simp: ran_def high_chain_def word_le_nat_alt demo_total_work hw elim!: high_known_cases)
      (simp_all add: high_known_simps hard_entry_def)
  have "number_room 1 high_chain"
    by (auto simp: number_room_def high_chain_def ran_def hard_entry_def elim!: high_known_cases)
  moreover have "get_next_bits_required high_chain (demo_entry 4 (demo_hash 3) 2) = Some (Ok 0x1d00ffff)"
    by (rule demo_bits [of _ "demo_hash 4"]) (simp_all add: high_chain_def high_known_ok, simp add: high_known_simps)
  ultimately show "heavy_header (demo_man high_chain) (demo_header 5 (demo_hash 4)) (demo_entry 4 (demo_hash 3) 2)"
    by (simp add: heavy_header_def demo_applicable high_chain_def demo_total_work demo_work hw)
      (simp add: high_known_simps)
  show "bn_number (ch_top_header (cm_chain (demo_man high_chain))) < bn_number (demo_entry 4 (demo_hash 3) 2)"
    by (simp add: high_chain_def hard_entry_def)
qed

end
