(* ===== verification/ChainWalk.thy ===== *)
theory ChainWalk
  imports ChainFork "HOL-Library.Sublist"
begin

text \<open>
  Walks along the chain of most work: the locator of \<open>build_get_headers\<close>, the answer of
  \<open>respond_to_getheaders\<close>, the blocks still to download and the marking of downloaded blocks.
\<close>

section \<open>Locators\<close>

lemma hashes_not_Nil [simp]: "hashes known x \<noteq> []"
  by (simp add: hashes_def)

lemma hashes_nth_ancestor:
  assumes "known_ok (ch_known_headers c)" "linked (ch_known_headers c) x" "0 < s" "s \<le> bn_number x"
  obtains y where "get_ancestor c x (bn_number x - s) = Some (Some y)" "linked (ch_known_headers c) y"
    "bn_number y = bn_number x - s" "hashes (ch_known_headers c) y = drop s (hashes (ch_known_headers c) x)"
    "hashes (ch_known_headers c) x ! s = bn_hash y"
proof -
  let ?y = "line (ch_known_headers c) x ! s"
  have len: "s < length (line (ch_known_headers c) x)" using line_length [OF assms(1,2)] assms(4) by simp
  then have "linked (ch_known_headers c) ?y" using line_linked [OF assms(1,2)] by simp
  moreover have "get_ancestor c x (bn_number x - s) = Some (Some ?y)"
    using get_ancestor_line [OF assms(1,2), of "bn_number x - s"] assms(4) by simp
  ultimately show thesis
    using that line_number [OF assms(1,2,4)] line_drop [OF assms(1,2,4)] len
    by (simp add: hashes_def drop_map)
qed

lemma drop_subseq_tl: "0 < s \<Longrightarrow> s < length xs \<Longrightarrow> subseq ys (drop (Suc s) xs) \<Longrightarrow> subseq (xs ! s # ys) (tl xs)"
proof -
  assume a: "0 < s" "s < length xs" "subseq ys (drop (Suc s) xs)"
  then have "subseq (xs ! s # ys) (drop s xs)" by (simp add: Cons_nth_drop_Suc [symmetric])
  moreover have "drop s xs = drop (s - 1) (tl xs)" using a(1) by (cases xs) (simp_all add: drop_Cons')
  ultimately show ?thesis by (metis suffix_drop suffix_imp_subseq subseq_order.order_trans)
qed

text \<open>
  The part of the locator with doubling steps: a subsequence of the ancestors down to the first
  block, of at most \<open>k\<close> hashes for a header below \<open>s * (2 ^ (k + 1) - 2)\<close>.
\<close>

definition locator_tail :: "hash32 list \<Rightarrow> nat \<Rightarrow> hash32 list \<Rightarrow> bool" where
  "locator_tail hs s ys \<longleftrightarrow> subseq ys (tl hs) \<and> last (hd hs # ys) = last hs \<and>
     (\<forall>k. length hs \<le> s * (2 ^ Suc k - 2) + 1 \<longrightarrow> length ys \<le> k)"

lemma locator_doubling:
  assumes "known_ok (ch_known_headers c)" "linked (ch_known_headers c) x"
    and "10 \<le> length acc" "0 < s" "s < 2 ^ 63" "bn_number x < 2 ^ 63"
  shows "\<exists>ys. locator_loop c x s acc = Some (Ok (acc @ ys)) \<and>
    locator_tail (hashes (ch_known_headers c) x) s ys"
  using assms
proof (induction "bn_number x" arbitrary: x s acc rule: less_induct)
  case less
  let ?hs = "hashes (ch_known_headers c) x"
  have len: "length ?hs = Suc (bn_number x)" by (rule hashes_length [OF less.prems(1,2)])
  show ?case
  proof (cases "bn_number x = 0")
    case True
    then show ?thesis by (subst locator_loop.simps) (auto simp: locator_tail_def hashes_root)
  next
    case False
    define s' where "s' = min (2 * s) (bn_number x)"
    have s': "0 < s'" "s' \<le> bn_number x" "s' < 2 ^ 63" using False less.prems(4,6) by (auto simp: s'_def)
    obtain y where y: "get_ancestor c x (bn_number x - s') = Some (Some y)" "linked (ch_known_headers c) y"
      "bn_number y = bn_number x - s'" "hashes (ch_known_headers c) y = drop s' ?hs" "?hs ! s' = bn_hash y"
      by (rule hashes_nth_ancestor [OF less.prems(1,2) s'(1,2)])
    have "wmul s 2 = 2 * s" using less.prems(5) by (simp add: wmul_def)
    then have step: "locator_loop c x s acc = locator_loop c y s' (acc @ [bn_hash y])"
      using False less.prems(3) y(1) s'(2)
      by (subst locator_loop.simps) (auto simp: s'_def Let_def min_def)
    have "bn_number y < bn_number x" using y(3) s' by simp
    then obtain ys where ys: "locator_loop c y s' (acc @ [bn_hash y]) = Some (Ok ((acc @ [bn_hash y]) @ ys))"
      "locator_tail (hashes (ch_known_headers c) y) s' ys"
      using less.hyps [of y "acc @ [bn_hash y]" s'] less.prems(1,3,6) y(2) s' by auto
    have tl: "subseq ys (drop (Suc s') ?hs)" "last (bn_hash y # ys) = last ?hs"
      using ys(2) y(4) s'(2) len unfolding locator_tail_def
      by (simp_all add: tl_drop drop_Suc hd_drop_conv_nth y(5) last_drop)
    have "length (bn_hash y # ys) \<le> k" if k: "length ?hs \<le> s * (2 ^ Suc k - 2) + 1" for k
    proof (cases k)
      case 0
      then show ?thesis using k len False by simp
    next
      case (Suc j)
      have "length (drop s' ?hs) \<le> s' * (2 ^ Suc j - 2) + 1"
      proof (cases "2 * s \<le> bn_number x")
        case True
        then have "s' = 2 * s" by (simp add: s'_def)
        then show ?thesis using k len by (simp add: Suc algebra_simps diff_mult_distrib2)
      next
        case False
        then have "s' = bn_number x" by (simp add: s'_def)
        then show ?thesis using len by simp
      qed
      then show ?thesis using ys(2) y(4) Suc by (simp add: locator_tail_def)
    qed
    moreover have "subseq (bn_hash y # ys) (tl ?hs)"
      using drop_subseq_tl [OF s'(1) _ tl(1)] s'(2) len y(5) by simp
    ultimately have "locator_tail ?hs s (bn_hash y # ys)"
      using tl(2) by (simp add: locator_tail_def)
    then show ?thesis using step ys(1) by (intro exI [of _ "bn_hash y # ys"]) simp
  qed
qed

text \<open>The first ten entries are consecutive.\<close>

lemma locator_consecutive:
  assumes "known_ok (ch_known_headers c)" "linked (ch_known_headers c) x" "bn_number x < 2 ^ 63"
  shows "length acc + n = 10 \<Longrightarrow> 0 < length acc \<Longrightarrow> \<exists>ys.
    locator_loop c x 1 acc = Some (Ok (acc @ take n (tl (hashes (ch_known_headers c) x)) @ ys)) \<and>
    (let hs = drop n (hashes (ch_known_headers c) x) in
     if hs = [] then ys = [] else locator_tail hs 1 ys)"
  using assms
proof (induction n arbitrary: x acc)
  case 0
  then show ?case using locator_doubling [OF 0(3,4), of acc 1] by (simp add: Let_def)
next
  case (Suc n)
  let ?hs = "hashes (ch_known_headers c) x"
  have len: "length ?hs = Suc (bn_number x)" by (rule hashes_length [OF Suc.prems(3,4)])
  show ?case
  proof (cases "bn_number x = 0")
    case True
    then show ?thesis by (subst locator_loop.simps) (simp add: hashes_root Let_def)
  next
    case False
    have one: "(1 :: nat) \<le> bn_number x" using False by simp
    obtain y where y: "get_ancestor c x (bn_number x - 1) = Some (Some y)" "linked (ch_known_headers c) y"
      "bn_number y = bn_number x - 1" "hashes (ch_known_headers c) y = drop 1 ?hs" "?hs ! 1 = bn_hash y"
      by (rule hashes_nth_ancestor [OF Suc.prems(3,4) zero_less_one one])
    have step: "locator_loop c x 1 acc = locator_loop c y 1 (acc @ [bn_hash y])"
      using False Suc.prems(1) y(1) one by (subst locator_loop.simps) (simp add: Let_def)
    have "length (acc @ [bn_hash y]) + n = 10" "0 < length (acc @ [bn_hash y])" "bn_number y < 2 ^ 63"
      using Suc.prems y(3) by simp_all
    from Suc.IH [OF this(1,2) Suc.prems(3) y(2) this(3)] obtain ys where ys:
      "locator_loop c y 1 (acc @ [bn_hash y]) =
         Some (Ok ((acc @ [bn_hash y]) @ take n (tl (drop 1 ?hs)) @ ys))"
      "let hs = drop n (drop 1 ?hs) in if hs = [] then ys = [] else locator_tail hs 1 ys"
      using y(4) by auto
    have "take (Suc n) (tl ?hs) = bn_hash y # take n (tl (drop 1 ?hs))"
      using len False y(5) by (cases ?hs; cases "tl ?hs") auto
    then show ?thesis using ys step by (intro exI [of _ ys]) simp
  qed
qed

text \<open>
  C3: The block locator of \<open>build_get_headers\<close> always comes into being (the loop ends, no ancestor
  is missing): it lists the ten highest blocks of the chain of most work one by one, then ever
  fewer of their ancestors in order down to the first block, and has at most 73 entries.
\<close>

theorem locator_shape:
  assumes "chain_ok c" "bn_number (ch_top_header c) < 2 ^ 63"
  shows "\<exists>r. build_get_headers c = Some (Ok r) \<and>
    (let hs = hashes (ch_known_headers c) (ch_top_header c); l = gh_block_locator r in
     subseq l hs \<and> take 10 l = take 10 hs \<and> last l = last hs \<and> length l \<le> 73)"
proof -
  let ?hs = "hashes (ch_known_headers c) (ch_top_header c)"
  have ok: "known_ok (ch_known_headers c)" using assms(1) by (simp add: chain_ok_def)
  have lk: "linked (ch_known_headers c) (ch_top_header c)" by (rule top_linked [OF assms(1)])
  have len: "length ?hs = Suc (bn_number (ch_top_header c))" by (rule hashes_length [OF ok lk])
  have hd: "?hs = bn_hash (ch_top_header c) # tl ?hs"
    by (subst hashes_def, subst line_unfold) (simp add: hashes_def map_tl)
  show ?thesis
  proof (cases "bn_number (ch_top_header c) = 0")
    case True
    then show ?thesis by (simp add: build_get_headers_def hashes_root)
  next
    case False
    obtain ys where ys: "locator_loop c (ch_top_header c) 1 [bn_hash (ch_top_header c)] =
        Some (Ok ([bn_hash (ch_top_header c)] @ take 9 (tl ?hs) @ ys))"
      "let hs = drop 9 ?hs in if hs = [] then ys = [] else locator_tail hs 1 ys"
      using locator_consecutive [OF ok lk assms(2), of "[bn_hash (ch_top_header c)]" 9] by auto
    define l where "l = [bn_hash (ch_top_header c)] @ take 9 (tl ?hs) @ ys"
    have l: "l = take 10 ?hs @ ys" by (subst hd) (simp add: l_def)
    have "subseq l ?hs \<and> take 10 l = take 10 ?hs \<and> last l = last ?hs \<and> length l \<le> 73"
    proof (cases "drop 9 ?hs = []")
      case True
      then show ?thesis using ys(2) l by simp
    next
      case ne: False
      then have t: "locator_tail (drop 9 ?hs) 1 ys" using ys(2) by (simp add: Let_def)
      have sub: "subseq ys (drop 10 ?hs)" using t by (simp add: locator_tail_def tl_drop drop_Suc [symmetric] eval_nat_numeral)
      have "length ys \<le> 63"
        using t assms(2) len unfolding locator_tail_def by (elim conjE allE [of _ 63]) simp
      moreover have "subseq l ?hs"
        using list_emb_append_mono [OF subseq_order.order_refl sub, of "take 10 ?hs"] l by simp
      moreover have "take 10 l = take 10 ?hs" using l ne len by (cases "drop 10 ?hs = []") (use sub in auto)
      moreover have "last l = last ?hs"
      proof (cases "ys = []")
        case True
        have "last (take (Suc 9) ?hs) = ?hs ! 9" using ne by (subst take_Suc_conv_app_nth) simp_all
        then have "last (take 10 ?hs) = ?hs ! 9" by simp
        also have "\<dots> = last (drop 9 ?hs)" using t True ne by (simp add: locator_tail_def hd_drop_conv_nth)
        finally show ?thesis using l True ne by simp
      next
        case False
        then show ?thesis using t l ne by (simp add: locator_tail_def)
      qed
      ultimately show ?thesis using l by simp
    qed
    then show ?thesis using False ys(1) by (simp add: build_get_headers_def l_def Let_def)
  qed
qed

theorem locator_shape_witness:
  "\<exists>r. build_get_headers demo_chain = Some (Ok r) \<and>
    subseq (gh_block_locator r) (hashes demo_known (demo_entry 3 (demo_hash 2) 2))"
  using locator_shape [OF demo_chain_ok] by (auto simp: demo_chain_def Let_def)

section \<open>Answering a locator\<close>

text \<open>Both indexes of the chain of most work agree with the ancestors of the top header.\<close>

definition index_ok :: "Chain \<Rightarrow> bool" where
  "index_ok c \<longleftrightarrow> main_set_ok c \<and>
     (\<forall>n \<le> bn_number (ch_top_header c). ch_number_to_hash c n =
        Some (rev (hashes (ch_known_headers c) (ch_top_header c)) ! n))"

lemma line_rev_entry:
  assumes "chain_ok c" "n \<le> bn_number (ch_top_header c)"
  obtains y where "ch_known_headers c (rev (hashes (ch_known_headers c) (ch_top_header c)) ! n) = Some y"
    "bn_number y = n" "bn_header y = bn_header (rev (line (ch_known_headers c) (ch_top_header c)) ! n)"
proof -
  let ?k = "ch_known_headers c"
  have ok: "known_ok ?k" using assms(1) by (simp add: chain_ok_def)
  obtain t where t: "?k (bn_hash t) = Some t"
    "ch_top_header c = t\<lparr>bn_coinbase_ascii := bn_coinbase_ascii (ch_top_header c)\<rparr>"
    "linked ?k t" "bn_number (ch_top_header c) = bn_number t"
    "hashes ?k (ch_top_header c) = hashes ?k t"
    using top_entry [OF assms(1)] by metis
  let ?i = "bn_number t - n"
  have i: "?i \<le> bn_number t" by simp
  obtain y where y: "line ?k t ! ?i = y" "?k (bn_hash y) = Some y" "bn_number y = bn_number t - ?i"
    "hashes ?k t ! ?i = bn_hash y"
    by (rule line_entry [OF ok t(1) i])
  have len: "length (hashes ?k t) = Suc (bn_number t)" by (rule hashes_length [OF ok t(3)])
  have r: "rev (hashes ?k (ch_top_header c)) ! n = bn_hash y"
    using y(4) len assms(2) t(4) by (simp add: t(5) rev_nth)
  have hdr: "map bn_header (line ?k (ch_top_header c)) = map bn_header (line ?k t)"
  proof -
    have "map bn_header (line ?k (t\<lparr>bn_coinbase_ascii := a\<rparr>)) = map bn_header (line ?k t)" for a
      by (cases "bn_number t") (simp_all add: line_def)
    then show ?thesis by (subst t(2))
  qed
  have len': "length (line ?k (ch_top_header c)) = Suc (bn_number t)"
    using line_length [OF ok top_linked [OF assms(1)]] t(4) by simp
  have "bn_header (rev (line ?k (ch_top_header c)) ! n) = map bn_header (line ?k (ch_top_header c)) ! ?i"
    using len' assms(2) t(4) by (simp add: rev_nth)
  also have "\<dots> = bn_header y"
    unfolding hdr using len assms(2) t(4) y(1) by (simp add: hashes_def)
  finally have h: "bn_header y = bn_header (rev (line ?k (ch_top_header c)) ! n)" by (rule sym)
  have "bn_number y = n" using y(3) assms(2) t(4) by simp
  then show thesis using h by (rule that [rotated]) (simp only: r y(2))
qed

text \<open>The chain of most work as headers, oldest first.\<close>

definition main_headers :: "Chain \<Rightarrow> BlockHeader list" where
  "main_headers c = map bn_header (rev (line (ch_known_headers c) (ch_top_header c)))"

lemma main_headers_hash:
  assumes "chain_ok c" "n \<le> bn_number (ch_top_header c)"
  shows "bh_hash (main_headers c ! n) = rev (hashes (ch_known_headers c) (ch_top_header c)) ! n"
    and "length (main_headers c) = Suc (bn_number (ch_top_header c))"
proof -
  have len: "length (line (ch_known_headers c) (ch_top_header c)) = Suc (bn_number (ch_top_header c))"
    using line_length top_linked [OF assms(1)] assms(1) by (simp add: chain_ok_def)
  then show "bh_hash (main_headers c ! n) = rev (hashes (ch_known_headers c) (ch_top_header c)) ! n"
    using assms(2) by (simp add: main_headers_def hashes_def rev_map)
  show "length (main_headers c) = Suc (bn_number (ch_top_header c))" using len by (simp add: main_headers_def)
qed

lemma headers_to_send_main:
  assumes "chain_ok c" "index_ok c"
  shows "number + k \<le> Suc (bn_number (ch_top_header c)) \<Longrightarrow> number + k < 2 ^ 64 \<Longrightarrow>
    headers_to_send c stop number k =
    Ok (takeWhile (\<lambda>h. bh_hash h \<noteq> stop) (take k (drop number (main_headers c))))"
proof (induction k arbitrary: number)
  case (Suc k)
  have n: "number \<le> bn_number (ch_top_header c)" using Suc.prems(1) by simp
  obtain y where y: "ch_known_headers c (rev (hashes (ch_known_headers c) (ch_top_header c)) ! number) = Some y"
    "bn_header y = bn_header (rev (line (ch_known_headers c) (ch_top_header c)) ! number)"
    by (rule line_rev_entry [OF assms(1) n])
  note mh = main_headers_hash [OF assms(1) n]
  have hdr: "bn_header y = main_headers c ! number"
    using mh(2) n y(2) by (simp add: main_headers_def)
  have "drop number (main_headers c) = main_headers c ! number # drop (Suc number) (main_headers c)"
    using mh(2) n by (simp add: Cons_nth_drop_Suc)
  moreover have "ch_number_to_hash c number = Some (bh_hash (main_headers c ! number))"
    using assms(2) n mh(1) by (simp add: index_ok_def)
  ultimately show ?case
    using Suc.IH [of "Suc number"] Suc.prems y(1) mh(1) hdr by simp
qed simp


lemma demo_index_ok: "index_ok demo_chain"
proof -
  have hs: "hashes demo_known (demo_entry 3 (demo_hash 2) 2) = [demo_hash 3, demo_hash 2, demo_hash 1]"
    by (simp add: hashes_def)
  have "ch_number_to_hash demo_chain n = Some ([demo_hash 1, demo_hash 2, demo_hash 3] ! n)" if "n \<le> 2" for n
  proof -
    have "n = 0 \<or> n = 1 \<or> n = 2" using that by linarith
    then show ?thesis by (auto simp: demo_chain_def)
  qed
  then show ?thesis using demo_main_set_ok by (simp add: index_ok_def demo_chain_def hs)
qed

lemma demo_main_headers:
  "main_headers demo_chain = [demo_header 1 EMPTY_HASH, demo_header 2 (demo_hash 1), demo_header 3 (demo_hash 2)]"
  by (simp add: main_headers_def demo_chain_def)


section \<open>Blocks to download\<close>

lemma missing_line:
  assumes "known_ok (ch_known_headers c)" "linked (ch_known_headers c) x"
  shows "missing_from c x acc = Some
    (acc @ bn_hash x # map bn_hash (takeWhile (\<lambda>y. \<not> bn_fetched_full y) (tl (line (ch_known_headers c) x))),
     bn_number x - length (takeWhile (\<lambda>y. \<not> bn_fetched_full y) (tl (line (ch_known_headers c) x))))"
  using assms
proof (induction arbitrary: acc rule: linked_induct)
  case (root x)
  then show ?case by (subst missing_from.simps) simp
next
  case (child x p)
  have "line (ch_known_headers c) p = p # tl (line (ch_known_headers c) p)" by (rule line_unfold)
  then have tl: "takeWhile P (line (ch_known_headers c) p) =
      (if P p then p # takeWhile P (tl (line (ch_known_headers c) p)) else [])" for P
    by (metis takeWhile.simps(2))
  show ?case using child.hyps(3,4) child.IH
    by (subst missing_from.simps) (simp add: tl Let_def)
qed

text \<open>The counter agrees with the marks on the headers.\<close>

definition counter_ok :: "ChainMan \<Rightarrow> bool" where
  "counter_ok m \<longleftrightarrow> calculate_downloaded_blocks (cm_chain m) = Some (Ok (cm_downloaded_blocks m))"

lemma find_takeWhile:
  "find P xs = (let k = length (takeWhile (\<lambda>x. \<not> P x) xs) in if k < length xs then Some (xs ! k) else None)"
  by (induction xs) (simp_all add: Let_def)

lemma counter_value:
  assumes "chain_ok c" "bn_number (ch_top_header c) + 1 < 2 ^ 64"
  shows "calculate_downloaded_blocks c = Some (Ok (Suc (bn_number (ch_top_header c)) -
    length (takeWhile (\<lambda>y. \<not> bn_fetched_full y) (line (ch_known_headers c) (ch_top_header c)))))"
proof -
  let ?l = "line (ch_known_headers c) (ch_top_header c)" and ?n = "bn_number (ch_top_header c)"
  let ?k = "length (takeWhile (\<lambda>y. \<not> bn_fetched_full y) ?l)"
  have ok: "known_ok (ch_known_headers c)" using assms(1) by (simp add: chain_ok_def)
  note lk = top_linked [OF assms(1)]
  have len: "length ?l = Suc ?n" by (rule line_length [OF ok lk])
  have "?k \<le> Suc ?n" using length_takeWhile_le [of _ ?l] len by metis
  then show ?thesis
    unfolding calculate_downloaded_blocks_def downloaded_line [OF ok lk] find_takeWhile Let_def
    using len assms(2) line_number [OF ok lk, of ?k] by (auto simp: Suc_diff_le)
qed

text \<open>
  The list of blocks to download is exactly the blocks of the chain of most work above the
  highest downloaded one, lowest first and without gaps, with the number of the first one, which
  is the number of downloaded blocks; there is none when the top is downloaded.
\<close>

lemma missing_blocks:
  assumes "chain_ok (cm_chain m)" "counter_ok m" "bn_number (ch_top_header (cm_chain m)) + 1 < 2 ^ 64"
  shows "get_block_hashes_to_download m = Some
    (if bn_fetched_full (ch_top_header (cm_chain m)) then None
     else Some (map bn_hash (rev (takeWhile (\<lambda>y. \<not> bn_fetched_full y)
         (line (ch_known_headers (cm_chain m)) (ch_top_header (cm_chain m))))), cm_downloaded_blocks m))"
proof -
  let ?c = "cm_chain m" and ?n = "bn_number (ch_top_header (cm_chain m))"
  let ?p = "\<lambda>y. \<not> bn_fetched_full y"
  define l where "l = line (ch_known_headers ?c) (ch_top_header ?c)"
  have ok: "known_ok (ch_known_headers ?c)" using assms(1) by (simp add: chain_ok_def)
  note lk = top_linked [OF assms(1)]
  have cnt: "cm_downloaded_blocks m = Suc ?n - length (takeWhile ?p l)"
    using assms(2) counter_value [OF assms(1,3)] by (simp add: counter_ok_def l_def)
  have l: "l = ch_top_header ?c # tl l" unfolding l_def by (rule line_unfold)
  have missing: "missing_from ?c (ch_top_header ?c) [] = Some (bn_hash (ch_top_header ?c) #
      map bn_hash (takeWhile ?p (tl l)), ?n - length (takeWhile ?p (tl l)))"
    using missing_line [OF ok lk, of "[]"] by (simp add: l_def)
  show ?thesis
  proof (cases "bn_fetched_full (ch_top_header ?c)")
    case True
    then have "cm_downloaded_blocks m = Suc ?n" using cnt by (subst (asm) l) simp
    then show ?thesis using True by (simp add: get_block_hashes_to_download_def)
  next
    case False
    then have "takeWhile ?p l = ch_top_header ?c # takeWhile ?p (tl l)" by (subst l) simp
    then show ?thesis using False cnt missing diff_le_self [of ?n]
      by (simp add: get_block_hashes_to_download_def not_less rev_map flip: l_def)
  qed
qed

section \<open>Marking downloaded blocks\<close>

definition same_links :: "BlockHeaderWithNumber \<Rightarrow> BlockHeaderWithNumber \<Rightarrow> bool" where
  "same_links x y \<longleftrightarrow> bn_header y = bn_header x \<and> bn_number y = bn_number x \<and>
     bn_total_work y = bn_total_work x"

definition remarked :: "known \<Rightarrow> known \<Rightarrow> bool" where
  "remarked known known' \<longleftrightarrow> (\<forall>h. rel_option same_links (known h) (known' h))"

lemma remarkedD:
  assumes "remarked known known'"
  shows "known h = Some x \<Longrightarrow> \<exists>y. known' h = Some y \<and> same_links x y"
    and "known' h = Some y \<Longrightarrow> \<exists>x. known h = Some x \<and> same_links x y"
    and "known h = None \<Longrightarrow> known' h = None"
  using assms unfolding remarked_def by (metis option_rel_Some1 option_rel_Some2 rel_option_None1)+

lemma remarked_linked:
  assumes "remarked known known'" "same_links x y" "linked known x"
  shows "linked known' y"
proof -
  have "\<exists>q. known' (bn_parent x) = Some q \<and> bn_number q = bn_number p \<and> bn_total_work q = bn_total_work p"
    if "known (bn_parent x) = Some p" for p
    using remarkedD(1) [OF assms(1) that] unfolding same_links_def by auto
  then show ?thesis using assms(2,3) unfolding linked_def same_links_def
    by (simp split: if_splits) metis
qed

lemma remarked_known_ok:
  assumes "remarked known known'" "known_ok known"
  shows "known_ok known'"
  unfolding known_ok_def
proof (intro conjI allI impI)
  show "known' EMPTY_HASH = None" using assms remarkedD(3) unfolding known_ok_def by blast
  show "bn_hash y = h" if y: "known' h = Some y" for h y
    using remarkedD(2) [OF assms(1) y] known_okD(1) [OF assms(2)] unfolding same_links_def by metis
  show "linked known' y" if y: "known' h = Some y" for h y
    using remarkedD(2) [OF assms(1) y] known_okD(2) [OF assms(2)] remarked_linked [OF assms(1)] by metis
  show "bn_hash y = bn_hash z" if "y \<in> ran known'" "z \<in> ran known'" "bn_number y = 0" "bn_number z = 0" for y z
  proof -
    note yz = that
    obtain h k x w where "known' h = Some y" "known' k = Some z" "known h = Some x" "known k = Some w"
      "same_links x y" "same_links w z"
      using yz(1,2) remarkedD(2) [OF assms(1)] unfolding ran_def by blast
    moreover from this have "x \<in> ran known" "w \<in> ran known" by (auto simp: ran_def)
    ultimately show ?thesis using yz(3,4) assms(2) unfolding known_ok_def same_links_def by metis
  qed
qed

lemma remarked_line:
  assumes "known_ok known" "linked known x"
  shows "remarked known known' \<Longrightarrow> same_links x y \<Longrightarrow> list_all2 same_links (line known x) (line known' y)"
  using assms
proof (induction arbitrary: y rule: linked_induct)
  case (root x)
  then show ?case by (simp add: same_links_def)
next
  case (child x p)
  obtain q where q: "known' (bn_parent x) = Some q" "same_links p q"
    using remarkedD(1) [OF child.prems(1) child.hyps(3)] by blast
  then have "line known' y = y # line known' q"
    using child.prems(2) child.hyps(4) by (intro line_child) (simp_all add: same_links_def)
  then show ?case using child.IH [OF child.prems(1) q(2)] child.hyps(3,4) child.prems(2) by simp
qed

lemma remarked_next_bits:
  assumes "known_ok (ch_known_headers c)" "linked (ch_known_headers c) x" "bn_number x + 1 < 2 ^ 64"
    and "remarked (ch_known_headers c) (ch_known_headers c')" "same_links x y"
  shows "get_next_bits_required c' y = get_next_bits_required c x"
proof -
  note ok' = remarked_known_ok [OF assms(4,1)] and lk' = remarked_linked [OF assms(4,5,2)]
  have "bn_number y + 1 < 2 ^ 64" using assms(3,5) by (simp add: same_links_def)
  note b = next_bits_required [OF assms(1-3)] next_bits_required [OF ok' lk' this]
  have all2: "list_all2 same_links (line (ch_known_headers c) x) (line (ch_known_headers c') y)"
    by (rule remarked_line [OF assms(1,2,4,5)])
  have "bn_header (period_start (ch_known_headers c') y) = bn_header (period_start (ch_known_headers c) x)"
    if "Suc (bn_number x) mod 2016 = 0"
  proof -
    have "2015 < length (line (ch_known_headers c) x)"
      using that line_length [OF assms(1,2)] mod_less [of "Suc (bn_number x)" 2016] by linarith
    then show ?thesis using list_all2_nthD [OF all2] by (simp add: period_start_def same_links_def)
  qed
  then show ?thesis using b assms(5) by (simp add: same_links_def)
qed

lemma same_links_refl [simp]: "same_links x x"
  by (simp add: same_links_def)

lemma remarked_refl [simp]: "remarked known known"
  by (simp add: remarked_def option.rel_refl)

lemma remarked_update:
  assumes "remarked known known'" "known' h = Some y" "same_links y z"
  shows "remarked known (known'(h \<mapsto> z))"
proof -
  obtain x where "known h = Some x" "same_links x y" using remarkedD(2) [OF assms(1,2)] by blast
  then have "rel_option same_links (known h) (Some z)" using assms(3) by (simp add: same_links_def)
  then show ?thesis using assms(1) by (simp add: remarked_def)
qed

definition fetched :: "known \<Rightarrow> hash32 \<Rightarrow> bool" where
  "fetched known h \<longleftrightarrow> (\<exists>x. known h = Some x \<and> bn_fetched_full x)"

lemma mark_blocks_total:
  assumes "remarked known known1" "set (map fst bs) \<subseteq> dom known1"
  shows "\<exists>known'. mark_blocks bs known1 = Ok known' \<and> remarked known known' \<and>
    (\<forall>h. fetched known' h \<longleftrightarrow> h \<in> set (map fst bs) \<or> fetched known1 h)"
  using assms
proof (induction bs arbitrary: known1)
  case (Cons b bs)
  obtain h a where b: "b = (h, a)" by (cases b)
  obtain y where y: "known1 h = Some y" using Cons.prems(2) b by auto
  define z where "z = y\<lparr>bn_fetched_full := True, bn_coinbase_ascii := Some (from_utf8_lossy a)\<rparr>"
  have "remarked known (known1(h \<mapsto> z))"
    by (rule remarked_update [OF Cons.prems(1) y]) (simp add: same_links_def z_def)
  moreover have "set (map fst bs) \<subseteq> dom (known1(h \<mapsto> z))" using Cons.prems(2) by auto
  ultimately obtain known' where k: "mark_blocks bs (known1(h \<mapsto> z)) = Ok known'" "remarked known known'"
    "\<forall>g. fetched known' g \<longleftrightarrow> g \<in> set (map fst bs) \<or> fetched (known1(h \<mapsto> z)) g"
    using Cons.IH by blast
  have "fetched (known1(h \<mapsto> z)) g \<longleftrightarrow> g = h \<or> fetched known1 g" for g
    by (auto simp: fetched_def z_def)
  then show ?case using k y by (auto simp: b z_def)
qed auto

lemma remarked_chain_ok:
  assumes "chain_ok c" "remarked (ch_known_headers c) (ch_known_headers c')"
    and "ch_known_headers c' (bn_hash (ch_top_header c)) = Some t"
    and "ch_top_header c' = (ch_top_header c)\<lparr>bn_fetched_full := bn_fetched_full t\<rparr>"
  shows "chain_ok c'"
  unfolding chain_ok_def
proof (intro conjI)
  have ok: "known_ok (ch_known_headers c)" "top_ok c" "difficulty_ok c" using assms(1) by (simp_all add: chain_ok_def)
  show "known_ok (ch_known_headers c')" by (rule remarked_known_ok [OF assms(2) ok(1)])
  obtain s where s: "ch_known_headers c (bn_hash (ch_top_header c)) = Some s" "same_links s t"
    using remarkedD(2) [OF assms(2,3)] by blast
  obtain a where "ch_top_header c = s\<lparr>bn_coinbase_ascii := a\<rparr>"
    using ok(2) s(1) unfolding top_ok_def by (metis option.inject)
  then have "ch_top_header c' = t\<lparr>bn_coinbase_ascii := bn_coinbase_ascii (ch_top_header c')\<rparr>"
    using s(2) assms(4) unfolding same_links_def by (simp add: BlockHeaderWithNumber.equality)
  moreover have "bn_total_work y \<le> bn_total_work (ch_top_header c')" if y: "y \<in> ran (ch_known_headers c')" for y
  proof -
    obtain h x where "ch_known_headers c h = Some x" "same_links x y"
      using y remarkedD(2) [OF assms(2)] unfolding ran_def by blast
    then show ?thesis using top_work [OF ok(2)] assms(4) by (simp add: same_links_def)
  qed
  moreover have "ch_known_headers c' (bn_hash (ch_top_header c')) = Some t" using assms(3,4) by simp
  ultimately show "top_ok c'" unfolding top_ok_def by blast
  show "difficulty_ok c'"
    unfolding difficulty_ok_def
  proof (intro ballI allI impI)
    fix y q
    assume y: "y \<in> ran (ch_known_headers c')" and q: "ch_known_headers c' (bn_parent y) = Some q"
    obtain h x where x: "ch_known_headers c h = Some x" "same_links x y"
      using y remarkedD(2) [OF assms(2)] unfolding ran_def by blast
    have par: "bn_parent y = bn_parent x" using x(2) by (simp add: same_links_def)
    obtain p where p: "ch_known_headers c (bn_parent x) = Some p" "same_links p q"
      using remarkedD(2) [OF assms(2) q] par by auto
    have lx: "linked (ch_known_headers c) x" by (rule known_okD(2) [OF ok(1) x(1)])
    have "bn_number p + 1 < 2 ^ 64"
      using parent_number [OF ok(1) lx p(1)] lx unfolding linked_def by simp
    then have "get_next_bits_required c' q = get_next_bits_required c p"
      by (rule remarked_next_bits [OF ok(1) known_okD(2) [OF ok(1) p(1)] _ assms(2) p(2)])
    moreover have "get_next_bits_required c p = Some (Ok (bh_bits (bn_header x)))"
      using ok(3) x(1) p(1) unfolding difficulty_ok_def ran_def by blast
    ultimately show "get_next_bits_required c' q = Some (Ok (bh_bits (bn_header y)))"
      using x(2) by (simp add: same_links_def)
  qed
qed

text \<open>
  Marking known blocks as downloaded marks exactly these blocks, keeps the tree and the chain of
  most work well-formed, and leaves the counter of downloaded blocks in agreement with the marks.
\<close>

lemma marked_blocks:
  assumes "chain_ok (cm_chain m)" "set blocks \<subseteq> dom (ch_known_headers (cm_chain m))"
    and "length blocks \<le> length asciis"
  shows "\<exists>m'. mark_as_downloaded blocks asciis m = Some (Ok m') \<and> chain_ok (cm_chain m') \<and> counter_ok m' \<and>
    (\<forall>h. fetched (ch_known_headers (cm_chain m')) h \<longleftrightarrow>
       h \<in> set blocks \<or> fetched (ch_known_headers (cm_chain m)) h) \<and>
    remarked (ch_known_headers (cm_chain m)) (ch_known_headers (cm_chain m')) \<and>
    same_links (ch_top_header (cm_chain m)) (ch_top_header (cm_chain m'))"
proof -
  let ?c = "cm_chain m"
  have z: "map fst (zip blocks asciis) = blocks" using assms(3) by (simp add: map_fst_zip_take)
  obtain known' where k: "mark_blocks (zip blocks asciis) (ch_known_headers ?c) = Ok known'"
    "remarked (ch_known_headers ?c) known'"
    "\<forall>h. fetched known' h \<longleftrightarrow> h \<in> set blocks \<or> fetched (ch_known_headers ?c) h"
    using mark_blocks_total [OF remarked_refl, of "zip blocks asciis" "ch_known_headers ?c"] assms(2) z by auto
  obtain s where "ch_known_headers ?c (bn_hash (ch_top_header ?c)) = Some s"
    using assms(1) by (auto simp: chain_ok_def top_ok_def)
  then obtain t where t: "known' (bn_hash (ch_top_header ?c)) = Some t"
    using remarkedD(1) [OF k(2)] by blast
  define c' where "c' = ?c\<lparr>ch_known_headers := known',
    ch_top_header := (ch_top_header ?c)\<lparr>bn_fetched_full := bn_fetched_full t\<rparr>\<rparr>"
  have ok: "chain_ok c'"
    by (rule remarked_chain_ok [OF assms(1)]) (use k(2) t in \<open>simp_all add: c'_def\<close>)
  obtain n where n: "calculate_downloaded_blocks c' = Some (Ok n)" using top_downloaded_total [OF ok] by blast
  have "mark_as_downloaded blocks asciis m = Some (Ok (m\<lparr>cm_chain := c', cm_downloaded_blocks := n\<rparr>))"
    using k(1) t n by (simp add: mark_as_downloaded_def c'_def Let_def)
  then show ?thesis using ok n k(2,3) by (auto simp: counter_ok_def c'_def same_links_def)
qed

end
