(* ===== verification/Script.thy ===== *)
theory Script
  imports TxCodec
begin

text \<open>
  Scripts (\<open>src/src/tx/opcodes.rs\<close>, \<open>flags.rs\<close>, \<open>script.rs\<close>): reading operations, counting
  signature operations, and building scripts; the weight of a transaction
  (\<open>src/src/tx/size.rs\<close>) and its fee (\<open>fee.rs\<close>).

  Counts are \<open>u32\<close> and wrap as they do in the code.  \<open>Sha256::digest\<close> and \<open>Ripemd160::digest\<close> are the
  parameters \<open>sha\<close> and \<open>ripemd\<close>.
\<close>

section \<open>Opcodes and flags\<close>

definition OP_0 :: u8 where
  "OP_0 = 0x00"
definition OP_PUSHDATA1 :: u8 where
  "OP_PUSHDATA1 = 0x4c"
definition OP_PUSHDATA2 :: u8 where
  "OP_PUSHDATA2 = 0x4d"
definition OP_PUSHDATA4 :: u8 where
  "OP_PUSHDATA4 = 0x4e"
definition OP_1 :: u8 where
  "OP_1 = 0x51"
definition OP_16 :: u8 where
  "OP_16 = 0x60"
definition OP_RETURN :: u8 where
  "OP_RETURN = 0x6a"
definition OP_DUP :: u8 where
  "OP_DUP = 0x76"
definition OP_EQUAL :: u8 where
  "OP_EQUAL = 0x87"
definition OP_EQUALVERIFY :: u8 where
  "OP_EQUALVERIFY = 0x88"
definition OP_HASH160 :: u8 where
  "OP_HASH160 = 0xa9"
definition OP_CHECKSIG :: u8 where
  "OP_CHECKSIG = 0xac"
definition OP_CHECKSIGVERIFY :: u8 where
  "OP_CHECKSIGVERIFY = 0xad"
definition OP_CHECKMULTISIG :: u8 where
  "OP_CHECKMULTISIG = 0xae"
definition OP_CHECKMULTISIGVERIFY :: u8 where
  "OP_CHECKMULTISIGVERIFY = 0xaf"
definition OP_INVALIDOPCODE :: u8 where
  "OP_INVALIDOPCODE = 0xff"

lemmas opcode_defs = OP_0_def OP_PUSHDATA1_def OP_PUSHDATA2_def OP_PUSHDATA4_def OP_1_def OP_16_def
  OP_RETURN_def OP_DUP_def OP_EQUAL_def OP_EQUALVERIFY_def OP_HASH160_def OP_CHECKSIG_def
  OP_CHECKSIGVERIFY_def OP_CHECKMULTISIG_def OP_CHECKMULTISIGVERIFY_def OP_INVALIDOPCODE_def

type_synonym ScriptFlags = u32

definition SCRIPT_VERIFY_P2SH :: ScriptFlags where
  "SCRIPT_VERIFY_P2SH = 1"
definition SCRIPT_VERIFY_WITNESS :: ScriptFlags where
  "SCRIPT_VERIFY_WITNESS = 2048"

definition MAX_PUBKEYS_PER_MULTISIG :: u32 where
  "MAX_PUBKEYS_PER_MULTISIG = 20"

definition WITNESS_V0_SCRIPTHASH_SIZE :: usize where
  "WITNESS_V0_SCRIPTHASH_SIZE = 32"
definition WITNESS_V0_KEYHASH_SIZE :: usize where
  "WITNESS_V0_KEYHASH_SIZE = 20"

section \<open>Building scripts\<close>

datatype AppendableToScript =
    Int64 int
  | DataSize u32
  | ByteArray bytes

fun i64_bytes :: "nat \<Rightarrow> bytes" where
  "i64_bytes absvalue =
     (if absvalue = 0 then [] else word_of_nat (absvalue mod 256) # i64_bytes (absvalue div 256))"

declare i64_bytes.simps [simp del]

text \<open>An \<open>i64\<close> is an integer between \<open>- 2 ^ 63\<close> and \<open>2 ^ 63 - 1\<close>; \<open>!(value as u64) + 1\<close> is its absolute value.\<close>

definition serialize_i64 :: "int \<Rightarrow> bytes" where
  "serialize_i64 v =
     (if v = 0 then []
      else
        let neg = v < 0; result = i64_bytes (nat \<bar>v\<bar>) in
        if last result AND 0x80 \<noteq> 0 then result @ [if neg then 0x80 else 0]
        else if neg then butlast result @ [last result OR 0x80]
        else result)"

definition append_data_size :: "bytes \<Rightarrow> u32 \<Rightarrow> bytes" where
  "append_data_size s sz =
     (if sz < ucast OP_PUSHDATA1 then s @ [ucast sz]
      else if sz \<le> 0xFF then s @ [OP_PUSHDATA1, ucast sz]
      else if sz \<le> 0xFFFF then s @ [OP_PUSHDATA2] @ u16_to_le_bytes (ucast sz)
      else s @ [OP_PUSHDATA4] @ u32_to_le_bytes sz)"

definition append_byte_array :: "bytes \<Rightarrow> bytes \<Rightarrow> bytes" where
  "append_byte_array s items = append_data_size s (word_of_nat (length items)) @ items"

definition append_item :: "bytes \<Rightarrow> AppendableToScript \<Rightarrow> bytes" where
  "append_item s item =
     (case item of
        Int64 n \<Rightarrow>
          if n = -1 \<or> 1 \<le> n \<and> n \<le> 16 then s @ [word_of_int (n + 0x50)]
          else if n = 0 then s @ [OP_0]
          else append_byte_array s (serialize_i64 n)
      | DataSize sz \<Rightarrow> append_data_size s sz
      | ByteArray items \<Rightarrow> append_byte_array s items)"

datatype Destination =
    DestNone bytes
  | PubKey bytes
  | PubKeyHash bytes
  | ScriptHash bytes
  | WitnessV0KeyHash bytes
  | WitnessV0ScriptHash bytes
  | WitnessV1Taproot bytes
  | WitnessUnknown u8 bytes

definition hash160 :: "(bytes \<Rightarrow> bytes) \<Rightarrow> (bytes \<Rightarrow> bytes) \<Rightarrow> bytes \<Rightarrow> bytes" where
  "hash160 sha ripemd items = ripemd (sha items)"

definition decode_op_n :: "u8 \<Rightarrow> u8" where
  "decode_op_n opcode = (if opcode = OP_0 then 0 else opcode - (OP_1 - 1))"

definition encode_op_n :: "u8 \<Rightarrow> u8" where
  "encode_op_n v = (if v = 0 then OP_0 else OP_1 + v - 1)"

fun get_script_for_destination :: "(bytes \<Rightarrow> bytes) \<Rightarrow> (bytes \<Rightarrow> bytes) \<Rightarrow> Destination \<Rightarrow> bytes" where
  "get_script_for_destination sha ripemd (DestNone items) = items"
| "get_script_for_destination sha ripemd (PubKey items) =
     append_item [] (ByteArray items) @ [OP_CHECKSIG]"
| "get_script_for_destination sha ripemd (PubKeyHash items) =
     append_item [OP_DUP, OP_HASH160] (ByteArray items) @ [OP_EQUALVERIFY, OP_CHECKSIG]"
| "get_script_for_destination sha ripemd (ScriptHash items) =
     append_item [OP_HASH160] (ByteArray (hash160 sha ripemd items)) @ [OP_EQUAL]"
| "get_script_for_destination sha ripemd (WitnessV0KeyHash items) =
     append_item [OP_0] (ByteArray (hash160 sha ripemd items))"
| "get_script_for_destination sha ripemd (WitnessV0ScriptHash items) =
     append_item [OP_0] (ByteArray (sha items))"
| "get_script_for_destination sha ripemd (WitnessV1Taproot items) =
     append_item [OP_1] (ByteArray items)"
| "get_script_for_destination sha ripemd (WitnessUnknown version program) =
     append_item [encode_op_n version] (ByteArray program)"

definition get_script_for_multisig :: "int \<Rightarrow> bytes list \<Rightarrow> bytes" where
  "get_script_for_multisig n_required keys =
     (let res = append_item [] (Int64 n_required);
          res = foldl (\<lambda>res k. append_item res (ByteArray k)) res keys;
          res = append_item res (Int64 (int (length keys))) in
      res @ [OP_CHECKMULTISIG])"

section \<open>Reading operations\<close>

text \<open>
  \<open>get_script_op\<close> advances the slice it is given, also when it returns \<open>None\<close>: the result and
  the rest of the script.
\<close>

definition take_operand :: "u8 \<Rightarrow> bytes \<Rightarrow> nat \<Rightarrow> (u8 \<times> bytes option) option \<times> bytes" where
  "take_operand opcode script nsize =
     (if length script < nsize then (None, script)
      else (Some (opcode, Some (take nsize script)), drop nsize script))"

definition get_script_op :: "bytes \<Rightarrow> (u8 \<times> bytes option) option \<times> bytes" where
  "get_script_op script =
     (case script of
        [] \<Rightarrow> (None, [])
      | opcode # script \<Rightarrow>
          if opcode \<le> OP_PUSHDATA4 then
            if opcode < OP_PUSHDATA1 then take_operand opcode script (unat opcode)
            else if opcode = OP_PUSHDATA1 then
              (case script of
                 [] \<Rightarrow> (None, [])
               | n # script \<Rightarrow> take_operand opcode script (unat n))
            else if opcode = OP_PUSHDATA2 then
              (if length script < 2 then (None, script)
               else take_operand opcode (drop 2 script) (unat (u16_from_le_bytes (take 2 script))))
            else
              (if length script < 4 then (None, script)
               else take_operand opcode (drop 4 script) (unat (u32_from_le_bytes (take 4 script))))
          else (Some (opcode, None), script))"

lemma take_operand_length: "length (snd (take_operand opcode s n)) \<le> length s"
  by (simp add: take_operand_def)

lemma get_script_op_length: "script \<noteq> [] \<Longrightarrow> length (snd (get_script_op script)) < length script"
proof (cases script)
  case (Cons op s)
  then show ?thesis
    by (cases s) (auto simp: get_script_op_def take_operand_def)
qed simp

lemma get_script_op_shorter:
  "script \<noteq> [] \<Longrightarrow> (r, rest) = get_script_op script \<Longrightarrow> length rest < length script"
  using get_script_op_length [of script] by (metis snd_conv)

section \<open>Counting signature operations\<close>

definition sigops_of :: "u8 \<Rightarrow> u8 \<Rightarrow> bool \<Rightarrow> u32" where
  "sigops_of opcode last_opcode accurate =
     (if opcode = OP_CHECKSIG \<or> opcode = OP_CHECKSIGVERIFY then 1
      else if opcode = OP_CHECKMULTISIG \<or> opcode = OP_CHECKMULTISIGVERIFY then
        (if accurate \<and> OP_1 \<le> last_opcode \<and> last_opcode \<le> OP_16
         then ucast (decode_op_n last_opcode) else MAX_PUBKEYS_PER_MULTISIG)
      else 0)"

function sigop_count_loop :: "bytes \<Rightarrow> u8 \<Rightarrow> bool \<Rightarrow> u32 \<Rightarrow> u32" where
  "sigop_count_loop script last_opcode accurate acc =
     (if script = [] then acc
      else case get_script_op script of
        (None, _) \<Rightarrow> acc
      | (Some (opcode, _), rest) \<Rightarrow>
          sigop_count_loop rest opcode accurate (acc + sigops_of opcode last_opcode accurate))"
  by pat_completeness auto
termination
  by (relation "measure (\<lambda>(script, _). length script)") (auto intro: get_script_op_shorter)

declare sigop_count_loop.simps [simp del]

definition get_sigop_count :: "bytes \<Rightarrow> bool \<Rightarrow> u32" where
  "get_sigop_count script accurate = sigop_count_loop script OP_INVALIDOPCODE accurate 0"

definition is_pay_to_script_hash :: "bytes \<Rightarrow> bool" where
  "is_pay_to_script_hash script \<longleftrightarrow>
     length script = 23 \<and> script ! 0 = OP_HASH160 \<and> script ! 1 = 0x14 \<and> script ! 22 = OP_EQUAL"

text \<open>The last operand of a push-only script; \<open>None\<close> stands for the early \<open>return 0\<close>.\<close>

function last_push :: "bytes \<Rightarrow> bytes option \<Rightarrow> bytes option option" where
  "last_push script last_operand =
     (if script = [] then Some last_operand
      else case get_script_op script of
        (None, _) \<Rightarrow> None
      | (Some (opcode, operand), rest) \<Rightarrow>
          if OP_16 < opcode then None else last_push rest operand)"
  by pat_completeness auto
termination
  by (relation "measure (\<lambda>(script, _). length script)") (auto intro: get_script_op_shorter)

declare last_push.simps [simp del]

definition get_sigop_count2 :: "bytes \<Rightarrow> bytes \<Rightarrow> u32" where
  "get_sigop_count2 script_pub_key script_sig =
     (if \<not> is_pay_to_script_hash script_pub_key then get_sigop_count script_pub_key True
      else case last_push script_sig None of
        None \<Rightarrow> 0
      | Some (Some v) \<Rightarrow> get_sigop_count v True
      | Some None \<Rightarrow> 0)"

definition get_witness_program :: "bytes \<Rightarrow> (u8 \<times> bytes) option" where
  "get_witness_program script =
     (if length script < 4 \<or> 42 < length script then None
      else if script ! 0 \<noteq> OP_0 \<and> (script ! 0 < OP_1 \<or> OP_16 < script ! 0) then None
      else if unat (script ! 1 + 2) = length script
      then Some (decode_op_n (script ! 0), drop 2 script)
      else None)"

text \<open>\<open>Iterator::last\<close> on the witness components, then \<open>unwrap\<close>.\<close>

definition witness_sigops :: "u8 \<Rightarrow> bytes \<Rightarrow> bytes \<Rightarrow> u32 res" where
  "witness_sigops version witprogram witness =
     (if version = 0 then
        if length witprogram = WITNESS_V0_KEYHASH_SIZE then Ok 1
        else if length witprogram = WITNESS_V0_SCRIPTHASH_SIZE \<and> witness \<noteq> [] \<and> witness ! 0 \<noteq> 0 then
          res_bind (res_unwrap (deserialize_array_of_varsrs_iter witness)) (\<lambda>it.
          res_bind (VarStrIter_collect it) (\<lambda>witness_components.
          if witness_components = [] then Panic
          else Ok (get_sigop_count (last witness_components) True)))
        else Ok 0
      else Ok 0)"

function is_push_only :: "bytes \<Rightarrow> bool" where
  "is_push_only script =
     (if script = [] then True
      else case get_script_op script of
        (None, _) \<Rightarrow> False
      | (Some (opcode, _), rest) \<Rightarrow> if OP_16 < opcode then False else is_push_only rest)"
  by pat_completeness auto
termination
  by (relation "measure length") (auto intro: get_script_op_shorter)

declare is_push_only.simps [simp del]

function last_data_loop :: "bytes \<Rightarrow> bytes option \<Rightarrow> bytes option" where
  "last_data_loop script last_data =
     (if script = [] then last_data
      else case get_script_op script of
        (Some (_, Some data), rest) \<Rightarrow> last_data_loop rest (Some data)
      | (_, rest) \<Rightarrow> last_data_loop rest last_data)"
  by pat_completeness auto
termination
  by (relation "measure (\<lambda>(script, _). length script)") (auto intro: get_script_op_shorter)

declare last_data_loop.simps [simp del]

definition count_witness_sigops :: "bytes \<Rightarrow> bytes \<Rightarrow> bytes \<Rightarrow> ScriptFlags \<Rightarrow> u32 res" where
  "count_witness_sigops script script_pub_key witness_components flags =
     (if flags AND SCRIPT_VERIFY_WITNESS = 0 then Ok 0
      else case get_witness_program script_pub_key of
        Some (version, program) \<Rightarrow> witness_sigops version program witness_components
      | None \<Rightarrow>
          if is_pay_to_script_hash script_pub_key \<and> is_push_only script then
            (case last_data_loop script None of
               None \<Rightarrow> Ok 0
             | Some data \<Rightarrow>
                 (case get_witness_program data of
                    Some (version, witness_program) \<Rightarrow>
                      witness_sigops version witness_program witness_components
                  | None \<Rightarrow> Ok 0))
          else Ok 0)"

definition get_legacy_sigops :: "Tx \<Rightarrow> u32" where
  "get_legacy_sigops tx =
     sum_list (map (\<lambda>x. get_sigop_count (ti_sig_script x) False) (tx_txins tx)) +
     sum_list (map (\<lambda>x. get_sigop_count (to_script x) False) (tx_txouts tx))"

fun p2sh_sigops_loop :: "TxOut list \<Rightarrow> usize \<Rightarrow> TxIn list \<Rightarrow> u32 \<Rightarrow> u32 res" where
  "p2sh_sigops_loop dependencies i [] acc = Ok acc"
| "p2sh_sigops_loop dependencies i (txin # txins) acc =
     res_bind (idx_at dependencies i) (\<lambda>txout.
     p2sh_sigops_loop dependencies (Suc i) txins
       (if is_pay_to_script_hash (to_script txout)
        then acc + get_sigop_count2 (to_script txout) (ti_sig_script txin) else acc))"

definition get_p2sh_sigop_count :: "Tx \<Rightarrow> TxOut list \<Rightarrow> u32 res" where
  "get_p2sh_sigop_count tx dependencies =
     (if is_coinbase tx then Ok 0 else p2sh_sigops_loop dependencies 0 (tx_txins tx) 0)"

fun witness_sigops_loop ::
  "TxOut list \<Rightarrow> bytes list option \<Rightarrow> ScriptFlags \<Rightarrow> usize \<Rightarrow> TxIn list \<Rightarrow> u32 \<Rightarrow> u32 res" where
  "witness_sigops_loop dependencies wd flags i [] acc = Ok acc"
| "witness_sigops_loop dependencies wd flags i (txin # txins) acc =
     res_bind (idx_at dependencies i) (\<lambda>txout.
     res_bind (opt_unwrap wd) (\<lambda>ws.
     res_bind (idx_at ws i) (\<lambda>a.
     res_bind (count_witness_sigops (ti_sig_script txin) (to_script txout) a flags) (\<lambda>n.
     witness_sigops_loop dependencies wd flags (Suc i) txins (acc + n)))))"

definition get_transaction_sigop_cost :: "Tx \<Rightarrow> TxOut list \<Rightarrow> ScriptFlags \<Rightarrow> u32 res" where
  "get_transaction_sigop_cost tx dependencies flags =
     (let sigops = 4 * get_legacy_sigops tx in
      if is_coinbase tx then Ok sigops
      else
        res_bind (if flags AND SCRIPT_VERIFY_P2SH \<noteq> 0
                  then res_bind (get_p2sh_sigop_count tx dependencies) (\<lambda>n. Ok (sigops + 4 * n))
                  else Ok sigops) (\<lambda>sigops.
        if flags AND SCRIPT_VERIFY_WITNESS \<noteq> 0
        then witness_sigops_loop dependencies (tx_witness_data tx) flags 0 (tx_txins tx) sigops
        else Ok sigops))"

section \<open>Weight and fee\<close>

definition calculate_tx_size_wus :: "Tx \<Rightarrow> u32" where
  "calculate_tx_size_wus tx =
     (let result = 16 + 16 + 4 * length_varint (word_of_nat (length (tx_txins tx))) +
            sum_list (map (\<lambda>txin. (32 + 4 + 4 +
              length_varint (word_of_nat (length (ti_sig_script txin))) +
              length (ti_sig_script txin)) * 4) (tx_txins tx)) +
            4 * length_varint (word_of_nat (length (tx_txouts tx))) +
            sum_list (map (\<lambda>txout. (8 +
              length_varint (word_of_nat (length (to_script txout))) +
              length (to_script txout)) * 4) (tx_txouts tx));
          result = (case tx_witness_data tx of
            Some witness_data \<Rightarrow> result + 2 + sum_list (map length witness_data)
          | None \<Rightarrow> result) in
      word_of_nat result)"

definition calculate_fee :: "Tx \<Rightarrow> TxOut list \<Rightarrow> u64" where
  "calculate_fee tx dependencies =
     (let total_in = sum_list (map to_value dependencies);
          total_out = sum_list (map to_value (tx_txouts tx)) in
      total_in - total_out)"

section \<open>Pushes read back\<close>

lemma append_data_size_prefix: "append_data_size s sz = s @ append_data_size [] sz"
  by (simp add: append_data_size_def)

lemma append_byte_array_prefix: "append_byte_array s d = s @ append_byte_array [] d"
  using append_data_size_prefix [of s] by (simp add: append_byte_array_def)

definition push_opcode :: "nat \<Rightarrow> u8" where
  "push_opcode n =
     (if n < 0x4c then word_of_nat n else if n \<le> 0xFF then OP_PUSHDATA1
      else if n \<le> 0xFFFF then OP_PUSHDATA2 else OP_PUSHDATA4)"

lemma unat_u32_of_nat: "n < 2 ^ 32 \<Longrightarrow> unat (word_of_nat n :: u32) = n"
  by (subst unat_of_nat) simp

lemma unat_u8_of_nat: "n < 2 ^ 8 \<Longrightarrow> unat (word_of_nat n :: u8) = n"
  by (subst unat_of_nat) simp

lemma ucast_u32_u16: "n < 2 ^ 16 \<Longrightarrow> unat (ucast (word_of_nat n :: u32) :: u16) = n"
  by (simp add: unsigned_ucast_eq unat_u32_of_nat take_bit_nat_eq_self)

lemma ucast_u32_u8: "n < 2 ^ 8 \<Longrightarrow> (ucast (word_of_nat n :: u32) :: u8) = word_of_nat n"
  by (rule unsigned_word_eqI [where 'a = nat])
    (simp add: unsigned_ucast_eq unat_u32_of_nat unat_u8_of_nat take_bit_nat_eq_self)

lemma take_operand_mid: "length d = n \<Longrightarrow> take_operand op (d @ rest) n = (Some (op, Some d), rest)"
  by (simp add: take_operand_def)

lemma push_reads_back:
  assumes "length d < 2 ^ 32"
  shows "get_script_op (append_byte_array [] d @ rest) = (Some (push_opcode (length d), Some d), rest)"
proof -
  let ?n = "length d" and ?w = "word_of_nat (length d) :: u32"
  have w: "unat ?w = ?n" by (rule unat_u32_of_nat [OF assms])
  consider "?n < 0x4c" | "0x4c \<le> ?n" "?n \<le> 0xFF" | "0xFF < ?n" "?n \<le> 0xFFFF" | "0xFFFF < ?n"
    by linarith
  then show ?thesis
  proof cases
    case 1
    then have u: "unat (word_of_nat ?n :: u8) = ?n" by (simp add: unat_u8_of_nat)
    show ?thesis using 1
      by (simp add: append_byte_array_def append_data_size_def word_less_nat_alt word_le_nat_alt w u
          ucast_u32_u8 get_script_op_def opcode_defs take_operand_mid push_opcode_def)
  next
    case 2
    then have u: "unat (word_of_nat ?n :: u8) = ?n" by (simp add: unat_u8_of_nat)
    show ?thesis using 2
      by (simp add: append_byte_array_def append_data_size_def word_less_nat_alt word_le_nat_alt w u
          ucast_u32_u8 get_script_op_def opcode_defs take_operand_mid push_opcode_def)
  next
    case 3
    then have u: "unat (ucast ?w :: u16) = ?n" by (simp add: ucast_u32_u16)
    show ?thesis using 3
      by (simp add: append_byte_array_def append_data_size_def word_less_nat_alt word_le_nat_alt w u
          get_script_op_def opcode_defs take_operand_mid push_opcode_def)
  next
    case 4
    then show ?thesis
      by (simp add: append_byte_array_def append_data_size_def word_less_nat_alt word_le_nat_alt w
          get_script_op_def opcode_defs take_operand_mid push_opcode_def)
  qed
qed

lemma push_opcode_le: "unat (push_opcode n) \<le> 0x4e"
  by (simp add: push_opcode_def opcode_defs unat_u8_of_nat)

lemma append_byte_array_nonempty [simp]: "append_byte_array [] d \<noteq> []"
  by (simp add: append_byte_array_def append_data_size_def)

lemma sigops_of_push [simp]: "sigops_of (push_opcode n) l a = 0"
  using push_opcode_le [of n] by (auto simp: sigops_of_def opcode_defs)

lemma sigop_loop_push:
  "length d < 2 ^ 32 \<Longrightarrow> sigop_count_loop (append_byte_array [] d @ rest) l a t =
     sigop_count_loop rest (push_opcode (length d)) a t"
  by (subst sigop_count_loop.simps) (simp add: push_reads_back)

lemma sigop_loop_op:
  "0x4e < unat op \<Longrightarrow>
   sigop_count_loop (op # rest) l a t = sigop_count_loop rest op a (t + sigops_of op l a)"
  by (subst sigop_count_loop.simps)
    (simp add: get_script_op_def opcode_defs word_le_nat_alt)

section \<open>Numbers in scripts\<close>

text \<open>
  The number a script encodes: little-endian magnitude, the top bit of the last byte the sign.
\<close>

definition script_num :: "bytes \<Rightarrow> int" where
  "script_num bs =
     (if bs = [] then 0
      else let m = from_le (butlast bs @ [last bs AND 0x7F]) in
           if last bs AND 0x80 \<noteq> 0 then - int m else int m)"

lemma i64_bytes_value: "from_le (i64_bytes n) = n"
proof (induction n rule: i64_bytes.induct)
  case (1 n)
  then show ?case by (subst i64_bytes.simps) simp
qed

lemma i64_bytes_nonempty: "n \<noteq> 0 \<Longrightarrow> i64_bytes n \<noteq> []"
  by (subst i64_bytes.simps) simp

lemma i64_bytes_last: "n \<noteq> 0 \<Longrightarrow> last (i64_bytes n) \<noteq> 0"
proof (induction n rule: i64_bytes.induct)
  case (1 n)
  show ?case
  proof (cases "n div 256 = 0")
    case True
    then have "n < 256" by simp
    then have "unat (word_of_nat n :: u8) = n" by (subst unat_of_nat) simp
    then have "(word_of_nat n :: u8) \<noteq> 0" using 1(2) by auto
    then show ?thesis using True \<open>n < 256\<close> 1(2)
      by (subst i64_bytes.simps, subst i64_bytes.simps) simp
  next
    case False
    then show ?thesis using 1 i64_bytes_nonempty [OF False] by (subst i64_bytes.simps) simp
  qed
qed

lemma bit_0x80: "bit (0x80 :: u8) n \<longleftrightarrow> n = 7"
proof -
  have e: "(0x80 :: u8) = 2 ^ 7" by simp
  show ?thesis unfolding e bit_exp_iff by (auto simp: possible_bit_word)
qed

lemma bit_0x7F: "bit (0x7F :: u8) n \<longleftrightarrow> n < 7"
proof -
  have e: "(0x7F :: u8) = mask 7" by (simp add: mask_eq_exp_minus_1)
  show ?thesis unfolding e bit_mask_iff by (auto simp: possible_bit_word)
qed

lemma and_0x80: "b AND 0x80 = 0 \<longleftrightarrow> \<not> bit b 7" for b :: u8
proof
  assume "b AND 0x80 = 0"
  then have "bit (b AND 0x80) 7 = bit (0 :: u8) 7" by simp
  then show "\<not> bit b 7" unfolding bit_and_iff bit_0x80 by simp
next
  assume "\<not> bit b 7"
  then show "b AND 0x80 = 0"
    by (intro bit_word_eqI) (simp only: bit_and_iff bit_0x80 bit_0_eq bot_apply bot_bool_def, blast)
qed

lemma strip_top_bit: "\<not> bit b 7 \<Longrightarrow> b AND 0x7F = b" "\<not> bit b 7 \<Longrightarrow> (b OR 0x80) AND 0x7F = b"
  for b :: u8
proof -
  assume b: "\<not> bit b 7"
  have seven: "n < 7 \<or> n = 7" if "n < LENGTH(8)" for n using that by auto
  show "b AND 0x7F = b"
    by (rule bit_word_eqI, drule seven) (simp only: bit_and_iff bit_0x7F, use b in auto)
  show "(b OR 0x80) AND 0x7F = b"
    by (rule bit_word_eqI, drule seven) (simp only: bit_and_iff bit_or_iff bit_0x7F bit_0x80, use b in auto)
qed

lemma from_le_snoc_0: "from_le (bs @ [0]) = from_le bs"
  by (induction bs) simp_all

lemma script_num_append: "script_num (bs @ [b]) =
   (if bit b 7 then - int (from_le (bs @ [b AND 0x7F])) else int (from_le (bs @ [b AND 0x7F])))"
  unfolding script_num_def Let_def and_0x80 by simp

lemma script_num_serialize: "script_num (serialize_i64 v) = v"
proof (cases "v = 0")
  case False
  define r where "r = i64_bytes (nat \<bar>v\<bar>)"
  have ne: "r \<noteq> []" and val: "from_le r = nat \<bar>v\<bar>"
    using i64_bytes_nonempty [of "nat \<bar>v\<bar>"] False by (simp_all add: r_def i64_bytes_value)
  have split: "butlast r @ [last r] = r" using ne by simp
  have ser: "serialize_i64 v =
      (if last r AND 0x80 \<noteq> 0 then r @ [if v < 0 then 0x80 else 0]
       else if v < 0 then butlast r @ [last r OR 0x80] else r)"
    using False by (simp only: serialize_i64_def Let_def r_def if_False)
  show ?thesis
  proof (cases "bit (last r) 7")
    case True
    have "bit (0x80 :: u8) 7" "(0x80 :: u8) AND 0x7F = 0" by (simp_all add: bit_0x80)
    then have "script_num (r @ [if v < 0 then 0x80 else 0]) = v"
      using val by (cases "v < 0") (simp_all add: script_num_append from_le_snoc_0)
    moreover have "serialize_i64 v = r @ [if v < 0 then 0x80 else 0]"
      using True by (simp add: ser and_0x80)
    ultimately show ?thesis by simp
  next
    case no: False
    have top: "bit (last r OR 0x80) 7" unfolding bit_or_iff bit_0x80 by simp
    have "serialize_i64 v = butlast r @ [if v < 0 then last r OR 0x80 else last r]"
      using no split by (simp add: ser and_0x80)
    then show ?thesis using val no top split strip_top_bit [OF no]
        script_num_append [of "butlast r" "last r"]
      by (cases "v < 0") (simp_all add: script_num_append)
  qed
qed (simp add: serialize_i64_def script_num_def)

section \<open>Properties\<close>

text \<open>
  Data appended to a script is read back by \<open>get_script_op\<close> as one push operation with
  exactly that data, for each of the four encodings of the length, and the rest of the script
  remains.
\<close>

lemma push_round_trip:
  assumes "length d < 2 ^ 32"
  shows "get_script_op (append_item [] (ByteArray d) @ rest) =
    (Some (push_opcode (length d), Some d), rest)"
  using push_reads_back [OF assms] by (simp add: append_item_def)

text \<open>
  \<open>serialize_i64\<close> produces the script encoding of its argument: little-endian magnitude with
  the sign in the top bit of the last byte, for every integer.
\<close>

lemma serialize_i64_value: "script_num (serialize_i64 v) = v"
  by (rule script_num_serialize)

definition small_int_op :: "nat \<Rightarrow> u8" where
  "small_int_op k = word_of_nat (k + 0x50)"

lemma small_int_op_props:
  assumes "1 \<le> k" "k \<le> 16"
  shows "append_item s (Int64 (int k)) = s @ [small_int_op k]"
    and "unat (small_int_op k) = k + 0x50" and "sigops_of (small_int_op k) l a = 0"
    and "ucast (decode_op_n (small_int_op k)) = (word_of_nat k :: u32)"
proof -
  have "(word_of_int (int k + 0x50) :: u8) = small_int_op k"
    by (simp add: small_int_op_def)
  then show "append_item s (Int64 (int k)) = s @ [small_int_op k]"
    using assms by (simp add: append_item_def)
  show u: "unat (small_int_op k) = k + 0x50"
    unfolding small_int_op_def by (rule unat_u8_of_nat) (use assms in simp)
  then show "sigops_of (small_int_op k) l a = 0"
    using assms by (auto simp: sigops_of_def opcode_defs)
  have "small_int_op k \<noteq> 0" using u by auto
  moreover have "small_int_op k - 0x50 = word_of_nat k" by (simp add: small_int_op_def)
  ultimately have "decode_op_n (small_int_op k) = word_of_nat k"
    by (simp add: decode_op_n_def opcode_defs)
  moreover have "ucast (word_of_nat k :: u8) = (word_of_nat k :: u32)"
    by (rule unsigned_word_eqI [where 'a = nat])
      (use assms in \<open>simp add: unsigned_ucast_eq unat_u32_of_nat unat_u8_of_nat take_bit_nat_eq_self\<close>)
  ultimately show "ucast (decode_op_n (small_int_op k)) = (word_of_nat k :: u32)" by simp
qed

lemma push_keys:
  "foldl (\<lambda>res k. append_item res (ByteArray k)) s keys = s @ concat (map (append_byte_array []) keys)"
proof (induction keys arbitrary: s)
  case (Cons k keys)
  then show ?case using append_byte_array_prefix [of s k] by (simp add: append_item_def)
qed simp

lemma sigop_loop_keys:
  "list_all (\<lambda>k. length k < 2 ^ 32) keys \<Longrightarrow> \<exists>l'. sigop_count_loop
     (concat (map (append_byte_array []) keys) @ rest) l a t = sigop_count_loop rest l' a t"
  by (induction keys arbitrary: l) (auto simp: sigop_loop_push)

text \<open>
  A multi-signature script for one to sixteen keys counts as that many signature operations
  when counted accurately and as twenty when not, whatever bytes the keys consist of.
\<close>

lemma multisig_sigops:
  assumes "1 \<le> m" "m \<le> 16" and "1 \<le> length keys" "length keys \<le> 16"
    and "list_all (\<lambda>k. length k < 2 ^ 32) keys"
  shows "get_sigop_count (get_script_for_multisig (int m) keys) accurate =
    (if accurate then word_of_nat (length keys) else 20)"
proof -
  let ?n = "length keys" and ?keys = "concat (map (append_byte_array []) keys)"
  note m = small_int_op_props [OF assms(1,2)] and n = small_int_op_props [OF assms(3,4)]
  have script: "get_script_for_multisig (int m) keys =
      small_int_op m # ?keys @ [small_int_op ?n, OP_CHECKMULTISIG]"
    by (simp add: get_script_for_multisig_def Let_def m(1) n(1) push_keys)
  obtain l' where keys: "sigop_count_loop (?keys @ [small_int_op ?n, OP_CHECKMULTISIG])
      (small_int_op m) accurate 0 =
      sigop_count_loop [small_int_op ?n, OP_CHECKMULTISIG] l' accurate 0"
    using sigop_loop_keys [OF assms(5)] by blast
  have "get_sigop_count (get_script_for_multisig (int m) keys) accurate =
      sigops_of OP_CHECKMULTISIG (small_int_op ?n) accurate"
    unfolding get_sigop_count_def script
    using m(2,3) n(2,3) keys
    by (simp add: sigop_loop_op opcode_defs sigop_count_loop.simps [of "[]"])
  also have "\<dots> = (if accurate then word_of_nat ?n else 20)"
    using n(2,4) assms(3,4)
    by (simp add: sigops_of_def opcode_defs word_le_nat_alt MAX_PUBKEYS_PER_MULTISIG_def)
  finally show ?thesis .
qed

text \<open>
  The weight of a transaction is three times its size without witness data plus its full
  size (modulo \<open>2 ^ 32\<close>), as the weight of the protocol is defined.
\<close>

lemma weight_formula:
  assumes "list_all TxIn_ok (tx_txins tx)"
  shows "calculate_tx_size_wus tx = word_of_nat (3 * length (tx_legacy tx) + length (Tx_serialize tx))"
proof -
  have ins: "sum_list (map (\<lambda>txin. (32 + 4 + 4 + length_varint (word_of_nat (length (ti_sig_script txin))) +
      length (ti_sig_script txin)) * 4) ts) = 4 * length (concat (map TxIn_serialize ts))"
    if "list_all TxIn_ok ts" for ts
    using that by (induction ts) (simp_all add: length_TxIn_serialize)
  have outs: "sum_list (map (\<lambda>txout. (8 + length_varint (word_of_nat (length (to_script txout))) +
      length (to_script txout)) * 4) ts) = 4 * length (concat (map TxOut_serialize ts))" for ts
    by (induction ts) (simp_all add: TxOut_serialized_length_def Let_def)
  have wits: "sum_list (map length ws) = length (concat ws)" for ws :: "bytes list"
    by (simp add: length_concat)
  show ?thesis
    unfolding calculate_tx_size_wus_def Let_def ins [OF assms] outs wits
    by (rule arg_cong [where f = word_of_nat])
      (cases "tx_witness_data tx"; simp add: tx_legacy_def Tx_serialize_def serialize_array_def
        del: length_concat)
qed

lemma last_push_single:
  assumes "length d < 2 ^ 32"
  shows "last_push (append_byte_array [] d) l = Some (Some d)"
proof -
  have "\<not> OP_16 < push_opcode (length d)"
    using push_opcode_le [of "length d"] by (simp add: opcode_defs word_less_nat_alt)
  then show ?thesis
    using push_reads_back [OF assms, of "[]"]
    by (subst last_push.simps) (simp add: last_push.simps [of "[]"])
qed

lemma script_hash_shape:
  assumes "length h = 20"
  shows "append_item [OP_HASH160] (ByteArray h) @ [OP_EQUAL] = OP_HASH160 # 0x14 # h @ [OP_EQUAL]"
  using assms by (simp add: append_item_def append_byte_array_def append_data_size_def opcode_defs)

text \<open>
  An input that pays to a script hash and whose signature script pushes the redeem script
  counts as the accurate number of signature operations of the redeem script.
\<close>

lemma p2sh_counts_redeem_script:
  assumes "\<forall>b. length (ripemd b) = 20" and "length redeem < 2 ^ 32"
  shows "get_sigop_count2 (get_script_for_destination sha ripemd (ScriptHash redeem))
      (append_item [] (ByteArray redeem)) = get_sigop_count redeem True"
proof -
  let ?h = "hash160 sha ripemd redeem"
  have h: "length ?h = 20" using assms(1) by (simp add: hash160_def)
  have "is_pay_to_script_hash (OP_HASH160 # 0x14 # ?h @ [OP_EQUAL])"
    using h by (simp add: is_pay_to_script_hash_def nth_append)
  then show ?thesis
    using last_push_single [OF assms(2)]
    by (simp add: get_sigop_count2_def script_hash_shape [OF h] append_item_def [of "[]"])
qed

text \<open>
  A witness whose component count is zero in a non-minimal encoding passes the decoder of
  transactions but makes the signature operation count of a script-hash output panic: the code
  only recognises an empty witness by its first byte.
\<close>

lemma nonminimal_empty_witness_panics:
  assumes "length program = 32"
  shows "deserialize_array_of_varstr_as_varstr [0xFD, 0x00, 0x00] = Ok ([0xFD, 0x00, 0x00], 3) \<and>
    witness_sigops 0 program [0xFD, 0x00, 0x00] = Panic"
proof -
  have v: "deserialize_varint [0xFD, 0x00, 0x00] = Ok (0, 3)"
    by (simp add: deserialize_varint_def get_u16_le_def get_range_def u16_from_le_bytes_def)
  show ?thesis using assms
    by (simp add: deserialize_array_of_varstr_as_varstr_def v get_range_def witness_sigops_def
        WITNESS_V0_KEYHASH_SIZE_def WITNESS_V0_SCRIPTHASH_SIZE_def deserialize_array_of_varsrs_iter_def
        VarStrIter_collect.simps VarStrIter_next_def)
qed

end
