(* ===== verification/TxAnalysis.thy ===== *)
theory TxAnalysis
  imports Script Chain "HOL-Library.List_Lexorder" "HOL-Library.Multiset"
begin

text \<open>
  Analysis of a transaction (\<open>src/src/tx/mod.rs\<close>): its fee, size and signature operations and the
  three records that are stored for it, and the classification of output scripts into addresses.

  The arena is shared by several tasks in the code; here its allocations are not interfered with.
  \<open>slice::sort_unstable_by\<close> is the parameter \<open>srt\<close>, of which only the documented behaviour is used:
  the result is a sorted permutation.  \<open>hex\<close>, \<open>bs58\<close> and \<open>bech32\<close> are the encoders of the crates of that
  name.
\<close>

section \<open>Writing into a slice\<close>

text \<open>\<open>serialize_varint_into_slice(v, &mut s[offset..])\<close>.\<close>

definition put_varint_at :: "bytes \<Rightarrow> usize \<Rightarrow> VarInt \<Rightarrow> (bytes \<times> usize) res" where
  "put_varint_at s offset v =
     (if length s < offset then Panic
      else res_bind (serialize_varint_into_slice v (drop offset s)) (\<lambda>(rest, n).
        Ok (take offset s @ rest, n)))"

text \<open>Filling an array of zeros from the left.\<close>

lemma put_fill:
  assumes "length p = i" "length v \<le> n"
  shows "put_slice_at (p @ replicate n 0) i v = Ok (p @ v @ replicate (n - length v) 0)"
  using assms by (simp add: put_slice_at_def)

lemma put_varint_fill:
  assumes "length p = i" "length_varint v \<le> n"
  shows "put_varint_at (p @ replicate n 0) i v =
    Ok (p @ fst (serialize_varint v) @ replicate (n - length_varint v) 0, length_varint v)"
  using assms by (simp add: put_varint_at_def serialize_varint_into_slice_eq)

section \<open>Addresses in scripts\<close>

definition get_p2pk_address :: "bytes \<Rightarrow> bytes option" where
  "get_p2pk_address script =
     (if length script = 67 \<and> script ! 0 = 0x41 \<and> script ! 66 = OP_CHECKSIG then get_range script 1 66
      else if length script = 35 \<and> script ! 0 = 0x21 \<and> script ! 34 = OP_CHECKSIG
      then get_range script 1 34
      else None)"

definition get_p2sh_address :: "bytes \<Rightarrow> bytes option" where
  "get_p2sh_address script =
     (if length script = 23 \<and> script ! 0 = OP_HASH160 \<and> script ! 1 = 0x14 \<and> script ! 22 = OP_EQUAL
      then get_range script 2 22 else None)"

definition get_p2pkh_address :: "bytes \<Rightarrow> bytes option" where
  "get_p2pkh_address script =
     (if \<not> (length script = 25 \<and> script ! 0 = OP_DUP \<and> script ! 1 = OP_HASH160 \<and> script ! 2 = 0x14 \<and>
            script ! 23 = OP_EQUALVERIFY \<and> script ! 24 = OP_CHECKSIG)
      then None else get_range script 3 23)"

definition get_bech32_address :: "bytes \<Rightarrow> bytes option" where
  "get_bech32_address script =
     (if length script = 22 \<and> script ! 0 = OP_0 \<and> script ! 1 = 0x14 then get_from script 2
      else if length script = 34 \<and> script ! 0 = OP_0 \<and> script ! 1 = 0x20 then get_from script 2
      else if length script = 34 \<and> script ! 0 = OP_1 \<and> script ! 1 = 0x20 then get_from script 2
      else None)"

definition script_has_address :: "bytes \<Rightarrow> bool" where
  "script_has_address script \<longleftrightarrow>
     (if get_p2pk_address script \<noteq> None then True
      else if get_p2sh_address script \<noteq> None then True
      else if get_p2pkh_address script \<noteq> None then True
      else if get_bech32_address script \<noteq> None then True
      else False)"

text \<open>
  The encoders: \<open>hex::encode\<close>, \<open>bs58::encode(..).with_check_version(v)\<close>, and \<open>bech32::segwit::encode_v0\<close>
  and \<open>encode_v1\<close> for the main network, which can fail.
\<close>

record encoders =
  enc_hex :: "bytes \<Rightarrow> rust_string"
  enc_bs58 :: "u8 \<Rightarrow> bytes \<Rightarrow> rust_string"
  enc_v0 :: "bytes \<Rightarrow> rust_string option"
  enc_v1 :: "bytes \<Rightarrow> rust_string option"

definition get_p2pk_address_human :: "encoders \<Rightarrow> bytes \<Rightarrow> Address option" where
  "get_p2pk_address_human E script =
     (if length script = 67 \<and> script ! 0 = 0x41 \<and> script ! 66 = OP_CHECKSIG
      then map_option (\<lambda>s. P2PKFull (enc_hex E s)) (get_range script 1 66)
      else if length script = 35 \<and> script ! 0 = 0x21 \<and> script ! 34 = OP_CHECKSIG
      then map_option (\<lambda>s. P2PKShort (enc_hex E s)) (get_range script 1 34)
      else None)"

definition get_p2sh_address_human :: "encoders \<Rightarrow> bytes \<Rightarrow> Address option" where
  "get_p2sh_address_human E script =
     (if length script = 23 \<and> script ! 0 = OP_HASH160 \<and> script ! 1 = 0x14 \<and> script ! 22 = OP_EQUAL
      then map_option (\<lambda>s. P2SH (enc_bs58 E 0x05 s)) (get_range script 2 22) else None)"

definition get_p2pkh_address_human :: "encoders \<Rightarrow> bytes \<Rightarrow> Address option" where
  "get_p2pkh_address_human E script =
     (if length script = 25 \<and> script ! 0 = OP_DUP \<and> script ! 1 = OP_HASH160 \<and> script ! 2 = 0x14 \<and>
         script ! 23 = OP_EQUALVERIFY \<and> script ! 24 = OP_CHECKSIG
      then map_option (\<lambda>s. P2PKH (enc_bs58 E 0x00 s)) (get_range script 3 23) else None)"

definition get_bech32_address_human :: "encoders \<Rightarrow> bytes \<Rightarrow> Address option res" where
  "get_bech32_address_human E script =
     (if length script = 22 \<and> script ! 0 = OP_0 \<and> script ! 1 = 0x14
      then res_bind (opt_unwrap (enc_v0 E (drop 2 script))) (\<lambda>v. Ok (Some (P2WSH v)))
      else if length script = 34 \<and> script ! 0 = OP_0 \<and> script ! 1 = 0x20
      then res_bind (opt_unwrap (enc_v0 E (drop 2 script))) (\<lambda>v. Ok (Some (P2WPKH v)))
      else if length script = 34 \<and> script ! 0 = OP_1 \<and> script ! 1 = 0x20
      then res_bind (opt_unwrap (enc_v1 E (drop 2 script))) (\<lambda>v. Ok (Some (Taproot v)))
      else Ok None)"

definition get_human_address_from_script :: "encoders \<Rightarrow> bytes \<Rightarrow> Address res" where
  "get_human_address_from_script E script =
     (case get_p2pk_address_human E script of Some p2pk \<Rightarrow> Ok p2pk | None \<Rightarrow>
      case get_p2sh_address_human E script of Some p2sh \<Rightarrow> Ok p2sh | None \<Rightarrow>
      case get_p2pkh_address_human E script of Some p2pkh \<Rightarrow> Ok p2pkh | None \<Rightarrow>
      res_bind (get_bech32_address_human E script) (\<lambda>bech32.
      case bech32 of Some bech32 \<Rightarrow> Ok bech32 | None \<Rightarrow>
      if script \<noteq> [] \<and> script ! 0 = OP_RETURN then Ok OpReturn else Ok Unknown))"

section \<open>Stored records\<close>

record SerializedTx =
  st_hash :: hash32
  st_analyzed_tx :: "bytes option"
  st_tx_outs :: "bytes option"
  st_spent_txos :: "bytes list option"
  st_address_amends :: "(bytes \<times> i64) list option"
  st_fee :: u64
  st_txouts_sum :: u64
  st_size_wus :: u32

definition SerializedTx_default :: SerializedTx where
  "SerializedTx_default = \<lparr>st_hash = EMPTY_HASH, st_analyzed_tx = None, st_tx_outs = None,
     st_spent_txos = None, st_address_amends = None, st_fee = 0, st_txouts_sum = 0, st_size_wus = 0\<rparr>"

record AnalyzedTx =
  an_fee :: u64
  an_txouts_sum :: u64
  an_size_wus :: u32
  an_sigops :: u32
  an_block_hash :: hash32
  an_tx :: Tx
  an_txin_values :: "u64 list"

text \<open>\<open>sz\<close> is the size of \<open>TxInOwned\<close>.\<close>

definition deserialize_analyzed_tx :: "usize \<Rightarrow> bytes \<Rightarrow> hash32 \<Rightarrow> AnalyzedTx res" where
  "deserialize_analyzed_tx sz data hash =
     res_bind (res_unwrap (get_u64_le data 0)) (\<lambda>fee.
     res_bind (res_unwrap (get_u64_le data 8)) (\<lambda>txouts_sum.
     res_bind (res_unwrap (get_u32_le data 16)) (\<lambda>size_wus.
     res_bind (res_unwrap (get_u32_le data 20)) (\<lambda>sigops.
     res_bind (res_unwrap (get_hash data 24)) (\<lambda>block_hash.
     res_bind (res_unwrap (with_offset data 56)) (\<lambda>b.
     res_bind (res_unwrap (deserialize_without_txouts sz b hash)) (\<lambda>(tx, consumed).
     res_bind (res_unwrap (with_offset data (wadd 56 consumed))) (\<lambda>b.
     res_bind (res_unwrap (deserialize_array_owned 8 u64_deserialize_owned b)) (\<lambda>(txin_values, _).
     Ok \<lparr>an_fee = fee, an_txouts_sum = txouts_sum, an_size_wus = size_wus, an_sigops = sigops,
         an_block_hash = block_hash, an_tx = tx, an_txin_values = txin_values\<rparr>)))))))))"

fun put_values :: "usize \<Rightarrow> usize \<Rightarrow> TxOut list \<Rightarrow> bytes \<Rightarrow> bytes res" where
  "put_values base index [] buf = Ok buf"
| "put_values base index (dep # deps) buf =
     res_bind (put_slice_at buf (base + 8 * index) (u64_to_le_bytes (to_value dep))) (\<lambda>buf.
     put_values base (index + 1) deps buf)"

definition put_analyzed ::
  "u64 \<Rightarrow> u64 \<Rightarrow> u32 \<Rightarrow> u32 \<Rightarrow> hash32 \<Rightarrow> Tx \<Rightarrow> TxOut list \<Rightarrow> bytes \<Rightarrow> bytes res" where
  "put_analyzed fee txouts_sum size_wus sigops block_hash tx dependencies buf =
     res_bind (put_slice_at buf 0 (u64_to_le_bytes fee)) (\<lambda>buf.
     res_bind (put_slice_at buf 8 (u64_to_le_bytes txouts_sum)) (\<lambda>buf.
     res_bind (put_slice_at buf 16 (u32_to_le_bytes size_wus)) (\<lambda>buf.
     res_bind (put_slice_at buf 20 (u32_to_le_bytes sigops)) (\<lambda>buf.
     res_bind (put_slice_at buf 24 block_hash) (\<lambda>buf.
     res_bind (put_slice_at buf 56 (serialize_without_txouts tx)) (\<lambda>buf.
     let serialized_tx_size = serialized_without_txouts_size tx in
     res_bind (put_varint_at buf (56 + serialized_tx_size) (word_of_nat (length dependencies)))
       (\<lambda>(buf, size_offset).
     put_values (56 + serialized_tx_size + size_offset) 0 dependencies buf)))))))"

fun put_txouts :: "TxOut list \<Rightarrow> usize \<Rightarrow> bytes \<Rightarrow> (bytes \<times> usize) res" where
  "put_txouts [] offset result = Ok (result, offset)"
| "put_txouts (txout # txouts) offset result =
     res_bind (opt_unwrap (get_from result offset)) (\<lambda>with_offset.
     res_bind (flat_serialize txout with_offset) (\<lambda>(with_offset, n).
     put_txouts txouts (wadd offset n) (take offset result @ with_offset)))"

definition serialize_txouts :: "Tx \<Rightarrow> arena \<Rightarrow> (bytes \<times> arena) res" where
  "serialize_txouts tx a =
     (let count = word_of_nat (length (tx_txouts tx));
          size' = length_varint count + sum_list (map TxOut_serialized_length (tx_txouts tx)) in
      res_bind (try_alloc_array_fill_copy (1, 1) a size' 0 []) (\<lambda>(_, result, a).
      res_bind (serialize_varint_into_slice count result) (\<lambda>(result, offset).
      res_bind (put_txouts (tx_txouts tx) offset result) (\<lambda>(result, offset).
      Ok (result, a)))))"

fun push_spends :: "layouts \<Rightarrow> TxIn list \<Rightarrow> bytes arena_array \<Rightarrow> arena \<Rightarrow> (bytes arena_array \<times> arena) res" where
  "push_spends L [] result a = Ok (result, a)"
| "push_spends L (txin # txins) result a =
     res_bind (try_alloc (L TySpend) a []) (\<lambda>(_, a).
     res_bind (put_slice_at (replicate 36 0) 0 (ti_prevout_hash txin)) (\<lambda>key.
     res_bind (put_slice_at key 32 (u32_to_le_bytes (ti_prevout_index txin))) (\<lambda>key.
     res_bind (ArenaArray_push result key) (\<lambda>result.
     push_spends L txins result a))))"

definition serialize_spends :: "layouts \<Rightarrow> Tx \<Rightarrow> arena \<Rightarrow> (bytes list \<times> arena) res" where
  "serialize_spends L tx a =
     res_bind (try_alloc_arenaarray (L TySpendRef) a (length (tx_txins tx)) []) (\<lambda>(result, a).
     res_bind (push_spends L (tx_txins tx) result a) (\<lambda>(result, a).
     Ok (into_arena_array result, a)))"

section \<open>Address records\<close>

text \<open>The key of an address record: the address, the inverted time stamp and the transaction.\<close>

definition copy_address_key :: "bytes \<Rightarrow> u64 \<Rightarrow> hash32 \<Rightarrow> arena \<Rightarrow> (bytes \<times> arena) res" where
  "copy_address_key address timestamp txhash a =
     res_bind (try_alloc_array_fill_copy (1, 1) a (length address + 8 + 32) 0 []) (\<lambda>(_, key, a).
     res_bind (put_slice_at key 0 address) (\<lambda>key.
     res_bind (put_slice_at key (length address) (u64_to_be_bytes timestamp)) (\<lambda>key.
     res_bind (put_slice_at key (length address + 8) txhash) (\<lambda>key.
     if length txhash \<noteq> 32 then Panic else Ok (key, a)))))"

definition get_address_from_script_copy_into_arena_with_txhash ::
  "bytes \<Rightarrow> hash32 \<Rightarrow> u64 \<Rightarrow> arena \<Rightarrow> (bytes option \<times> arena) res" where
  "get_address_from_script_copy_into_arena_with_txhash script txhash timestamp a =
     (let timestamp = 0xFFFFFFFFFFFFFFFF - timestamp;
          copy = (\<lambda>address. res_bind (copy_address_key address timestamp txhash a) (\<lambda>(key, a). Ok (Some key, a))) in
      case get_p2pk_address script of Some p2pk \<Rightarrow> copy p2pk | None \<Rightarrow>
      case get_p2sh_address script of Some p2sh \<Rightarrow> copy p2sh | None \<Rightarrow>
      case get_p2pkh_address script of Some p2pkh \<Rightarrow> copy p2pkh | None \<Rightarrow>
      case get_bech32_address script of Some bech32 \<Rightarrow> copy bech32 | None \<Rightarrow>
      Ok (None, a))"

fun push_amends ::
  "(u64 \<Rightarrow> i64) \<Rightarrow> hash32 \<Rightarrow> u64 \<Rightarrow> TxOut list \<Rightarrow> (bytes \<times> i64) arena_array \<Rightarrow> arena \<Rightarrow>
   ((bytes \<times> i64) arena_array \<times> arena) res" where
  "push_amends delta txhash timestamp [] amends a = Ok (amends, a)"
| "push_amends delta txhash timestamp (txout # txouts) amends a =
     res_bind (get_address_from_script_copy_into_arena_with_txhash (to_script txout) txhash timestamp a)
       (\<lambda>(address_bytes, a).
     case address_bytes of
       None \<Rightarrow> push_amends delta txhash timestamp txouts amends a
     | Some address_bytes \<Rightarrow>
         res_bind (ArenaArray_push amends (address_bytes, delta (to_value txout))) (\<lambda>amends.
         push_amends delta txhash timestamp txouts amends a))"

definition serialize_address_amends ::
  "((bytes \<times> i64) list \<Rightarrow> (bytes \<times> i64) list) \<Rightarrow> layouts \<Rightarrow> Tx \<Rightarrow> TxOut list \<Rightarrow> u64 \<Rightarrow> arena \<Rightarrow>
   ((bytes \<times> i64) list option \<times> arena) res" where
  "serialize_address_amends srt L tx deps timestamp a =
     (let with_address = (\<lambda>txouts. length (filter (\<lambda>txout. script_has_address (to_script txout)) txouts));
          amends_count = (if is_coinbase tx then 0 else with_address deps) + with_address (tx_txouts tx) in
      if amends_count = 0 then Ok (None, a)
      else
        res_bind (try_alloc_arenaarray (L TyAddressAmend) a amends_count []) (\<lambda>(amends, a).
        res_bind (push_amends uminus (tx_hash tx) timestamp deps amends a) (\<lambda>(amends, a).
        res_bind (push_amends id (tx_hash tx) timestamp (tx_txouts tx) amends a) (\<lambda>(amends, a).
        Ok (Some (srt (into_arena_array amends)), a)))))"

definition analyze_tx ::
  "((bytes \<times> i64) list \<Rightarrow> (bytes \<times> i64) list) \<Rightarrow> layouts \<Rightarrow> hash32 \<Rightarrow> Tx \<Rightarrow> TxOut list \<Rightarrow> u64 \<Rightarrow> arena \<Rightarrow>
   (SerializedTx \<times> arena) res" where
  "analyze_tx srt L block_hash tx dependencies timestamp a =
     (let fee = (if is_coinbase tx then 0 else calculate_fee tx dependencies);
          txouts_sum = sum_list (map to_value (tx_txouts tx));
          size_wus = calculate_tx_size_wus tx;
          flags = (if tx_witness_data tx \<noteq> None then SCRIPT_VERIFY_P2SH OR SCRIPT_VERIFY_WITNESS
            else SCRIPT_VERIFY_P2SH) in
      res_bind (get_transaction_sigop_cost tx dependencies flags) (\<lambda>sigops.
      let txin_values_size = length_varint (word_of_nat (length dependencies)) + length dependencies * 8;
          serialized_tx_size = serialized_without_txouts_size tx in
      res_bind (try_alloc_array_fill_copy (1, 1) a
          (serialized_tx_size + 8 + 8 + 4 + 4 + 8 + 32 + txin_values_size) 0 []) (\<lambda>(_, analyzed_tx, a).
      res_bind (put_analyzed fee txouts_sum size_wus sigops block_hash tx dependencies analyzed_tx)
        (\<lambda>analyzed_tx.
      res_bind (serialize_txouts tx a) (\<lambda>(tx_outs, a).
      res_bind (if is_coinbase tx then Ok (None, a)
                else res_bind (serialize_spends L tx a) (\<lambda>(s, a). Ok (Some s, a))) (\<lambda>(spent_txos, a).
      res_bind (serialize_address_amends srt L tx dependencies timestamp a) (\<lambda>(address_amends, a).
      Ok (\<lparr>st_hash = tx_hash tx, st_analyzed_tx = Some analyzed_tx, st_tx_outs = Some tx_outs,
           st_spent_txos = spent_txos, st_address_amends = address_amends, st_fee = fee,
           st_txouts_sum = txouts_sum, st_size_wus = size_wus\<rparr>, a))))))))"

section \<open>The stored records decode to the analysis\<close>

lemma put_values_fill:
  "length p = base + 8 * index \<Longrightarrow> 8 * length deps \<le> n \<Longrightarrow>
   put_values base index deps (p @ replicate n 0) =
     Ok (p @ concat (map (u64_to_le_bytes \<circ> to_value) deps) @ replicate (n - 8 * length deps) 0)"
proof (induction deps arbitrary: p index n)
  case (Cons dep deps)
  have "put_slice_at (p @ replicate n 0) (base + 8 * index) (u64_to_le_bytes (to_value dep)) =
      Ok ((p @ u64_to_le_bytes (to_value dep)) @ replicate (n - 8) 0)"
    using Cons.prems by (simp add: put_fill)
  then show ?case
    using Cons.IH [of "p @ u64_to_le_bytes (to_value dep)" "index + 1" "n - 8"] Cons.prems by simp
qed simp

definition analyzed_record ::
  "u64 \<Rightarrow> u64 \<Rightarrow> u32 \<Rightarrow> u32 \<Rightarrow> hash32 \<Rightarrow> Tx \<Rightarrow> TxOut list \<Rightarrow> bytes" where
  "analyzed_record fee txouts_sum size_wus sigops block_hash tx deps =
     u64_to_le_bytes fee @ u64_to_le_bytes txouts_sum @ u32_to_le_bytes size_wus @ u32_to_le_bytes sigops @
     block_hash @ serialize_without_txouts tx @ serialize_array u64_to_le_bytes (map to_value deps)"

definition analyzed_size :: "Tx \<Rightarrow> TxOut list \<Rightarrow> usize" where
  "analyzed_size tx deps = serialized_without_txouts_size tx + 8 + 8 + 4 + 4 + 8 + 32 +
     (length_varint (word_of_nat (length deps)) + length deps * 8)"

text \<open>The eight bytes reserved for a block number that is not written remain zero at the end.\<close>

lemma put_analyzed_eq:
  assumes "list_all TxIn_ok (tx_txins tx)" "length block_hash = 32"
  shows "put_analyzed fee txouts_sum size_wus sigops block_hash tx deps (replicate (analyzed_size tx deps) 0) =
    Ok (analyzed_record fee txouts_sum size_wus sigops block_hash tx deps @ replicate 8 0)"
proof -
  let ?s = "serialize_without_txouts tx" and ?n = "serialized_without_txouts_size tx"
  let ?c = "word_of_nat (length deps) :: u64"
  have s: "length ?s = ?n" by (rule length_serialize_without_txouts [OF assms(1)])
  define p1 where "p1 = u64_to_le_bytes fee"
  define p2 where "p2 = p1 @ u64_to_le_bytes txouts_sum"
  define p3 where "p3 = p2 @ u32_to_le_bytes size_wus"
  define p4 where "p4 = p3 @ u32_to_le_bytes sigops"
  define p5 where "p5 = p4 @ block_hash"
  define p6 where "p6 = p5 @ ?s"
  define p7 where "p7 = p6 @ fst (serialize_varint ?c)"
  define m where "m = length_varint ?c + 8 * length deps + 8"
  have lens: "length p1 = 8" "length p2 = 16" "length p3 = 20" "length p4 = 24" "length p5 = 56"
    "length p6 = 56 + ?n" "length p7 = 56 + ?n + length_varint ?c"
    using assms(2) s by (simp_all add: p1_def p2_def p3_def p4_def p5_def p6_def p7_def)
  have total: "analyzed_size tx deps = 56 + ?n + m" by (simp add: analyzed_size_def m_def)
  have w1: "put_slice_at (replicate (56 + ?n + m) 0) 0 (u64_to_le_bytes fee) = Ok (p1 @ replicate (48 + ?n + m) 0)"
    using put_fill [of "[]" 0 "u64_to_le_bytes fee" "56 + ?n + m"] by (simp add: p1_def)
  have w2: "put_slice_at (p1 @ replicate (48 + ?n + m) 0) 8 (u64_to_le_bytes txouts_sum) =
      Ok (p2 @ replicate (40 + ?n + m) 0)" using put_fill [OF lens(1)] by (simp add: p2_def)
  have w3: "put_slice_at (p2 @ replicate (40 + ?n + m) 0) 16 (u32_to_le_bytes size_wus) =
      Ok (p3 @ replicate (36 + ?n + m) 0)" using put_fill [OF lens(2)] by (simp add: p3_def)
  have w4: "put_slice_at (p3 @ replicate (36 + ?n + m) 0) 20 (u32_to_le_bytes sigops) =
      Ok (p4 @ replicate (32 + ?n + m) 0)" using put_fill [OF lens(3)] by (simp add: p4_def)
  have w5: "put_slice_at (p4 @ replicate (32 + ?n + m) 0) 24 block_hash = Ok (p5 @ replicate (?n + m) 0)"
    using put_fill [OF lens(4)] assms(2) by (simp add: p5_def)
  have w6: "put_slice_at (p5 @ replicate (?n + m) 0) 56 ?s = Ok (p6 @ replicate m 0)"
    using put_fill [OF lens(5)] s by (simp add: p6_def)
  have w7: "put_varint_at (p6 @ replicate m 0) (56 + ?n) ?c = Ok (p7 @ replicate (8 * length deps + 8) 0, length_varint ?c)"
    using put_varint_fill [OF lens(6), of ?c m] by (simp add: p7_def m_def)
  have w8: "put_values (56 + ?n + length_varint ?c) 0 deps (p7 @ replicate (8 * length deps + 8) 0) =
      Ok (p7 @ concat (map (u64_to_le_bytes \<circ> to_value) deps) @ replicate 8 0)"
    using put_values_fill [of p7 "56 + ?n + length_varint ?c" 0 deps] lens(7) by simp
  show ?thesis
    unfolding put_analyzed_def total w1 res_bind_simps w2 w3 w4 w5 w6 Let_def w7 split_conv w8
    by (simp add: analyzed_record_def serialize_array_def p1_def p2_def p3_def p4_def p5_def p6_def p7_def)
qed

lemma get_u64_le_at:
  "length p = i \<Longrightarrow> i + 8 < 2 ^ 64 \<Longrightarrow> get_u64_le (p @ u64_to_le_bytes w @ r) i = Ok w"
  by (auto simp: get_u64_le_def get_range_def)

lemma get_u32_le_at:
  "length p = i \<Longrightarrow> i + 4 < 2 ^ 64 \<Longrightarrow> get_u32_le (p @ u32_to_le_bytes w @ r) i = Ok w"
  by (auto simp: get_u32_le_mid)

lemma analyzed_record_decodes:
  assumes "Tx_ok sha tx" "length block_hash = 32" "length deps < 2 ^ 59"
    and "length (serialize_without_txouts tx) + sz * length (tx_txins tx) < 2 ^ 61"
  shows "deserialize_analyzed_tx sz
      (analyzed_record fee txouts_sum size_wus sigops block_hash tx deps @ replicate 8 0) (tx_hash tx) =
    Ok \<lparr>an_fee = fee, an_txouts_sum = txouts_sum, an_size_wus = size_wus, an_sigops = sigops,
      an_block_hash = block_hash, an_tx = tx\<lparr>tx_txouts := [], tx_witness_hash := EMPTY_HASH\<rparr>,
      an_txin_values = map to_value deps\<rparr>"
proof -
  let ?s = "serialize_without_txouts tx" and ?v = "serialize_array u64_to_le_bytes (map to_value deps)"
  define F where "F = u64_to_le_bytes fee"
  define S where "S = u64_to_le_bytes txouts_sum"
  define W where "W = u32_to_le_bytes size_wus"
  define G where "G = u32_to_le_bytes sigops"
  have lens: "length F = 8" "length S = 8" "length W = 4" "length G = 4" by (simp_all add: F_def S_def W_def G_def)
  define z where "z = ?v @ replicate 8 (0 :: u8)"
  define r where "r = block_hash @ ?s @ z"
  let ?d = "F @ S @ W @ G @ block_hash @ ?s @ z"
  have lv: "length ?v \<le> 9 + 8 * length deps"
  proof -
    have "length (concat (map u64_to_le_bytes xs)) = 8 * length xs" for xs :: "u64 list" by (induction xs) simp_all
    from this [of "map to_value deps"] show ?thesis
      using length_varint_bounds [of "word_of_nat (length deps)"] by (simp add: serialize_array_def)
  qed
  have small: "length (?s @ z) < 2 ^ 63" using assms(3,4) lv by (simp add: z_def)
  have 1: "get_u64_le ?d 0 = Ok fee" using get_u64_le_at [of "[]" 0] by (simp add: F_def)
  have 2: "get_u64_le ?d 8 = Ok txouts_sum" using get_u64_le_at [OF lens(1)] by (simp add: S_def)
  have 3: "get_u32_le ?d 16 = Ok size_wus" using get_u32_le_at [of "F @ S" 16] lens by (simp add: W_def)
  have 4: "get_u32_le ?d 20 = Ok sigops" using get_u32_le_at [of "F @ S @ W" 20] lens by (simp add: G_def)
  have 5: "get_hash ?d 24 = Ok block_hash"
    using get_hash_mid [OF assms(2), of "F @ S @ W @ G"] lens by simp
  have 6: "with_offset ?d 56 = Ok (?s @ z)"
    using with_offset_at [of 56 "F @ S @ W @ G @ block_hash"] lens assms(2) by simp
  have 7: "deserialize_without_txouts sz (?s @ z) (tx_hash tx) =
      Ok (tx\<lparr>tx_txouts := [], tx_witness_hash := EMPTY_HASH\<rparr>, length ?s)"
    using without_txouts_decode [OF assms(1) small] assms(4) by simp
  have 8: "with_offset ?d (wadd 56 (length ?s)) = Ok z"
    using with_offset_at [of "56 + length ?s" "F @ S @ W @ G @ block_hash @ ?s" z] lens assms(2,4) by simp
  have 9: "deserialize_array_owned 8 u64_deserialize_owned z = Ok (map to_value deps, length ?v)"
    using u64c.array_owned_decode_encode [of "map to_value deps" 8 "replicate 8 0"] assms(3) small
    by (simp add: z_def list_all_iff)
  show ?thesis
    unfolding deserialize_analyzed_tx_def analyzed_record_def append_assoc
    unfolding F_def [symmetric] S_def [symmetric] W_def [symmetric] G_def [symmetric] z_def [symmetric]
    by (simp only: 1 2 3 4 5 6 7 8 9 unwrap_simps res_bind_simps split_conv)
qed

text \<open>Outputs and spent outputs.\<close>

lemma put_txouts_fill:
  assumes "length p + n < 2 ^ 64" "sum_list (map TxOut_serialized_length txouts) \<le> n"
  shows "put_txouts txouts (length p) (p @ replicate n 0) =
    Ok (p @ concat (map TxOut_serialize txouts) @ replicate (n - sum_list (map TxOut_serialized_length txouts)) 0,
      length p + sum_list (map TxOut_serialized_length txouts))"
  using assms
proof (induction txouts arbitrary: p n)
  case (Cons x txouts)
  let ?l = "TxOut_serialized_length x"
  have "get_from (p @ replicate n 0) (length p) = Some (replicate n (0 :: u8))" by (simp add: get_from_def)
  moreover have "flat_serialize x (replicate n 0) = Ok (TxOut_serialize x @ replicate (n - ?l) 0, ?l)"
    using Cons.prems(2) by (simp add: flat_serialize_eq)
  moreover have "wadd (length p) ?l = length p + ?l" using Cons.prems by simp
  ultimately show ?case
    using Cons.IH [of "p @ TxOut_serialize x" "n - ?l"] Cons.prems by simp
qed simp

definition txouts_size :: "Tx \<Rightarrow> nat" where
  "txouts_size tx = length_varint (word_of_nat (length (tx_txouts tx))) +
     sum_list (map TxOut_serialized_length (tx_txouts tx))"

lemma serialize_txouts_eq:
  assumes "arena_room a (1 + txouts_size tx)"
  obtains a' where "serialize_txouts tx a = Ok (serialize_array TxOut_serialize (tx_txouts tx), a')"
    "arena_after a a' (1 + txouts_size tx)"
proof -
  let ?c = "word_of_nat (length (tx_txouts tx)) :: u64" and ?n = "txouts_size tx"
  have "arena_room a (snd (1, 1) + fst (1, 1) * ?n)" using assms by simp
  then obtain loc a' where a': "try_alloc_array_fill_copy (1, 1) a ?n (0 :: u8) [] = Ok (loc, replicate ?n 0, a')"
    "arena_after a a' (1 + ?n)" by (rule try_alloc_array_room) auto
  have "?n < 2 ^ 63" using assms by (simp add: arena_room_def arena_inv_def)
  then have "put_txouts (tx_txouts tx) (length_varint ?c) (fst (serialize_varint ?c) @
      replicate (?n - length_varint ?c) 0) =
    Ok (fst (serialize_varint ?c) @ concat (map TxOut_serialize (tx_txouts tx)), ?n)"
    using put_txouts_fill [of "fst (serialize_varint ?c)" "?n - length_varint ?c" "tx_txouts tx"]
    by (simp add: txouts_size_def)
  moreover have "serialize_varint_into_slice ?c (replicate ?n 0) =
      Ok (fst (serialize_varint ?c) @ replicate (?n - length_varint ?c) 0, length_varint ?c)"
    by (simp add: serialize_varint_into_slice_eq txouts_size_def)
  ultimately have "serialize_txouts tx a = Ok (serialize_array TxOut_serialize (tx_txouts tx), a')"
    using a'(1) by (simp add: serialize_txouts_def Let_def txouts_size_def serialize_array_def)
  then show thesis using that a'(2) by blast
qed

definition spend_key :: "TxIn \<Rightarrow> bytes" where
  "spend_key txin = ti_prevout_hash txin @ u32_to_le_bytes (ti_prevout_index txin)"

lemma put_spend_key:
  assumes "length (ti_prevout_hash txin) = 32"
  shows "res_bind (put_slice_at (replicate 36 0) 0 (ti_prevout_hash txin)) (\<lambda>key.
    put_slice_at key 32 (u32_to_le_bytes (ti_prevout_index txin))) = Ok (spend_key txin)"
  using put_fill [of "[]" 0 "ti_prevout_hash txin" 36]
    put_fill [OF assms, of "u32_to_le_bytes (ti_prevout_index txin)" 4] assms
  by (simp add: spend_key_def)

lemma push_spends_eq:
  assumes "list_all TxIn_ok txins" "arena_room a (length txins * (snd (L TySpend) + fst (L TySpend)))"
    "length (aa_items result) + length txins \<le> aa_cap result"
  shows "\<exists>a'. push_spends L txins result a = Ok (result\<lparr>aa_items := aa_items result @ map spend_key txins\<rparr>, a') \<and>
    arena_after a a' (length txins * (snd (L TySpend) + fst (L TySpend)))"
  using assms
proof (induction txins arbitrary: result a)
  case Nil
  then show ?case using arena_roomD by auto
next
  case (Cons txin txins)
  let ?u = "snd (L TySpend) + fst (L TySpend)"
  have room: "arena_room a ?u" "arena_room a (?u + length txins * ?u)"
    using Cons.prems(2) by (auto elim: arena_room_mono)
  obtain loc a1 where a1: "try_alloc (L TySpend) a [] = Ok (loc, a1)" "arena_after a a1 ?u"
    using try_alloc_room [OF room(1)] by blast
  have room1: "arena_room a1 (length txins * ?u)" by (rule arena_room_after [OF room(2) a1(2)])
  let ?r = "result\<lparr>aa_items := aa_items result @ [spend_key txin]\<rparr>"
  obtain a2 where a2: "push_spends L txins ?r a1 = Ok (?r\<lparr>aa_items := aa_items ?r @ map spend_key txins\<rparr>, a2)"
    "arena_after a1 a2 (length txins * ?u)"
    using Cons.IH [OF _ room1, of ?r] Cons.prems(1,3) by auto
  have key: "length (ti_prevout_hash txin) = 32" using Cons.prems(1) by (simp add: TxIn_ok_def)
  have "push_spends L (txin # txins) result a = push_spends L txins ?r a1"
    using a1(1) put_spend_key [OF key] Cons.prems(3)
    by (auto simp: ArenaArray_push_def res_bind_Ok_iff)
  then show ?case using a2 arena_after_trans [OF a1(2) a2(2)] by auto
qed

definition spends_need :: "layouts \<Rightarrow> Tx \<Rightarrow> nat" where
  "spends_need L tx = (snd (L TySpendRef) + fst (L TySpendRef) * length (tx_txins tx)) +
     length (tx_txins tx) * (snd (L TySpend) + fst (L TySpend))"

lemma serialize_spends_eq:
  assumes "list_all TxIn_ok (tx_txins tx)" "arena_room a (spends_need L tx)"
  obtains a' where "serialize_spends L tx a = Ok (map spend_key (tx_txins tx), a')"
    "arena_after a a' (spends_need L tx)"
proof -
  let ?n = "length (tx_txins tx)"
  have room: "arena_room a (snd (L TySpendRef) + fst (L TySpendRef) * ?n)"
    using assms(2) unfolding spends_need_def by (rule arena_room_mono) simp
  obtain a1 where a1: "try_alloc_arenaarray (L TySpendRef) a ?n [] = Ok (ArenaArray_from_raw_parts ?n :: bytes arena_array, a1)"
    "arena_after a a1 (snd (L TySpendRef) + fst (L TySpendRef) * ?n)"
    using try_alloc_arenaarray_room [OF room] by blast
  have room1: "arena_room a1 (?n * (snd (L TySpend) + fst (L TySpend)))"
    using arena_room_after [OF _ a1(2)] assms(2) unfolding spends_need_def by blast
  obtain a2 where a2: "push_spends L (tx_txins tx) (ArenaArray_from_raw_parts ?n) a1 =
      Ok ((ArenaArray_from_raw_parts ?n)\<lparr>aa_items := map spend_key (tx_txins tx)\<rparr>, a2)"
    "arena_after a1 a2 (?n * (snd (L TySpend) + fst (L TySpend)))"
    using push_spends_eq [where L = L, OF assms(1) room1, of "ArenaArray_from_raw_parts ?n"]
    by (auto simp: ArenaArray_from_raw_parts_def)
  have "serialize_spends L tx a = Ok (map spend_key (tx_txins tx), a2)"
    using a1(1) a2(1) by (simp add: serialize_spends_def into_arena_array_def)
  then show thesis using that arena_after_trans [OF a1(2) a2(2)] unfolding spends_need_def by blast
qed

section \<open>Address records\<close>

text \<open>The address bytes of an output script, whichever kind it is.\<close>

definition script_address :: "bytes \<Rightarrow> bytes option" where
  "script_address script =
     (case get_p2pk_address script of Some p2pk \<Rightarrow> Some p2pk | None \<Rightarrow>
      case get_p2sh_address script of Some p2sh \<Rightarrow> Some p2sh | None \<Rightarrow>
      case get_p2pkh_address script of Some p2pkh \<Rightarrow> Some p2pkh | None \<Rightarrow> get_bech32_address script)"

lemma script_has_address_eq: "script_has_address script \<longleftrightarrow> script_address script \<noteq> None"
  by (simp add: script_has_address_def script_address_def split: option.split)

lemma script_address_length: "script_address script = Some address \<Longrightarrow> length address \<in> {20, 32, 33, 65}"
  by (auto simp: script_address_def get_p2pk_address_def get_p2sh_address_def get_p2pkh_address_def
      get_bech32_address_def get_range_def get_from_def split: option.splits if_splits)

definition address_key :: "bytes \<Rightarrow> u64 \<Rightarrow> hash32 \<Rightarrow> bytes" where
  "address_key address timestamp txhash =
     address @ u64_to_be_bytes (0xFFFFFFFFFFFFFFFF - timestamp) @ txhash"

definition key_need :: nat where "key_need = 106"

lemma copy_address_key_eq:
  assumes "arena_room a key_need" "length address \<le> 65" "length txhash = 32"
  obtains a' where "copy_address_key address ts txhash a = Ok (address @ u64_to_be_bytes ts @ txhash, a')"
    "arena_after a a' key_need"
proof -
  let ?n = "length address + 8 + 32"
  have "arena_room a (snd (1, 1) + fst (1, 1) * ?n)"
    using arena_room_mono [OF assms(1), of "1 + ?n"] assms(2) by (simp add: key_need_def)
  then obtain loc a' where a': "try_alloc_array_fill_copy (1, 1) a ?n (0 :: u8) [] = Ok (loc, replicate ?n 0, a')"
    "arena_after a a' (1 + ?n)" by (rule try_alloc_array_room) auto
  have w1: "put_slice_at (replicate ?n 0) 0 address = Ok (address @ replicate 40 0)"
    using put_fill [of "[]" 0 address ?n] by simp
  have w2: "put_slice_at (address @ replicate 40 0) (length address) (u64_to_be_bytes ts) =
      Ok ((address @ u64_to_be_bytes ts) @ replicate 32 0)"
    using put_fill [of address "length address" "u64_to_be_bytes ts" 40] by simp
  have w3: "put_slice_at ((address @ u64_to_be_bytes ts) @ replicate 32 0) (length address + 8) txhash =
      Ok (address @ u64_to_be_bytes ts @ txhash)"
    using put_fill [of "address @ u64_to_be_bytes ts" "length address + 8" txhash 32] assms(3) by simp
  have "copy_address_key address ts txhash a = Ok (address @ u64_to_be_bytes ts @ txhash, a')"
    using a'(1) w1 w2 w3 assms(3) by (simp add: copy_address_key_def)
  moreover have "arena_after a a' key_need"
    using arena_after_mono [OF a'(2)] assms(2) by (simp add: key_need_def)
  ultimately show thesis by (rule that)
qed

lemma get_address_copy_eq:
  assumes "arena_room a key_need" "length txhash = 32"
  obtains a' where "get_address_from_script_copy_into_arena_with_txhash script txhash ts a =
      Ok (map_option (\<lambda>address. address_key address ts txhash) (script_address script), a')"
    "arena_after a a' key_need"
proof -
  have eq: "get_address_from_script_copy_into_arena_with_txhash script txhash ts a =
      (case script_address script of None \<Rightarrow> Ok (None, a)
       | Some address \<Rightarrow> res_bind (copy_address_key address (0xFFFFFFFFFFFFFFFF - ts) txhash a)
           (\<lambda>(key, a). Ok (Some key, a)))"
    unfolding get_address_from_script_copy_into_arena_with_txhash_def script_address_def Let_def
    by (simp split: option.split)
  show thesis
  proof (cases "script_address script")
    case None
    then show thesis using that [of a] eq arena_roomD [OF assms(1)] by simp
  next
    case (Some address)
    then have "length address \<le> 65" using script_address_length by fastforce
    from copy_address_key_eq [OF assms(1) this assms(2)] obtain a' where
      "copy_address_key address (0xFFFFFFFFFFFFFFFF - ts) txhash a =
        Ok (address @ u64_to_be_bytes (0xFFFFFFFFFFFFFFFF - ts) @ txhash, a')" "arena_after a a' key_need"
      by blast
    then show thesis using that [of a'] eq Some by (simp add: address_key_def)
  qed
qed

lemma copy_address_key_result:
  assumes "copy_address_key address ts txhash a = Ok (key, a')"
  shows "key = address @ u64_to_be_bytes ts @ txhash"
proof -
  have "key = address @ u64_to_be_bytes ts @ txhash" if "put_slice_at (replicate (length address + 40) 0) 0 address = Ok k1"
    "put_slice_at k1 (length address) (u64_to_be_bytes ts) = Ok k2"
    "put_slice_at k2 (length address + 8) txhash = Ok key" "length txhash = 32" for k1 k2
    using that by (auto simp: put_slice_at_def split: if_splits)
  then show ?thesis using assms
    by (auto simp: copy_address_key_def try_alloc_array_fill_copy_def res_bind_Ok_iff add.commute split: if_splits)
qed

lemma get_address_copy_result:
  assumes "get_address_from_script_copy_into_arena_with_txhash script txhash ts a = Ok (Some key, a')"
  shows "\<exists>address. script_address script = Some address \<and> key = address_key address ts txhash"
  using assms unfolding get_address_from_script_copy_into_arena_with_txhash_def Let_def
  by (auto simp: script_address_def address_key_def res_bind_Ok_iff dest!: copy_address_key_result
      split: option.splits)

definition amends_of :: "(u64 \<Rightarrow> i64) \<Rightarrow> hash32 \<Rightarrow> u64 \<Rightarrow> TxOut list \<Rightarrow> (bytes \<times> i64) list" where
  "amends_of delta txhash ts txouts =
     List.map_filter (\<lambda>x. map_option (\<lambda>address. (address_key address ts txhash, delta (to_value x)))
       (script_address (to_script x))) txouts"

lemma push_amends_eq:
  assumes "length txhash = 32" "arena_room a (length txouts * key_need)"
    and "length (aa_items amends) + length (amends_of delta txhash ts txouts) \<le> aa_cap amends"
  shows "\<exists>a'. push_amends delta txhash ts txouts amends a =
      Ok (amends\<lparr>aa_items := aa_items amends @ amends_of delta txhash ts txouts\<rparr>, a') \<and>
    arena_after a a' (length txouts * key_need)"
  using assms(2,3)
proof (induction txouts arbitrary: amends a)
  case Nil
  then show ?case using arena_roomD by (auto simp: amends_of_def map_filter_simps)
next
  case (Cons x txouts)
  have room: "arena_room a key_need" "arena_room a (key_need + length txouts * key_need)"
    using Cons.prems(1) by (auto elim: arena_room_mono)
  obtain a1 where a1: "get_address_from_script_copy_into_arena_with_txhash (to_script x) txhash ts a =
      Ok (map_option (\<lambda>address. address_key address ts txhash) (script_address (to_script x)), a1)"
    "arena_after a a1 key_need" using get_address_copy_eq [OF room(1) assms(1)] by blast
  have room1: "arena_room a1 (length txouts * key_need)" by (rule arena_room_after [OF room(2) a1(2)])
  show ?case
  proof (cases "script_address (to_script x)")
    case None
    then show ?thesis using Cons.IH [OF room1, of amends] Cons.prems(2) a1 arena_after_trans [OF a1(2)]
      by (fastforce simp: amends_of_def map_filter_simps)
  next
    case (Some address)
    let ?r = "amends\<lparr>aa_items := aa_items amends @ [(address_key address ts txhash, delta (to_value x))]\<rparr>"
    have hd: "amends_of delta txhash ts (x # txouts) =
        (address_key address ts txhash, delta (to_value x)) # amends_of delta txhash ts txouts"
      using Some by (simp add: amends_of_def map_filter_simps)
    obtain a2 where "push_amends delta txhash ts txouts ?r a1 =
        Ok (?r\<lparr>aa_items := aa_items ?r @ amends_of delta txhash ts txouts\<rparr>, a2)"
      "arena_after a1 a2 (length txouts * key_need)"
      using Cons.IH [OF room1, of ?r] Cons.prems(2) hd by auto
    moreover have "push_amends delta txhash ts (x # txouts) amends a = push_amends delta txhash ts txouts ?r a1"
      using a1(1) Some Cons.prems(2) hd by (simp add: ArenaArray_push_def)
    ultimately show ?thesis using hd arena_after_trans [OF a1(2)] by fastforce
  qed
qed

lemma length_amends_of:
  "length (amends_of delta txhash ts txouts) = length (filter (\<lambda>txout. script_has_address (to_script txout)) txouts)"
  by (induction txouts) (auto simp: amends_of_def map_filter_simps script_has_address_eq split: option.split)

definition amends_need :: "layouts \<Rightarrow> Tx \<Rightarrow> TxOut list \<Rightarrow> nat" where
  "amends_need L tx deps =
     (snd (L TyAddressAmend) + fst (L TyAddressAmend) * (length deps + length (tx_txouts tx))) +
     (length deps * key_need + length (tx_txouts tx) * key_need)"

definition all_amends :: "Tx \<Rightarrow> TxOut list \<Rightarrow> u64 \<Rightarrow> (bytes \<times> i64) list" where
  "all_amends tx deps ts = amends_of uminus (tx_hash tx) ts deps @ amends_of id (tx_hash tx) ts (tx_txouts tx)"

lemma serialize_address_amends_eq:
  assumes "length (tx_hash tx) = 32" "is_coinbase tx \<Longrightarrow> deps = []" "arena_room a (amends_need L tx deps)"
  obtains a' where "serialize_address_amends srt L tx deps ts a =
      Ok (if all_amends tx deps ts = [] then None else Some (srt (all_amends tx deps ts)), a')"
    "arena_after a a' (amends_need L tx deps)"
proof -
  let ?A = "amends_of uminus (tx_hash tx) ts deps" and ?B = "amends_of id (tx_hash tx) ts (tx_txouts tx)"
  define n where "n = length ?A + length ?B"
  have count: "(if is_coinbase tx then 0 else length (filter (\<lambda>txout. script_has_address (to_script txout)) deps)) +
      length (filter (\<lambda>txout. script_has_address (to_script txout)) (tx_txouts tx)) = n"
    using assms(2) by (auto simp: n_def length_amends_of)
  show thesis
  proof (cases "n = 0")
    case True
    then have "all_amends tx deps ts = []" by (simp add: n_def all_amends_def)
    moreover have "serialize_address_amends srt L tx deps ts a = Ok (None, a)"
      using True count by (simp add: serialize_address_amends_def Let_def)
    ultimately show thesis using that [of a] arena_roomD [OF assms(3)] by simp
  next
    case False
    let ?s = "snd (L TyAddressAmend) + fst (L TyAddressAmend) * (length deps + length (tx_txouts tx))"
    have le: "snd (L TyAddressAmend) + fst (L TyAddressAmend) * n \<le> ?s"
    proof -
      have "n \<le> length deps + length (tx_txouts tx)"
        by (simp add: n_def length_amends_of add_mono)
      then show ?thesis by (simp add: mult_le_mono2)
    qed
    have "arena_room a (snd (L TyAddressAmend) + fst (L TyAddressAmend) * n)"
      by (rule arena_room_mono [OF assms(3)]) (use le in \<open>unfold amends_need_def, linarith\<close>)
    then obtain a1 where a1: "try_alloc_arenaarray (L TyAddressAmend) a n [] =
        Ok (ArenaArray_from_raw_parts n :: (bytes \<times> i64) arena_array, a1)"
      "arena_after a a1 (snd (L TyAddressAmend) + fst (L TyAddressAmend) * n)"
      using try_alloc_arenaarray_room by blast
    note after1 = arena_after_mono [OF a1(2) le]
    have room1: "arena_room a1 (length deps * key_need + length (tx_txouts tx) * key_need)"
      using arena_room_after [OF _ after1] assms(3) unfolding amends_need_def by blast
    let ?r = "ArenaArray_from_raw_parts n :: (bytes \<times> i64) arena_array"
    have r: "aa_items ?r = []" "aa_cap ?r = n" by (simp_all add: ArenaArray_from_raw_parts_def)
    obtain a2 where a2: "push_amends uminus (tx_hash tx) ts deps ?r a1 = Ok (?r\<lparr>aa_items := ?A\<rparr>, a2)"
      "arena_after a1 a2 (length deps * key_need)"
      using push_amends_eq [OF assms(1) arena_room_mono [OF room1], of deps ?r uminus ts] r
      by (auto simp: n_def)
    have room2: "arena_room a2 (length (tx_txouts tx) * key_need)" by (rule arena_room_after [OF room1 a2(2)])
    obtain a3 where a3: "push_amends id (tx_hash tx) ts (tx_txouts tx) (?r\<lparr>aa_items := ?A\<rparr>) a2 =
        Ok (?r\<lparr>aa_items := ?A @ ?B\<rparr>, a3)" "arena_after a2 a3 (length (tx_txouts tx) * key_need)"
      using push_amends_eq [OF assms(1) room2, of "?r\<lparr>aa_items := ?A\<rparr>" id ts] r by (auto simp: n_def)
    have "serialize_address_amends srt L tx deps ts a = Ok (Some (srt (?A @ ?B)), a3)"
      unfolding serialize_address_amends_def Let_def count using False a1(1) a2(1) a3(1)
      by (simp add: into_arena_array_def)
    moreover have "arena_after a a3 (amends_need L tx deps)"
      using arena_after_trans [OF after1 arena_after_trans [OF a2(2) a3(2)]] unfolding amends_need_def .
    moreover have "all_amends tx deps ts \<noteq> []" using False by (auto simp: n_def all_amends_def)
    ultimately show thesis using that by (simp add: all_amends_def)
  qed
qed

text \<open>Everything \<open>analyze_tx\<close> returns.\<close>

definition analysis_need :: "layouts \<Rightarrow> Tx \<Rightarrow> TxOut list \<Rightarrow> nat" where
  "analysis_need L tx deps = (1 + analyzed_size tx deps) + ((1 + txouts_size tx) +
     (spends_need L tx + amends_need L tx deps))"

definition analysis_flags :: "Tx \<Rightarrow> ScriptFlags" where
  "analysis_flags tx = (if tx_witness_data tx \<noteq> None then SCRIPT_VERIFY_P2SH OR SCRIPT_VERIFY_WITNESS
     else SCRIPT_VERIFY_P2SH)"

definition analysis_fee :: "Tx \<Rightarrow> TxOut list \<Rightarrow> u64" where
  "analysis_fee tx deps = (if is_coinbase tx then 0 else calculate_fee tx deps)"

lemma analyze_tx_eq:
  assumes "Tx_ok sha tx" "length (tx_hash tx) = 32" "length block_hash = 32"
    and "is_coinbase tx \<Longrightarrow> deps = []" "arena_room a (analysis_need L tx deps)"
    and "get_transaction_sigop_cost tx deps (analysis_flags tx) = Ok sigops"
  shows "\<exists>a'. analyze_tx srt L block_hash tx deps ts a = Ok (\<lparr>st_hash = tx_hash tx,
      st_analyzed_tx = Some (analyzed_record (analysis_fee tx deps) (sum_list (map to_value (tx_txouts tx)))
        (calculate_tx_size_wus tx) sigops block_hash tx deps @ replicate 8 0),
      st_tx_outs = Some (serialize_array TxOut_serialize (tx_txouts tx)),
      st_spent_txos = (if is_coinbase tx then None else Some (map spend_key (tx_txins tx))),
      st_address_amends = (if all_amends tx deps ts = [] then None else Some (srt (all_amends tx deps ts))),
      st_fee = analysis_fee tx deps, st_txouts_sum = sum_list (map to_value (tx_txouts tx)),
      st_size_wus = calculate_tx_size_wus tx\<rparr>, a') \<and>
    arena_after a a' (analysis_need L tx deps)"
proof -
  have ins: "list_all TxIn_ok (tx_txins tx)" using assms(1) by (simp add: Tx_ok_def array_ok_def)
  note room = assms(5) [unfolded analysis_need_def]
  let ?n = "analyzed_size tx deps"
  have "arena_room a (snd (1, 1) + fst (1, 1) * ?n)" using arena_room_mono [OF room, of "1 + ?n"] by simp
  then obtain loc a1 where a1: "try_alloc_array_fill_copy (1, 1) a ?n (0 :: u8) [] = Ok (loc, replicate ?n 0, a1)"
    "arena_after a a1 (1 + ?n)" by (rule try_alloc_array_room) auto
  note room1 = arena_room_after [OF room a1(2)]
  obtain a2 where a2: "serialize_txouts tx a1 = Ok (serialize_array TxOut_serialize (tx_txouts tx), a2)"
    "arena_after a1 a2 (1 + txouts_size tx)"
    using serialize_txouts_eq [OF arena_room_mono [OF room1 le_add1]] by blast
  note room2 = arena_room_after [OF room1 a2(2)]
  have "\<exists>a3. (if is_coinbase tx then Ok (None, a2)
      else res_bind (serialize_spends L tx a2) (\<lambda>(s, a). Ok (Some s, a))) =
    Ok (if is_coinbase tx then None else Some (map spend_key (tx_txins tx)), a3) \<and>
    arena_after a2 a3 (spends_need L tx)"
  proof (cases "is_coinbase tx")
    case True
    then show ?thesis using arena_roomD [OF room2] by auto
  next
    case False
    have "arena_room a2 (spends_need L tx)" by (rule arena_room_mono [OF room2]) simp
    then obtain a3 where "serialize_spends L tx a2 = Ok (map spend_key (tx_txins tx), a3)"
      "arena_after a2 a3 (spends_need L tx)" using serialize_spends_eq [OF ins] by blast
    then show ?thesis using False by simp
  qed
  then obtain a3 where a3: "(if is_coinbase tx then Ok (None, a2)
      else res_bind (serialize_spends L tx a2) (\<lambda>(s, a). Ok (Some s, a))) =
    Ok (if is_coinbase tx then None else Some (map spend_key (tx_txins tx)), a3)"
    "arena_after a2 a3 (spends_need L tx)" by blast
  note room3 = arena_room_after [OF room2 a3(2)]
  obtain a4 where a4: "serialize_address_amends srt L tx deps ts a3 =
      Ok (if all_amends tx deps ts = [] then None else Some (srt (all_amends tx deps ts)), a4)"
    "arena_after a3 a4 (amends_need L tx deps)"
    using serialize_address_amends_eq [OF assms(2) assms(4) room3] by blast
  have "arena_after a a4 (analysis_need L tx deps)" unfolding analysis_need_def
    using arena_after_trans [OF a1(2) arena_after_trans [OF a2(2) arena_after_trans [OF a3(2) a4(2)]]] .
  moreover have "analyze_tx srt L block_hash tx deps ts a = Ok (\<lparr>st_hash = tx_hash tx,
      st_analyzed_tx = Some (analyzed_record (analysis_fee tx deps) (sum_list (map to_value (tx_txouts tx)))
        (calculate_tx_size_wus tx) sigops block_hash tx deps @ replicate 8 0),
      st_tx_outs = Some (serialize_array TxOut_serialize (tx_txouts tx)),
      st_spent_txos = (if is_coinbase tx then None else Some (map spend_key (tx_txins tx))),
      st_address_amends = (if all_amends tx deps ts = [] then None else Some (srt (all_amends tx deps ts))),
      st_fee = analysis_fee tx deps, st_txouts_sum = sum_list (map to_value (tx_txouts tx)),
      st_size_wus = calculate_tx_size_wus tx\<rparr>, a4)"
    unfolding analyze_tx_def Let_def analysis_flags_def [symmetric] analysis_fee_def [symmetric]
      analyzed_size_def [symmetric] assms(6) res_bind_simps a1(1) split_conv
      put_analyzed_eq [OF ins assms(3)] a2(1) a3(1) a4(1) by (rule refl)
  ultimately show ?thesis by blast
qed

section \<open>Order and sums of the address records\<close>

lemma append_less_same [simp]: "p @ x < p @ y \<longleftrightarrow> x < (y :: 'a::linorder list)"
  by (induction p) simp_all

lemma be_bytes_less:
  "v < w \<Longrightarrow> w < 256 ^ n \<Longrightarrow> rev (to_le n v) @ x < rev (to_le n w) @ y"
proof (induction n arbitrary: v w x y)
  case (Suc n)
  show ?case
  proof (cases "v div 256 < w div 256")
    case True
    then show ?thesis using Suc.IH [OF True, of "word_of_nat (v mod 256) # x"] Suc.prems(2)
      by (simp add: less_mult_imp_div_less)
  next
    case False
    then have same: "v div 256 = w div 256" using Suc.prems(1) by (meson div_le_mono le_antisym less_imp_le not_less)
    then have "v mod 256 < w mod 256" using Suc.prems(1) by (metis mod_less_divisor mult_div_mod_eq nat_add_left_cancel_less)
    then have "(word_of_nat (v mod 256) :: u8) < word_of_nat (w mod 256)" by (simp add: word_less_nat_alt)
    then show ?thesis using same by simp
  qed
qed simp

lemma unat_inverted: "unat (0xFFFFFFFFFFFFFFFF - t :: u64) = 2 ^ 64 - 1 - unat t"
proof -
  have "unat t \<le> unat (0xFFFFFFFFFFFFFFFF :: u64)" using unat_u64_lt [of t] by simp
  then show ?thesis by (simp add: unat_sub_if')
qed

lemma address_key_newer: "t < t' \<Longrightarrow> address_key address t' h' < address_key address t h"
proof -
  assume "t < t'"
  then have "unat t < unat t'" by (simp add: word_less_nat_alt)
  then have "unat (0xFFFFFFFFFFFFFFFF - t') < unat (0xFFFFFFFFFFFFFFFF - t)"
    using unat_u64_lt [of t'] by (simp add: unat_inverted)
  then show ?thesis using be_bytes_less [of _ _ 8 h' h] unat_u64_lt [of "0xFFFFFFFFFFFFFFFF - t"]
    by (simp add: address_key_def u64_to_be_bytes_def)
qed

lemma address_key_inject [simp]: "address_key a t h = address_key b t h \<longleftrightarrow> a = b"
  by (simp add: address_key_def)

definition sum_for :: "bytes \<Rightarrow> (bytes \<times> i64) list \<Rightarrow> i64" where
  "sum_for key amends = sum_list (map snd (filter (\<lambda>a. fst a = key) amends))"

lemma sum_for_append [simp]: "sum_for key (xs @ ys) = sum_for key xs + sum_for key ys"
  by (simp add: sum_for_def)

lemma sum_for_mset:
  assumes "mset xs = mset ys"
  shows "sum_for key xs = sum_for key ys"
proof -
  have "sum_mset (mset (map snd (filter (\<lambda>a. fst a = key) xs))) =
      sum_mset (mset (map snd (filter (\<lambda>a. fst a = key) ys)))" using assms by simp
  then show ?thesis unfolding sum_mset_sum_list sum_for_def .
qed

definition total_for :: "bytes \<Rightarrow> TxOut list \<Rightarrow> u64" where
  "total_for address txouts =
     sum_list (map to_value (filter (\<lambda>x. script_address (to_script x) = Some address) txouts))"

lemma sum_for_amends:
  assumes "delta 0 = 0" "\<And>x y. delta (x + y) = delta x + delta y"
  shows "sum_for (address_key address ts h) (amends_of delta h ts txouts) = delta (total_for address txouts)"
proof (induction txouts)
  case Nil
  then show ?case using assms(1) by (simp add: amends_of_def map_filter_simps sum_for_def total_for_def)
next
  case (Cons x txouts)
  then show ?case using assms(2)
    by (auto simp: amends_of_def map_filter_simps sum_for_def total_for_def split: option.split)
qed

lemma sum_for_all_amends:
  "sum_for (address_key address ts (tx_hash tx)) (all_amends tx deps ts) =
    total_for address (tx_txouts tx) - total_for address deps"
  by (simp add: all_amends_def sum_for_amends)

lemma amends_of_keys:
  "key \<in> fst ` set (amends_of delta h ts txouts) \<Longrightarrow> \<exists>address. key = address_key address ts h"
  by (induction txouts) (auto simp: amends_of_def map_filter_simps split: option.splits)

section \<open>A small payment\<close>

definition demo_script :: "u8 \<Rightarrow> bytes" where
  "demo_script b = OP_DUP # OP_HASH160 # 0x14 # replicate 20 b @ [OP_EQUALVERIFY, OP_CHECKSIG]"

definition demo_payment :: Tx where
  "demo_payment = \<lparr>tx_version = 2, tx_locktime = 7,
     tx_txins = [\<lparr>ti_prevout_hash = replicate 32 1, ti_prevout_index = 0, ti_sequence = 5, ti_sig_script = []\<rparr>],
     tx_txouts = [\<lparr>to_value = 5000, to_script = demo_script 7\<rparr>], tx_witness_data = None,
     tx_hash = replicate 32 0, tx_witness_hash = replicate 32 0\<rparr>"

definition demo_deps :: "TxOut list" where
  "demo_deps = [\<lparr>to_value = 6000, to_script = demo_script 8\<rparr>]"

lemma demo_payment_ok: "Tx_ok zero_sha demo_payment"
  by (simp add: Tx_ok_def demo_payment_def array_ok_def TxIn_ok_def TxOut_ok_def witnesses_ok_def demo_script_def
      txid_def wtxid_def zero_sha_def)

lemma demo_payment_sigops: "get_transaction_sigop_cost demo_payment demo_deps (analysis_flags demo_payment) = Ok 4"
  by code_simp

lemma demo_payment_room: "arena_room (Arena_new 4096 4096) (analysis_need demo_layouts demo_payment demo_deps)"
  by (simp add: arena_room_def arena_inv_def Arena_new_def analysis_need_def analyzed_size_def
      serialized_without_txouts_size_def txouts_size_def TxOut_serialized_length_def spends_need_def
      amends_need_def key_need_def demo_layouts_def demo_payment_def demo_deps_def demo_script_def length_varint_def)

lemma demo_payment_fields:
  "length (tx_hash demo_payment) = 32" "\<not> is_coinbase demo_payment" "length demo_deps = 1"
  "length (tx_txins demo_payment) = 1" "length (tx_txouts demo_payment) = 1"
  "length (serialize_without_txouts demo_payment) < 100"
  by (simp_all add: demo_payment_def demo_deps_def is_coinbase_def TxIn_is_empty_def serialize_without_txouts_def
      TxIn_serialize_def length_serialize_varstr length_varstr_def length_varint_def EMPTY_HASH_def)

lemma sort_key_sorts: "\<forall>xs. mset (sort_key fst xs) = mset (xs :: (bytes \<times> i64) list) \<and> sorted (map fst (sort_key fst xs))"
  by simp

section \<open>Properties\<close>

text \<open>
  What \<open>analyze_tx\<close> stores for a well-formed transaction is read back by \<open>deserialize_analyzed_tx\<close>
  as its fee, the sum of its outputs, its weight, its signature operations, the block, the values of
  the spent outputs and the transaction without its outputs; the outputs are read back from their own
  record.
\<close>

lemma analyzed_tx_restored:
  assumes "Tx_ok sha tx" "length (tx_hash tx) = 32" "length block_hash = 32"
    and "is_coinbase tx \<longrightarrow> deps = []" "arena_room a (analysis_need L tx deps)"
    and "get_transaction_sigop_cost tx deps (analysis_flags tx) = Ok sigops"
    and "length deps < 2 ^ 59" "length (serialize_without_txouts tx) + sz * length (tx_txins tx) < 2 ^ 61"
    and "sz' * length (tx_txouts tx) < 2 ^ 63"
  shows "\<exists>st a' data outs n. analyze_tx srt L block_hash tx deps ts a = Ok (st, a') \<and>
    st_analyzed_tx st = Some data \<and> st_tx_outs st = Some outs \<and>
    deserialize_analyzed_tx sz data (st_hash st) = Ok \<lparr>an_fee = analysis_fee tx deps,
      an_txouts_sum = sum_list (map to_value (tx_txouts tx)), an_size_wus = calculate_tx_size_wus tx,
      an_sigops = sigops, an_block_hash = block_hash,
      an_tx = tx\<lparr>tx_txouts := [], tx_witness_hash := EMPTY_HASH\<rparr>, an_txin_values = map to_value deps\<rparr> \<and>
    deserialize_array_owned sz' TxOut_deserialize_owned outs = Ok (tx_txouts tx, n)"
proof -
  note eq = analyze_tx_eq [OF assms(1-3) _ assms(5,6), of srt ts]
  obtain a' where a': "analyze_tx srt L block_hash tx deps ts a = Ok (\<lparr>st_hash = tx_hash tx,
      st_analyzed_tx = Some (analyzed_record (analysis_fee tx deps) (sum_list (map to_value (tx_txouts tx)))
        (calculate_tx_size_wus tx) sigops block_hash tx deps @ replicate 8 0),
      st_tx_outs = Some (serialize_array TxOut_serialize (tx_txouts tx)),
      st_spent_txos = (if is_coinbase tx then None else Some (map spend_key (tx_txins tx))),
      st_address_amends = (if all_amends tx deps ts = [] then None else Some (srt (all_amends tx deps ts))),
      st_fee = analysis_fee tx deps, st_txouts_sum = sum_list (map to_value (tx_txouts tx)),
      st_size_wus = calculate_tx_size_wus tx\<rparr>, a')"
    using eq assms(4) by blast
  have outs: "list_all TxOut_ok (tx_txouts tx)" "length (tx_txouts tx) < 2 ^ 63"
    using assms(1) by (simp_all add: Tx_ok_def array_ok_def)
  have "length (serialize_array TxOut_serialize (tx_txouts tx) @ []) < 2 ^ 63"
  proof -
    have "length (concat (map TxOut_serialize xs)) = sum_list (map TxOut_serialized_length xs)" for xs
      by (induction xs) simp_all
    then have "length (serialize_array TxOut_serialize (tx_txouts tx) @ []) = txouts_size tx"
      by (simp add: serialize_array_def txouts_size_def)
    then show ?thesis using assms(5) by (simp add: arena_room_def arena_inv_def analysis_need_def)
  qed
  from txouto.array_owned_decode_encode [OF outs assms(9) this]
  have dec: "deserialize_array_owned sz' TxOut_deserialize_owned (serialize_array TxOut_serialize (tx_txouts tx)) =
      Ok (tx_txouts tx, length (serialize_array TxOut_serialize (tx_txouts tx)))" by simp
  from a' analyzed_record_decodes [OF assms(1,3,7,8)] dec show ?thesis by fastforce
qed



text \<open>
  Of two records made for one output script the one with the later time stamp has the smaller
  key, whatever the transactions, so that a scan in the order of the keys lists the newest first.
\<close>

lemma newer_records_first:
  assumes "get_address_from_script_copy_into_arena_with_txhash script h t a = Ok (Some key, b)"
    and "get_address_from_script_copy_into_arena_with_txhash script h' t' a' = Ok (Some key', b')"
    and "t < t'"
  shows "key' < key"
proof -
  obtain address address' where "script_address script = Some address" "key = address_key address t h"
    "script_address script = Some address'" "key' = address_key address' t' h'"
    using assms(1,2) by (auto dest!: get_address_copy_result)
  then show ?thesis using address_key_newer [OF assms(3)] by simp
qed

text \<open>
  The scripts that \<open>get_script_for_destination\<close> builds for a public key, a key hash, a script hash
  and the three witness programs are recognised: each yields exactly the key, hash or program as its
  address bytes.
\<close>

lemma standard_addresses:
  assumes "\<forall>b. length (ripemd b) = 20" "\<forall>b. length (sha b) = 32"
  shows "(length key \<in> {33, 65} \<longrightarrow>
      script_address (get_script_for_destination sha ripemd (PubKey key)) = Some key) \<and>
    (length hash = 20 \<longrightarrow> script_address (get_script_for_destination sha ripemd (PubKeyHash hash)) = Some hash) \<and>
    script_address (get_script_for_destination sha ripemd (ScriptHash redeem)) = Some (hash160 sha ripemd redeem) \<and>
    script_address (get_script_for_destination sha ripemd (WitnessV0KeyHash key)) = Some (hash160 sha ripemd key) \<and>
    script_address (get_script_for_destination sha ripemd (WitnessV0ScriptHash redeem)) = Some (sha redeem) \<and>
    (length program = 32 \<longrightarrow>
      script_address (get_script_for_destination sha ripemd (WitnessV1Taproot program)) = Some program)"
proof (intro conjI impI)
  note defs = append_item_def append_byte_array_def append_data_size_def opcode_defs script_address_def
    get_p2pk_address_def get_p2sh_address_def get_p2pkh_address_def get_bech32_address_def get_range_def
    get_from_def nth_append
  have h: "length (hash160 sha ripemd x) = 20" for x using assms(1) by (simp add: hash160_def)
  show "script_address (get_script_for_destination sha ripemd (PubKey key)) = Some key" if "length key \<in> {33, 65}"
    using that by (auto simp: defs)
  show "script_address (get_script_for_destination sha ripemd (PubKeyHash hash)) = Some hash" if "length hash = 20"
    using that by (auto simp: defs)
  show "script_address (get_script_for_destination sha ripemd (ScriptHash redeem)) = Some (hash160 sha ripemd redeem)"
    using h [of redeem] by (auto simp: defs)
  show "script_address (get_script_for_destination sha ripemd (WitnessV0KeyHash key)) = Some (hash160 sha ripemd key)"
    using h [of key] by (auto simp: defs)
  show "script_address (get_script_for_destination sha ripemd (WitnessV0ScriptHash redeem)) = Some (sha redeem)"
    using assms(2) by (auto simp: defs)
  show "script_address (get_script_for_destination sha ripemd (WitnessV1Taproot program)) = Some program"
    if "length program = 32" using that by (auto simp: defs)
qed

text \<open>
  The two witness version 0 kinds are shown under each other's name: the program of a key hash as
  \<open>P2WSH\<close> and the program of a script hash as \<open>P2WPKH\<close>.
\<close>

lemma witness_kinds_swapped:
  assumes "\<forall>b. length (ripemd b) = 20" "\<forall>b. length (sha b) = 32" "enc_v0 E (hash160 sha ripemd key) = Some k"
    and "enc_v0 E (sha script) = Some s"
  shows "get_human_address_from_script E (get_script_for_destination sha ripemd (WitnessV0KeyHash key)) = Ok (P2WSH k) \<and>
    get_human_address_from_script E (get_script_for_destination sha ripemd (WitnessV0ScriptHash script)) = Ok (P2WPKH s)"
proof
  note defs = append_item_def append_byte_array_def append_data_size_def opcode_defs get_human_address_from_script_def
    get_p2pk_address_human_def get_p2sh_address_human_def get_p2pkh_address_human_def get_bech32_address_human_def
  have h: "length (hash160 sha ripemd key) = 20" using assms(1) by (simp add: hash160_def)
  show "get_human_address_from_script E (get_script_for_destination sha ripemd (WitnessV0KeyHash key)) = Ok (P2WSH k)"
    using h assms(3) by (simp add: defs)
  show "get_human_address_from_script E (get_script_for_destination sha ripemd (WitnessV0ScriptHash script)) = Ok (P2WPKH s)"
    using assms(2,4) by (simp add: defs)
qed

end
