(* ===== verification/Records.thy ===== *)
theory Records
  imports TxAnalysis
begin

text \<open>
  The records of analysed blocks: how \<open>write_analyzed_txs\<close> of \<open>src/src/db/mod.rs\<close> arranges them for
  the five tables, which pairs the writers of \<open>src/src/db/rocksdb.rs\<close> put into a table file, and how
  the readers of that file decode what they find.

  RocksDB is not modelled.  A writer is the list of pairs it puts, in order; a file accepts them when
  the keys ascend strictly.  A reader takes what the database answers as an argument: \<open>get\<close> is
  \<open>DB::get_pinned\<close>, \<open>prefix_scan\<close> and \<open>range_scan\<close> are the pairs that its iterators run through.
\<close>

section \<open>Arranging the records\<close>

text \<open>\<open>slice::sort_unstable_by\<close> at the four types it is used at.\<close>

record sorters =
  sort_blocks :: "(hash32 \<times> bytes) list \<Rightarrow> (hash32 \<times> bytes) list"
  sort_txs :: "SerializedTx list \<Rightarrow> SerializedTx list"
  sort_spends :: "(bytes \<times> bytes) list \<Rightarrow> (bytes \<times> bytes) list"
  sort_amends :: "(bytes \<times> bytes) list \<Rightarrow> (bytes \<times> bytes) list"

fun put_block_txs :: "SerializedTx list \<Rightarrow> usize \<Rightarrow> bytes \<Rightarrow> bytes res" where
  "put_block_txs [] offset serialized = Ok serialized"
| "put_block_txs (transaction # transactions) offset serialized =
     res_bind (put_slice_at serialized offset (st_hash transaction)) (\<lambda>serialized.
     res_bind (put_slice_at serialized (offset + 32) (u64_to_le_bytes (st_txouts_sum transaction))) (\<lambda>serialized.
     res_bind (put_slice_at serialized (offset + 40) (u64_to_le_bytes (st_fee transaction))) (\<lambda>serialized.
     res_bind (put_slice_at serialized (offset + 48) (u32_to_le_bytes (st_size_wus transaction))) (\<lambda>serialized.
     put_block_txs transactions (offset + 52) serialized))))"

fun push_blocks ::
  "(SerializedTx list \<times> hash32) list \<Rightarrow> (hash32 \<times> bytes) arena_array \<Rightarrow> arena \<Rightarrow>
   ((hash32 \<times> bytes) arena_array \<times> arena) res" where
  "push_blocks [] result a = Ok (result, a)"
| "push_blocks ((transactions, block_hash) # rest) result a =
     (let count = word_of_nat (length transactions); offset = length_varint count in
      res_bind (try_alloc_array_fill_copy (1, 1) a (offset + 52 * length transactions) 0 []) (\<lambda>(_, serialized, a).
      res_bind (serialize_varint_into_slice count serialized) (\<lambda>(serialized, _).
      res_bind (put_block_txs transactions offset serialized) (\<lambda>serialized.
      res_bind (ArenaArray_push result (block_hash, serialized)) (\<lambda>result.
      push_blocks rest result a)))))"

text \<open>The value of a spent output: the spending transaction and its block.\<close>

definition spend_value :: "hash32 \<Rightarrow> hash32 \<Rightarrow> bytes res" where
  "spend_value hash block_hash =
     res_bind (put_slice_at (replicate 64 0) 0 hash) (\<lambda>value. put_slice_at value 32 block_hash)"

fun push_txspends ::
  "(SerializedTx \<times> hash32) list \<Rightarrow> (bytes \<times> bytes) arena_array \<Rightarrow> (bytes \<times> bytes) arena_array res" where
  "push_txspends [] result = Ok result"
| "push_txspends ((transaction, block_hash) # rest) result =
     (case st_spent_txos transaction of
        None \<Rightarrow> push_txspends rest result
      | Some spends \<Rightarrow>
          res_bind (spend_value (st_hash transaction) block_hash) (\<lambda>value.
          res_bind (push_all result (map (\<lambda>txin. (txin, value)) spends)) (\<lambda>result.
          push_txspends rest result)))"

text \<open>The amends of one transaction, those with one key added up.\<close>

fun push_tx_amends ::
  "hash32 \<Rightarrow> (bytes \<times> i64) list \<Rightarrow> bytes option \<Rightarrow> (bytes \<times> bytes) arena_array \<Rightarrow>
   (bytes \<times> bytes) arena_array res" where
  "push_tx_amends block_hash [] last_key result = Ok result"
| "push_tx_amends block_hash (txin # amends) last_key result =
     res_bind (put_slice_at (replicate 40 0) 0 block_hash) (\<lambda>value.
     res_bind (if last_key = Some (fst txin)
               then res_bind (ArenaArray_pop result) (\<lambda>((_, prev_key), result).
                    res_bind (idx_range prev_key 32 40) (\<lambda>prev.
                    Ok (u64_to_le_bytes (u64_from_le_bytes prev + snd txin), result)))
               else Ok (u64_to_le_bytes (snd txin), result)) (\<lambda>(sum, result).
     res_bind (put_slice_at value 32 sum) (\<lambda>value.
     res_bind (ArenaArray_push result (fst txin, value)) (\<lambda>result.
     push_tx_amends block_hash amends (Some (fst txin)) result))))"

fun push_all_amends ::
  "(SerializedTx \<times> hash32) list \<Rightarrow> (bytes \<times> bytes) arena_array \<Rightarrow> (bytes \<times> bytes) arena_array res" where
  "push_all_amends [] result = Ok result"
| "push_all_amends ((transaction, block_hash) # rest) result =
     (case st_address_amends transaction of
        None \<Rightarrow> push_all_amends rest result
      | Some amends \<Rightarrow>
          res_bind (push_tx_amends block_hash amends None result) (\<lambda>result. push_all_amends rest result))"

text \<open>\<open>txs.iter().zip(blocks)\<close> with its inner loop over the transactions.\<close>

definition with_blocks :: "SerializedTx list list \<Rightarrow> hash32 list \<Rightarrow> (SerializedTx \<times> hash32) list" where
  "with_blocks txs blocks = concat (map (\<lambda>(transactions, block_hash).
     map (\<lambda>transaction. (transaction, block_hash)) transactions) (zip txs blocks))"

text \<open>What is handed to the five writers.\<close>

record table_writes =
  tw_txs :: "SerializedTx list"
  tw_block_txs :: "(hash32 \<times> bytes) list"
  tw_amends :: "(bytes \<times> bytes) list option"
  tw_spends :: "(bytes \<times> bytes) list option"

definition spends_count :: "SerializedTx list \<Rightarrow> usize" where
  "spends_count transactions = sum_list (map (\<lambda>transaction.
     case st_spent_txos transaction of Some i \<Rightarrow> length i | None \<Rightarrow> 0) transactions)"

definition amends_count :: "SerializedTx list \<Rightarrow> usize" where
  "amends_count transactions = sum_list (map (\<lambda>transaction.
     case st_address_amends transaction of Some i \<Rightarrow> length i | None \<Rightarrow> 0) transactions)"

definition write_analyzed_txs ::
  "sorters \<Rightarrow> layouts \<Rightarrow> hash32 list \<Rightarrow> SerializedTx list list \<Rightarrow> bytes list \<Rightarrow> arena \<Rightarrow> (table_writes \<times> arena) res" where
  "write_analyzed_txs S L blocks txs coinbase_asciis a =
     (if length blocks \<noteq> length txs \<or> length blocks \<noteq> length coinbase_asciis then Panic
      else
        res_bind (try_alloc_arenaarray (L TyBlockTxs) a (length blocks) []) (\<lambda>(blocks_arena_array, a).
        res_bind (push_blocks (zip txs blocks) blocks_arena_array a) (\<lambda>(blocks_arena_array, a).
        let serialized_txhashes = sort_blocks S (into_arena_array blocks_arena_array);
            txs_count = sum_list (map length txs) in
        res_bind (try_alloc_arenaarray (L TyTxRef) a txs_count []) (\<lambda>(result, a).
        res_bind (push_all result (concat txs)) (\<lambda>result.
        let collapsed = sort_txs S (into_arena_array result) in
        res_bind (if spends_count (concat txs) = 0 then Ok (None, a)
                  else
                    res_bind (try_alloc_arenaarray (L TySpendEntry) a (spends_count (concat txs)) []) (\<lambda>(result, a).
                    res_bind (push_txspends (with_blocks txs blocks) result) (\<lambda>result.
                    Ok (Some (sort_spends S (into_arena_array result)), a)))) (\<lambda>(spends, a).
        res_bind (if amends_count (concat txs) = 0 then Ok (None, a)
                  else
                    res_bind (try_alloc_arenaarray (L TyAmendEntry) a (amends_count (concat txs)) []) (\<lambda>(result, a).
                    res_bind (push_all_amends (with_blocks txs blocks) result) (\<lambda>result.
                    Ok (Some (sort_amends S (into_arena_array result)), a)))) (\<lambda>(address_amends, a).
        Ok (\<lparr>tw_txs = collapsed, tw_block_txs = serialized_txhashes, tw_amends = address_amends,
             tw_spends = spends\<rparr>, a))))))))"

section \<open>Writers\<close>

text \<open>
  The loop of \<open>write_txouts\<close> and \<open>write_txs\<close>, which skips a transaction with the hash of the one before;
  \<open>field\<close> is the record that the table holds.
\<close>

fun table_puts :: "(SerializedTx \<Rightarrow> bytes option) \<Rightarrow> hash32 \<Rightarrow> SerializedTx list \<Rightarrow> (bytes \<times> bytes) list res" where
  "table_puts field last_key [] = Ok []"
| "table_puts field last_key (tx # txs) =
     (if st_hash tx = last_key then table_puts field last_key txs
      else
        res_bind (opt_unwrap (field tx)) (\<lambda>v.
        res_bind (table_puts field (st_hash tx) txs) (\<lambda>puts. Ok ((st_hash tx, v) # puts))))"

definition write_txouts :: "SerializedTx list \<Rightarrow> (bytes \<times> bytes) list res" where
  "write_txouts txs = table_puts st_tx_outs (replicate 32 0) txs"

definition write_txs :: "SerializedTx list \<Rightarrow> (bytes \<times> bytes) list res" where
  "write_txs txs = table_puts st_analyzed_tx (replicate 32 0) txs"

definition write_block_txs :: "(hash32 \<times> bytes) list \<Rightarrow> (bytes \<times> bytes) list" where
  "write_block_txs blocks_with_txs_pairs = map (\<lambda>pair. (fst pair, snd pair)) blocks_with_txs_pairs"

definition write_txspends :: "(bytes \<times> bytes) list \<Rightarrow> (bytes \<times> bytes) list" where
  "write_txspends spends = map (\<lambda>pair. (fst pair, snd pair)) spends"

definition write_address_amends :: "(bytes \<times> bytes) list \<Rightarrow> (bytes \<times> bytes) list" where
  "write_address_amends address_amends = map (\<lambda>pair. (fst pair, snd pair)) address_amends"

section \<open>Readers\<close>

text \<open>\<open>tokio::task::spawn_blocking(f).await?\<close>: a panic of \<open>f\<close> becomes an error of the caller.\<close>

definition spawn_blocking :: "'a res \<Rightarrow> 'a res" where
  "spawn_blocking f = (case f of Panic \<Rightarrow> Err (Msg ''task panicked'') | r \<Rightarrow> r)"

definition found_data :: "(bytes \<Rightarrow> bytes option res) \<Rightarrow> hash32 \<Rightarrow> bytes res" where
  "found_data get hash =
     res_bind (get hash) (\<lambda>data.
     case data of
       None \<Rightarrow> Err (Msg ''data does not exist'')
     | Some data \<Rightarrow> if data = [] then Err (Msg ''data empty'') else Ok data)"

text \<open>\<open>sz\<close> is the size of \<open>TxOutOwned\<close>, \<open>TxInOwned\<close> and \<open>BlockTxEntry\<close> in turn.\<close>

definition get_transaction_outputs :: "usize \<Rightarrow> (bytes \<Rightarrow> bytes option res) \<Rightarrow> hash32 \<Rightarrow> TxOut list res" where
  "get_transaction_outputs sz get hash =
     spawn_blocking (res_bind (found_data get hash) (\<lambda>data.
     res_bind (deserialize_array_owned sz TxOut_deserialize_owned data) (\<lambda>(result, _). Ok result)))"

definition get_analyzed_tx :: "usize \<Rightarrow> (bytes \<Rightarrow> bytes option res) \<Rightarrow> hash32 \<Rightarrow> AnalyzedTx res" where
  "get_analyzed_tx sz get hash =
     spawn_blocking (res_bind (found_data get hash) (\<lambda>data. deserialize_analyzed_tx sz data hash))"

record BlockTxEntry =
  bt_hash :: hash32
  bt_value_sats :: u64
  bt_fee_sats :: u64
  bt_size_wus :: u32

fun read_block_txs :: "nat \<Rightarrow> bytes \<Rightarrow> usize \<Rightarrow> BlockTxEntry list res" where
  "read_block_txs 0 data continue_at = Ok []"
| "read_block_txs (Suc n) data continue_at =
     res_bind (opt_unwrap (get_from data continue_at)) (\<lambda>bytes.
     res_bind (idx_range bytes 0 32) (\<lambda>hash.
     res_bind (idx_range bytes 32 40) (\<lambda>value_sats.
     res_bind (idx_range bytes 40 48) (\<lambda>fee_sats.
     res_bind (idx_range bytes 48 52) (\<lambda>size_wus.
     res_bind (read_block_txs n data (wadd continue_at 52)) (\<lambda>entries.
     Ok (\<lparr>bt_hash = hash, bt_value_sats = u64_from_le_bytes value_sats,
          bt_fee_sats = u64_from_le_bytes fee_sats, bt_size_wus = u32_from_le_bytes size_wus\<rparr> # entries)))))))"

definition get_block_tx_entries :: "usize \<Rightarrow> (bytes \<Rightarrow> bytes option res) \<Rightarrow> hash32 \<Rightarrow> BlockTxEntry list res" where
  "get_block_tx_entries sz get hash =
     spawn_blocking (res_bind (found_data get hash) (\<lambda>data.
     res_bind (deserialize_varint data) (\<lambda>(count, continue_at).
     if 2 ^ 63 \<le> sz * unat count then Panic else read_block_txs (unat count) data continue_at)))"

fun read_spends :: "(bytes \<times> bytes) list \<Rightarrow> (u32 \<times> hash32 \<times> hash32) list res" where
  "read_spends [] = Ok []"
| "read_spends ((key, value) # items) =
     (if length key \<noteq> 36 \<or> length value \<noteq> 64 then Panic
      else
        res_bind (idx_range key 32 36) (\<lambda>i.
        res_bind (idx_range value 0 32) (\<lambda>t.
        res_bind (idx_range value 32 64) (\<lambda>b.
        res_bind (read_spends items) (\<lambda>results. Ok ((u32_from_le_bytes i, t, b) # results))))))"

definition get_tx_spends :: "(bytes \<Rightarrow> (bytes \<times> bytes) list) \<Rightarrow> hash32 \<Rightarrow> (u32 \<times> hash32 \<times> hash32) list res" where
  "get_tx_spends prefix_scan txhash = spawn_blocking (read_spends (prefix_scan txhash))"

text \<open>One address record: the transaction, its block and the amount.\<close>

definition read_address_entry :: "usize \<Rightarrow> bytes \<times> bytes \<Rightarrow> (hash32 \<times> hash32 \<times> i64) res" where
  "read_address_entry expected_key_len item =
     (let key = fst item; value = snd item in
      if length key \<noteq> expected_key_len \<or> length value \<noteq> 40 then Panic
      else
        res_bind (opt_unwrap (get_from key (wsub expected_key_len 32))) (\<lambda>tx_hash.
        res_bind (idx_range value 0 32) (\<lambda>block_hash.
        res_bind (idx_range value 32 40) (\<lambda>delta.
        Ok (tx_hash, block_hash, u64_from_le_bytes delta)))))"

fun read_address_entries ::
  "usize \<Rightarrow> usize \<Rightarrow> (hash32 \<times> hash32 \<times> i64) list \<Rightarrow> (bytes \<times> bytes) list \<Rightarrow>
   (hash32 \<times> hash32 \<times> i64) list res" where
  "read_address_entries expected_key_len limit results [] = Ok results"
| "read_address_entries expected_key_len limit results (item # items) =
     res_bind (read_address_entry expected_key_len item) (\<lambda>entry.
     let results = results @ [entry] in
     if length results = limit then Ok results
     else read_address_entries expected_key_len limit results items)"

definition get_address_entires ::
  "(bytes \<Rightarrow> bytes \<Rightarrow> (bytes \<times> bytes) list) \<Rightarrow> bytes \<Rightarrow> u64 \<Rightarrow> u64 \<Rightarrow> usize \<Rightarrow>
   (hash32 \<times> hash32 \<times> i64) list res" where
  "get_address_entires range_scan address from_timestamp to_timestamp limit =
     spawn_blocking
       (let expected_key_len = length address + 8 + 32;
            start = address @ u64_to_be_bytes (0xFFFFFFFFFFFFFFFF - to_timestamp);
            upper = address @ u64_to_be_bytes (0xFFFFFFFFFFFFFFFF - from_timestamp) in
        read_address_entries expected_key_len limit [] (range_scan start upper))"

definition get_address_entires_continue ::
  "(bytes \<Rightarrow> bytes \<Rightarrow> (bytes \<times> bytes) list) \<Rightarrow> bytes \<Rightarrow> hash32 \<Rightarrow> u64 \<Rightarrow> usize \<Rightarrow>
   (hash32 \<times> hash32 \<times> i64) list res" where
  "get_address_entires_continue range_scan address after_tx after_timestamp limit =
     spawn_blocking
       (let expected_key_len = length address + 8 + 32;
            start = address @ u64_to_be_bytes (0xFFFFFFFFFFFFFFFF - after_timestamp) @ after_tx;
            upper = address @ u64_to_be_bytes 0xFFFFFFFFFFFFFFFF in
        read_address_entries expected_key_len limit [] (tl (range_scan start upper)))"

record TopAddressData =
  ta_transactions :: "(hash32 \<times> hash32 \<times> i64) list"
  ta_total_txs :: usize
  ta_total_spent :: u64
  ta_total_received :: u64
  ta_first_seen :: u64

fun read_top_address ::
  "usize \<Rightarrow> usize \<Rightarrow> TopAddressData \<Rightarrow> (bytes \<times> bytes) list \<Rightarrow> TopAddressData res" where
  "read_top_address address_len top_count d [] = Ok d"
| "read_top_address address_len top_count d (item # items) =
     res_bind (read_address_entry (address_len + 8 + 32) item) (\<lambda>(tx_hash, block_hash, delta).
     let d = (if length (ta_transactions d) < top_count
              then d\<lparr>ta_transactions := ta_transactions d @ [(tx_hash, block_hash, delta)]\<rparr> else d);
         d = d\<lparr>ta_total_txs := wadd (ta_total_txs d) 1\<rparr> in
     res_bind (idx_range (fst item) address_len (address_len + 8)) (\<lambda>timestamp_bytes.
     let d = d\<lparr>ta_first_seen := 0xFFFFFFFFFFFFFFFF - u64_from_be_bytes timestamp_bytes\<rparr>;
         d = (if sint delta < 0 then d\<lparr>ta_total_spent := ta_total_spent d + (- delta)\<rparr>
              else d\<lparr>ta_total_received := ta_total_received d + delta\<rparr>) in
     read_top_address address_len top_count d items))"

definition get_top_address_data ::
  "(bytes \<Rightarrow> bytes \<Rightarrow> (bytes \<times> bytes) list) \<Rightarrow> bytes \<Rightarrow> usize \<Rightarrow> TopAddressData res" where
  "get_top_address_data range_scan address top_count =
     spawn_blocking
       (let start = address @ u64_to_be_bytes 0; upper = address @ u64_to_be_bytes 0xFFFFFFFFFFFFFFFF in
        read_top_address (length address) top_count
          \<lparr>ta_transactions = [], ta_total_txs = 0, ta_total_spent = 0, ta_total_received = 0,
           ta_first_seen = 0\<rparr> (range_scan start upper))"

section \<open>What is handed to the writers\<close>

definition entry_bytes :: "SerializedTx \<Rightarrow> bytes" where
  "entry_bytes t = st_hash t @ u64_to_le_bytes (st_txouts_sum t) @ u64_to_le_bytes (st_fee t) @
     u32_to_le_bytes (st_size_wus t)"

definition block_record :: "SerializedTx list \<Rightarrow> bytes" where
  "block_record ts = fst (serialize_varint (word_of_nat (length ts))) @ concat (map entry_bytes ts)"

lemma put_block_txs_fill:
  "length p = offset \<Longrightarrow> list_all (\<lambda>t. length (st_hash t) = 32) ts \<Longrightarrow> 52 * length ts \<le> n \<Longrightarrow>
   put_block_txs ts offset (p @ replicate n 0) =
     Ok (p @ concat (map entry_bytes ts) @ replicate (n - 52 * length ts) 0)"
proof (induction ts arbitrary: p offset n)
  case (Cons t ts)
  define p1 where "p1 = p @ st_hash t"
  define p2 where "p2 = p1 @ u64_to_le_bytes (st_txouts_sum t)"
  define p3 where "p3 = p2 @ u64_to_le_bytes (st_fee t)"
  define p4 where "p4 = p3 @ u32_to_le_bytes (st_size_wus t)"
  have lens: "length p1 = offset + 32" "length p2 = offset + 40" "length p3 = offset + 48" "length p4 = offset + 52"
    using Cons.prems by (simp_all add: p1_def p2_def p3_def p4_def)
  have w1: "put_slice_at (p @ replicate n 0) offset (st_hash t) = Ok (p1 @ replicate (n - 32) 0)"
    using put_fill [OF Cons.prems(1), of "st_hash t" n] Cons.prems by (simp add: p1_def)
  have w2: "put_slice_at (p1 @ replicate (n - 32) 0) (offset + 32) (u64_to_le_bytes (st_txouts_sum t)) =
      Ok (p2 @ replicate (n - 40) 0)" using put_fill [OF lens(1)] Cons.prems by (simp add: p2_def)
  have w3: "put_slice_at (p2 @ replicate (n - 40) 0) (offset + 40) (u64_to_le_bytes (st_fee t)) =
      Ok (p3 @ replicate (n - 48) 0)" using put_fill [OF lens(2)] Cons.prems by (simp add: p3_def)
  have w4: "put_slice_at (p3 @ replicate (n - 48) 0) (offset + 48) (u32_to_le_bytes (st_size_wus t)) =
      Ok (p4 @ replicate (n - 52) 0)" using put_fill [OF lens(3)] Cons.prems by (simp add: p4_def)
  have "put_block_txs ts (offset + 52) (p4 @ replicate (n - 52) 0) =
      Ok (p4 @ concat (map entry_bytes ts) @ replicate (n - 52 - 52 * length ts) 0)"
    by (rule Cons.IH) (use Cons.prems lens in simp_all)
  then show ?case
    unfolding put_block_txs.simps w1 res_bind_simps w2 w3 w4
    by (simp add: entry_bytes_def [of t] p4_def p3_def p2_def p1_def)
qed simp

definition block_need :: "SerializedTx list \<Rightarrow> nat" where
  "block_need ts = 10 + 52 * length ts"

lemma push_blocks_eq:
  assumes "\<forall>(ts, b) \<in> set bs. list_all (\<lambda>t. length (st_hash t) = 32) ts"
    and "arena_room a (sum_list (map (\<lambda>x. block_need (fst x)) bs))"
    and "length (aa_items result) + length bs \<le> aa_cap result"
  shows "\<exists>a'. push_blocks bs result a =
      Ok (result\<lparr>aa_items := aa_items result @ map (\<lambda>(ts, b). (b, block_record ts)) bs\<rparr>, a') \<and>
    arena_after a a' (sum_list (map (\<lambda>x. block_need (fst x)) bs))"
  using assms
proof (induction bs arbitrary: result a)
  case Nil
  then show ?case using arena_roomD by auto
next
  case (Cons x bs)
  obtain ts b where x: "x = (ts, b)" by (cases x)
  let ?c = "word_of_nat (length ts) :: u64" and ?rest = "sum_list (map (\<lambda>x. block_need (fst x)) bs)"
  let ?n = "length_varint ?c + 52 * length ts"
  have room: "arena_room a (block_need ts + ?rest)" using Cons.prems(2) x by simp
  have "1 + ?n \<le> block_need ts" using length_varint_bounds [of ?c] by (simp add: block_need_def)
  then have "arena_room a (snd (1, 1) + fst (1, 1) * ?n)" using arena_room_mono [OF room, of "1 + ?n"] by simp
  then obtain loc a1 where a1: "try_alloc_array_fill_copy (1, 1) a ?n (0 :: u8) [] = Ok (loc, replicate ?n 0, a1)"
    "arena_after a a1 (1 + ?n)" by (rule try_alloc_array_room) auto
  note after1 = arena_after_mono [OF a1(2) \<open>1 + ?n \<le> block_need ts\<close>]
  have "serialize_varint_into_slice ?c (replicate ?n 0) = Ok (fst (serialize_varint ?c) @ replicate (52 * length ts) 0, length_varint ?c)"
    by (simp add: serialize_varint_into_slice_eq)
  moreover have "put_block_txs ts (length_varint ?c) (fst (serialize_varint ?c) @ replicate (52 * length ts) 0) =
      Ok (block_record ts)"
    using put_block_txs_fill [of "fst (serialize_varint ?c)" "length_varint ?c" ts "52 * length ts"] Cons.prems(1) x
    by (simp add: block_record_def)
  moreover let ?r = "result\<lparr>aa_items := aa_items result @ [(b, block_record ts)]\<rparr>"
  have "ArenaArray_push result (b, block_record ts) = Ok ?r" using Cons.prems(3) by (simp add: ArenaArray_push_def)
  ultimately have stp: "push_blocks (x # bs) result a = push_blocks bs ?r a1"
    using a1(1) x by (simp add: Let_def)
  obtain a2 where "push_blocks bs ?r a1 = Ok (?r\<lparr>aa_items := aa_items ?r @ map (\<lambda>(ts, b). (b, block_record ts)) bs\<rparr>, a2)"
    "arena_after a1 a2 ?rest"
    using Cons.IH [OF _ arena_room_after [OF room after1], of ?r] Cons.prems(1,3) by auto
  then show ?case using stp x arena_after_trans [OF after1] by auto
qed

text \<open>The records of spent outputs and of addresses.\<close>

definition spend_entries :: "SerializedTx \<times> hash32 \<Rightarrow> (bytes \<times> bytes) list" where
  "spend_entries x = (case st_spent_txos (fst x) of None \<Rightarrow> []
     | Some spends \<Rightarrow> map (\<lambda>key. (key, st_hash (fst x) @ snd x)) spends)"

definition hashes_ok :: "SerializedTx \<times> hash32 \<Rightarrow> bool" where
  "hashes_ok x \<longleftrightarrow> length (st_hash (fst x)) = 32 \<and> length (snd x) = 32"

lemma spend_value_eq: "length hash = 32 \<Longrightarrow> length block_hash = 32 \<Longrightarrow> spend_value hash block_hash = Ok (hash @ block_hash)"
  using put_fill [of "[]" 0 hash 64] put_fill [of hash 32 block_hash 32] by (simp add: spend_value_def)

lemma push_txspends_eq:
  "list_all hashes_ok xs \<Longrightarrow> length (aa_items result) + length (concat (map spend_entries xs)) \<le> aa_cap result \<Longrightarrow>
   push_txspends xs result = Ok (result\<lparr>aa_items := aa_items result @ concat (map spend_entries xs)\<rparr>)"
proof (induction xs arbitrary: result)
  case (Cons x xs)
  obtain t b where x: "x = (t, b)" by (cases x)
  show ?case
  proof (cases "st_spent_txos t")
    case None
    then show ?thesis using Cons x by (simp add: spend_entries_def)
  next
    case (Some spends)
    have e: "spend_entries x = map (\<lambda>key. (key, st_hash t @ b)) spends" using Some x by (simp add: spend_entries_def)
    let ?r = "result\<lparr>aa_items := aa_items result @ spend_entries x\<rparr>"
    have "push_all result (spend_entries x) = Ok ?r" by (rule push_all_exact) (use Cons.prems(2) in simp)
    moreover have "spend_value (st_hash t) b = Ok (st_hash t @ b)"
      using Cons.prems(1) x by (simp add: hashes_ok_def spend_value_eq)
    ultimately show ?thesis using Cons.IH [of ?r] Cons.prems Some x e by simp
  qed
qed simp

fun merge_amends :: "(bytes \<times> i64) list \<Rightarrow> (bytes \<times> i64) list" where
  "merge_amends [] = []"
| "merge_amends [x] = [x]"
| "merge_amends ((k, d) # (k', d') # xs) =
     (if k' = k then merge_amends ((k, d + d') # xs) else (k, d) # merge_amends ((k', d') # xs))"

definition amend_entry :: "hash32 \<Rightarrow> bytes \<times> i64 \<Rightarrow> bytes \<times> bytes" where
  "amend_entry block_hash x = (fst x, block_hash @ u64_to_le_bytes (snd x))"

lemma put_amend_value:
  assumes "length block_hash = 32"
  shows "put_slice_at (replicate 40 0) 0 block_hash = Ok (block_hash @ replicate 8 0)"
    "put_slice_at (block_hash @ replicate 8 0) 32 (u64_to_le_bytes d) = Ok (block_hash @ u64_to_le_bytes d)"
    "idx_range (block_hash @ u64_to_le_bytes d) 32 40 = Ok (u64_to_le_bytes d)"
  using put_fill [of "[]" 0 block_hash 40] put_fill [OF assms, of "u64_to_le_bytes d" 8] assms
  by (simp_all add: idx_range_def get_range_def)

lemma push_tx_amends_step:
  assumes "length block_hash = 32"
  shows "aa_items result = r @ [amend_entry block_hash (k, d)] \<Longrightarrow>
    length r + 1 + length amends \<le> aa_cap result \<Longrightarrow>
    push_tx_amends block_hash amends (Some k) result =
      Ok (result\<lparr>aa_items := r @ map (amend_entry block_hash) (merge_amends ((k, d) # amends))\<rparr>)"
proof (induction amends arbitrary: result r k d)
  case Nil
  then show ?case by simp
next
  case (Cons x amends)
  obtain k' d' where x: "x = (k', d')" by (cases x)
  show ?case
  proof (cases "k' = k")
    case True
    let ?r = "result\<lparr>aa_items := r @ [amend_entry block_hash (k, d + d')]\<rparr>"
    have "push_tx_amends block_hash (x # amends) (Some k) result = push_tx_amends block_hash amends (Some k) ?r"
      using Cons.prems x True put_amend_value [OF assms]
      by (simp add: ArenaArray_pop_def ArenaArray_push_def amend_entry_def)
    then show ?thesis using Cons.IH [of ?r r k "d + d'"] Cons.prems x True by simp
  next
    case False
    let ?r = "result\<lparr>aa_items := (r @ [amend_entry block_hash (k, d)]) @ [amend_entry block_hash (k', d')]\<rparr>"
    have "push_tx_amends block_hash (x # amends) (Some k) result = push_tx_amends block_hash amends (Some k') ?r"
      using Cons.prems x False put_amend_value [OF assms]
      by (auto simp: ArenaArray_push_def amend_entry_def)
    then show ?thesis using Cons.IH [of ?r "r @ [amend_entry block_hash (k, d)]" k' d'] Cons.prems x False by simp
  qed
qed

lemma push_tx_amends_eq:
  assumes "length block_hash = 32" "length (aa_items result) + length amends \<le> aa_cap result"
  shows "push_tx_amends block_hash amends None result =
    Ok (result\<lparr>aa_items := aa_items result @ map (amend_entry block_hash) (merge_amends amends)\<rparr>)"
proof (cases amends)
  case Nil
  then show ?thesis by simp
next
  case (Cons x xs)
  obtain k d where x: "x = (k, d)" by (cases x)
  let ?r = "result\<lparr>aa_items := aa_items result @ [amend_entry block_hash (k, d)]\<rparr>"
  have "push_tx_amends block_hash amends None result = push_tx_amends block_hash xs (Some k) ?r"
    using assms Cons x put_amend_value [OF assms(1)] by (simp add: ArenaArray_push_def amend_entry_def)
  then show ?thesis using push_tx_amends_step [OF assms(1), of ?r "aa_items result" k d xs] assms(2) Cons x by simp
qed

definition amend_entries :: "SerializedTx \<times> hash32 \<Rightarrow> (bytes \<times> bytes) list" where
  "amend_entries x = (case st_address_amends (fst x) of None \<Rightarrow> []
     | Some amends \<Rightarrow> map (amend_entry (snd x)) (merge_amends amends))"

lemma length_merge_amends: "length (merge_amends xs) \<le> length xs"
  by (induction xs rule: merge_amends.induct) auto

lemma push_all_amends_eq:
  "list_all hashes_ok xs \<Longrightarrow> length (aa_items result) + amends_count (map fst xs) \<le> aa_cap result \<Longrightarrow>
   push_all_amends xs result = Ok (result\<lparr>aa_items := aa_items result @ concat (map amend_entries xs)\<rparr>)"
proof (induction xs arbitrary: result)
  case (Cons x xs)
  obtain t b where x: "x = (t, b)" by (cases x)
  show ?case
  proof (cases "st_address_amends t")
    case None
    then show ?thesis using Cons x by (simp add: amend_entries_def amends_count_def)
  next
    case (Some amends)
    have e: "amend_entries x = map (amend_entry b) (merge_amends amends)" using Some x by (simp add: amend_entries_def)
    have room: "length (aa_items result) + length amends + amends_count (map fst xs) \<le> aa_cap result"
      using Cons.prems(2) x Some by (simp add: amends_count_def)
    let ?r = "result\<lparr>aa_items := aa_items result @ amend_entries x\<rparr>"
    have "push_tx_amends b amends None result = Ok ?r"
      using push_tx_amends_eq [of b result amends] Cons.prems(1) x room e by (simp add: hashes_ok_def)
    moreover have "length (aa_items ?r) + amends_count (map fst xs) \<le> aa_cap ?r"
      using room e length_merge_amends [of amends] by simp
    ultimately show ?thesis using Cons.IH [of ?r] Cons.prems(1) Some x by simp
  qed
qed simp

lemma length_spend_entries: "length (concat (map spend_entries xs)) = spends_count (map fst xs)"
  by (induction xs) (auto simp: spend_entries_def spends_count_def split: option.split)

lemma with_blocks_fst: "length txs = length blocks \<Longrightarrow> map fst (with_blocks txs blocks) = concat txs"
  by (induction txs blocks rule: list_induct2) (simp_all add: with_blocks_def comp_def)

lemma with_blocks_hashes:
  assumes "\<forall>t \<in> set (concat txs). length (st_hash t) = 32" "\<forall>b \<in> set blocks. length b = 32"
  shows "list_all hashes_ok (with_blocks txs blocks)"
  using assms
  by (fastforce simp: with_blocks_def hashes_ok_def list_all_iff dest: set_zip_leftD set_zip_rightD)

definition writes_need :: "layouts \<Rightarrow> hash32 list \<Rightarrow> SerializedTx list list \<Rightarrow> nat" where
  "writes_need L blocks txs =
     (snd (L TyBlockTxs) + fst (L TyBlockTxs) * length blocks) + (sum_list (map block_need txs) +
     ((snd (L TyTxRef) + fst (L TyTxRef) * sum_list (map length txs)) +
     ((snd (L TySpendEntry) + fst (L TySpendEntry) * spends_count (concat txs)) +
      (snd (L TyAmendEntry) + fst (L TyAmendEntry) * amends_count (concat txs)))))"

definition block_records :: "SerializedTx list list \<Rightarrow> hash32 list \<Rightarrow> (hash32 \<times> bytes) list" where
  "block_records txs blocks = map (\<lambda>(ts, b). (b, block_record ts)) (zip txs blocks)"

definition writes_of :: "sorters \<Rightarrow> hash32 list \<Rightarrow> SerializedTx list list \<Rightarrow> table_writes" where
  "writes_of S blocks txs =
     \<lparr>tw_txs = sort_txs S (concat txs), tw_block_txs = sort_blocks S (block_records txs blocks),
      tw_amends = (if amends_count (concat txs) = 0 then None
        else Some (sort_amends S (concat (map amend_entries (with_blocks txs blocks))))),
      tw_spends = (if spends_count (concat txs) = 0 then None
        else Some (sort_spends S (concat (map spend_entries (with_blocks txs blocks)))))\<rparr>"

lemma optional_table:
  fixes push :: "'a arena_array \<Rightarrow> 'a arena_array res"
  assumes "arena_room a (snd l + fst l * n)" "push (ArenaArray_from_raw_parts n) = Ok r"
    and "t = (if n = 0 then None else Some (srt (aa_items r)))"
  shows "\<exists>a'. (if n = 0 then Ok (None, a)
      else res_bind (try_alloc_arenaarray l a n []) (\<lambda>(result, a).
           res_bind (push result) (\<lambda>result. Ok (Some (srt (into_arena_array result)), a)))) =
    Ok (t, a') \<and> arena_after a a' (snd l + fst l * n)"
proof (cases "n = 0")
  case True
  then show ?thesis using assms(3) arena_roomD [OF assms(1)] by simp
next
  case False
  obtain a' where "try_alloc_arenaarray l a n [] = Ok (ArenaArray_from_raw_parts n :: 'a arena_array, a')"
    "arena_after a a' (snd l + fst l * n)" by (rule try_alloc_arenaarray_room [OF assms(1)])
  then show ?thesis using assms(2,3) False by (simp add: into_arena_array_def)
qed

lemma write_analyzed_txs_eq:
  assumes "length txs = length blocks" "length coinbase_asciis = length blocks"
    and "\<forall>t \<in> set (concat txs). length (st_hash t) = 32" "\<forall>b \<in> set blocks. length b = 32"
    and "arena_room a (writes_need L blocks txs)"
  shows "\<exists>a'. write_analyzed_txs S L blocks txs coinbase_asciis a = Ok (writes_of S blocks txs, a')"
proof -
  note room = assms(5) [unfolded writes_need_def]
  let ?W = "with_blocks txs blocks" and ?n = "sum_list (map length txs)"
  have zip: "map fst (zip txs blocks) = txs" using assms(1) by simp
  note hashes = with_blocks_hashes [OF assms(3,4)]
  have fsts: "map fst ?W = concat txs" by (rule with_blocks_fst [OF assms(1)])
  obtain a1 where a1: "try_alloc_arenaarray (L TyBlockTxs) a (length blocks) [] =
      Ok (ArenaArray_from_raw_parts (length blocks) :: (hash32 \<times> bytes) arena_array, a1)"
    "arena_after a a1 (snd (L TyBlockTxs) + fst (L TyBlockTxs) * length blocks)"
    using try_alloc_arenaarray_room [OF arena_room_mono [OF room le_add1]] by blast
  note room1 = arena_room_after [OF room a1(2)]
  have sums: "sum_list (map (\<lambda>x. block_need (fst x)) (zip txs blocks)) = sum_list (map block_need txs)"
    using arg_cong [OF zip, of "\<lambda>xs. sum_list (map block_need xs)"] by (simp add: comp_def)
  have "\<forall>(ts, b) \<in> set (zip txs blocks). list_all (\<lambda>t. length (st_hash t) = 32) ts"
    using assms(3) by (fastforce simp: list_all_iff dest: set_zip_leftD)
  from push_blocks_eq [OF this, of a1 "ArenaArray_from_raw_parts (length blocks)"]
  obtain a2 where a2: "push_blocks (zip txs blocks) (ArenaArray_from_raw_parts (length blocks)) a1 =
      Ok ((ArenaArray_from_raw_parts (length blocks))\<lparr>aa_items := block_records txs blocks\<rparr>, a2)"
    "arena_after a1 a2 (sum_list (map block_need txs))"
    using arena_room_mono [OF room1 le_add1] assms(1)
    by (auto simp: sums ArenaArray_from_raw_parts_def block_records_def)
  note room2 = arena_room_after [OF room1 a2(2)]
  obtain a3 where a3: "try_alloc_arenaarray (L TyTxRef) a2 ?n [] =
      Ok (ArenaArray_from_raw_parts ?n :: SerializedTx arena_array, a3)"
    "arena_after a2 a3 (snd (L TyTxRef) + fst (L TyTxRef) * ?n)"
    using try_alloc_arenaarray_room [OF arena_room_mono [OF room2 le_add1]] by blast
  note room3 = arena_room_after [OF room2 a3(2)]
  have all: "push_all (ArenaArray_from_raw_parts ?n) (concat txs) =
      Ok ((ArenaArray_from_raw_parts ?n)\<lparr>aa_items := concat txs\<rparr>)"
    using push_all_exact [of "ArenaArray_from_raw_parts ?n" "concat txs"]
    by (simp add: ArenaArray_from_raw_parts_def length_concat)
  let ?ns = "spends_count (concat txs)" and ?na = "amends_count (concat txs)"
  have spends: "push_txspends ?W (ArenaArray_from_raw_parts ?ns) =
      Ok ((ArenaArray_from_raw_parts ?ns)\<lparr>aa_items := concat (map spend_entries ?W)\<rparr>)"
    using push_txspends_eq [OF hashes, of "ArenaArray_from_raw_parts ?ns"]
    by (simp add: ArenaArray_from_raw_parts_def length_spend_entries fsts)
  have tables: "tw_spends (writes_of S blocks txs) = (if ?ns = 0 then None
      else Some (sort_spends S (aa_items ((ArenaArray_from_raw_parts ?ns)\<lparr>aa_items := concat (map spend_entries ?W)\<rparr>))))"
    "tw_amends (writes_of S blocks txs) = (if ?na = 0 then None
      else Some (sort_amends S (aa_items ((ArenaArray_from_raw_parts ?na)\<lparr>aa_items := concat (map amend_entries ?W)\<rparr>))))"
    by (simp_all add: writes_of_def)
  obtain a4 where a4: "(if ?ns = 0 then Ok (None, a3)
      else res_bind (try_alloc_arenaarray (L TySpendEntry) a3 ?ns []) (\<lambda>(result, a).
           res_bind (push_txspends ?W result) (\<lambda>result.
           Ok (Some (sort_spends S (into_arena_array result)), a)))) =
    Ok (tw_spends (writes_of S blocks txs), a4)"
    "arena_after a3 a4 (snd (L TySpendEntry) + fst (L TySpendEntry) * ?ns)"
    using optional_table [where push = "push_txspends ?W" and srt = "sort_spends S" and
        t = "tw_spends (writes_of S blocks txs)", OF arena_room_mono [OF room3 le_add1] spends tables(1)]
    by blast
  note room4 = arena_room_after [OF room3 a4(2)]
  have amends: "push_all_amends ?W (ArenaArray_from_raw_parts ?na) =
      Ok ((ArenaArray_from_raw_parts ?na)\<lparr>aa_items := concat (map amend_entries ?W)\<rparr>)"
    using push_all_amends_eq [OF hashes, of "ArenaArray_from_raw_parts ?na"]
    by (simp add: ArenaArray_from_raw_parts_def fsts)
  obtain a5 where a5: "(if ?na = 0 then Ok (None, a4)
      else res_bind (try_alloc_arenaarray (L TyAmendEntry) a4 ?na []) (\<lambda>(result, a).
           res_bind (push_all_amends ?W result) (\<lambda>result.
           Ok (Some (sort_amends S (into_arena_array result)), a)))) =
    Ok (tw_amends (writes_of S blocks txs), a5)"
    using optional_table [where push = "push_all_amends ?W" and srt = "sort_amends S" and
        t = "tw_amends (writes_of S blocks txs)", OF room4 amends tables(2)] by blast
  have cond: "(length blocks \<noteq> length txs \<or> length blocks \<noteq> length coinbase_asciis) = False"
    using assms(1,2) by simp
  have "write_analyzed_txs S L blocks txs coinbase_asciis a =
      Ok (\<lparr>tw_txs = sort_txs S (concat txs), tw_block_txs = sort_blocks S (block_records txs blocks),
        tw_amends = tw_amends (writes_of S blocks txs), tw_spends = tw_spends (writes_of S blocks txs)\<rparr>, a5)"
    unfolding write_analyzed_txs_def cond if_False a1(1) res_bind_simps split_conv a2(1) a3(1) Let_def all a4(1) a5
    by (simp add: into_arena_array_def)
  then show ?thesis by (simp add: writes_of_def)
qed

section \<open>Tables of transactions and blocks\<close>

definition sorters_ok :: "sorters \<Rightarrow> bool" where
  "sorters_ok S \<longleftrightarrow>
     (\<forall>xs. mset (sort_blocks S xs) = mset xs \<and> sorted (map fst (sort_blocks S xs))) \<and>
     (\<forall>xs. mset (sort_txs S xs) = mset xs \<and> sorted (map st_hash (sort_txs S xs))) \<and>
     (\<forall>xs. mset (sort_spends S xs) = mset xs \<and> sorted (map fst (sort_spends S xs))) \<and>
     (\<forall>xs. mset (sort_amends S xs) = mset xs \<and> sorted (map fst (sort_amends S xs)))"

lemma sorters_set:
  assumes "sorters_ok S"
  shows "set (sort_blocks S xs) = set xs" "set (sort_txs S ys) = set ys"
    "set (sort_spends S zs) = set zs" "set (sort_amends S zs) = set zs"
  using assms unfolding sorters_ok_def by (metis mset_eq_setD)+

lemma zeros_least: "length xs = n \<Longrightarrow> replicate n (0 :: u8) \<le> xs"
proof (induction n arbitrary: xs)
  case (Suc n)
  then obtain y ys where "xs = y # ys" "length ys = n" by (cases xs) auto
  then show ?case using Suc.IH [of ys] by (cases "y = 0") (simp_all add: word_gt_0)
qed simp

lemma table_puts_ok:
  assumes "sorted (k # map st_hash ts)" "\<forall>t \<in> set ts. field t \<noteq> None"
  shows "\<exists>puts. table_puts field k ts = Ok puts \<and> sorted_wrt (<) (k # map fst puts) \<and>
    fst ` set puts = st_hash ` set ts - {k} \<and>
    (\<forall>(h, v) \<in> set puts. \<exists>t \<in> set ts. st_hash t = h \<and> field t = Some v)"
  using assms
proof (induction ts arbitrary: k)
  case (Cons t ts)
  obtain v where v: "field t = Some v" using Cons.prems(2) by auto
  have rest: "sorted (k # map st_hash ts)" "sorted (st_hash t # map st_hash ts)" "\<forall>t \<in> set ts. field t \<noteq> None"
    using Cons.prems by simp_all
  show ?case
  proof (cases "st_hash t = k")
    case True
    obtain puts where "table_puts field k ts = Ok puts" "sorted_wrt (<) (k # map fst puts)"
      "fst ` set puts = st_hash ` set ts - {k}"
      "\<forall>(h, v) \<in> set puts. \<exists>t \<in> set ts. st_hash t = h \<and> field t = Some v"
      using Cons.IH [OF rest(1,3)] by blast
    then show ?thesis using True by auto
  next
    case False
    then have lt: "k < st_hash t" using Cons.prems(1) by auto
    obtain puts where puts: "table_puts field (st_hash t) ts = Ok puts" "sorted_wrt (<) (st_hash t # map fst puts)"
      "fst ` set puts = st_hash ` set ts - {st_hash t}"
      "\<forall>(h, v) \<in> set puts. \<exists>t \<in> set ts. st_hash t = h \<and> field t = Some v"
      using Cons.IH [OF rest(2,3)] by blast
    have "table_puts field k (t # ts) = Ok ((st_hash t, v) # puts)" using False v puts(1) by simp
    moreover have "sorted_wrt (<) (k # map fst ((st_hash t, v) # puts))"
      using puts(2) lt by (auto dest: less_trans)
    moreover have "fst ` set ((st_hash t, v) # puts) = st_hash ` set (t # ts) - {k}"
      using puts(3) Cons.prems(1) lt by auto
    ultimately show ?thesis using puts(4) v by auto
  qed
qed simp

definition tx_entry :: "SerializedTx \<Rightarrow> BlockTxEntry" where
  "tx_entry t = \<lparr>bt_hash = st_hash t, bt_value_sats = st_txouts_sum t, bt_fee_sats = st_fee t,
     bt_size_wus = st_size_wus t\<rparr>"

lemma length_entry_bytes: "length (st_hash t) = 32 \<Longrightarrow> length (entry_bytes t) = 52"
  by (simp add: entry_bytes_def)

lemma entry_fields:
  assumes "length (st_hash t) = 32"
  shows "idx_range (entry_bytes t @ r) 0 32 = Ok (st_hash t)"
    "idx_range (entry_bytes t @ r) 32 40 = Ok (u64_to_le_bytes (st_txouts_sum t))"
    "idx_range (entry_bytes t @ r) 40 48 = Ok (u64_to_le_bytes (st_fee t))"
    "idx_range (entry_bytes t @ r) 48 52 = Ok (u32_to_le_bytes (st_size_wus t))"
  using assms by (simp_all add: idx_range_def get_range_def entry_bytes_def)

lemma read_block_txs_eq:
  "list_all (\<lambda>t. length (st_hash t) = 32) ts \<Longrightarrow> length p + 52 * length ts < 2 ^ 64 \<Longrightarrow>
   read_block_txs (length ts) (p @ concat (map entry_bytes ts)) (length p) = Ok (map tx_entry ts)"
proof (induction ts arbitrary: p)
  case (Cons t ts)
  have h: "length (st_hash t) = 32" using Cons.prems by simp
  have "read_block_txs (length ts) ((p @ entry_bytes t) @ concat (map entry_bytes ts)) (length (p @ entry_bytes t)) =
      Ok (map tx_entry ts)"
    by (rule Cons.IH) (use Cons.prems length_entry_bytes [OF h] in simp_all)
  then show ?case
    using Cons.prems(2) length_entry_bytes [OF h] entry_fields [OF h] by (simp add: get_from_mid tx_entry_def)
qed simp

lemma block_record_entries:
  assumes "list_all (\<lambda>t. length (st_hash t) = 32) ts" "(52 + sz) * length ts < 2 ^ 62"
    and "get b = Ok (Some (block_record ts))"
  shows "get_block_tx_entries sz get b = Ok (map tx_entry ts)"
proof -
  let ?c = "word_of_nat (length ts) :: u64" and ?v = "fst (serialize_varint (word_of_nat (length ts)))"
  have lens: "length ts < 2 ^ 62" "52 * length ts < 2 ^ 62" "sz * length ts < 2 ^ 63"
    using assms(2) by (simp_all add: add_mult_distrib)
  have "length ?v = length_varint ?c" by simp
  with length_varint_bounds [of ?c] have "length ?v \<le> 9" "0 < length ?v" by linarith+
  then have "?v \<noteq> []" by blast
  have "read_block_txs (length ts) (?v @ concat (map entry_bytes ts)) (length ?v) = Ok (map tx_entry ts)"
    using read_block_txs_eq [OF assms(1), of ?v] lens(2) \<open>length ?v \<le> 9\<close> by simp
  moreover have "deserialize_varint (?v @ concat (map entry_bytes ts)) = Ok (?c, length_varint ?c)"
    by (simp add: deserialize_serialize_varint)
  moreover have "\<not> 2 ^ 63 \<le> sz * unat ?c" using lens by simp
  ultimately show ?thesis
    using assms(3) lens(1) \<open>?v \<noteq> []\<close>
    by (simp add: get_block_tx_entries_def found_data_def block_record_def spawn_blocking_def)
qed

section \<open>Records of addresses\<close>

lemma merge_amends_keys: "fst ` set (merge_amends xs) = fst ` set xs"
  by (induction xs rule: merge_amends.induct) auto

lemma merge_amends_sum: "sum_for k (merge_amends xs) = sum_for k xs"
  by (induction xs rule: merge_amends.induct) (auto simp: sum_for_def add.assoc)

lemma merge_amends_ascending: "sorted (map fst xs) \<Longrightarrow> sorted_wrt (<) (map fst (merge_amends xs))"
proof (induction xs rule: merge_amends.induct)
  case (3 k d k' d' xs)
  show ?case
  proof (cases "k' = k")
    case False
    then have "k < k'" using "3.prems" by (auto simp: order.order_iff_strict)
    then have "\<forall>x \<in> fst ` set (merge_amends ((k', d') # xs)). k < x"
      using "3.prems" unfolding merge_amends_keys by auto
    then show ?thesis using "3.IH"(2) "3.prems" False by auto
  qed (use 3 in auto)
qed simp_all

text \<open>A row of the address table.\<close>

record address_row =
  ar_address :: bytes
  ar_time :: u64
  ar_tx :: hash32
  ar_block :: hash32
  ar_delta :: i64

definition row_ok :: "address_row \<Rightarrow> bool" where
  "row_ok r \<longleftrightarrow> length (ar_tx r) = 32 \<and> length (ar_block r) = 32"

definition row_key :: "address_row \<Rightarrow> bytes" where
  "row_key r = address_key (ar_address r) (ar_time r) (ar_tx r)"

definition row_pair :: "address_row \<Rightarrow> bytes \<times> bytes" where
  "row_pair r = (row_key r, ar_block r @ u64_to_le_bytes (ar_delta r))"

definition row_entry :: "address_row \<Rightarrow> hash32 \<times> hash32 \<times> i64" where
  "row_entry r = (ar_tx r, ar_block r, ar_delta r)"

lemma read_row:
  assumes "row_ok r"
  shows "read_address_entry (length (ar_address r) + 8 + 32) (row_pair r) = Ok (row_entry r)"
  using assms
  by (simp add: read_address_entry_def row_pair_def row_key_def address_key_def row_ok_def row_entry_def
      get_from_def idx_range_def get_range_def)

lemma read_rows:
  "\<forall>r \<in> set rows. row_ok r \<and> ar_address r = address \<Longrightarrow> length results < limit \<Longrightarrow>
   read_address_entries (length address + 8 + 32) limit results (map row_pair rows) =
     Ok (results @ take (limit - length results) (map row_entry rows))"
proof (induction rows arbitrary: results)
  case (Cons r rows)
  have entry: "read_address_entry (length address + 8 + 32) (row_pair r) = Ok (row_entry r)"
    using read_row [of r] Cons.prems(1) by simp
  show ?case
  proof (cases "length results + 1 = limit")
    case True
    then have "limit - length results = 1" by simp
    then show ?thesis using entry True by (simp add: Let_def)
  next
    case False
    then have lt: "length (results @ [row_entry r]) < limit" using Cons.prems(2) by simp
    have "limit - length results = Suc (limit - length (results @ [row_entry r]))" using Cons.prems(2) by simp
    then show ?thesis using Cons.IH [OF _ lt] Cons.prems(1) entry False by (simp add: Let_def)
  qed
qed simp

text \<open>
  A key between two keys of an address belongs to that address, unless one of two addresses is a prefix
  of the other.
\<close>

lemma sandwiched_prefix:
  "length x = length y \<Longrightarrow> a @ x \<le> key \<Longrightarrow> key < a @ (y :: bytes) \<Longrightarrow> \<exists>rest. key = a @ rest"
proof (induction a arbitrary: key)
  case (Cons c a)
  then obtain d key' where "key = d # key'" by (cases key) auto
  then show ?case using Cons by auto
qed simp

definition prefix_free :: "bytes set \<Rightarrow> bool" where
  "prefix_free A \<longleftrightarrow> (\<forall>a \<in> A. \<forall>b \<in> A. \<forall>rest. a @ rest = b \<longrightarrow> rest = [])"

lemma in_range_own:
  assumes "prefix_free A" "a \<in> A" "ar_address r \<in> A" "length x = 8" "length y = 8"
    and "a @ x \<le> row_key r" "row_key r < a @ y"
  shows "ar_address r = a"
proof -
  obtain rest where rest: "ar_address r @ (u64_to_be_bytes (0xFFFFFFFFFFFFFFFF - ar_time r) @ ar_tx r) = a @ rest"
    using sandwiched_prefix [OF _ assms(6,7)] assms(4,5) by (auto simp: row_key_def address_key_def)
  consider z where "ar_address r @ z = a" | z where "a @ z = ar_address r"
    using rest by (auto simp: append_eq_append_conv2)
  then show ?thesis
  proof cases
    case 1
    then have "z = []" using assms(1-3) unfolding prefix_free_def by blast
    then show ?thesis using 1 by simp
  next
    case 2
    then have "z = []" using assms(1-3) unfolding prefix_free_def by blast
    then show ?thesis using 2 by simp
  qed
qed

lemma be_bytes_le_append: "u64_to_be_bytes v \<le> u64_to_be_bytes w @ z \<longleftrightarrow> v \<le> w"
proof -
  have lt: "u64_to_be_bytes a @ x < u64_to_be_bytes b @ y" if "a < b" for a b x y
    using be_bytes_less [of "unat a" "unat b" 8 x y] that unat_u64_lt [of b]
    by (simp add: u64_to_be_bytes_def word_less_nat_alt)
  consider "v < w" | "v = w" | "w < v" by (metis linorder_less_linear)
  then show ?thesis
  proof cases
    case 1
    then show ?thesis using lt [OF 1, of "[]" z] 1 by (simp add: less_imp_le)
  next
    case 2
    have "p \<le> p @ z" for p :: bytes by (induction p) simp_all
    then show ?thesis using 2 by simp
  next
    case 3
    then show ?thesis using lt [OF 3, of z "[]"] by (metis append_Nil2 leD)
  qed
qed

text \<open>Which rows of an address lie between the bounds of a scan.\<close>

lemma own_in_range:
  "address @ u64_to_be_bytes (0xFFFFFFFFFFFFFFFF - until) \<le> address_key address t h \<longleftrightarrow> t \<le> until"
  "address_key address t h < address @ u64_to_be_bytes (0xFFFFFFFFFFFFFFFF - since) \<longleftrightarrow> since < t"
proof -
  have append_le: "p @ x \<le> p @ y \<longleftrightarrow> x \<le> (y :: bytes)" for p x y by (induction p) simp_all
  have inv: "(0xFFFFFFFFFFFFFFFF - a :: u64) \<le> 0xFFFFFFFFFFFFFFFF - b \<longleftrightarrow> b \<le> a" for a b :: u64
    using unat_u64_lt [of a] unat_u64_lt [of b] by (auto simp: word_le_nat_alt unat_inverted)
  show "address @ u64_to_be_bytes (0xFFFFFFFFFFFFFFFF - until) \<le> address_key address t h \<longleftrightarrow> t \<le> until"
    by (simp add: address_key_def append_le be_bytes_le_append inv)
  show "address_key address t h < address @ u64_to_be_bytes (0xFFFFFFFFFFFFFFFF - since) \<longleftrightarrow> since < t"
    by (simp add: address_key_def append_le be_bytes_le_append inv not_le [symmetric])
qed

definition scan_of :: "address_row list \<Rightarrow> bytes \<Rightarrow> bytes \<Rightarrow> (bytes \<times> bytes) list" where
  "scan_of rows lower upper = filter (\<lambda>p. lower \<le> fst p \<and> fst p < upper) (map row_pair rows)"

lemma scan_rows:
  assumes "prefix_free (insert address (ar_address ` set rows))" "length x = 8" "length y = 8"
  shows "scan_of rows (address @ x) (address @ y) =
    map row_pair (filter (\<lambda>r. ar_address r = address \<and> address @ x \<le> row_key r \<and> row_key r < address @ y) rows)"
proof -
  have "(address @ x \<le> row_key r \<and> row_key r < address @ y) \<longleftrightarrow>
      (ar_address r = address \<and> address @ x \<le> row_key r \<and> row_key r < address @ y)" if "r \<in> set rows" for r
    using in_range_own [where r = r, OF assms(1) _ _ assms(2,3)] that by blast
  then show ?thesis
    by (simp add: scan_of_def filter_map comp_def row_pair_def cong: filter_cong)
qed

text \<open>The rows of one address, with a time after \<open>since\<close> and not after \<open>until\<close>.\<close>

definition history :: "address_row list \<Rightarrow> bytes \<Rightarrow> u64 \<Rightarrow> u64 \<Rightarrow> address_row list" where
  "history rows address since until =
     filter (\<lambda>r. ar_address r = address \<and> since < ar_time r \<and> ar_time r \<le> until) rows"

definition table_ok :: "address_row list \<Rightarrow> bytes \<Rightarrow> bool" where
  "table_ok rows address \<longleftrightarrow> (\<forall>r \<in> set rows. row_ok r) \<and> sorted_wrt (<) (map row_key rows) \<and>
     prefix_free (insert address (ar_address ` set rows))"

lemma scan_history:
  assumes "table_ok rows address"
  shows "scan_of rows (address @ u64_to_be_bytes (0xFFFFFFFFFFFFFFFF - until))
      (address @ u64_to_be_bytes (0xFFFFFFFFFFFFFFFF - since)) = map row_pair (history rows address since until)"
proof -
  have "prefix_free (insert address (ar_address ` set rows))" using assms by (simp add: table_ok_def)
  note scan = scan_rows [OF this, of "u64_to_be_bytes (0xFFFFFFFFFFFFFFFF - until)"
      "u64_to_be_bytes (0xFFFFFFFFFFFFFFFF - since)"]
  have "(ar_address r = address \<and> address @ u64_to_be_bytes (0xFFFFFFFFFFFFFFFF - until) \<le> row_key r \<and>
      row_key r < address @ u64_to_be_bytes (0xFFFFFFFFFFFFFFFF - since)) \<longleftrightarrow>
    (ar_address r = address \<and> since < ar_time r \<and> ar_time r \<le> until)" for r
    using own_in_range(1) [where address = address and until = until and t = "ar_time r" and h = "ar_tx r"]
      own_in_range(2) [where address = address and since = since and t = "ar_time r" and h = "ar_tx r"]
    by (auto simp: row_key_def)
  then show ?thesis using scan by (simp add: history_def)
qed

lemma history_rows:
  assumes "table_ok rows address"
  shows "\<forall>r \<in> set (history rows address since until). row_ok r \<and> ar_address r = address"
    and "sorted_wrt (<) (map row_key (history rows address since until))"
  using assms by (auto simp: table_ok_def history_def sorted_wrt_map intro: sorted_wrt_filter)

lemma newest_first:
  assumes "\<forall>r \<in> set rows. ar_address r = address" "sorted_wrt (<) (map row_key rows)"
  shows "sorted_wrt (\<ge>) (map ar_time rows)"
proof -
  have "ar_time r' \<le> ar_time r" if "r \<in> set rows" "r' \<in> set rows" "row_key r < row_key r'" for r r'
    using that assms(1) address_key_newer [of "ar_time r" "ar_time r'" address "ar_tx r'" "ar_tx r"]
    by (force simp: row_key_def not_le [symmetric] dest: less_imp_le leD)
  then show ?thesis
    using sorted_wrt_mono_rel [of rows "\<lambda>x y. row_key x < row_key y" "\<lambda>x y. ar_time y \<le> ar_time x"] assms(2)
    by (simp add: sorted_wrt_map)
qed

text \<open>The scan that continues after a row.\<close>

lemma drop_from_key:
  "sorted_wrt (<) (map row_key rows) \<Longrightarrow> i < length rows \<Longrightarrow>
    filter (\<lambda>r. row_key (rows ! i) \<le> row_key r) rows = drop i rows"
proof (induction rows arbitrary: i)
  case (Cons r rows)
  show ?case
  proof (cases i)
    case 0
    have "filter (\<lambda>r'. row_key r \<le> row_key r') rows = rows"
      using Cons.prems(1) by (auto simp: filter_id_conv less_imp_le)
    then show ?thesis using 0 by simp
  next
    case (Suc j)
    then have "rows ! j \<in> set rows" using Cons.prems(2) by simp
    then have "row_key r < row_key (rows ! j)" using Cons.prems(1) by simp
    then have "\<not> row_key (rows ! j) \<le> row_key r" by (simp add: not_le)
    then show ?thesis using Cons.IH [of j] Cons.prems Suc by simp
  qed
qed simp

lemma spawn_blocking_Ok [simp]: "spawn_blocking (Ok x) = Ok x"
  by (simp add: spawn_blocking_def)

lemma top_address_rows:
  "\<forall>r \<in> set rows. row_ok r \<and> ar_address r = address \<Longrightarrow> ta_total_txs d + length rows < 2 ^ 64 \<Longrightarrow>
   length (ta_transactions d) = min n (ta_total_txs d) \<Longrightarrow>
   read_top_address (length address) n d (map row_pair rows) =
     Ok \<lparr>ta_transactions = take n (ta_transactions d @ map row_entry rows),
       ta_total_txs = ta_total_txs d + length rows,
       ta_total_spent = ta_total_spent d + sum_list (map (\<lambda>r. - ar_delta r) (filter (\<lambda>r. sint (ar_delta r) < 0) rows)),
       ta_total_received = ta_total_received d + sum_list (map ar_delta (filter (\<lambda>r. \<not> sint (ar_delta r) < 0) rows)),
       ta_first_seen = (if rows = [] then ta_first_seen d else ar_time (last rows))\<rparr>"
proof (induction rows arbitrary: d)
  case Nil
  then show ?case by simp
next
  case (Cons r rows)
  obtain h b delta where e: "row_entry r = (h, b, delta)" "delta = ar_delta r" by (simp add: row_entry_def)
  have entry: "read_address_entry (length address + 8 + 32) (row_pair r) = Ok (h, b, delta)"
    using read_row [of r] Cons.prems(1) e by simp
  have time: "idx_range (fst (row_pair r)) (length address) (length address + 8) =
      Ok (u64_to_be_bytes (0xFFFFFFFFFFFFFFFF - ar_time r))"
    using Cons.prems(1) by (simp add: row_pair_def row_key_def address_key_def idx_range_def get_range_def)
  define d' where "d' = \<lparr>ta_transactions = (if length (ta_transactions d) < n
      then ta_transactions d @ [row_entry r] else ta_transactions d), ta_total_txs = ta_total_txs d + 1,
    ta_total_spent = (if sint delta < 0 then ta_total_spent d + - delta else ta_total_spent d),
    ta_total_received = (if sint delta < 0 then ta_total_received d else ta_total_received d + delta),
    ta_first_seen = ar_time r\<rparr>"
  have "read_top_address (length address) n d (map row_pair (r # rows)) =
      read_top_address (length address) n d' (map row_pair rows)"
    using entry time Cons.prems(2) e(1) by (cases d) (simp add: Let_def d'_def)
  moreover have "read_top_address (length address) n d' (map row_pair rows) =
     Ok \<lparr>ta_transactions = take n (ta_transactions d' @ map row_entry rows),
       ta_total_txs = ta_total_txs d' + length rows,
       ta_total_spent = ta_total_spent d' + sum_list (map (\<lambda>r. - ar_delta r) (filter (\<lambda>r. sint (ar_delta r) < 0) rows)),
       ta_total_received = ta_total_received d' + sum_list (map ar_delta (filter (\<lambda>r. \<not> sint (ar_delta r) < 0) rows)),
       ta_first_seen = (if rows = [] then ta_first_seen d' else ar_time (last rows))\<rparr>"
    by (rule Cons.IH) (use Cons.prems in \<open>auto simp: d'_def\<close>)
  moreover have "take n (ta_transactions d' @ map row_entry rows) =
      take n (ta_transactions d @ map row_entry (r # rows))"
    using Cons.prems(3) by (auto simp: d'_def take_Cons' min_def split: if_splits)
  ultimately show ?case by (simp add: d'_def e(2))
qed

section \<open>Spent outputs\<close>

text \<open>A row of the table of spent outputs.\<close>

definition spend_row :: "TxIn \<times> hash32 \<times> hash32 \<Rightarrow> bytes \<times> bytes" where
  "spend_row x = (case x of (txin, tx, block) \<Rightarrow> (spend_key txin, tx @ block))"

lemma read_spends_rows:
  "\<forall>(txin, tx, block) \<in> set rows. length (ti_prevout_hash txin) = 32 \<and> length tx = 32 \<and> length block = 32 \<Longrightarrow>
   read_spends (map spend_row rows) = Ok (map (\<lambda>(txin, tx, block). (ti_prevout_index txin, tx, block)) rows)"
proof (induction rows)
  case (Cons x rows)
  obtain txin tx block where "x = (txin, tx, block)" by (cases x)
  then show ?case using Cons
    by (simp add: spend_row_def spend_key_def idx_range_def get_range_def)
qed simp

section \<open>A small database\<close>

definition demo_sorters :: sorters where
  "demo_sorters = \<lparr>sort_blocks = sort_key fst, sort_txs = sort_key st_hash, sort_spends = sort_key fst,
     sort_amends = sort_key fst\<rparr>"

lemma demo_sorters_ok: "sorters_ok demo_sorters"
  by (simp add: sorters_ok_def demo_sorters_def)

definition demo_stored :: SerializedTx where
  "demo_stored = SerializedTx_default\<lparr>st_hash := replicate 32 6, st_analyzed_tx := Some [],
     st_tx_outs := Some (serialize_array TxOut_serialize (tx_txouts demo_payment)), st_fee := 1000,
     st_txouts_sum := 5000\<rparr>"

lemma demo_stored_fields:
  "st_hash demo_stored = replicate 32 6" "st_fee demo_stored = 1000" "st_txouts_sum demo_stored = 5000"
  "st_size_wus demo_stored = 0" "st_spent_txos demo_stored = None" "st_address_amends demo_stored = None"
  "st_tx_outs demo_stored = Some (serialize_array TxOut_serialize (tx_txouts demo_payment))"
  by (simp_all add: demo_stored_def SerializedTx_default_def)

lemma demo_writes_room: "arena_room (Arena_new 4096 1000) (writes_need demo_layouts [replicate 32 9] [[demo_stored]])"
  by (simp add: arena_room_def arena_inv_def Arena_new_def writes_need_def block_need_def spends_count_def
      amends_count_def demo_layouts_def demo_stored_fields)

definition demo_rows :: "address_row list" where
  "demo_rows = [\<lparr>ar_address = replicate 20 1, ar_time = 200, ar_tx = replicate 32 5, ar_block = replicate 32 9,
       ar_delta = - 30\<rparr>,
     \<lparr>ar_address = replicate 20 1, ar_time = 100, ar_tx = replicate 32 6, ar_block = replicate 32 8,
       ar_delta = 50\<rparr>]"

lemma demo_table_ok: "table_ok demo_rows (replicate 20 1)"
  using address_key_newer [of 100 200 "replicate 20 1" "replicate 32 5" "replicate 32 6"]
  by (simp add: table_ok_def demo_rows_def row_ok_def row_key_def prefix_free_def)

lemma demo_history:
  "history demo_rows (replicate 20 1) 0 0xFFFFFFFFFFFFFFFF = demo_rows"
  "history demo_rows (replicate 20 1) 100 0xFFFFFFFFFFFFFFFF = [hd demo_rows]"
  by (simp_all add: history_def demo_rows_def)

section \<open>Properties\<close>

text \<open>
  \<open>write_analyzed_txs\<close> hands every block a record from which \<open>get_block_tx_entries\<close> reads back the
  block's transactions in order with their output sums, fees and sizes; the keys given to the writer
  ascend strictly, as table files require.
\<close>

lemma block_table_round_trip:
  assumes "length txs = length blocks" "length coinbase_asciis = length blocks" "distinct blocks"
    and "\<forall>t \<in> set (concat txs). length (st_hash t) = 32" "\<forall>b \<in> set blocks. length b = 32"
    and "arena_room a (writes_need L blocks txs)" "sorters_ok S"
    and "\<forall>ts \<in> set txs. (52 + sz) * length ts < 2 ^ 62"
  shows "\<exists>w a'. write_analyzed_txs S L blocks txs coinbase_asciis a = Ok (w, a') \<and>
    sorted_wrt (<) (map fst (write_block_txs (tw_block_txs w))) \<and>
    (\<forall>get. (\<forall>(k, v) \<in> set (write_block_txs (tw_block_txs w)). get k = Ok (Some v)) \<longrightarrow>
       (\<forall>i < length blocks. get_block_tx_entries sz get (blocks ! i) = Ok (map tx_entry (txs ! i))))"
proof -
  let ?w = "writes_of S blocks txs" and ?r = "block_records txs blocks"
  have puts: "write_block_txs (tw_block_txs ?w) = sort_blocks S ?r"
    by (simp add: write_block_txs_def writes_of_def)
  have "map fst ?r = blocks" using assms(1) by (simp add: block_records_def comp_def case_prod_unfold)
  then have "distinct (map fst ?r)" using assms(3) by simp
  moreover have "mset (map fst (sort_blocks S ?r)) = mset (map fst ?r)" "sorted (map fst (sort_blocks S ?r))"
    using assms(7) unfolding sorters_ok_def by simp_all
  ultimately have "sorted_wrt (<) (map fst (sort_blocks S ?r))"
    by (metis mset_eq_imp_distinct_iff strict_sorted_iff)
  moreover have "get_block_tx_entries sz get (blocks ! i) = Ok (map tx_entry (txs ! i))"
    if get: "\<forall>(k, v) \<in> set (sort_blocks S ?r). get k = Ok (Some v)" and i: "i < length blocks" for get i
  proof (rule block_record_entries)
    have "(blocks ! i, block_record (txs ! i)) \<in> set ?r"
      using i assms(1) by (auto simp: block_records_def set_zip intro!: image_eqI [of _ _ "(txs ! i, blocks ! i)"])
    then show "get (blocks ! i) = Ok (Some (block_record (txs ! i)))"
      using get sorters_set(1) [OF assms(7)] by fastforce
    have "txs ! i \<in> set txs" using i assms(1) by simp
    then show "list_all (\<lambda>t. length (st_hash t) = 32) (txs ! i)" "(52 + sz) * length (txs ! i) < 2 ^ 62"
      using assms(4,8) by (auto simp: list_all_iff)
  qed
  ultimately show ?thesis
    using write_analyzed_txs_eq [OF assms(1,2,4-6), of S] unfolding puts [symmetric] by blast
qed

text \<open>
  The transactions and their outputs are put under strictly ascending keys, once for each
  transaction identifier, and a transaction's outputs are found again: \<open>get_transaction_outputs\<close>
  returns them for every transaction that was written.
\<close>

lemma output_table_round_trip:
  assumes "length txs = length blocks" "length coinbase_asciis = length blocks"
    and "\<forall>t \<in> set (concat txs). length (st_hash t) = 32 \<and> st_hash t \<noteq> replicate 32 0"
    and "\<forall>b \<in> set blocks. length b = 32"
    and "arena_room a (writes_need L blocks txs)" "sorters_ok S"
    and "\<forall>t \<in> set (concat txs). st_tx_outs t = Some (serialize_array TxOut_serialize (outs (st_hash t)))"
    and "\<forall>h. list_all TxOut_ok (outs h) \<and> length (outs h) < 2 ^ 63 \<and> sz * length (outs h) < 2 ^ 63 \<and>
      length (serialize_array TxOut_serialize (outs h)) < 2 ^ 63"
  shows "\<exists>w a' puts. write_analyzed_txs S L blocks txs coinbase_asciis a = Ok (w, a') \<and>
    write_txouts (tw_txs w) = Ok puts \<and> sorted_wrt (<) (map fst puts) \<and>
    fst ` set puts = st_hash ` set (concat txs) \<and>
    (\<forall>get. (\<forall>(k, v) \<in> set puts. get k = Ok (Some v)) \<longrightarrow>
       (\<forall>t \<in> set (concat txs). get_transaction_outputs sz get (st_hash t) = Ok (outs (st_hash t))))"
proof -
  let ?w = "writes_of S blocks txs" and ?ts = "sort_txs S (concat txs)"
  have ts: "set ?ts = set (concat txs)" "sorted (map st_hash ?ts)"
    using sorters_set(2) [OF assms(6)] assms(6) unfolding sorters_ok_def by blast+
  have "sorted (replicate 32 0 # map st_hash ?ts)"
    using ts assms(3) zeros_least [where n = 32] by auto
  moreover have "\<forall>t \<in> set ?ts. st_tx_outs t \<noteq> None" using assms(7) unfolding ts(1) by simp
  ultimately obtain puts where puts: "write_txouts ?ts = Ok puts" "sorted_wrt (<) (replicate 32 0 # map fst puts)"
    "fst ` set puts = st_hash ` set ?ts - {replicate 32 0}"
    "\<forall>(h, v) \<in> set puts. \<exists>t \<in> set ?ts. st_hash t = h \<and> st_tx_outs t = Some v"
    using table_puts_ok [of "replicate 32 0" ?ts st_tx_outs] unfolding write_txouts_def by blast
  have "replicate 32 0 \<notin> st_hash ` set (concat txs)" using assms(3) by (metis imageE)
  then have keys: "fst ` set puts = st_hash ` set (concat txs)" using puts(3) unfolding ts(1) by simp
  have "get_transaction_outputs sz get (st_hash t) = Ok (outs (st_hash t))"
    if get: "\<forall>(k, v) \<in> set puts. get k = Ok (Some v)" and t: "t \<in> set (concat txs)" for get t
  proof -
    let ?data = "serialize_array TxOut_serialize (outs (st_hash t))"
    have "st_hash t \<in> fst ` set puts" unfolding keys using t by blast
    then obtain v where v: "(st_hash t, v) \<in> set puts" by auto
    then obtain u where "u \<in> set (concat txs)" "st_hash u = st_hash t" "st_tx_outs u = Some v"
      using puts(4) unfolding ts(1) by blast
    then have data: "get (st_hash t) = Ok (Some ?data)" using assms(7) get v by force
    have "0 < length ?data" using length_varint_bounds [of "word_of_nat (length (outs (st_hash t)))"]
      by (simp add: serialize_array_def)
    then have "?data \<noteq> []" by blast
    moreover have "deserialize_array_owned sz TxOut_deserialize_owned ?data = Ok (outs (st_hash t), length ?data)"
      using txouto.array_owned_decode_encode [of "outs (st_hash t)" sz "[]"] assms(8) by simp
    ultimately show ?thesis using data
      by (simp add: get_transaction_outputs_def found_data_def)
  qed
  note found = this
  have "\<forall>t \<in> set (concat txs). length (st_hash t) = 32" using assms(3) by blast
  from write_analyzed_txs_eq [OF assms(1,2) this assms(4,5), of S] obtain a' where
    "write_analyzed_txs S L blocks txs coinbase_asciis a = Ok (?w, a')" by blast
  moreover have "write_txouts (tw_txs ?w) = Ok puts" using puts(1) by (simp add: writes_of_def)
  moreover have "sorted_wrt (<) (map fst puts)" using puts(2) by simp
  ultimately show ?thesis using keys found by blast
qed

text \<open>
  The spends that \<open>get_tx_spends\<close> reads are those of the rows whose key starts with the transaction:
  for each spent output its index, the spending transaction and that transaction's block.
\<close>

lemma spends_read_back:
  assumes "\<forall>(txin, tx, block) \<in> set rows. length (ti_prevout_hash txin) = 32 \<and> length tx = 32 \<and> length block = 32"
    and "\<forall>h. prefix_scan h = filter (\<lambda>p. take 32 (fst p) = h) (map spend_row rows)"
  shows "get_tx_spends prefix_scan h = Ok (map (\<lambda>(txin, tx, block). (ti_prevout_index txin, tx, block))
    (filter (\<lambda>(txin, _). ti_prevout_hash txin = h) rows))"
proof -
  have "take 32 (fst (spend_row x)) = h \<longleftrightarrow> (case x of (txin, _) \<Rightarrow> ti_prevout_hash txin = h)" if "x \<in> set rows" for x
    using that assms(1) by (auto simp: spend_row_def spend_key_def split: prod.splits)
  then have "prefix_scan h = map spend_row (filter (\<lambda>(txin, _). ti_prevout_hash txin = h) rows)"
    using assms(2) by (simp add: filter_map comp_def cong: filter_cong)
  moreover have "read_spends (map spend_row (filter (\<lambda>(txin, _). ti_prevout_hash txin = h) rows)) =
      Ok (map (\<lambda>(txin, tx, block). (ti_prevout_index txin, tx, block))
        (filter (\<lambda>(txin, _). ti_prevout_hash txin = h) rows))"
    by (rule read_spends_rows) (use assms(1) in auto)
  ultimately show ?thesis by (simp add: get_tx_spends_def)
qed

text \<open>
  A transaction gives at most one row to each address: after \<open>write_analyzed_txs\<close> has added up the
  amends with one key, the keys ascend strictly and every address keeps its total.
\<close>

lemma one_row_per_address:
  assumes "length block_hash = 32" "sorted (map fst amends)" "length (aa_items result) + length amends \<le> aa_cap result"
  shows "\<exists>merged. push_tx_amends block_hash amends None result =
      Ok (result\<lparr>aa_items := aa_items result @ map (\<lambda>(key, sum). (key, block_hash @ u64_to_le_bytes sum)) merged\<rparr>) \<and>
    sorted_wrt (<) (map fst merged) \<and> fst ` set merged = fst ` set amends \<and>
    (\<forall>key. sum_for key merged = sum_for key amends)"
proof -
  have "amend_entry block_hash = (\<lambda>(key, sum). (key, block_hash @ u64_to_le_bytes sum))"
    by (auto simp: amend_entry_def)
  then show ?thesis
    using push_tx_amends_eq [OF assms(1,3)] merge_amends_ascending [OF assms(2)] merge_amends_keys [of amends]
      merge_amends_sum [of _ amends] by fastforce
qed



text \<open>
  A page of the history continues where the one before ended: after the row \<open>i\<close> of the whole
  history \<open>get_address_entires_continue\<close> returns the rows from \<open>i + 1\<close> on, cut at the limit.
\<close>

lemma address_history_continues:
  assumes "table_ok rows address" "\<forall>l u. range_scan l u = scan_of rows l u" "0 < limit"
    and "i < length (history rows address 0 0xFFFFFFFFFFFFFFFF)"
    and "r = history rows address 0 0xFFFFFFFFFFFFFFFF ! i"
  shows "get_address_entires_continue range_scan address (ar_tx r) (ar_time r) limit =
    Ok (take limit (map row_entry (drop (i + 1) (history rows address 0 0xFFFFFFFFFFFFFFFF))))"
proof -
  let ?h = "history rows address 0 0xFFFFFFFFFFFFFFFF" and ?u = "address @ u64_to_be_bytes 0xFFFFFFFFFFFFFFFF"
  have r: "row_ok r" "ar_address r = address" using history_rows(1) [OF assms(1)] assms(4,5) nth_mem by blast+
  have key: "address @ u64_to_be_bytes (0xFFFFFFFFFFFFFFFF - ar_time r) @ ar_tx r = row_key r"
    using r(2) by (simp add: row_key_def address_key_def)
  have "ar_time r \<le> 0xFFFFFFFFFFFFFFFF"
    unfolding word_le_nat_alt using unat_u64_lt [of "ar_time r"] by simp
  then have low: "address @ u64_to_be_bytes 0 \<le> row_key r"
    using own_in_range(1) [of address "0xFFFFFFFFFFFFFFFF" "ar_time r" "ar_tx r"] r(2)
    by (simp add: row_key_def)
  have "scan_of rows (row_key r) ?u = filter (\<lambda>p. row_key r \<le> fst p) (scan_of rows (address @ u64_to_be_bytes 0) ?u)"
    using low by (auto simp: scan_of_def intro!: filter_cong dest: order.trans)
  also have "\<dots> = map row_pair (filter (\<lambda>q. row_key r \<le> row_key q) ?h)"
    using scan_history [OF assms(1), of "0xFFFFFFFFFFFFFFFF" 0] by (simp add: filter_map comp_def row_pair_def)
  also have "\<dots> = map row_pair (drop i ?h)"
    using drop_from_key [OF history_rows(2) [OF assms(1)] assms(4)] assms(5) by simp
  finally have "tl (scan_of rows (row_key r) ?u) = map row_pair (drop (i + 1) ?h)"
    by (simp add: map_tl [symmetric] tl_drop [symmetric] drop_Suc)
  moreover have "\<forall>q \<in> set (drop (i + 1) ?h). row_ok q \<and> ar_address q = address"
    using history_rows(1) [OF assms(1)] by (blast dest: in_set_dropD)
  note read_rows [OF this, of "[]" limit]
  ultimately show ?thesis
    using assms(2,3) unfolding get_address_entires_continue_def Let_def key by simp
qed

text \<open>
  The totals of an address: \<open>get_top_address_data\<close> counts all its rows after time zero, returns the
  newest ones, the time of the oldest, and a received and a spent amount that differ by the sum of all
  amounts.
\<close>

lemma address_totals:
  assumes "table_ok rows address" "\<forall>l u. range_scan l u = scan_of rows l u" "length rows < 2 ^ 64"
  shows "\<exists>d. get_top_address_data range_scan address n = Ok d \<and>
    (let h = history rows address 0 0xFFFFFFFFFFFFFFFF in
     ta_total_txs d = length h \<and> ta_transactions d = take n (map row_entry h) \<and>
     ta_total_received d - ta_total_spent d = sum_list (map ar_delta h) \<and>
     (h \<noteq> [] \<longrightarrow> ta_first_seen d = ar_time (last h)))"
proof -
  let ?h = "history rows address 0 0xFFFFFFFFFFFFFFFF"
  have "length ?h \<le> length rows" by (simp add: history_def)
  then have len: "length ?h < 2 ^ 64" using assms(3) by linarith
  have balance: "sum_list (map ar_delta (filter (\<lambda>r. \<not> sint (ar_delta r) < 0) rs)) -
      sum_list (map (\<lambda>r. - ar_delta r) (filter (\<lambda>r. sint (ar_delta r) < 0) rs)) = sum_list (map ar_delta rs)" for rs
    by (induction rs) auto
  have "scan_of rows (address @ u64_to_be_bytes 0) (address @ u64_to_be_bytes 0xFFFFFFFFFFFFFFFF) = map row_pair ?h"
    using scan_history [OF assms(1), of "0xFFFFFFFFFFFFFFFF" 0] by simp
  then show ?thesis
    using top_address_rows [OF history_rows(1) [OF assms(1), of 0 "0xFFFFFFFFFFFFFFFF"], where n = n and
        d = "\<lparr>ta_transactions = [], ta_total_txs = 0, ta_total_spent = 0, ta_total_received = 0, ta_first_seen = 0\<rparr>"]
      len assms(2) balance [of ?h]
    by (simp add: get_top_address_data_def Let_def)
qed

end
