(* ===== verification/Crawler.thy ===== *)
theory Crawler
  imports Peers ChainWalk Records
begin

text \<open>
  Crawling a peer (\<open>src/src/crawler/mod.rs\<close>): the answer to each payload, the session with a connected
  peer as a sequence of the events its \<open>select!\<close> waits for, the evaluation of a session and the loop
  that crawls a peer again until it is banned; and \<open>get_block\<close> of \<open>src/src/chainman/mod.rs\<close>, which
  assembles a block for a peer from the tables.

  The clock, random nonces, the two flags of the synchronisation, the answers of the other components
  and whether a write to the socket succeeds are arguments.  \<open>failed_times\<close> is a natural number: it is
  below 14 whenever it is increased, by at most 14.
\<close>

section \<open>Blocks for peers\<close>

fun join_all :: "'a res list \<Rightarrow> 'a list res" where
  "join_all [] = Ok []"
| "join_all (r # rs) = res_bind r (\<lambda>x. res_bind (join_all rs) (\<lambda>xs. Ok (x # xs)))"

text \<open>\<open>entries\<close> is \<open>get_block_tx_entries\<close> and \<open>analyzed\<close> is \<open>get_analyzed_tx\<close>.\<close>

definition get_block ::
  "Chain \<Rightarrow> (hash32 \<Rightarrow> BlockTxEntry list res) \<Rightarrow> (hash32 \<Rightarrow> AnalyzedTx res) \<Rightarrow> hash32 \<Rightarrow> bool \<Rightarrow> Block res" where
  "get_block c entries analyzed hash include_witness_data =
     (case get_header_by_hash c hash of
        None \<Rightarrow> Err (Msg ''not found'')
      | Some header \<Rightarrow>
          res_bind (case entries hash of
                      Ok v \<Rightarrow> Ok (map bt_hash v)
                    | Err _ \<Rightarrow> Err (Msg ''txs not found'')
                    | Panic \<Rightarrow> Panic) (\<lambda>txs.
          res_bind (join_all (map (\<lambda>v. spawn_blocking (analyzed v)) txs)) (\<lambda>txs_result.
          Ok \<lparr>bl_header = bn_header header,
              bl_txs = map (\<lambda>v. if include_witness_data then an_tx v
                                else (an_tx v)\<lparr>tx_witness_data := None\<rparr>) txs_result\<rparr>)))"

section \<open>Answers to payloads\<close>

text \<open>What a session asks of the other components.\<close>

datatype crawl_effect =
    PeersSeen "AddressPortNetwork list" u64
  | HeaderReceived BlockHeader
  | BlockReceived Payload
  | PeerVersionReceived u64 u32 bytes
  | PeerOnline u64
  | WorkerRegistered

text \<open>The last four bytes of an IPv4 address in IPv6 form.\<close>

definition ipv4_mapped :: "bytes \<Rightarrow> bytes option" where
  "ipv4_mapped addr =
     (if length addr = 16 \<and> take 12 addr = replicate 10 0 @ [0xff, 0xff] then Some (drop 12 addr) else None)"

definition addr_to_apn :: "NetAddr \<Rightarrow> AddressPortNetwork" where
  "addr_to_apn addy =
     (let (network_id, addy_bytes) =
        (case ipv4_mapped (na_addr addy) of Some v4 \<Rightarrow> (IPv4, v4) | None \<Rightarrow> (IPv6, na_addr addy)) in
      \<lparr>apn_network_id = network_id, apn_port = na_port addy, apn_address = addy_bytes\<rparr>)"

definition addrv2_to_apn :: "NetAddrV2 \<Rightarrow> AddressPortNetwork option" where
  "addrv2_to_apn addy =
     map_option (\<lambda>(network_id, addy_bytes).
         \<lparr>apn_network_id = network_id, apn_port = n2_port addy, apn_address = addy_bytes\<rparr>)
       (if n2_network_id addy = IPv4 \<and> length (n2_address addy) = 4 then Some (IPv4, n2_address addy)
        else if n2_network_id addy = IPv6 \<and> length (n2_address addy) = 16 then
          (case ipv4_mapped (n2_address addy) of
             Some v4 \<Rightarrow> Some (IPv4, v4)
           | None \<Rightarrow> Some (IPv6, n2_address addy))
        else None)"

fun extract_block_requests :: "InventoryVector list \<Rightarrow> (hash32 \<times> bool) list \<times> InventoryVector list" where
  "extract_block_requests [] = ([], [])"
| "extract_block_requests (entity # inner) =
     (let (requests, not_found) = extract_block_requests inner in
      case iv_type entity of
        InvBlock \<Rightarrow> ((iv_hash entity, False) # requests, not_found)
      | InvWitnessBlock \<Rightarrow> ((iv_hash entity, True) # requests, not_found)
      | _ \<Rightarrow> (requests, entity # not_found))"

text \<open>
  The responses, the block requests that are now queued and what is passed on.  \<open>time\<close> is the clock in
  seconds and \<open>respond\<close> is \<open>respond_to_getheaders\<close>.
\<close>

definition handle_payload ::
  "bool \<Rightarrow> bool \<Rightarrow> u64 \<Rightarrow> (hash32 list \<Rightarrow> hash32 \<Rightarrow> BlockHeader list option res) \<Rightarrow> Payload option \<Rightarrow>
   (hash32 \<times> bool) list \<Rightarrow> (Payload list option \<times> (hash32 \<times> bool) list \<times> crawl_effect list) res" where
  "handle_payload syncing_headers syncing_bodies time respond payload block_requests =
     (let should_process_headers = (\<not> syncing_headers);
          should_process_blocks = (should_process_headers \<and> \<not> syncing_bodies) in
      case payload of
        None \<Rightarrow> Ok (None, block_requests, [])
      | Some p \<Rightarrow>
          (case p of
             PPing ping \<Rightarrow> Ok (Some [PPong \<lparr>pong_nonce = ping_nonce ping\<rparr>], block_requests, [])
           | PAddr addys \<Rightarrow>
               Ok (None, block_requests, [PeersSeen (map addr_to_apn (addr_inner addys)) time])
           | PAddrV2 addys \<Rightarrow>
               Ok (None, block_requests, [PeersSeen (List.map_filter addrv2_to_apn (addrv2_inner addys)) time])
           | PBlock block \<Rightarrow>
               Ok (None, block_requests,
                   (if should_process_headers then [HeaderReceived (bl_header block)] else []) @
                   (if should_process_blocks then [BlockReceived p] else []))
           | PInv invs \<Rightarrow>
               if \<not> should_process_headers then Ok (None, block_requests, [])
               else
                 Ok (Some [PGetData \<lparr>getdata_inner =
                        map (\<lambda>item. \<lparr>iv_type = InvWitnessBlock, iv_hash = iv_hash item\<rparr>)
                          (filter (\<lambda>item. iv_type item = InvBlock) (inv_inner invs))\<rparr>], block_requests, [])
           | PHeaders headers \<Rightarrow>
               if \<not> should_process_headers then Ok (None, block_requests, [])
               else Ok (None, block_requests, map HeaderReceived (headers_inner headers))
           | PGetHeaders get_headers \<Rightarrow>
               if should_process_headers then
                 res_bind (respond (gh_block_locator get_headers) (gh_hash_stop get_headers)) (\<lambda>v.
                 Ok (map_option (\<lambda>v. [PHeaders \<lparr>headers_inner = v\<rparr>]) v, block_requests, []))
               else Ok (None, block_requests, [])
           | PGetData get_data \<Rightarrow>
               let (requests, not_found) = extract_block_requests (getdata_inner get_data);
                   block_requests = block_requests @ requests in
               if not_found = [] then Ok (None, block_requests, [])
               else Ok (Some [PNotFound \<lparr>notfound_inner = not_found\<rparr>], block_requests, [])
           | _ \<Rightarrow> Ok (None, block_requests, [])))"

section \<open>A session\<close>

text \<open>
  What the \<open>select!\<close> of \<open>crawl\<close> wakes up for, with what it reads: the result of a channel, a nonce, the
  answer of \<open>get_block\<close>, a packet with the flags and the answers to its payload.
\<close>

datatype crawl_event =
    BlockApplied "hash32 res"
  | PingTick u64
  | BlockRequestTick "hash32 \<Rightarrow> bool \<Rightarrow> Block res"
  | PacketRead "Payload option res" bool bool u64 "hash32 list \<Rightarrow> hash32 \<Rightarrow> BlockHeader list option res"
  | JobAssigned "hash32 res" bool bool

record session =
  se_services :: u64
  se_sent :: "Payload list"
  se_block_requests :: "(hash32 \<times> bool) list"
  se_effects :: "crawl_effect list"
  se_packets :: u32

text \<open>\<open>fails n\<close> is the error of the write after \<open>n\<close> packets, if it fails.\<close>

fun write_packets :: "(nat \<Rightarrow> error option) \<Rightarrow> Payload list \<Rightarrow> session \<Rightarrow> session \<times> unit res" where
  "write_packets fails [] s = (s, Ok ())"
| "write_packets fails (p # ps) s =
     (case fails (length (se_sent s)) of
        Some e \<Rightarrow> (s, Err e)
      | None \<Rightarrow> write_packets fails ps (s\<lparr>se_sent := se_sent s @ [p]\<rparr>))"

declare write_packets.simps [simp del]

definition session_bind :: "session \<times> 'a res \<Rightarrow> ('a \<Rightarrow> session \<Rightarrow> session \<times> 'b res) \<Rightarrow> session \<times> 'b res" where
  "session_bind r f = (case r of (s, Ok x) \<Rightarrow> f x s | (s, Err e) \<Rightarrow> (s, Err e) | (s, Panic) \<Rightarrow> (s, Panic))"

definition add_effects :: "crawl_effect list \<Rightarrow> session \<Rightarrow> session" where
  "add_effects es s = s\<lparr>se_effects := se_effects s @ es\<rparr>"

definition session_step :: "(nat \<Rightarrow> error option) \<Rightarrow> crawl_event \<Rightarrow> session \<Rightarrow> session \<times> unit res" where
  "session_step fails event s =
     (case event of
        BlockApplied hash \<Rightarrow>
          session_bind (s, hash) (\<lambda>hash s.
          write_packets fails [PInv \<lparr>inv_inner = [\<lparr>iv_type = InvBlock, iv_hash = hash\<rparr>]\<rparr>] s)
      | PingTick nonce \<Rightarrow> write_packets fails [PPing \<lparr>ping_nonce = nonce\<rparr>] s
      | BlockRequestTick get \<Rightarrow>
          (case se_block_requests s of
             [] \<Rightarrow> (s, Ok ())
           | (next_block, need_witness_data) # rest \<Rightarrow>
               let s = s\<lparr>se_block_requests := rest\<rparr> in
               (case get next_block need_witness_data of
                  Ok block \<Rightarrow> write_packets fails [PBlock block] s
                | Err _ \<Rightarrow> write_packets fails [PNotFound \<lparr>notfound_inner =
                    [\<lparr>iv_type = (if need_witness_data then InvWitnessBlock else InvBlock), iv_hash = next_block\<rparr>]\<rparr>] s
                | Panic \<Rightarrow> (s, Panic)))
      | PacketRead packet syncing_headers syncing_bodies time respond \<Rightarrow>
          session_bind (s, packet) (\<lambda>payload s.
          session_bind (s, handle_payload syncing_headers syncing_bodies time respond payload (se_block_requests s))
            (\<lambda>(responses, block_requests, effects) s.
          let s = add_effects effects (s\<lparr>se_block_requests := block_requests\<rparr>) in
          session_bind (write_packets fails (case responses of Some ps \<Rightarrow> ps | None \<Rightarrow> []) s) (\<lambda>_ s.
          (add_effects [PeerOnline (se_services s)] (s\<lparr>se_packets := se_packets s + 1\<rparr>), Ok ()))))
      | JobAssigned job syncing_headers syncing_bodies \<Rightarrow>
          session_bind (s, job) (\<lambda>job s.
          let should_process_headers = (\<not> syncing_headers);
              should_process_blocks = (should_process_headers \<and> \<not> syncing_bodies) in
          session_bind (if should_process_blocks
                then write_packets fails [PGetData \<lparr>getdata_inner = [\<lparr>iv_type = InvWitnessBlock, iv_hash = job\<rparr>]\<rparr>] s
                else (s, Ok ())) (\<lambda>_ s.
          (add_effects [WorkerRegistered] s, Ok ()))))"

text \<open>The loop ends with an error; when the events run out the session still lasts.\<close>

fun session_loop :: "(nat \<Rightarrow> error option) \<Rightarrow> crawl_event list \<Rightarrow> session \<Rightarrow> session \<times> unit res" where
  "session_loop fails [] s = (s, Ok ())"
| "session_loop fails (event # events) s =
     session_bind (session_step fails event s) (\<lambda>_ s. session_loop fails events s)"

text \<open>The packets written right after the handshake; \<open>top_hash\<close> is \<open>get_top_synced_header_hash\<close>.\<close>

definition session_start :: "(nat \<Rightarrow> error option) \<Rightarrow> hash32 option \<Rightarrow> Version \<Rightarrow> session \<times> unit res" where
  "session_start fails top_hash remote_version =
     (let s = \<lparr>se_services = ver_services remote_version, se_sent = [], se_block_requests = [],
            se_effects = [PeerVersionReceived (ver_services remote_version) (ver_start_height remote_version)
              (ver_user_agent remote_version)], se_packets = 0\<rparr> in
      session_bind (write_packets fails [PGetAddr, PGetHeaders \<lparr>gh_version = 70016,
          gh_block_locator = [case top_hash of Some h \<Rightarrow> h | None \<Rightarrow> replicate 32 0], gh_hash_stop = replicate 32 0\<rparr>] s)
        (\<lambda>_ s. (add_effects [WorkerRegistered] s, Ok ())))"

section \<open>Evaluation and ban\<close>

record CrawlResult =
  cr_should_insta_ban :: bool
  cr_connect_handshake_error :: "error option"
  cr_packets_received_total :: u32
  cr_connection_time :: duration

definition CrawlResult_default :: CrawlResult where
  "CrawlResult_default = \<lparr>cr_should_insta_ban = False, cr_connect_handshake_error = None,
     cr_packets_received_total = 0, cr_connection_time = 0\<rparr>"

text \<open>
  One call of \<open>crawl\<close>: \<open>connected\<close> is the outcome of \<open>connect_and_handshake\<close>, the rest are the arguments of
  the session.  The result is the error it returns, \<open>Ok\<close> while the session lasts.
\<close>

record crawl_run =
  run_connected :: "Version res"
  run_fails :: "nat \<Rightarrow> error option"
  run_top :: "hash32 option"
  run_events :: "crawl_event list"

definition crawl :: "AddressPortNetwork \<Rightarrow> crawl_run \<Rightarrow> CrawlResult \<Rightarrow> CrawlResult \<times> unit res" where
  "crawl peer run res =
     (let res = res\<lparr>cr_packets_received_total := 0\<rparr> in
      if apn_network_id peer \<noteq> IPv4 \<and> apn_network_id peer \<noteq> IPv6
      then (res\<lparr>cr_should_insta_ban := True\<rparr>, Err (Msg ''unsupported network type''))
      else
        (case run_connected run of
           Err e \<Rightarrow> (res\<lparr>cr_connect_handshake_error := Some e\<rparr>, Err (Msg ''failed to connect/handshake''))
         | Panic \<Rightarrow> (res, Panic)
         | Ok remote_version \<Rightarrow>
             let (s, r) = session_bind (session_start (run_fails run) (run_top run) remote_version)
                   (\<lambda>_ s. session_loop (run_fails run) (run_events run) s) in
             (res\<lparr>cr_packets_received_total := se_packets s\<rparr>, r)))"

definition backoff_from_failed :: "nat \<Rightarrow> duration" where
  "backoff_from_failed failed_times =
     (if failed_times = 0 then 0
      else if failed_times \<le> 12 then 2 ^ failed_times * 1000000000
      else 3600 * 2 * 1000000000)"

fun show_nat :: "nat \<Rightarrow> string" where
  "show_nat n = (if n < 10 then [char_of (48 + n)] else show_nat (n div 10) @ [char_of (48 + n mod 10)])"

declare show_nat.simps [simp del]

text \<open>\<open>display\<close> is the \<open>Display\<close> of an error.\<close>

definition evaluate_crawl_result ::
  "(error \<Rightarrow> string) \<Rightarrow> CrawlResult \<Rightarrow> error \<Rightarrow> nat \<Rightarrow> string option \<times> nat" where
  "evaluate_crawl_result display result disconnect_reason failed_times =
     (case cr_connect_handshake_error result of
        Some e \<Rightarrow>
          (Some (''connect/handshake failed: '' @ display e),
           (case e of InvalidChecksum _ _ \<Rightarrow> failed_times + 14 | _ \<Rightarrow> failed_times + 1))
      | None \<Rightarrow>
          (case disconnect_reason of
             InvalidChecksum _ _ \<Rightarrow> (Some ''invalid checksum'', 14)
           | _ \<Rightarrow>
               if cr_should_insta_ban result then (Some (''insta_ban requested: '' @ display disconnect_reason), 14)
               else if cr_packets_received_total result < 10 then
                 (Some (''packet count below minumum threshold: wanted 10 got '' @
                    show_nat (unat (cr_packets_received_total result))), failed_times + 1)
               else if cr_connection_time result div 1000000000 < 10 then
                 (Some (''connection duration below minumum threshold: wanted >=10 seconds got '' @
                    show_nat (nat (cr_connection_time result div 1000000000)) @ '' seconds''), failed_times)
               else (None, 0)))"

text \<open>
  One element of the list is one pass through the loop: the outcome of \<open>crawl\<close> and the time it took.  The
  result is what \<open>delete_and_ban_peer\<close> is called with, \<open>None\<close> when the passes run out before.
\<close>

fun backoff_loop ::
  "(error \<Rightarrow> string) \<Rightarrow> AddressPortNetwork \<Rightarrow> (crawl_run \<times> duration) list \<Rightarrow> nat \<Rightarrow> string list \<Rightarrow> CrawlResult \<Rightarrow>
   string list option res" where
  "backoff_loop display peer [] failed_times fail_reasons result =
     Ok (if failed_times < 14 then None else Some fail_reasons)"
| "backoff_loop display peer ((run, time) # runs) failed_times fail_reasons result =
     (if \<not> failed_times < 14 then Ok (Some fail_reasons)
      else
        (case crawl peer run result of
           (result, Err disconnect_reason) \<Rightarrow>
             let result = result\<lparr>cr_connection_time := time\<rparr>;
                 (reason, failed_times) = evaluate_crawl_result display result disconnect_reason failed_times;
                 fail_reasons = (case reason of Some reason \<Rightarrow> fail_reasons @ [reason] | None \<Rightarrow> []) in
             backoff_loop display peer runs failed_times fail_reasons result
         | (result, _) \<Rightarrow> Panic))"

definition crawl_with_backoff ::
  "(error \<Rightarrow> string) \<Rightarrow> AddressPortNetwork \<Rightarrow> (crawl_run \<times> duration) list \<Rightarrow> string list option res" where
  "crawl_with_backoff display peer runs = backoff_loop display peer runs 0 [] CrawlResult_default"

section \<open>Sessions keep what each event keeps\<close>

lemma session_bind_simps [simp]:
  "session_bind (s, Ok x) f = f x s"
  "session_bind (s, Err e) f = (s, Err e)"
  "session_bind (s, Panic) f = (s, Panic)"
  by (simp_all add: session_bind_def)

lemma write_packets_result:
  assumes "write_packets fails ps s = (s', r)"
  shows "\<exists>sent. s' = s\<lparr>se_sent := se_sent s @ sent\<rparr> \<and> set sent \<subseteq> set ps \<and>
    (r = Ok () \<or> (\<exists>n e. fails n = Some e \<and> r = Err e))"
  using assms
proof (induction fails ps s rule: write_packets.induct)
  case (2 fails p ps s)
  show ?case
  proof (cases "fails (length (se_sent s))")
    case None
    from 2(1) [OF None] 2(2) None write_packets.simps(2) [of fails p ps s] obtain sent where
      "s' = s\<lparr>se_sent := (se_sent s @ [p]) @ sent\<rparr>" "set sent \<subseteq> set ps" "r = Ok () \<or> (\<exists>n e. fails n = Some e \<and> r = Err e)"
      by auto
    then show ?thesis by (intro exI [of _ "p # sent"]) auto
  next
    case (Some e)
    then show ?thesis using 2(2) write_packets.simps(2) [of fails p ps s] by (intro exI [of _ "[]"]) auto
  qed
qed (auto simp: write_packets.simps intro!: exI [of _ "[]"])

lemma session_loop_keeps:
  assumes "\<And>event s s' r. event \<in> set events \<Longrightarrow> I s \<Longrightarrow> session_step fails event s = (s', r) \<Longrightarrow> I s' \<and> Q r"
    and "I s" "Q (Ok ())" "session_loop fails events s = (s', r)"
  shows "I s' \<and> Q r"
  using assms
proof (induction events arbitrary: s)
  case (Cons event events)
  obtain s1 r1 where step: "session_step fails event s = (s1, r1)" by fastforce
  have "I s1 \<and> Q r1" using Cons.prems(1) [OF _ Cons.prems(2) step] by simp
  then show ?case
    using Cons.IH [of s1] Cons.prems step by (cases r1) auto
qed simp

lemma session_keeps:
  assumes "session_bind (session_start fails top_hash v) (\<lambda>_ s. session_loop fails events s) = (s, r)"
    and "\<And>event s s' r. event \<in> set events \<Longrightarrow> I s \<Longrightarrow> session_step fails event s = (s', r) \<Longrightarrow> I s' \<and> Q r"
    and "\<And>s. se_block_requests s = [] \<Longrightarrow> set (se_sent s) \<subseteq> range PGetHeaders \<union> {PGetAddr} \<Longrightarrow> I s"
    and "Q (Ok ())" "\<And>n e. fails n = Some e \<Longrightarrow> Q (Err e)"
  shows "I s \<and> Q r"
proof -
  let ?s = "\<lparr>se_services = ver_services v, se_sent = [], se_block_requests = [],
      se_effects = [PeerVersionReceived (ver_services v) (ver_start_height v) (ver_user_agent v)], se_packets = 0\<rparr>"
  obtain ps where ps: "set ps \<subseteq> range PGetHeaders \<union> {PGetAddr}"
    and eq: "session_start fails top_hash v = session_bind (write_packets fails ps ?s) (\<lambda>_ s. (add_effects [WorkerRegistered] s, Ok ()))"
    unfolding session_start_def Let_def by force
  obtain s1 r1 where w: "write_packets fails ps ?s = (s1, r1)" by fastforce
  from write_packets_result [OF this] obtain sent where
    sent: "s1 = ?s\<lparr>se_sent := sent\<rparr>" "set sent \<subseteq> set ps" "r1 = Ok () \<or> (\<exists>n e. fails n = Some e \<and> r1 = Err e)" by auto
  have I: "I s1" "I (add_effects [WorkerRegistered] s1)"
    by (rule assms(3); use sent(1,2) ps in \<open>auto simp: add_effects_def\<close>)+
  obtain s0 r0 where start: "session_start fails top_hash v = (s0, r0)" by fastforce
  then have "I s0 \<and> Q r0 \<and> r0 \<noteq> Panic"
    using I sent(3) assms(4,5) unfolding eq w by (cases r1) auto
  then show ?thesis
    using session_loop_keeps [of events I fails Q s0 s r] assms(1,2,4) start by (cases r0) auto
qed

section \<open>What comes from the stream\<close>

definition stream_payload ::
  "(bytes \<Rightarrow> bytes) \<Rightarrow> layouts \<Rightarrow> arena \<Rightarrow> arena \<Rightarrow> (nat \<Rightarrow> nat) \<Rightarrow> bytes \<Rightarrow> Payload option res" where
  "stream_payload sha L large small chunk stream =
     res_bind (read_packet sha L large small chunk stream) (\<lambda>(packet, _). Ok (pk_payload packet))"

definition from_stream :: "(bytes \<Rightarrow> bytes) \<Rightarrow> layouts \<Rightarrow> crawl_event \<Rightarrow> bool" where
  "from_stream sha L event \<longleftrightarrow>
     (case event of
        PacketRead packet _ _ _ _ \<Rightarrow> \<exists>large small chunk stream. packet = stream_payload sha L large small chunk stream
      | _ \<Rightarrow> True)"

lemma decoded_payload:
  assumes "deserialize_payload sha L a buffer checksum command = Ok (Some p, a')"
  shows "(\<forall>x. p \<noteq> PGetData x) \<and>
    (\<forall>x. p = PAddr x \<longrightarrow> (\<exists>a n a'. Addr_deserialize_borrowed L a buffer = Ok (x, n, a')))"
  using assms by (auto simp: deserialize_payload_def decode_as_def Let_def res_bind_Ok_iff split: if_splits)

lemma received_payload:
  assumes "stream_payload sha L large small chunk stream = Ok (Some p)"
  shows "\<exists>a a' buffer checksum command. deserialize_payload sha L a buffer checksum command = Ok (Some p, a')"
proof -
  have d: "(case d of Ok (payload, _) \<Rightarrow> Ok payload | Err e \<Rightarrow> Ok None | Panic \<Rightarrow> Panic) = Ok (Some p) \<Longrightarrow>
      \<exists>a'. d = Ok (Some p, a')" for d :: "(Payload option \<times> arena) res"
    by (cases d) (auto split: prod.splits)
  show ?thesis
    using assms unfolding stream_payload_def read_packet_def by (auto simp: res_bind_Ok_iff Let_def dest!: d) blast
qed

lemma received_no_getdata: "stream_payload sha L large small chunk stream \<noteq> Ok (Some (PGetData x))"
  using received_payload decoded_payload by blast

lemma received_no_checksum_error: "stream_payload sha L large small chunk stream \<noteq> Err (InvalidChecksum x y)"
proof -
  have header: "read_header st \<noteq> Err (InvalidChecksum x y)" for st
    by (auto simp: read_header_def read_exact_def Let_def)
  have loop: "read_payload_loop chunk i st buf rem \<noteq> Err (InvalidChecksum x y)" for i st buf rem
    by (induction chunk i st buf rem rule: read_payload_loop.induct) (subst read_payload_loop.simps, auto simp: Let_def)
  show ?thesis
    using header loop unfolding stream_payload_def read_packet_def read_payload_def
    by (auto simp: res_bind_def res_unwrap_def Let_def split: res.splits prod.splits)
qed

lemma handle_payload_answers:
  assumes "handle_payload sh sb time respond p q = Ok (responses, q', es)" "\<forall>x. p \<noteq> Some (PGetData x)"
  shows "q' = q \<and> (\<forall>ps. responses = Some ps \<longrightarrow> set ps \<subseteq> range PPong \<union> range PGetData \<union> range PHeaders)"
  using assms by (cases p; cases "the p") (auto simp: handle_payload_def Let_def res_bind_Ok_iff split: if_splits)

text \<open>The channels and the other components return no checksum error.\<close>

fun closed_channels_only :: "crawl_event \<Rightarrow> bool" where
  "closed_channels_only (BlockApplied hash) \<longleftrightarrow> (\<forall>x y. hash \<noteq> Err (InvalidChecksum x y))"
| "closed_channels_only (JobAssigned job _ _) \<longleftrightarrow> (\<forall>x y. job \<noteq> Err (InvalidChecksum x y))"
| "closed_channels_only (PacketRead _ _ _ _ respond) \<longleftrightarrow> (\<forall>l h x y. respond l h \<noteq> Err (InvalidChecksum x y))"
| "closed_channels_only _ \<longleftrightarrow> True"

fun serves :: "Payload \<Rightarrow> bool" where
  "serves (PBlock _) = True"
| "serves (PNotFound _) = True"
| "serves _ = False"

lemma writes_serve_nothing:
  assumes "write_packets fails ps s = (s', r)" "list_all (\<lambda>p. \<not> serves p) ps"
  shows "se_block_requests s' = se_block_requests s \<and>
    (list_all (\<lambda>p. \<not> serves p) (se_sent s) \<longrightarrow> list_all (\<lambda>p. \<not> serves p) (se_sent s'))"
  using write_packets_result [OF assms(1)] assms(2) by (auto simp: list_all_iff subset_iff)

section \<open>Concrete sessions\<close>

definition demo_version :: Version where
  "demo_version = \<lparr>ver_services = 1, ver_timestamp = 0, ver_addrrecv = NetAddrShort_default,
     ver_addrfrom = NetAddrShort_default, ver_nonce = 0, ver_user_agent = [], ver_start_height = 0,
     ver_version = 70016, ver_announce = False\<rparr>"

definition demo_read :: "bytes \<Rightarrow> crawl_event" where
  "demo_read stream = PacketRead (stream_payload zero_sha demo_layouts (Arena_new 4096 100000)
     (Arena_new 4096 8192) (\<lambda>_. 0) stream) False False 0 (\<lambda>_ _. Ok None)"

text \<open>Ten packets without a payload, then the end of the stream.\<close>

definition demo_run :: crawl_run where
  "demo_run = \<lparr>run_connected = Ok demo_version, run_fails = (\<lambda>_. None), run_top = None,
     run_events = replicate 10 (PacketRead (Ok None) False False 0 (\<lambda>_ _. Ok None)) @ [demo_read []]\<rparr>"

lemma demo_read_eof: "demo_read [] = PacketRead (Err (Msg ''early eof'')) False False 0 (\<lambda>_ _. Ok None)"
  by (simp add: demo_read_def stream_payload_def read_packet_def read_header_def read_exact_def)

lemma idle_packets:
  "session_loop fails (replicate n (PacketRead (Ok None) sh sb t respond) @ events) s =
   session_loop fails events (s\<lparr>se_packets := se_packets s + of_nat n,
     se_effects := se_effects s @ replicate n (PeerOnline (se_services s))\<rparr>)"
  by (induction n arbitrary: s)
    (simp_all add: session_step_def handle_payload_def add_effects_def write_packets.simps algebra_simps)

lemma demo_run_result:
  "crawl (demo_peer p) demo_run res = (res\<lparr>cr_packets_received_total := 10\<rparr>, Err (Msg ''early eof''))"
  by (simp add: crawl_def demo_run_def idle_packets demo_read_eof session_start_def write_packets.simps
      session_step_def add_effects_def demo_peer_def Let_def)

text \<open>
  No block is ever served.  A getdata message is not decoded, so over packets that come from the
  stream the queue of block requests stays empty and neither a block nor a notfound message is sent.
\<close>

lemma blocks_never_served:
  assumes "session_bind (session_start fails top_hash v) (\<lambda>_ s. session_loop fails events s) = (s, r)"
    and "\<forall>event \<in> set events. from_stream sha L event"
  shows "se_block_requests s = [] \<and> (\<forall>b. PBlock b \<notin> set (se_sent s)) \<and> (\<forall>n. PNotFound n \<notin> set (se_sent s))"
proof -
  let ?I = "\<lambda>s. se_block_requests s = [] \<and> list_all (\<lambda>p. \<not> serves p) (se_sent s)"
  have "?I s \<and> True"
  proof (rule session_keeps [OF assms(1)])
    fix event s s' r
    assume event: "event \<in> set events" and I: "?I s" and step: "session_step fails event s = (s', r)"
    show "?I s' \<and> True"
    proof (cases event)
      case (PacketRead packet sh sb time respond)
      then obtain large small chunk stream where "packet = stream_payload sha L large small chunk stream"
        using assms(2) event by (fastforce simp: from_stream_def)
      then have get: "\<forall>x. packet \<noteq> Ok (Some (PGetData x))" by (simp add: received_no_getdata)
      show ?thesis
      proof (cases packet)
        case (Ok p)
        show ?thesis
        proof (cases "handle_payload sh sb time respond p (se_block_requests s)")
          case handled: (Ok x)
          obtain responses q es where x: "x = (responses, q, es)" by (cases x)
          have ans: "q = []" "\<And>ps. responses = Some ps \<Longrightarrow> list_all (\<lambda>p. \<not> serves p) ps"
            using handle_payload_answers [OF handled [unfolded x]] get Ok I by (auto simp: list_all_iff)
          let ?ps = "case responses of Some ps \<Rightarrow> ps | None \<Rightarrow> []"
          let ?s = "add_effects es (s\<lparr>se_block_requests := q\<rparr>)"
          have ps: "list_all (\<lambda>p. \<not> serves p) ?ps" using ans(2) by (cases responses) auto
          obtain s1 r1 where w: "write_packets fails ?ps ?s = (s1, r1)" by fastforce
          have "?I s1" using writes_serve_nothing [OF w ps] I ans(1) by (simp add: add_effects_def)
          then show ?thesis
            using step w unfolding PacketRead session_step_def Ok
            by (cases r1) (auto simp: handled x Let_def add_effects_def)
        qed (use step I in \<open>auto simp: PacketRead session_step_def Ok\<close>)
      qed (use step I in \<open>auto simp: PacketRead session_step_def\<close>)
    next
      case (BlockApplied hash)
      then show ?thesis
        using step I by (cases hash) (auto simp: session_step_def dest: writes_serve_nothing)
    next
      case (JobAssigned job sh sb)
      show ?thesis
      proof (cases job)
        case (Ok h)
        obtain s1 r1 where w: "write_packets fails [PGetData \<lparr>getdata_inner = [\<lparr>iv_type = InvWitnessBlock, iv_hash = h\<rparr>]\<rparr>] s
          = (s1, r1)" by fastforce
        have "?I s1" using writes_serve_nothing [OF w] I by simp
        then show ?thesis
          using step I w unfolding JobAssigned session_step_def Ok
          by (cases r1) (auto simp: Let_def add_effects_def split: if_splits)
      qed (use step I in \<open>auto simp: JobAssigned session_step_def\<close>)
    qed (use step I in \<open>auto simp: session_step_def dest: writes_serve_nothing\<close>)
  next
    show "?I s" if "se_block_requests s = []" "set (se_sent s) \<subseteq> range PGetHeaders \<union> {PGetAddr}" for s
      using that by (auto simp: list_all_iff)
  qed auto
  then show ?thesis by (auto simp: list_all_iff)
qed

text \<open>
  A wrong checksum never bans a peer: a session whose packets come from the stream does not end with
  the checksum error for which the evaluation bans at once.
\<close>

lemma bad_checksum_never_bans:
  assumes "session_bind (session_start fails top_hash v) (\<lambda>_ s. session_loop fails events s) = (s, r)"
    and "\<forall>event \<in> set events. from_stream sha L event \<and> closed_channels_only event"
    and "\<forall>n x y. fails n \<noteq> Some (InvalidChecksum x y)"
  shows "r \<noteq> Err (InvalidChecksum x y)"
proof -
  let ?Q = "\<lambda>r. r \<noteq> Err (InvalidChecksum x y)"
  have "True \<and> ?Q r"
  proof (rule session_keeps [OF assms(1)])
    fix event s s' r
    assume event: "event \<in> set events" and step: "session_step fails event s = (s', r)"
    have wr: "?Q r1" if "write_packets fails ps s1 = (s2, r1)" for ps s1 s2 r1
      using write_packets_result [OF that] assms(3) by auto
    show "True \<and> ?Q r"
    proof (cases event)
      case (PacketRead packet sh sb time respond)
      then obtain large small chunk stream where "packet = stream_payload sha L large small chunk stream"
        and answers: "\<forall>l h x y. respond l h \<noteq> Err (InvalidChecksum x y)"
        using assms(2) event by (fastforce simp: from_stream_def)
      then have "packet \<noteq> Err (InvalidChecksum x y)" by (simp add: received_no_checksum_error)
      moreover have "handle_payload sh sb time respond p q \<noteq> Err (InvalidChecksum x y)" for p q
        using answers by (cases p; cases "the p") (auto simp: handle_payload_def Let_def res_bind_def split: res.splits prod.splits)
      ultimately show ?thesis
        using step wr unfolding PacketRead session_step_def
        by (auto simp: session_bind_def split: res.splits prod.splits if_splits)
    next
      case (JobAssigned job sh sb)
      then show ?thesis
        using step wr assms(2) event unfolding session_step_def
        by (fastforce simp: session_bind_def Let_def split: res.splits prod.splits if_splits)
    next
      case (BlockApplied hash)
      then show ?thesis
        using step wr assms(2) event unfolding session_step_def
        by (fastforce simp: session_bind_def split: res.splits)
    qed (use step wr in \<open>auto simp: session_step_def Let_def split: list.splits res.splits prod.splits\<close>)
  qed (use assms(3) in auto)
  then show ?thesis by simp
qed

section \<open>Bans\<close>

text \<open>A run of \<open>crawl\<close> that comes to its end with an error.\<close>

definition run_ends :: "AddressPortNetwork \<Rightarrow> crawl_run \<Rightarrow> bool" where
  "run_ends peer run \<longleftrightarrow> (\<exists>e. snd (crawl peer run CrawlResult_default) = Err e)"

lemma crawl_result:
  "snd (crawl peer run res) = snd (crawl peer run res')"
  "cr_connect_handshake_error res \<noteq> None \<Longrightarrow> cr_connect_handshake_error (fst (crawl peer run res)) \<noteq> None"
  by (auto simp: crawl_def Let_def session_bind_def split: res.split prod.split)

lemma crawl_ends:
  assumes "run_ends peer run"
  shows "\<exists>res' e. crawl peer run res = (res', Err e)"
  using assms crawl_result(1) [of peer run res CrawlResult_default] by (cases "crawl peer run res") (auto simp: run_ends_def)

lemma failed_connection_counts:
  assumes "cr_connect_handshake_error res = Some e"
  shows "\<exists>reason n. evaluate_crawl_result display res d failed_times = (Some reason, n) \<and> failed_times < n"
  using assms by (auto simp: evaluate_crawl_result_def split: error.split)

lemma backoff_loop_failed:
  assumes "cr_connect_handshake_error res \<noteq> None" "\<forall>(run, time) \<in> set runs. run_ends peer run"
    and "14 \<le> failed_times + length runs"
  shows "\<exists>reasons. backoff_loop display peer runs failed_times fail_reasons res = Ok (Some reasons)"
  using assms
proof (induction runs arbitrary: failed_times fail_reasons res)
  case (Cons run_time runs)
  obtain run time where rt: "run_time = (run, time)" by fastforce
  obtain res' d where c: "crawl peer run res = (res', Err d)"
    using crawl_ends Cons.prems(2) unfolding rt by (metis case_prodD list.set_intros(1))
  let ?res = "res'\<lparr>cr_connection_time := time\<rparr>"
  have keep: "cr_connect_handshake_error ?res \<noteq> None"
    using crawl_result(2) [OF Cons.prems(1), of peer run] c by simp
  then obtain reason n where ev: "evaluate_crawl_result display ?res d failed_times = (Some reason, n)" "failed_times < n"
    using failed_connection_counts by blast
  show ?case
  proof (cases "failed_times < 14")
    case True
    have "14 \<le> n + length runs" using ev(2) Cons.prems(3) by simp
    then show ?thesis using Cons.IH [OF keep] Cons.prems(2) True c ev by (simp add: rt Let_def)
  qed (simp add: rt)
qed simp

text \<open>
  One failed connection counts for ever: its error is never cleared, so whatever the later sessions
  with the peer are like, each of them counts as a failure and the peer is banned after 14.
\<close>

lemma connect_failure_sticks:
  assumes "apn_network_id peer \<in> {IPv4, IPv6}" "run_connected run = Err e"
    and "\<forall>(run, time) \<in> set runs. run_ends peer run" "13 \<le> length runs"
  shows "\<exists>reasons. crawl_with_backoff display peer ((run, time) # runs) = Ok (Some reasons)"
proof -
  obtain res' d where c: "crawl peer run CrawlResult_default = (res', Err d)" "cr_connect_handshake_error res' = Some e"
    using assms(1,2) by (auto simp: crawl_def)
  let ?res = "res'\<lparr>cr_connection_time := time\<rparr>"
  have err: "cr_connect_handshake_error ?res = Some e" using c(2) by simp
  then obtain reason n where ev: "evaluate_crawl_result display ?res d 0 = (Some reason, n)" "0 < n"
    using failed_connection_counts by blast
  then show ?thesis
    using backoff_loop_failed [of ?res runs peer n display "[reason]"] assms(3,4) err c(1)
    by (simp add: crawl_with_backoff_def)
qed

text \<open>A session of at least ten packets that lasts less than ten seconds.\<close>

definition short_session :: "AddressPortNetwork \<Rightarrow> crawl_run \<times> duration \<Rightarrow> bool" where
  "short_session peer run_time \<longleftrightarrow>
     (\<exists>res m. crawl peer (fst run_time) CrawlResult_default = (res, Err (Msg m)) \<and> cr_connect_handshake_error res = None \<and>
        \<not> cr_should_insta_ban res \<and> 10 \<le> cr_packets_received_total res) \<and>
     0 \<le> snd run_time \<and> snd run_time < 10 * 1000000000"

lemma crawl_fields:
  assumes "cr_connect_handshake_error res = None" "\<not> cr_should_insta_ban res"
  shows "cr_connect_handshake_error (fst (crawl peer run res)) = cr_connect_handshake_error (fst (crawl peer run CrawlResult_default))"
    and "cr_should_insta_ban (fst (crawl peer run res)) = cr_should_insta_ban (fst (crawl peer run CrawlResult_default))"
    and "cr_packets_received_total (fst (crawl peer run res)) = cr_packets_received_total (fst (crawl peer run CrawlResult_default))"
  using assms by (auto simp: crawl_def CrawlResult_default_def Let_def session_bind_def split: res.split prod.split)

text \<open>
  Short sessions are never punished: a peer that hands out ten packets and hangs up within ten seconds,
  again and again, is not banned, and with no failure before it is called again without any pause.
\<close>

lemma short_sessions_never_banned:
  assumes "\<forall>run_time \<in> set runs. short_session peer run_time"
  shows "crawl_with_backoff display peer runs = Ok None \<and> backoff_from_failed 0 = 0"
proof -
  have "backoff_loop display peer runs 0 reasons res = Ok None"
    if "cr_connect_handshake_error res = None" "\<not> cr_should_insta_ban res" for reasons res
    using assms that
  proof (induction runs arbitrary: reasons res)
    case (Cons run_time runs)
    obtain run time where rt: "run_time = (run, time)" by fastforce
    obtain r m where def: "crawl peer run CrawlResult_default = (r, Err (Msg m))" "cr_connect_handshake_error r = None"
      "\<not> cr_should_insta_ban r" "10 \<le> cr_packets_received_total r" and t: "0 \<le> time" "time < 10 * 1000000000"
      using Cons.prems(1) by (auto simp: short_session_def rt)
    obtain res' where c: "crawl peer run res = (res', Err (Msg m))"
      using crawl_result(1) [of peer run res CrawlResult_default] def(1) by (cases "crawl peer run res") auto
    let ?res = "res'\<lparr>cr_connection_time := time\<rparr>"
    have f: "cr_connect_handshake_error ?res = None" "\<not> cr_should_insta_ban ?res" "10 \<le> cr_packets_received_total ?res"
      using crawl_fields [OF Cons.prems(2,3), of peer run] c def by auto
    have "\<not> 10 \<le> time div 1000000000" using t div_mult_mod_eq [of time 1000000000] pos_mod_sign [of 1000000000 time] by linarith
    then obtain reason where "evaluate_crawl_result display ?res (Msg m) 0 = (Some reason, 0)"
      using f by (simp add: evaluate_crawl_result_def not_le [symmetric])
    moreover have "backoff_loop display peer runs 0 reasons ?res = Ok None" for reasons
      using Cons.IH [OF _ f(1,2)] Cons.prems(1) by simp
    ultimately show ?case using c by (simp add: rt Let_def)
  qed simp
  then show ?thesis by (simp add: crawl_with_backoff_def CrawlResult_default_def backoff_from_failed_def)
qed

section \<open>Addresses, gates and served blocks\<close>

definition apn_wellformed :: "AddressPortNetwork \<Rightarrow> bool" where
  "apn_wellformed apn \<longleftrightarrow>
     apn_network_id apn = IPv4 \<and> length (apn_address apn) = 4 \<or>
     apn_network_id apn = IPv6 \<and> length (apn_address apn) = 16 \<and> ipv4_mapped (apn_address apn) = None"

lemma decoded_addresses:
  assumes "Addr_deserialize_borrowed L a buffer = Ok (x, n, a')"
  shows "list_all (\<lambda>addy. length (na_addr addy) = 16) (addr_inner x)"
proof -
  have "NetAddr_deserialize_borrowed a b = Ok (x, k, a') \<Longrightarrow> length (na_addr x) = 16" for a b x k a'
    by (auto simp: NetAddr_deserialize_borrowed_def res_bind_Ok_iff dest!: get_range_length split: option.splits)
  moreover have "deserialize_array (L TyNetAddr) NetAddr_deserialize_borrowed a buffer = Ok (addr_inner x, n, a')"
    using assms by (auto simp: Addr_deserialize_borrowed_def res_bind_Ok_iff)
  ultimately show ?thesis
    by (auto simp: deserialize_array_def res_bind_Ok_iff intro: decoded_items)
qed

lemma converted_addresses:
  "length (na_addr addy) = 16 \<Longrightarrow> apn_wellformed (addr_to_apn addy)"
  "addrv2_to_apn addy2 = Some apn \<Longrightarrow> apn_wellformed apn"
  by (auto simp: addr_to_apn_def addrv2_to_apn_def apn_wellformed_def ipv4_mapped_def Let_def split: option.splits if_splits)



text \<open>
  The gates of the synchronisation hold: during header synchronisation no header and no block is
  passed on, no block is asked for and no header is sent; during the download of bodies no block is
  passed on; afterwards a block is passed on after its header.
\<close>

lemma synchronisation_gates:
  assumes "handle_payload syncing_headers syncing_bodies time respond payload q = Ok (responses, q', es)"
  shows "(syncing_headers \<longrightarrow> (\<forall>h. HeaderReceived h \<notin> set es) \<and> (\<forall>b. BlockReceived b \<notin> set es) \<and>
      (\<forall>ps. responses = Some ps \<longrightarrow> (\<forall>x y. PGetData x \<notin> set ps \<and> PHeaders y \<notin> set ps))) \<and>
    (syncing_bodies \<longrightarrow> (\<forall>b. BlockReceived b \<notin> set es)) \<and>
    (\<not> syncing_headers \<and> \<not> syncing_bodies \<and> payload = Some (PBlock b) \<longrightarrow>
      es = [HeaderReceived (bl_header b), BlockReceived (PBlock b)])"
  using assms
  by (cases payload; cases "the payload")
    (auto simp: handle_payload_def Let_def res_bind_Ok_iff split: if_splits prod.splits)

lemma join_all_Ok: "join_all rs = Ok xs \<Longrightarrow> x \<in> set xs \<Longrightarrow> Ok x \<in> set rs"
  by (induction rs arbitrary: xs) (auto simp: res_bind_Ok_iff)

lemma outcome_Ok_iff:
  "res_unwrap m = Ok x \<longleftrightarrow> m = Ok x" "spawn_blocking m = Ok x \<longleftrightarrow> m = Ok x"
  by (auto simp: res_unwrap_def spawn_blocking_def split: res.splits)

lemma stored_without_outputs:
  "deserialize_without_txouts sz b h = Ok (tx, n) \<Longrightarrow> tx_txouts tx = []"
  "deserialize_analyzed_tx sz' data h = Ok v \<Longrightarrow> tx_txouts (an_tx v) = []"
proof -
  show *: "deserialize_without_txouts sz b h = Ok (tx, n) \<Longrightarrow> tx_txouts tx = []" for sz b h tx n
    by (auto simp: deserialize_without_txouts_def res_bind_Ok_iff Let_def split: if_splits)
  show "deserialize_analyzed_tx sz' data h = Ok v \<Longrightarrow> tx_txouts (an_tx v) = []"
    by (auto simp: deserialize_analyzed_tx_def res_bind_Ok_iff outcome_Ok_iff dest: *)
qed

text \<open>
  A block assembled for a peer has no outputs: \<open>get_block\<close> takes the transactions as they are stored,
  without their outputs, and never adds these.
\<close>

lemma served_block_without_outputs:
  assumes "get_block c entries (get_analyzed_tx sz get) hash include_witness_data = Ok b"
  shows "(\<exists>h. get_header_by_hash c hash = Some h \<and> bl_header b = bn_header h) \<and>
    (\<forall>tx \<in> set (bl_txs b). tx_txouts tx = [] \<and> (include_witness_data \<or> tx_witness_data tx = None))"
proof -
  have "tx_txouts (an_tx v) = []" if v: "Ok v \<in> set (map (\<lambda>v. spawn_blocking (get_analyzed_tx sz get v)) hs)" for v hs
  proof -
    obtain h where "spawn_blocking (get_analyzed_tx sz get h) = Ok v" using v by auto
    then show ?thesis
      by (auto simp: outcome_Ok_iff get_analyzed_tx_def res_bind_Ok_iff dest: stored_without_outputs(2))
  qed
  note stored = this
  obtain header vs hs where "get_header_by_hash c hash = Some header"
    and vs: "join_all (map (\<lambda>v. spawn_blocking (get_analyzed_tx sz get v)) hs) = Ok vs"
    and b: "b = \<lparr>bl_header = bn_header header, bl_txs = map (\<lambda>v. if include_witness_data then an_tx v
      else (an_tx v)\<lparr>tx_witness_data := None\<rparr>) vs\<rparr>"
    using assms by (auto simp: get_block_def res_bind_Ok_iff split: option.splits)
  moreover have "tx_txouts (an_tx v) = []" if "v \<in> set vs" for v using stored join_all_Ok [OF vs that] .
  ultimately show ?thesis by auto
qed

end
