(* ===== verification/F64.thy ===== *)
theory F64
  imports Prelude "HOL-Library.Log_Nat"
begin

text \<open>
  The part of \<open>f64\<close> that the statistics use: values that are not negative, with rounding to nearest,
  ties to even, as IEEE 754 and Rust define it (53 bits, subnormal numbers, overflow to infinity).
  A finite value is the rational number it stands for.
\<close>

datatype f64 = Fin rat | Infinity64 | NaN64

section \<open>Rounding\<close>

text \<open>The exponent of the greatest power of two that is not above \<open>x\<close>.\<close>

definition ilog2 :: "rat \<Rightarrow> int" where
  "ilog2 x =
     (let (p, q) = quotient_of x; k = bitlen p - bitlen q in
      if 2 powi k \<le> x then k else k - 1)"

definition round_half_even :: "rat \<Rightarrow> int" where
  "round_half_even y =
     (let n = \<lfloor>y\<rfloor>; d = y - of_int n in
      if d < 1 / 2 then n else if 1 / 2 < d then n + 1 else if even n then n else n + 1)"

text \<open>The distance of neighbouring numbers around \<open>x\<close>.\<close>

definition f64_ulp :: "rat \<Rightarrow> rat" where
  "f64_ulp x = 2 powi max (ilog2 x - 52) (- 1074)"

definition rounded :: "rat \<Rightarrow> rat" where
  "rounded x = (if x = 0 then 0 else of_int (round_half_even (x / f64_ulp x)) * f64_ulp x)"

definition f64_round :: "rat \<Rightarrow> f64" where
  "f64_round x = (if 2 ^ 1024 \<le> rounded x then Infinity64 else Fin (rounded x))"

section \<open>Operations\<close>

definition f64_from_nat :: "nat \<Rightarrow> f64" where
  "f64_from_nat n = f64_round (of_nat n)"

fun f64_add :: "f64 \<Rightarrow> f64 \<Rightarrow> f64" where
  "f64_add (Fin a) (Fin b) = f64_round (a + b)"
| "f64_add NaN64 b = NaN64"
| "f64_add a NaN64 = NaN64"
| "f64_add a b = Infinity64"

fun f64_div :: "f64 \<Rightarrow> f64 \<Rightarrow> f64" where
  "f64_div (Fin a) (Fin b) = (if b \<noteq> 0 then f64_round (a / b) else if a = 0 then NaN64 else Infinity64)"
| "f64_div Infinity64 (Fin b) = Infinity64"
| "f64_div (Fin a) Infinity64 = Fin 0"
| "f64_div _ _ = NaN64"

fun f64_ceil :: "f64 \<Rightarrow> f64" where
  "f64_ceil (Fin a) = Fin (of_int \<lceil>a\<rceil>)"
| "f64_ceil x = x"

section \<open>Order\<close>

text \<open>
  The order that sorting uses.  A value that is not a number is comparable with nothing; it is put last
  here, and code that sorts with \<open>partial_cmp\<close> is modelled to panic when it meets one.
\<close>

instantiation f64 :: linorder
begin

fun less_eq_f64 :: "f64 \<Rightarrow> f64 \<Rightarrow> bool" where
  "less_eq_f64 (Fin a) (Fin b) \<longleftrightarrow> a \<le> b"
| "less_eq_f64 (Fin a) y \<longleftrightarrow> True"
| "less_eq_f64 Infinity64 y \<longleftrightarrow> (case y of Fin b \<Rightarrow> False | _ \<Rightarrow> True)"
| "less_eq_f64 NaN64 y \<longleftrightarrow> y = NaN64"

definition less_f64 :: "f64 \<Rightarrow> f64 \<Rightarrow> bool" where
  "less_f64 x y \<longleftrightarrow> x \<le> y \<and> \<not> y \<le> x"

instance
proof
  fix x y z :: f64
  show "x < y \<longleftrightarrow> x \<le> y \<and> \<not> y \<le> x" by (simp add: less_f64_def)
  show "x \<le> x" by (cases x) simp_all
  show "x \<le> y \<Longrightarrow> y \<le> z \<Longrightarrow> x \<le> z" by (cases x; cases y; cases z) simp_all
  show "x \<le> y \<Longrightarrow> y \<le> x \<Longrightarrow> x = y" by (cases x; cases y) simp_all
  show "x \<le> y \<or> y \<le> x" by (cases x; cases y) auto
qed

end

text \<open>\<open>sort_by(|a, b| a.partial_cmp(b).expect(..))\<close>: every element is compared once there are two.\<close>

definition sort_f64 :: "f64 list \<Rightarrow> f64 list res" where
  "sort_f64 xs = (if 2 \<le> length xs \<and> NaN64 \<in> set xs then Panic else Ok (sort xs))"

section \<open>Bounds\<close>

lemma powi_2_mono: "i \<le> j \<Longrightarrow> (2 :: rat) powi i \<le> 2 powi j"
  by (simp add: power_int_increasing)

lemma powi_2_Suc: "(2 :: rat) powi (k + 1) = 2 * 2 powi k"
  by (simp add: power_int_add_1')

lemma powi_2_pos [simp]: "0 < (2 :: rat) powi k" "(2 :: rat) powi k \<noteq> 0" "0 \<le> (2 :: rat) powi k"
  by (simp_all add: zero_less_power_int)

lemma ilog2_bounds:
  assumes "0 < x"
  shows "2 powi ilog2 x \<le> x" "x < 2 powi (ilog2 x + 1)"
proof -
  obtain p q where pq: "quotient_of x = (p, q)" by (cases "quotient_of x")
  then have q: "0 < q" by (rule quotient_of_denom_pos)
  have x: "x = of_int p / of_int q" by (rule quotient_of_div [OF pq])
  then have p: "0 < p" using assms q by (simp add: zero_less_divide_iff)
  define b c where "b = nat (bitlen p - 1)" and "c = nat (bitlen q - 1)"
  have one: "1 \<le> bitlen p" "1 \<le> bitlen q" using p q bitlen_nonneg [of p] bitlen_nonneg [of q]
      bitlen_eq_zero_iff [of p] bitlen_eq_zero_iff [of q] by linarith+
  have bc: "bitlen p = int b + 1" "bitlen q = int c + 1" using one by (simp_all add: b_def c_def)
  have "nat (bitlen p) = Suc b" "nat (bitlen q) = Suc c" using bc by simp_all
  then have "2 ^ b \<le> p" "p < 2 ^ Suc b" "2 ^ c \<le> q" "q < 2 ^ Suc c"
    using bitlen_bounds [OF p] bitlen_bounds [OF q] unfolding b_def [symmetric] c_def [symmetric] by simp_all
  then have r: "(2 :: rat) ^ b \<le> of_int p" "(of_int p :: rat) < 2 * 2 ^ b"
      "(2 :: rat) ^ c \<le> of_int q" "(of_int q :: rat) < 2 * 2 ^ c"
    by (simp_all only: power_Suc [symmetric] of_int_le_numeral_power_cancel_iff of_int_less_numeral_power_cancel_iff
        numeral_power_le_of_int_cancel_iff)
  have k: "bitlen p - bitlen q = int b - int c" using bc by simp
  have pw: "(2 :: rat) powi (int b - int c) = 2 ^ b / 2 ^ c" by (simp add: power_int_diff)
  have pos: "(0 :: rat) < of_int q" "(0 :: rat) < 2 ^ c" using q by simp_all
  have up: "x < 2 * (2 ^ b / 2 ^ c)"
  proof -
    have "of_int p * (2 :: rat) ^ c < (2 * 2 ^ b) * of_int q"
      using mult_less_le_imp_less [OF r(2,3)] p pos by simp
    then show ?thesis unfolding x using pos by (simp add: field_simps)
  qed
  have low: "2 ^ b / 2 ^ c < 2 * x"
  proof -
    have "(2 :: rat) ^ b * of_int q < of_int p * (2 * 2 ^ c)"
      using mult_le_less_imp_less [OF r(1,4)] p pos by simp
    then show ?thesis unfolding x using pos by (simp add: field_simps)
  qed
  have i: "ilog2 x = (if 2 ^ b / 2 ^ c \<le> x then int b - int c else int b - int c - 1)"
    unfolding ilog2_def pq Let_def prod.case k pw ..
  have half: "(2 :: rat) powi (int b - int c - 1) = (2 ^ b / 2 ^ c) / 2"
    using powi_2_Suc [of "int b - int c - 1"] pw by simp
  show "2 powi ilog2 x \<le> x" using low unfolding i by (simp only: if_distrib pw half split: if_splits) simp
  show "x < 2 powi (ilog2 x + 1)" using up unfolding i powi_2_Suc by (simp only: if_distrib pw half split: if_splits) simp
qed

lemma ilog2_unique:
  assumes "2 powi k \<le> x" "x < 2 powi (k + 1)"
  shows "ilog2 x = k"
proof -
  have x: "0 < x" using assms(1) powi_2_pos(1) [of k] by linarith
  note b = ilog2_bounds [OF x]
  show ?thesis
  proof (rule ccontr)
    assume "ilog2 x \<noteq> k"
    then consider "ilog2 x + 1 \<le> k" | "k + 1 \<le> ilog2 x" by linarith
    then show False using assms b by cases (auto dest: powi_2_mono)
  qed
qed

lemma ilog2_mono: "0 < x \<Longrightarrow> x \<le> y \<Longrightarrow> ilog2 x \<le> ilog2 y"
proof (rule ccontr)
  assume a: "0 < x" "x \<le> y" "\<not> ilog2 x \<le> ilog2 y"
  then have "(2 :: rat) powi (ilog2 y + 1) \<le> 2 powi ilog2 x" by (intro powi_2_mono) simp
  then show False using ilog2_bounds [of x] ilog2_bounds [of y] a by linarith
qed

lemma round_half_even_error: "\<bar>of_int (round_half_even y) - y\<bar> \<le> 1 / 2"
  unfolding round_half_even_def Let_def using floor_correct [of y] by (auto split: if_splits)

lemma round_half_even_int [simp]: "round_half_even (of_int n) = n"
  by (simp add: round_half_even_def)

lemma round_half_even_mono: "x \<le> y \<Longrightarrow> round_half_even x \<le> round_half_even y"
proof (cases "\<lfloor>x\<rfloor> = \<lfloor>y\<rfloor>")
  case True
  moreover assume "x \<le> y"
  ultimately show ?thesis unfolding round_half_even_def Let_def by auto
next
  case False
  assume "x \<le> y"
  then have "\<lfloor>x\<rfloor> + 1 \<le> \<lfloor>y\<rfloor>" using False floor_mono [of x y] by linarith
  moreover have "round_half_even x \<le> \<lfloor>x\<rfloor> + 1" "\<lfloor>y\<rfloor> \<le> round_half_even y"
    unfolding round_half_even_def Let_def by auto
  ultimately show ?thesis by linarith
qed

lemma f64_ulp_pos [simp]: "0 < f64_ulp x" "f64_ulp x \<noteq> 0" "0 \<le> f64_ulp x" "\<bar>f64_ulp x\<bar> = f64_ulp x"
  by (simp_all add: f64_ulp_def)

text \<open>Rounding moves a number by at most half the distance of its neighbours.\<close>

lemma rounded_error: "\<bar>rounded x - x\<bar> \<le> f64_ulp x / 2"
proof (cases "x = 0")
  case False
  have "rounded x - x = (of_int (round_half_even (x / f64_ulp x)) - x / f64_ulp x) * f64_ulp x"
    using False by (simp add: rounded_def field_simps)
  then have "\<bar>rounded x - x\<bar> = \<bar>of_int (round_half_even (x / f64_ulp x)) - x / f64_ulp x\<bar> * f64_ulp x"
    by (simp add: abs_mult)
  also have "\<dots> \<le> 1 / 2 * f64_ulp x" by (intro mult_right_mono round_half_even_error) (simp add: less_imp_le)
  finally show ?thesis by simp
qed (simp add: rounded_def less_imp_le)

lemma rounded_relative:
  assumes "2 powi - 1022 \<le> x"
  shows "\<bar>rounded x - x\<bar> \<le> x * 2 powi - 53"
proof -
  have x: "0 < x" using assms powi_2_pos(1) [of "- 1022"] by linarith
  have "- 1022 \<le> ilog2 x"
  proof (rule ccontr)
    assume "\<not> - 1022 \<le> ilog2 x"
    then have "(2 :: rat) powi (ilog2 x + 1) \<le> 2 powi - 1022" by (intro powi_2_mono) simp
    then show False using ilog2_bounds(2) [OF x] assms by linarith
  qed
  then have "f64_ulp x = 2 powi (ilog2 x + - 52)" by (simp add: f64_ulp_def)
  also have "\<dots> = 2 powi ilog2 x * 2 powi - 52" by (rule power_int_add) simp
  also have "\<dots> \<le> x * 2 powi - 52" using ilog2_bounds(1) [OF x] by (intro mult_right_mono) simp_all
  finally have "f64_ulp x / 2 \<le> x * (2 powi - 52 / 2)" by simp
  also have "(2 :: rat) powi - 52 / 2 = 2 powi - 53" using powi_2_Suc [of "- 53"] by simp
  finally show ?thesis using rounded_error [of x] by linarith
qed

text \<open>A number with at most 53 significant bits is not changed.\<close>

lemma rounded_exact:
  assumes "x = of_int m * 2 powi e" "0 \<le> m" "m < 2 ^ 53" "- 1074 \<le> e"
  shows "rounded x = x"
proof (cases "m = 0")
  case False
  then have x: "0 < x" using assms by simp
  have "x < 2 powi 53 * 2 powi e" using assms(1,3) by (simp add: of_int_less_numeral_power_cancel_iff)
  then have "x < 2 powi (53 + e)" by (simp add: power_int_add)
  have "ilog2 x < 53 + e"
  proof (rule ccontr)
    assume "\<not> ilog2 x < 53 + e"
    then have "(2 :: rat) powi (53 + e) \<le> 2 powi ilog2 x" by (intro powi_2_mono) simp
    then show False using \<open>x < 2 powi (53 + e)\<close> ilog2_bounds(1) [OF x] by linarith
  qed
  then have le: "max (ilog2 x - 52) (- 1074) \<le> e" using assms(4) by simp
  define k where "k = nat (e - max (ilog2 x - 52) (- 1074))"
  have "e = int k + max (ilog2 x - 52) (- 1074)" using le by (simp add: k_def)
  then have "(2 :: rat) powi e = 2 ^ k * f64_ulp x" by (simp add: power_int_add f64_ulp_def)
  then have "x / f64_ulp x = of_int (m * 2 ^ k)" using assms(1) by (simp add: field_simps)
  then have "rounded x = of_int (m * 2 ^ k) * f64_ulp x" using x by (simp only: rounded_def round_half_even_int) simp
  then show ?thesis using \<open>x / f64_ulp x = _\<close> by (simp add: field_simps)
qed (use assms in \<open>simp add: rounded_def\<close>)

lemma rounded_power: "- 1074 \<le> k \<Longrightarrow> rounded (2 powi k) = 2 powi k"
  by (rule rounded_exact [where m = 1 and e = k]) simp_all

lemma rounded_nat: "n < 2 ^ 53 \<Longrightarrow> rounded (of_nat n) = of_nat n"
  by (rule rounded_exact [where m = "int n" and e = 0]) simp_all

lemma rounded_nonneg: "0 \<le> x \<Longrightarrow> 0 \<le> rounded x"
  using round_half_even_mono [of 0 "x / f64_ulp x"] round_half_even_int [of 0]
  by (simp add: rounded_def less_imp_le)

text \<open>Rounding is monotone.\<close>

lemma rounded_mono:
  assumes "0 \<le> x" "x \<le> y"
  shows "rounded x \<le> rounded y"
proof (cases "x = 0")
  case True
  then show ?thesis using rounded_nonneg [of y] assms by (simp add: rounded_def)
next
  case False
  then have pos: "0 < x" "0 < y" using assms by simp_all
  note le = ilog2_mono [OF pos(1) assms(2)]
  show ?thesis
  proof (cases "f64_ulp x = f64_ulp y")
    case True
    have "x / f64_ulp x \<le> y / f64_ulp x" using assms(2) by (intro divide_right_mono) (simp_all)
    then have "of_int (round_half_even (x / f64_ulp x)) * f64_ulp x \<le> of_int (round_half_even (y / f64_ulp x)) * f64_ulp x"
      by (intro mult_right_mono) (simp_all add: round_half_even_mono less_imp_le)
    then show ?thesis using pos True by (simp add: rounded_def)
  next
    case False
    then have "max (ilog2 x - 52) (- 1074) \<noteq> max (ilog2 y - 52) (- 1074)" by (auto simp: f64_ulp_def)
    then have "ilog2 x < ilog2 y" "- 1022 < ilog2 y" using le by linarith+
    define k where "k = ilog2 y"
    have k: "ilog2 x + 1 \<le> k" "- 1022 < k" using \<open>ilog2 x < ilog2 y\<close> \<open>- 1022 < ilog2 y\<close> by (simp_all add: k_def)
    have int: "\<exists>m. (2 :: rat) powi k / f64_ulp z = of_int m" if "z \<in> {x, y}" for z
    proof -
      have e: "max (ilog2 z - 52) (- 1074) \<le> k" using that k by (auto simp: k_def)
      have "(2 :: rat) powi k / f64_ulp z = 2 powi (k - max (ilog2 z - 52) (- 1074))"
        by (simp add: f64_ulp_def power_int_diff)
      also have "\<dots> = 2 ^ nat (k - max (ilog2 z - 52) (- 1074))" using e by (intro power_int_nonneg_exp) simp
      finally show ?thesis by (metis of_int_numeral of_int_power)
    qed
    have "x \<le> 2 powi k" using ilog2_bounds(2) [OF pos(1)] powi_2_mono [OF k(1)] by linarith
    then have "x / f64_ulp x \<le> 2 powi k / f64_ulp x" by (intro divide_right_mono) (simp_all add: less_imp_le)
    moreover obtain m where m: "(2 :: rat) powi k / f64_ulp x = of_int m" using int [of x] by auto
    ultimately have "round_half_even (x / f64_ulp x) \<le> m"
      using round_half_even_mono [of "x / f64_ulp x" "of_int m"] by simp
    then have "rounded x \<le> of_int m * f64_ulp x" using pos by (simp add: rounded_def)
    then have 1: "rounded x \<le> 2 powi k" using m by (simp add: field_simps)
    have "2 powi k / f64_ulp y \<le> y / f64_ulp y"
      using ilog2_bounds(1) [OF pos(2)] by (intro divide_right_mono) (simp_all add: k_def less_imp_le)
    moreover obtain n where n: "(2 :: rat) powi k / f64_ulp y = of_int n" using int [of y] by auto
    ultimately have "n \<le> round_half_even (y / f64_ulp y)"
      using round_half_even_mono [of "of_int n" "y / f64_ulp y"] by simp
    then have "of_int n * f64_ulp y \<le> rounded y" using pos by (simp add: rounded_def)
    then show ?thesis using 1 n by (simp add: field_simps)
  qed
qed

lemma f64_round_below:
  assumes "0 \<le> x" "x \<le> of_nat n" "n < 2 ^ 53"
  shows "\<exists>r. f64_round x = Fin r \<and> 0 \<le> r \<and> r \<le> of_nat n"
proof -
  have "rounded x \<le> of_nat n" using rounded_mono [OF assms(1,2)] rounded_nat [OF assms(3)] by simp
  moreover have "(of_nat n :: rat) < 2 ^ 53" using assms(3) by (metis of_nat_less_numeral_power_cancel_iff)
  then have "(of_nat n :: rat) < 2 ^ 1024" using power_increasing [of 53 1024 "2 :: rat"] by simp
  ultimately show ?thesis using rounded_nonneg [OF assms(1)] by (simp add: f64_round_def)
qed

lemma f64_from_nat_exact: "n < 2 ^ 53 \<Longrightarrow> f64_from_nat n = Fin (of_nat n)"
  using f64_round_below [of "of_nat n" n] by (auto simp: f64_from_nat_def f64_round_def rounded_nat split: if_splits)

lemma f64_round_exact:
  assumes "x = of_int m * 2 powi e" "0 \<le> m" "m < 2 ^ 53" "- 1074 \<le> e" "x < 2 ^ 1024"
  shows "f64_round x = Fin x"
  using rounded_exact [OF assms(1-4)] assms(5) by (simp add: f64_round_def)

end
