(* ===== verification/Miners.thy ===== *)
theory Miners
  imports F64 ChainWalk
begin

text \<open>
  Which pool mined which block (\<open>src/src/miners/mod.rs\<close> and \<open>src/src/miners/config.rs\<close>).

  The hash map of compiled rules is the list of its entries in the order in which iterating over it
  yields them, since that order decides between two pools whose rules match the same block; the other
  hash maps are partial maps.  Compiling a regular expression and matching it are arguments
  (\<open>Regex_new\<close>, \<open>is_match\<close>), and so is the order of the miners in the list of shares (\<open>order\<close>).  The
  serialization of the page to JSON is left out: the page is the data that is serialized.
\<close>

section \<open>State\<close>

type_synonym MinerId = rust_string

record Miner =
  mi_display_name :: rust_string
  mi_icon :: "rust_string option"
  mi_regexes :: "rust_string list"

record RecentBlock =
  rb_hash :: hash32
  rb_number :: usize
  rb_coinbase_ascii :: rust_string
  rb_miner_id :: MinerId
  rb_miner_name :: rust_string
  rb_timestamp :: u64

type_synonym MinersPageData = "RecentBlock list \<times> (MinerId \<times> rust_string \<times> f64) list"

record 'r Miners =
  ms_rules :: "MinerId \<rightharpoonup> Miner"
  ms_rules_regexes :: "(MinerId \<times> 'r list) list"
  ms_blocks_mined :: "MinerId \<rightharpoonup> hash32 list"
  ms_recent_counts :: "MinerId \<rightharpoonup> usize"
  ms_block_miners :: "hash32 \<rightharpoonup> MinerId"
  ms_recent_blocks :: "RecentBlock list"
  ms_recent_shares :: "(MinerId \<times> rust_string \<times> f64) list"
  ms_page :: MinersPageData

definition UNKNOWN_ID :: MinerId where
  "UNKNOWN_ID = map of_char ''unknown''"

definition UNKNOWN_NAME :: rust_string where
  "UNKNOWN_NAME = map of_char ''UNKNOWN''"

definition MINER_PERCENTAGE_OVER_LAST_SECONDS :: u64 where
  "MINER_PERCENTAGE_OVER_LAST_SECONDS = 3600 * 24 * 14"

definition DEFAULT_MINERS_CONFIG :: "(MinerId \<times> Miner) list" where
  "DEFAULT_MINERS_CONFIG = [(map of_char ''binance'',
     \<lparr>mi_display_name = map of_char ''Binance'', mi_icon = None, mi_regexes = [map of_char ''binance'']\<rparr>)]"

section \<open>Rules\<close>

fun compile_list :: "(rust_string \<Rightarrow> 'r res) \<Rightarrow> rust_string list \<Rightarrow> 'r list res" where
  "compile_list Regex_new [] = Ok []"
| "compile_list Regex_new (regex # rs) =
     res_bind (Regex_new (map of_char ''(?i)'' @ regex)) (\<lambda>compiled_regex.
     res_bind (compile_list Regex_new rs) (\<lambda>compiled. Ok (compiled_regex # compiled)))"

fun compile_regexes ::
  "(rust_string \<Rightarrow> 'r res) \<Rightarrow> (MinerId \<times> Miner) list \<Rightarrow> (MinerId \<times> 'r list) list res" where
  "compile_regexes Regex_new [] = Ok []"
| "compile_regexes Regex_new ((mid, miner) # rules) =
     res_bind (compile_list Regex_new (mi_regexes miner)) (\<lambda>compiled_regrets.
     res_bind (compile_regexes Regex_new rules) (\<lambda>result. Ok ((mid, compiled_regrets) # result)))"

definition Miners_start :: "(rust_string \<Rightarrow> 'r res) \<Rightarrow> 'r Miners res" where
  "Miners_start Regex_new =
     res_bind (res_unwrap (compile_regexes Regex_new DEFAULT_MINERS_CONFIG)) (\<lambda>regexes.
     Ok \<lparr>ms_rules = map_of DEFAULT_MINERS_CONFIG, ms_rules_regexes = regexes,
         ms_blocks_mined = Map.empty, ms_recent_counts = Map.empty, ms_block_miners = Map.empty,
         ms_recent_blocks = [], ms_recent_shares = [], ms_page = ([], [])\<rparr>)"

text \<open>The first miner, in the order of iteration, with a rule that matches.\<close>

fun find_miner :: "('r \<Rightarrow> bytes \<Rightarrow> bool) \<Rightarrow> (MinerId \<times> 'r list) list \<Rightarrow> bytes \<Rightarrow> MinerId option" where
  "find_miner is_match [] ascii = None"
| "find_miner is_match ((mid, rules) # rest) ascii =
     (if list_ex (\<lambda>rule. is_match rule ascii) rules then Some mid else find_miner is_match rest ascii)"

section \<open>Placing blocks\<close>

text \<open>
  The body of the loop over blocks, the same in both callbacks up to the bytes that the rules are
  matched against (\<open>matched\<close>) and the text that is shown (\<open>shown\<close>).
\<close>

definition push_recent ::
  "hash32 \<Rightarrow> usize \<Rightarrow> u64 \<Rightarrow> rust_string \<Rightarrow> MinerId \<Rightarrow> rust_string \<Rightarrow> 'r Miners \<Rightarrow> 'r Miners res" where
  "push_recent hash number timestamp shown mid name w =
     res_bind (opt_unwrap (ms_recent_counts w mid)) (\<lambda>n.
     Ok (w\<lparr>ms_recent_counts := (ms_recent_counts w)(mid \<mapsto> wadd n 1),
           ms_recent_blocks := ms_recent_blocks w @ [\<lparr>rb_hash = hash, rb_number = number,
             rb_coinbase_ascii = shown, rb_miner_id = mid, rb_miner_name = name, rb_timestamp = timestamp\<rparr>]\<rparr>))"

definition place_block ::
  "('r \<Rightarrow> bytes \<Rightarrow> bool) \<Rightarrow> u64 \<Rightarrow> hash32 \<Rightarrow> usize \<Rightarrow> u64 \<Rightarrow> bytes \<Rightarrow> rust_string \<Rightarrow> 'r Miners \<Rightarrow> 'r Miners res" where
  "place_block is_match recent_after hash number timestamp matched shown w =
     (let is_recent = recent_after \<le> timestamp in
      case find_miner is_match (ms_rules_regexes w) matched of
        Some mid \<Rightarrow>
          res_bind (opt_unwrap (ms_blocks_mined w mid)) (\<lambda>mined.
          let w = w\<lparr>ms_blocks_mined := (ms_blocks_mined w)(mid \<mapsto> mined @ [hash]),
                    ms_block_miners := (ms_block_miners w)(hash \<mapsto> mid)\<rparr> in
          if is_recent then
            res_bind (opt_unwrap (ms_rules w mid)) (\<lambda>miner.
            push_recent hash number timestamp shown mid (mi_display_name miner) w)
          else Ok w)
      | None \<Rightarrow>
          res_bind (opt_unwrap (ms_blocks_mined w UNKNOWN_ID)) (\<lambda>mined.
          let w = w\<lparr>ms_blocks_mined := (ms_blocks_mined w)(UNKNOWN_ID \<mapsto> mined @ [hash]),
                    ms_block_miners := (ms_block_miners w)(hash \<mapsto> UNKNOWN_ID)\<rparr> in
          if is_recent then push_recent hash number timestamp shown UNKNOWN_ID UNKNOWN_NAME w
          else Ok w))"

fun pop_old :: "u64 \<Rightarrow> RecentBlock list \<Rightarrow> (MinerId \<rightharpoonup> usize) \<Rightarrow> (RecentBlock list \<times> (MinerId \<rightharpoonup> usize)) res" where
  "pop_old recent_after [] counts = Ok ([], counts)"
| "pop_old recent_after (block # blocks) counts =
     (if rb_timestamp block < recent_after then
        res_bind (opt_unwrap (counts (rb_miner_id block))) (\<lambda>n.
        pop_old recent_after blocks (counts(rb_miner_id block \<mapsto> wsub n 1)))
      else Ok (block # blocks, counts))"

text \<open>The name of a miner for a reader.\<close>

definition display_name :: "'r Miners \<Rightarrow> MinerId \<Rightarrow> rust_string res" where
  "display_name w mid =
     (if mid = UNKNOWN_ID then Ok UNKNOWN_NAME
      else res_bind (opt_unwrap (ms_rules w mid)) (\<lambda>m. Ok (mi_display_name m)))"

fun shares_of :: "MinerId list \<Rightarrow> 'r Miners \<Rightarrow> (MinerId \<times> rust_string \<times> f64) list res" where
  "shares_of [] w = Ok []"
| "shares_of (mid # order) w =
     res_bind (opt_unwrap (ms_recent_counts w mid)) (\<lambda>mined.
     if mined \<noteq> 0 then
       res_bind (display_name w mid) (\<lambda>name.
       res_bind (shares_of order w) (\<lambda>shares.
       Ok ((mid, name, f64_div (f64_from_nat mined) (f64_from_nat (length (ms_recent_blocks w)))) # shares)))
     else shares_of order w)"

definition update_page_data :: "'r Miners \<Rightarrow> 'r Miners" where
  "update_page_data w = w\<lparr>ms_page := (take 50 (rev (ms_recent_blocks w)), ms_recent_shares w)\<rparr>"

text \<open>\<open>order\<close> is the order in which iteration yields the keys of the counts.\<close>

definition update_shares :: "MinerId list \<Rightarrow> 'r Miners \<Rightarrow> 'r Miners res" where
  "update_shares order w =
     res_bind (shares_of order w) (\<lambda>shares. Ok (update_page_data (w\<lparr>ms_recent_shares := shares\<rparr>)))"

section \<open>Callbacks\<close>

fun extend_blocks ::
  "('r \<Rightarrow> bytes \<Rightarrow> bool) \<Rightarrow> u64 \<Rightarrow> (((hash32 \<times> usize) \<times> u64) \<times> bytes) list \<Rightarrow> 'r Miners \<Rightarrow> 'r Miners res" where
  "extend_blocks is_match recent_after [] w = Ok w"
| "extend_blocks is_match recent_after ((((hash, number), timestamp), coinbase_ascii) # bs) w =
     res_bind (place_block is_match recent_after hash number timestamp coinbase_ascii
       (from_utf8_lossy coinbase_ascii) w) (extend_blocks is_match recent_after bs)"

definition callback_chain_extended ::
  "('r \<Rightarrow> bytes \<Rightarrow> bool) \<Rightarrow> MinerId list \<Rightarrow> hash32 list \<Rightarrow> usize list \<Rightarrow> u64 list \<Rightarrow> bytes list \<Rightarrow>
   'r Miners \<Rightarrow> 'r Miners res" where
  "callback_chain_extended is_match order block_hashes numbers timestamps coinbase_asciis w =
     (if timestamps = [] then Panic
      else
        let recent_after = last timestamps - MINER_PERCENTAGE_OVER_LAST_SECONDS in
        res_bind (pop_old recent_after (ms_recent_blocks w) (ms_recent_counts w)) (\<lambda>(blocks, counts).
        res_bind (extend_blocks is_match recent_after (zip (zip (zip block_hashes numbers) timestamps) coinbase_asciis)
          (w\<lparr>ms_recent_blocks := blocks, ms_recent_counts := counts\<rparr>))
        (update_shares order)))"

text \<open>\<open>String::as_bytes\<close>: the UTF-8 encoding.\<close>

definition utf8_encode_char :: "nat \<Rightarrow> bytes" where
  "utf8_encode_char c =
     (if c < 0x80 then [word_of_nat c]
      else if c < 0x800 then [word_of_nat (0xC0 + c div 64), word_of_nat (0x80 + c mod 64)]
      else if c < 0x10000 then
        [word_of_nat (0xE0 + c div 4096), word_of_nat (0x80 + c div 64 mod 64), word_of_nat (0x80 + c mod 64)]
      else
        [word_of_nat (0xF0 + c div 262144), word_of_nat (0x80 + c div 4096 mod 64),
         word_of_nat (0x80 + c div 64 mod 64), word_of_nat (0x80 + c mod 64)])"

definition utf8_encode :: "rust_string \<Rightarrow> bytes" where
  "utf8_encode s = concat (map utf8_encode_char s)"

fun replace_blocks ::
  "('r \<Rightarrow> bytes \<Rightarrow> bool) \<Rightarrow> u64 \<Rightarrow> (hash32 \<times> usize \<times> u64 \<times> rust_string) list \<Rightarrow> 'r Miners \<Rightarrow> 'r Miners res" where
  "replace_blocks is_match recent_after [] w = Ok w"
| "replace_blocks is_match recent_after ((hash, number, timestamp, coinbase_ascii) # bs) w =
     res_bind (place_block is_match recent_after hash number timestamp (utf8_encode coinbase_ascii)
       coinbase_ascii w) (replace_blocks is_match recent_after bs)"

definition cleared :: "'r Miners \<Rightarrow> 'r Miners" where
  "cleared w = w\<lparr>
     ms_blocks_mined := (\<lambda>mid. if mid = UNKNOWN_ID \<or> ms_rules w mid \<noteq> None then Some [] else None),
     ms_block_miners := Map.empty, ms_recent_blocks := [],
     ms_recent_counts := (\<lambda>mid. if mid = UNKNOWN_ID \<or> ms_rules w mid \<noteq> None then Some 0 else None)\<rparr>"

text \<open>The part of the recalculation after the blocks have been collected; \<open>now\<close> is the system time.\<close>

definition recalculate_from ::
  "('r \<Rightarrow> bytes \<Rightarrow> bool) \<Rightarrow> MinerId list \<Rightarrow> u64 \<Rightarrow> (hash32 \<times> usize \<times> u64 \<times> rust_string) list \<Rightarrow>
   'r Miners \<Rightarrow> 'r Miners res" where
  "recalculate_from is_match order now blocks data =
     (let last_timestamp = (if blocks = [] then now else fst (snd (snd (last blocks))));
          recent_after = last_timestamp - MINER_PERCENTAGE_OVER_LAST_SECONDS in
      res_bind (replace_blocks is_match recent_after blocks (cleared data)) (update_shares order))"

definition recalculate_full_miner_stats ::
  "('r \<Rightarrow> bytes \<Rightarrow> bool) \<Rightarrow> MinerId list \<Rightarrow> u64 \<Rightarrow> Chain \<Rightarrow> hash32 option \<Rightarrow> 'r Miners \<Rightarrow> 'r Miners loop" where
  "recalculate_full_miner_stats is_match order now c top_hash data =
     (case top_hash of
        None \<Rightarrow> Some (Ok (cleared data))
      | Some top_hash \<Rightarrow>
          loop_bind (get_blocks_with_timestamps_and_coinbase_asciis c top_hash) (\<lambda>blocks.
          Some (recalculate_from is_match order now blocks data)))"

definition callback_chain_reorg ::
  "('r \<Rightarrow> bytes \<Rightarrow> bool) \<Rightarrow> MinerId list \<Rightarrow> u64 \<Rightarrow> Chain \<Rightarrow> hash32 \<Rightarrow> 'r Miners \<Rightarrow> 'r Miners loop" where
  "callback_chain_reorg is_match order now c top_hash w =
     recalculate_full_miner_stats is_match order now c (Some top_hash) w"

definition callback_after_headers_loaded ::
  "('r \<Rightarrow> bytes \<Rightarrow> bool) \<Rightarrow> MinerId list \<Rightarrow> u64 \<Rightarrow> Chain \<Rightarrow> 'r Miners \<Rightarrow> 'r Miners loop" where
  "callback_after_headers_loaded is_match order now c w =
     loop_bind (get_top_synced_header_hash c) (\<lambda>top.
     recalculate_full_miner_stats is_match order now c top w)"

definition callback_config_updated ::
  "('r \<Rightarrow> bytes \<Rightarrow> bool) \<Rightarrow> MinerId list \<Rightarrow> u64 \<Rightarrow> Chain \<Rightarrow> (MinerId \<rightharpoonup> Miner) \<Rightarrow> (MinerId \<times> 'r list) list \<Rightarrow>
   'r Miners \<Rightarrow> 'r Miners loop" where
  "callback_config_updated is_match order now c new_rules new_regrets w =
     callback_after_headers_loaded is_match order now c
       (w\<lparr>ms_rules := new_rules, ms_rules_regexes := new_regrets\<rparr>)"

text \<open>
  \<open>config\<close> is the outcome of opening, reading and parsing \<open>miners.yml\<close>, and \<open>rehash\<close> the order in which
  iteration yields the compiled rules.
\<close>

definition reload_miners_config ::
  "('r \<Rightarrow> bytes \<Rightarrow> bool) \<Rightarrow> (rust_string \<Rightarrow> 'r res) \<Rightarrow> ((MinerId \<times> 'r list) list \<Rightarrow> (MinerId \<times> 'r list) list) \<Rightarrow>
   MinerId list \<Rightarrow> u64 \<Rightarrow> Chain \<Rightarrow> (MinerId \<times> Miner) list res \<Rightarrow> 'r Miners \<Rightarrow> 'r Miners loop" where
  "reload_miners_config is_match Regex_new rehash order now c config w =
     (case config of
        Panic \<Rightarrow> Some Panic
      | Err _ \<Rightarrow> Some (Ok w)
      | Ok parsed \<Rightarrow>
          (case compile_regexes Regex_new parsed of
             Panic \<Rightarrow> Some Panic
           | Err _ \<Rightarrow> Some (Ok w)
           | Ok recompiled \<Rightarrow>
               callback_config_updated is_match order now c (map_of parsed) (rehash recompiled) w))"

section \<open>Queries\<close>

definition get_miner_for_block_and_share ::
  "'r Miners \<Rightarrow> hash32 \<Rightarrow> (MinerId \<times> rust_string \<times> f64) option res" where
  "get_miner_for_block_and_share r block =
     (case ms_block_miners r block of
        None \<Rightarrow> Ok None
      | Some miner_id \<Rightarrow>
          res_bind (opt_unwrap (ms_recent_counts r miner_id)) (\<lambda>mined_recently.
          let recent_blocks = length (ms_recent_blocks r);
              share = (if recent_blocks \<noteq> 0 then f64_div (f64_from_nat mined_recently) (f64_from_nat recent_blocks)
                       else Fin 0) in
          res_bind (display_name r miner_id) (\<lambda>name. Ok (Some (miner_id, name, share)))))"

definition get_block_data :: "Chain \<Rightarrow> 'r Miners \<Rightarrow> hash32 list \<Rightarrow> RecentBlock list res" where
  "get_block_data c r block_hashes =
     res_bind (try_get_block_timestamps_and_numbers_and_cb_asciis c block_hashes) (\<lambda>data.
     Ok (map (\<lambda>(hash, timestamp, number, coinbase_ascii).
       let miner_id = (case ms_block_miners r hash of Some mid \<Rightarrow> mid | None \<Rightarrow> UNKNOWN_ID) in
       \<lparr>rb_hash = hash, rb_number = number, rb_coinbase_ascii = coinbase_ascii, rb_miner_id = miner_id,
        rb_miner_name = (if miner_id = UNKNOWN_ID then UNKNOWN_NAME
          else (case ms_rules r miner_id of Some v \<Rightarrow> mi_display_name v | None \<Rightarrow> UNKNOWN_NAME)),
        rb_timestamp = timestamp\<rparr>) (zip block_hashes data)))"

definition get_miner :: "'r Miners \<Rightarrow> MinerId \<Rightarrow> Miner option" where
  "get_miner r mid = ms_rules r mid"

definition miner_block_hashes :: "hash32 list \<Rightarrow> usize \<Rightarrow> hash32 option \<Rightarrow> hash32 list" where
  "miner_block_hashes blocks limit after =
     (case after of
        Some v \<Rightarrow> take limit (dropWhile (\<lambda>h. h \<noteq> v) (rev blocks))
      | None \<Rightarrow> take limit (rev blocks))"

definition get_miner_blocks ::
  "Chain \<Rightarrow> 'r Miners \<Rightarrow> MinerId \<Rightarrow> usize \<Rightarrow> hash32 option \<Rightarrow> RecentBlock list res" where
  "get_miner_blocks c r mid limit after =
     (case ms_blocks_mined r mid of
        None \<Rightarrow> Ok []
      | Some blocks \<Rightarrow>
          (case get_block_data c r (miner_block_hashes blocks limit after) of
             Ok v \<Rightarrow> Ok v
           | Err _ \<Rightarrow> Ok []
           | Panic \<Rightarrow> Panic))"

section \<open>What placing a block does\<close>

type_synonym placed = "hash32 \<times> usize \<times> u64 \<times> bytes \<times> rust_string"

definition miner_ids :: "'r Miners \<Rightarrow> MinerId set" where
  "miner_ids w = insert UNKNOWN_ID (dom (ms_rules w))"

text \<open>The number of recent blocks of every miner.\<close>

definition counts_of :: "MinerId set \<Rightarrow> RecentBlock list \<Rightarrow> MinerId \<rightharpoonup> usize" where
  "counts_of D blocks mid = (if mid \<in> D then Some (length (filter (\<lambda>b. rb_miner_id b = mid) blocks)) else None)"

definition rules_ok :: "'r Miners \<Rightarrow> bool" where
  "rules_ok w \<longleftrightarrow> fst ` set (ms_rules_regexes w) \<subseteq> dom (ms_rules w)"

definition miners_ok :: "'r Miners \<Rightarrow> bool" where
  "miners_ok w \<longleftrightarrow> rules_ok w \<and> dom (ms_blocks_mined w) = miner_ids w \<and>
     ms_recent_counts w = counts_of (miner_ids w) (ms_recent_blocks w) \<and>
     rb_miner_id ` set (ms_recent_blocks w) \<subseteq> miner_ids w \<and>
     (\<forall>hash mid. ms_block_miners w hash = Some mid \<longrightarrow>
        (\<exists>mined. ms_blocks_mined w mid = Some mined \<and> hash \<in> set mined))"

definition recent_entry :: "('r \<Rightarrow> bytes \<Rightarrow> bool) \<Rightarrow> 'r Miners \<Rightarrow> placed \<Rightarrow> RecentBlock" where
  "recent_entry is_match w = (\<lambda>(hash, number, timestamp, matched, shown).
     case find_miner is_match (ms_rules_regexes w) matched of
       Some mid \<Rightarrow> \<lparr>rb_hash = hash, rb_number = number, rb_coinbase_ascii = shown, rb_miner_id = mid,
         rb_miner_name = mi_display_name (the (ms_rules w mid)), rb_timestamp = timestamp\<rparr>
     | None \<Rightarrow> \<lparr>rb_hash = hash, rb_number = number, rb_coinbase_ascii = shown, rb_miner_id = UNKNOWN_ID,
         rb_miner_name = UNKNOWN_NAME, rb_timestamp = timestamp\<rparr>)"

definition settle :: "('r \<Rightarrow> bytes \<Rightarrow> bool) \<Rightarrow> u64 \<Rightarrow> 'r Miners \<Rightarrow> placed \<Rightarrow> 'r Miners" where
  "settle is_match recent_after w b =
     (let e = recent_entry is_match w b; mid = rb_miner_id e;
          recent = ms_recent_blocks w @ (if recent_after \<le> rb_timestamp e then [e] else []) in
      w\<lparr>ms_blocks_mined := (ms_blocks_mined w)(mid \<mapsto> the (ms_blocks_mined w mid) @ [rb_hash e]),
        ms_block_miners := (ms_block_miners w)(rb_hash e \<mapsto> mid),
        ms_recent_blocks := recent, ms_recent_counts := counts_of (miner_ids w) recent\<rparr>)"

definition place :: "('r \<Rightarrow> bytes \<Rightarrow> bool) \<Rightarrow> u64 \<Rightarrow> placed \<Rightarrow> 'r Miners \<Rightarrow> 'r Miners res" where
  "place is_match recent_after b w = (case b of (hash, number, timestamp, matched, shown) \<Rightarrow>
     place_block is_match recent_after hash number timestamp matched shown w)"

fun place_all :: "('r \<Rightarrow> bytes \<Rightarrow> bool) \<Rightarrow> u64 \<Rightarrow> placed list \<Rightarrow> 'r Miners \<Rightarrow> 'r Miners res" where
  "place_all is_match recent_after [] w = Ok w"
| "place_all is_match recent_after (b # bs) w =
     res_bind (place is_match recent_after b w) (place_all is_match recent_after bs)"

lemma extend_blocks_place_all:
  "extend_blocks is_match r bs w = place_all is_match r
     (map (\<lambda>(((hash, number), timestamp), ascii). (hash, number, timestamp, ascii, from_utf8_lossy ascii)) bs) w"
  by (induction is_match r bs w rule: extend_blocks.induct) (auto simp: place_def intro: res_bind_cong)

lemma replace_blocks_place_all:
  "replace_blocks is_match r bs w = place_all is_match r
     (map (\<lambda>(hash, number, timestamp, ascii). (hash, number, timestamp, utf8_encode ascii, ascii)) bs) w"
  by (induction is_match r bs w rule: replace_blocks.induct) (auto simp: place_def intro: res_bind_cong)

lemma find_miner_known: "find_miner is_match rules b = Some mid \<Longrightarrow> mid \<in> fst ` set rules"
  by (induction is_match rules b rule: find_miner.induct) (auto split: if_splits)

lemma recent_entry_known: "rules_ok w \<Longrightarrow> rb_miner_id (recent_entry is_match w b) \<in> miner_ids w"
  unfolding recent_entry_def rules_ok_def miner_ids_def
  by (auto split: option.splits prod.splits dest!: find_miner_known)

lemma counts_of_snoc:
  "counts_of D (bs @ [e]) = (counts_of D bs)(rb_miner_id e :=
     (if rb_miner_id e \<in> D then Some (Suc (length (filter (\<lambda>b. rb_miner_id b = rb_miner_id e) bs))) else None))"
  by (auto simp: counts_of_def fun_eq_iff)

lemma push_recent_eq:
  assumes "ms_recent_counts w = counts_of D (ms_recent_blocks w)" "mid \<in> D" "length (ms_recent_blocks w) < 2 ^ 63"
    and "e = \<lparr>rb_hash = hash, rb_number = number, rb_coinbase_ascii = shown, rb_miner_id = mid,
        rb_miner_name = name, rb_timestamp = timestamp\<rparr>"
  shows "push_recent hash number timestamp shown mid name w = Ok (w\<lparr>ms_recent_counts := counts_of D (ms_recent_blocks w @ [e]),
      ms_recent_blocks := ms_recent_blocks w @ [e]\<rparr>)"
proof -
  have "length (filter (\<lambda>b. rb_miner_id b = mid) (ms_recent_blocks w)) < 2 ^ 63"
    using assms(3) length_filter_le le_less_trans by blast
  then have "wadd (length (filter (\<lambda>b. rb_miner_id b = mid) (ms_recent_blocks w))) 1 =
      Suc (length (filter (\<lambda>b. rb_miner_id b = mid) (ms_recent_blocks w)))" by simp
  then show ?thesis using assms by (simp add: push_recent_def counts_of_snoc) (simp add: counts_of_def)
qed

lemma place_eq:
  assumes "miners_ok w" "length (ms_recent_blocks w) < 2 ^ 63"
  shows "place is_match r b w = Ok (settle is_match r w b)"
proof -
  obtain hash number timestamp matched shown where b: "b = (hash, number, timestamp, matched, shown)" by (cases b)
  define e where "e = recent_entry is_match w b"
  define found where "found = find_miner is_match (ms_rules_regexes w) matched"
  have ok: "rules_ok w" "dom (ms_blocks_mined w) = miner_ids w"
    "ms_recent_counts w = counts_of (miner_ids w) (ms_recent_blocks w)"
    using assms(1) by (simp_all add: miners_ok_def)
  have known: "rb_miner_id e \<in> miner_ids w" using recent_entry_known [OF ok(1)] by (simp add: e_def)
  then obtain mined where mined: "ms_blocks_mined w (rb_miner_id e) = Some mined" using ok(2) by blast
  have e: "rb_hash e = hash" "rb_timestamp e = timestamp" "rb_number e = number" "rb_coinbase_ascii e = shown"
    by (simp_all add: e_def b recent_entry_def split: option.split)
  let ?w = "w\<lparr>ms_blocks_mined := (ms_blocks_mined w)(rb_miner_id e \<mapsto> mined @ [hash]),
      ms_block_miners := (ms_block_miners w)(hash \<mapsto> rb_miner_id e)\<rparr>"
  have push: "push_recent hash number timestamp shown (rb_miner_id e) (rb_miner_name e) ?w =
      Ok (?w\<lparr>ms_recent_counts := counts_of (miner_ids w) (ms_recent_blocks w @ [e]),
        ms_recent_blocks := ms_recent_blocks w @ [e]\<rparr>)"
    using push_recent_eq [of ?w "miner_ids w" "rb_miner_id e" e] known assms(2) ok(3) e by simp
  have settle: "settle is_match r w b = (if r \<le> timestamp
      then ?w\<lparr>ms_recent_counts := counts_of (miner_ids w) (ms_recent_blocks w @ [e]),
        ms_recent_blocks := ms_recent_blocks w @ [e]\<rparr> else ?w)"
    using mined ok(3) e by (simp add: settle_def e_def [symmetric] Let_def)
  show ?thesis
  proof (cases found)
    case None
    then have id: "rb_miner_id e = UNKNOWN_ID" "rb_miner_name e = UNKNOWN_NAME"
      by (simp_all add: e_def b recent_entry_def found_def)
    show ?thesis using None push mined unfolding settle unfolding id b place_def prod.case place_block_def found_def
      by (simp add: Let_def)
  next
    case (Some mid)
    then have id: "rb_miner_id e = mid" "rb_miner_name e = mi_display_name (the (ms_rules w mid))"
      by (simp_all add: e_def b recent_entry_def found_def)
    have "mid \<in> dom (ms_rules w)" using find_miner_known Some ok(1) unfolding found_def rules_ok_def by blast
    then obtain m where "ms_rules w mid = Some m" by blast
    then show ?thesis using Some push mined unfolding settle unfolding id b place_def prod.case place_block_def found_def
      by (simp add: Let_def)
  qed
qed

lemma same_rules:
  assumes "ms_rules v = ms_rules w" "ms_rules_regexes v = ms_rules_regexes w"
  shows "miner_ids v = miner_ids w" "rules_ok v = rules_ok w" "recent_entry is_match v = recent_entry is_match w"
  unfolding recent_entry_def miner_ids_def rules_ok_def assms by (rule refl)+

lemma settle_rules [simp]:
  "ms_rules (settle is_match r w b) = ms_rules w" "ms_rules_regexes (settle is_match r w b) = ms_rules_regexes w"
  by (simp_all add: settle_def Let_def)

lemmas settle_keeps [simp] = same_rules [OF settle_rules]

lemma settle_ok:
  assumes "miners_ok w"
  shows "miners_ok (settle is_match r w b)"
proof -
  define e where "e = recent_entry is_match w b"
  have ok: "rules_ok w" "dom (ms_blocks_mined w) = miner_ids w" "rb_miner_id ` set (ms_recent_blocks w) \<subseteq> miner_ids w"
    "\<And>hash mid. ms_block_miners w hash = Some mid \<Longrightarrow> \<exists>mined. ms_blocks_mined w mid = Some mined \<and> hash \<in> set mined"
    using assms by (auto simp: miners_ok_def)
  have known: "rb_miner_id e \<in> miner_ids w" using recent_entry_known [OF ok(1)] by (simp add: e_def)
  let ?w = "settle is_match r w b"
  have f: "ms_blocks_mined ?w = (ms_blocks_mined w)(rb_miner_id e \<mapsto> the (ms_blocks_mined w (rb_miner_id e)) @ [rb_hash e])"
    "ms_block_miners ?w = (ms_block_miners w)(rb_hash e \<mapsto> rb_miner_id e)"
    "ms_recent_blocks ?w = ms_recent_blocks w @ (if r \<le> rb_timestamp e then [e] else [])"
    "ms_recent_counts ?w = counts_of (miner_ids w) (ms_recent_blocks ?w)"
    by (simp_all add: settle_def Let_def e_def)
  have "\<exists>mined. ms_blocks_mined ?w mid = Some mined \<and> hash \<in> set mined" if "ms_block_miners ?w hash = Some mid" for hash mid
    using that ok(4) [of hash mid] unfolding f by (auto split: if_splits)
  moreover have "dom (ms_blocks_mined ?w) = miner_ids w" using ok(2) known unfolding f by auto
  moreover have "rb_miner_id ` set (ms_recent_blocks ?w) \<subseteq> miner_ids w" using ok(3) known unfolding f by auto
  ultimately show ?thesis using ok(1) f(4) by (simp add: miners_ok_def)
qed

lemma foldl_settle_keeps [simp]:
  "ms_rules (foldl (settle is_match r) w bs) = ms_rules w"
  "ms_rules_regexes (foldl (settle is_match r) w bs) = ms_rules_regexes w"
  "miner_ids (foldl (settle is_match r) w bs) = miner_ids w"
  "recent_entry is_match (foldl (settle is_match r) w bs) = recent_entry is_match w"
  by (induction bs arbitrary: w) simp_all

lemma foldl_settle_recent:
  "ms_recent_blocks (foldl (settle is_match r) w bs) =
     ms_recent_blocks w @ filter (\<lambda>e. r \<le> rb_timestamp e) (map (recent_entry is_match w) bs)"
proof (induction bs arbitrary: w)
  case (Cons b bs)
  have "ms_recent_blocks (settle is_match r w b) = ms_recent_blocks w @
      (if r \<le> rb_timestamp (recent_entry is_match w b) then [recent_entry is_match w b] else [])"
    by (simp add: settle_def Let_def)
  then show ?case using Cons [of "settle is_match r w b"] by simp
qed simp

lemma place_all_eq:
  "miners_ok w \<Longrightarrow> length (ms_recent_blocks w) + length bs < 2 ^ 63 \<Longrightarrow>
   place_all is_match r bs w = Ok (foldl (settle is_match r) w bs) \<and> miners_ok (foldl (settle is_match r) w bs)"
proof (induction bs arbitrary: w)
  case (Cons b bs)
  have "length (ms_recent_blocks (settle is_match r w b)) \<le> Suc (length (ms_recent_blocks w))"
    by (simp add: settle_def Let_def)
  then show ?case using Cons.IH [OF settle_ok [OF Cons.prems(1)]] place_eq [OF Cons.prems(1)] Cons.prems(2) by simp
qed simp

lemma pop_old_eq:
  assumes "rb_miner_id ` set bs \<subseteq> D" "length bs < 2 ^ 64"
  shows "pop_old r bs (counts_of D bs) =
    Ok (dropWhile (\<lambda>b. rb_timestamp b < r) bs, counts_of D (dropWhile (\<lambda>b. rb_timestamp b < r) bs))"
  using assms
proof (induction bs)
  case (Cons b bs)
  have "(counts_of D (b # bs))(rb_miner_id b \<mapsto> length (filter (\<lambda>c. rb_miner_id c = rb_miner_id b) bs)) = counts_of D bs"
    using Cons.prems(1) by (auto simp: counts_of_def fun_eq_iff)
  moreover have "counts_of D (b # bs) (rb_miner_id b) = Some (Suc (length (filter (\<lambda>c. rb_miner_id c = rb_miner_id b) bs)))"
    using Cons.prems(1) by (simp add: counts_of_def)
  ultimately show ?case using Cons by simp
qed simp

lemma cleared_rules [simp]:
  "ms_rules (cleared w) = ms_rules w" "ms_rules_regexes (cleared w) = ms_rules_regexes w"
  "ms_recent_blocks (cleared w) = []"
  by (simp_all add: cleared_def)

lemmas cleared_keeps [simp] = same_rules [OF cleared_rules(1,2)]

lemma cleared_ok: "rules_ok w \<Longrightarrow> miners_ok (cleared w)"
  unfolding miners_ok_def cleared_keeps
  by (auto simp: cleared_def counts_of_def miner_ids_def fun_eq_iff dom_def)

section \<open>Shares\<close>

text \<open>The share of a miner is its fraction of the recent blocks, rounded once, and at most one.\<close>

definition share_of :: "'r Miners \<Rightarrow> MinerId \<Rightarrow> f64" where
  "share_of w mid = f64_round (of_nat (length (filter (\<lambda>b. rb_miner_id b = mid) (ms_recent_blocks w))) /
     of_nat (length (ms_recent_blocks w)))"

lemma share_div:
  assumes "n \<le> m" "m \<noteq> 0" "m < 2 ^ 53"
  shows "f64_div (f64_from_nat n) (f64_from_nat m) = f64_round (of_nat n / of_nat m)"
  using assms by (simp add: f64_from_nat_exact)

lemma share_bound:
  assumes "ms_recent_blocks w \<noteq> []"
  shows "\<exists>r. share_of w mid = Fin r \<and> 0 \<le> r \<and> r \<le> 1"
proof -
  let ?x = "of_nat (length (filter (\<lambda>b. rb_miner_id b = mid) (ms_recent_blocks w))) / of_nat (length (ms_recent_blocks w)) :: rat"
  have "?x \<le> of_nat 1" using assms length_filter_le [of "\<lambda>b. rb_miner_id b = mid" "ms_recent_blocks w"]
    by (simp add: divide_le_eq_1)
  then show ?thesis using f64_round_below [of ?x 1] by (simp add: share_of_def)
qed

definition name_of :: "'r Miners \<Rightarrow> MinerId \<Rightarrow> rust_string" where
  "name_of w mid = (if mid = UNKNOWN_ID then UNKNOWN_NAME else mi_display_name (the (ms_rules w mid)))"

lemma display_name_eq: "mid \<in> miner_ids w \<Longrightarrow> display_name w mid = Ok (name_of w mid)"
  by (auto simp: display_name_def name_of_def miner_ids_def)

definition shares_list :: "MinerId list \<Rightarrow> 'r Miners \<Rightarrow> (MinerId \<times> rust_string \<times> f64) list" where
  "shares_list order w = map (\<lambda>mid. (mid, name_of w mid, share_of w mid))
     (filter (\<lambda>mid. mid \<in> rb_miner_id ` set (ms_recent_blocks w)) order)"

lemma shares_of_eq:
  assumes "miners_ok w" "length (ms_recent_blocks w) < 2 ^ 53"
  shows "set order \<subseteq> miner_ids w \<Longrightarrow> shares_of order w = Ok (shares_list order w)"
proof (induction order)
  case (Cons mid order)
  let ?n = "length (filter (\<lambda>b. rb_miner_id b = mid) (ms_recent_blocks w))"
  have c: "ms_recent_counts w mid = Some ?n"
    using assms(1) Cons.prems by (simp add: miners_ok_def counts_of_def)
  have pos: "?n \<noteq> 0 \<longleftrightarrow> mid \<in> rb_miner_id ` set (ms_recent_blocks w)" by (auto simp: filter_empty_conv)
  have IH: "shares_of order w = Ok (shares_list order w)" using Cons by simp
  show ?case
  proof (cases "?n = 0")
    case True
    then show ?thesis using c IH pos by (simp add: shares_list_def)
  next
    case False
    have ne: "ms_recent_blocks w \<noteq> []" using False by auto
    have "f64_div (f64_from_nat ?n) (f64_from_nat (length (ms_recent_blocks w))) = share_of w mid"
      unfolding share_of_def using ne assms(2) length_filter_le by (intro share_div) auto
    then show ?thesis using c IH pos False Cons.prems by (simp add: display_name_eq shares_list_def)
  qed
qed (simp add: shares_list_def)

lemma shares_list_sound:
  assumes "(mid, name, share) \<in> set (shares_list order w)"
  shows "name = name_of w mid \<and> share = share_of w mid \<and> (\<exists>r. share = Fin r \<and> 0 \<le> r \<and> r \<le> 1)"
proof -
  have "name = name_of w mid" "share = share_of w mid" "ms_recent_blocks w \<noteq> []"
    using assms by (auto simp: shares_list_def)
  then show ?thesis using share_bound by metis
qed

definition with_shares :: "MinerId list \<Rightarrow> 'r Miners \<Rightarrow> 'r Miners" where
  "with_shares order w = w\<lparr>ms_recent_shares := shares_list order w,
     ms_page := (take 50 (rev (ms_recent_blocks w)), shares_list order w)\<rparr>"

lemma with_shares_keeps [simp]:
  "ms_rules (with_shares order w) = ms_rules w" "ms_rules_regexes (with_shares order w) = ms_rules_regexes w"
  "ms_blocks_mined (with_shares order w) = ms_blocks_mined w" "ms_block_miners (with_shares order w) = ms_block_miners w"
  "ms_recent_blocks (with_shares order w) = ms_recent_blocks w" "ms_recent_counts (with_shares order w) = ms_recent_counts w"
  "ms_recent_shares (with_shares order w) = shares_list order w"
  "ms_page (with_shares order w) = (take 50 (rev (ms_recent_blocks w)), shares_list order w)"
  by (simp_all add: with_shares_def)

lemmas with_shares_same [simp] = same_rules [OF with_shares_keeps(1,2)]

lemma miners_ok_with_shares [simp]: "miners_ok (with_shares order w) = miners_ok w"
  by (simp add: miners_ok_def)

lemma update_shares_eq:
  assumes "miners_ok w" "length (ms_recent_blocks w) < 2 ^ 53" "set order \<subseteq> miner_ids w"
  shows "update_shares order w = Ok (with_shares order w)"
  unfolding update_shares_def shares_of_eq [OF assms] by (simp add: update_page_data_def with_shares_def)

section \<open>The callbacks\<close>

text \<open>The state after \<open>callback_chain_extended\<close> has dropped what is no longer recent.\<close>

definition trimmed :: "u64 \<Rightarrow> 'r Miners \<Rightarrow> 'r Miners" where
  "trimmed r w = (let recent = dropWhile (\<lambda>b. rb_timestamp b < r) (ms_recent_blocks w) in
     w\<lparr>ms_recent_blocks := recent, ms_recent_counts := counts_of (miner_ids w) recent\<rparr>)"

lemma trimmed_keeps [simp]:
  "ms_rules (trimmed r w) = ms_rules w" "ms_rules_regexes (trimmed r w) = ms_rules_regexes w"
  "ms_blocks_mined (trimmed r w) = ms_blocks_mined w" "ms_block_miners (trimmed r w) = ms_block_miners w"
  "ms_recent_blocks (trimmed r w) = dropWhile (\<lambda>b. rb_timestamp b < r) (ms_recent_blocks w)"
  by (simp_all add: trimmed_def Let_def)

lemmas trimmed_same [simp] = same_rules [OF trimmed_keeps(1,2)]

lemma trimmed_ok: "miners_ok w \<Longrightarrow> miners_ok (trimmed r w)"
  using set_dropWhileD [of _ "\<lambda>b. rb_timestamp b < r" "ms_recent_blocks w"]
  unfolding miners_ok_def trimmed_same trimmed_keeps
  by (simp add: trimmed_def Let_def) blast

definition extension :: "hash32 list \<Rightarrow> usize list \<Rightarrow> u64 list \<Rightarrow> bytes list \<Rightarrow> placed list" where
  "extension block_hashes numbers timestamps coinbase_asciis =
     map (\<lambda>(((hash, number), timestamp), ascii). (hash, number, timestamp, ascii, from_utf8_lossy ascii))
       (zip (zip (zip block_hashes numbers) timestamps) coinbase_asciis)"

lemma extended_eq:
  assumes "miners_ok w" "timestamps \<noteq> []" "set order \<subseteq> miner_ids w"
    and "length (ms_recent_blocks w) + length timestamps < 2 ^ 53"
    and "r = last timestamps - MINER_PERCENTAGE_OVER_LAST_SECONDS"
    and "w' = foldl (settle is_match r) (trimmed r w) (extension block_hashes numbers timestamps asciis)"
  shows "callback_chain_extended is_match order block_hashes numbers timestamps asciis w = Ok (with_shares order w')"
    and "miners_ok w'"
proof -
  let ?bs = "extension block_hashes numbers timestamps asciis"
  have len: "length ?bs \<le> length timestamps" by (simp add: extension_def)
  have rec: "length (dropWhile (\<lambda>b. rb_timestamp b < r) (ms_recent_blocks w)) \<le> length (ms_recent_blocks w)"
    by (rule length_dropWhile_le)
  have pop: "pop_old r (ms_recent_blocks w) (ms_recent_counts w) =
      Ok (dropWhile (\<lambda>b. rb_timestamp b < r) (ms_recent_blocks w), ms_recent_counts (trimmed r w))"
    using pop_old_eq [of "ms_recent_blocks w" "miner_ids w" r] assms(1,4) by (simp add: miners_ok_def trimmed_def Let_def)
  have "w\<lparr>ms_recent_blocks := dropWhile (\<lambda>b. rb_timestamp b < r) (ms_recent_blocks w),
      ms_recent_counts := ms_recent_counts (trimmed r w)\<rparr> = trimmed r w" by (simp add: trimmed_def Let_def)
  moreover have "place_all is_match r ?bs (trimmed r w) = Ok w' \<and> miners_ok w'"
    unfolding assms(6) using assms(4) len rec by (intro place_all_eq trimmed_ok assms(1)) simp
  moreover have "length (ms_recent_blocks w') < 2 ^ 53"
    using assms(4) len rec le_less_trans [OF length_filter_le] unfolding assms(6) foldl_settle_recent
    by (simp add: le_less_trans [OF add_mono [OF rec order_trans [OF length_filter_le]]])
  ultimately show "callback_chain_extended is_match order block_hashes numbers timestamps asciis w = Ok (with_shares order w')"
    "miners_ok w'"
    using assms(2,3) update_shares_eq [of w' order] pop
    by (simp_all add: callback_chain_extended_def Let_def assms(5) [symmetric] extend_blocks_place_all extension_def [symmetric] assms(6))
qed

lemma recalculated_eq:
  assumes "rules_ok w" "set order \<subseteq> miner_ids w" "length blocks < 2 ^ 53"
    and "r = (if blocks = [] then now else fst (snd (snd (last blocks)))) - MINER_PERCENTAGE_OVER_LAST_SECONDS"
    and "w' = foldl (settle is_match r) (cleared w)
      (map (\<lambda>(hash, number, timestamp, ascii). (hash, number, timestamp, utf8_encode ascii, ascii)) blocks)"
  shows "recalculate_from is_match order now blocks w = Ok (with_shares order w')" and "miners_ok w'"
proof -
  let ?bs = "map (\<lambda>(hash, number, timestamp, ascii). (hash, number, timestamp, utf8_encode ascii, ascii)) blocks"
  have "place_all is_match r ?bs (cleared w) = Ok w' \<and> miners_ok w'"
    unfolding assms(5) using assms(3) by (intro place_all_eq cleared_ok assms(1)) simp
  moreover have "length (ms_recent_blocks w') < 2 ^ 53"
    using assms(3) unfolding assms(5) foldl_settle_recent by (simp add: le_less_trans [OF length_filter_le])
  ultimately show "recalculate_from is_match order now blocks w = Ok (with_shares order w')" "miners_ok w'"
    using assms(2) update_shares_eq [of w' order]
    by (simp_all add: recalculate_from_def Let_def assms(4) [symmetric] replace_blocks_place_all assms(5))
qed

section \<open>Extending and recalculating agree\<close>

text \<open>Two states that differ at most in the shares and the page, which every callback writes anew.\<close>

definition base :: "'r Miners \<Rightarrow> 'r Miners" where
  "base w = w\<lparr>ms_recent_shares := [], ms_page := ([], [])\<rparr>"

lemma base_keeps [simp]:
  "ms_rules (base w) = ms_rules w" "ms_rules_regexes (base w) = ms_rules_regexes w"
  "ms_blocks_mined (base w) = ms_blocks_mined w" "ms_block_miners (base w) = ms_block_miners w"
  "ms_recent_blocks (base w) = ms_recent_blocks w" "ms_recent_counts (base w) = ms_recent_counts w"
  by (simp_all add: base_def)

lemmas base_same [simp] = same_rules [OF base_keeps(1,2)]

lemma settle_base: "settle is_match r (base w) b = base (settle is_match r w b)"
  unfolding settle_def base_keeps base_same Let_def by (simp add: base_def)

lemma foldl_settle_base: "foldl (settle is_match r) (base w) bs = base (foldl (settle is_match r) w bs)"
  by (induction bs arbitrary: w) (simp_all add: settle_base)

lemma with_shares_base: "with_shares order (base w) = with_shares order w"
proof -
  have "shares_list order (base w) = shares_list order w"
    by (simp add: shares_list_def share_of_def name_of_def)
  then show ?thesis by (simp add: with_shares_def base_def)
qed

lemma settle_other:
  assumes "ms_rules v = ms_rules w" "ms_rules_regexes v = ms_rules_regexes w"
    "ms_blocks_mined v = ms_blocks_mined w" "ms_block_miners v = ms_block_miners w"
  shows "ms_blocks_mined (foldl (settle is_match s) v bs) = ms_blocks_mined (foldl (settle is_match r) w bs) \<and>
    ms_block_miners (foldl (settle is_match s) v bs) = ms_block_miners (foldl (settle is_match r) w bs)"
  using assms
proof (induction bs arbitrary: v w)
  case (Cons b bs)
  have "recent_entry is_match v = recent_entry is_match w" by (rule same_rules [OF Cons.prems(1,2)])
  then have "ms_blocks_mined (settle is_match s v b) = ms_blocks_mined (settle is_match r w b)"
    "ms_block_miners (settle is_match s v b) = ms_block_miners (settle is_match r w b)"
    using Cons.prems by (simp_all add: settle_def Let_def)
  then show ?case using Cons.IH [of "settle is_match s v b" "settle is_match r w b"] Cons.prems by simp
qed simp

lemma recent_entry_timestamp [simp]: "rb_timestamp (recent_entry is_match w b) = fst (snd (snd b))"
  by (simp add: recent_entry_def split: prod.split option.split)

lemma dropWhile_sorted:
  fixes f :: "'a \<Rightarrow> 'b::linorder"
  shows "sorted (map f xs) \<Longrightarrow> dropWhile (\<lambda>x. f x < r) xs = filter (\<lambda>x. r \<le> f x) xs"
proof (induction xs)
  case (Cons x xs)
  show ?case
  proof (cases "f x < r")
    case True
    then show ?thesis using Cons by simp
  next
    case False
    then have "filter (\<lambda>x. r \<le> f x) xs = xs" using Cons.prems by (auto intro!: filter_True)
    then show ?thesis using False by simp
  qed
qed simp

lemma trimmed_settled:
  assumes "rules_ok w" "sorted (map (fst \<circ> snd \<circ> snd) bs)" "bs \<noteq> [] \<Longrightarrow> s \<le> r"
    and "v = foldl (settle is_match s) (cleared w) bs" "length bs < 2 ^ 63"
  shows "base (trimmed r v) = base (foldl (settle is_match r) (cleared w) bs)"
proof -
  let ?u = "foldl (settle is_match r) (cleared w) bs"
  let ?es = "map (recent_entry is_match w) bs"
  have ok: "miners_ok ?u" "miners_ok v"
    using place_all_eq [OF cleared_ok [OF assms(1)], of bs] assms(4,5) by simp_all
  have srt: "sorted (map rb_timestamp ?es)" using assms(2) by (simp add: comp_def)
  have "dropWhile (\<lambda>b. rb_timestamp b < r) (filter (\<lambda>e. s \<le> rb_timestamp e) ?es) =
      filter (\<lambda>e. r \<le> rb_timestamp e) (filter (\<lambda>e. s \<le> rb_timestamp e) ?es)"
    by (intro dropWhile_sorted sorted_filter srt)
  also have "\<dots> = filter (\<lambda>e. r \<le> rb_timestamp e) ?es"
    using assms(3) by (cases "bs = []") (auto simp: filter_filter intro!: filter_cong)
  finally have recent: "ms_recent_blocks (trimmed r v) = ms_recent_blocks ?u"
    unfolding trimmed_keeps assms(4) foldl_settle_recent by simp
  have "ms_recent_counts (trimmed r v) = ms_recent_counts ?u"
    using trimmed_ok [OF ok(2)] ok(1) recent unfolding miners_ok_def by (simp add: assms(4))
  moreover have "ms_blocks_mined v = ms_blocks_mined ?u \<and> ms_block_miners v = ms_block_miners ?u"
    unfolding assms(4) by (rule settle_other) simp_all
  ultimately show ?thesis using recent
    by (intro Miners.equality) (simp_all add: assms(4) base_def)
qed

text \<open>The blocks as \<open>recalculate_full_miner_stats\<close> finds them once they have been marked as downloaded.\<close>

definition stored_blocks ::
  "hash32 list \<Rightarrow> usize list \<Rightarrow> u64 list \<Rightarrow> bytes list \<Rightarrow> (hash32 \<times> usize \<times> u64 \<times> rust_string) list" where
  "stored_blocks block_hashes numbers timestamps asciis =
     map (\<lambda>(((hash, number), timestamp), ascii). (hash, number, timestamp, from_utf8_lossy ascii))
       (zip (zip (zip block_hashes numbers) timestamps) asciis)"

lemma stored_extension:
  assumes "\<forall>ascii \<in> set asciis. utf8_encode (from_utf8_lossy ascii) = ascii"
  shows "map (\<lambda>(hash, number, timestamp, ascii). (hash, number, timestamp, utf8_encode ascii, ascii))
      (stored_blocks block_hashes numbers timestamps asciis) = extension block_hashes numbers timestamps asciis"
  unfolding stored_blocks_def extension_def using assms by (auto simp: dest!: set_zip_rightD)

lemma utf8_ascii: "\<forall>b \<in> set bs. unat b < 128 \<Longrightarrow> utf8_encode (from_utf8_lossy bs) = bs"
  by (induction bs) (simp_all add: utf8_encode_def utf8_tail_def utf8_lead_def utf8_encode_char_def Let_def)


text \<open>A pool whose only rule matches the script that consists of the byte 1.\<close>

definition demo_pool :: "MinerId \<times> Miner" where
  "demo_pool = ([112], \<lparr>mi_display_name = [80], mi_icon = None, mi_regexes = [[1]]\<rparr>)"

definition demo_miners :: "bytes Miners" where
  "demo_miners = \<lparr>ms_rules = map_of [demo_pool], ms_rules_regexes = [([112], [[1]])],
     ms_blocks_mined = Map.empty, ms_recent_counts = Map.empty, ms_block_miners = Map.empty,
     ms_recent_blocks = [], ms_recent_shares = [], ms_page = ([], [])\<rparr>"

lemma demo_miners_ok: "rules_ok demo_miners" "miner_ids demo_miners = {UNKNOWN_ID, [112]}"
  by (simp_all add: rules_ok_def miner_ids_def demo_miners_def demo_pool_def)


text \<open>
  From a consistent state an extension of the chain never panics and leaves a consistent state: every
  miner's counter is the number of its recent blocks, every placed block is listed under its miner, the
  recent blocks are the old ones from the first recent one on and the new recent ones, the shares are the
  rounded fractions of the recent blocks (at most one) and the page shows at most 50 blocks, newest first.
\<close>

lemma extension_keeps_miners:
  assumes "miners_ok w" "timestamps \<noteq> []" "set order \<subseteq> miner_ids w"
    and "length (ms_recent_blocks w) + length timestamps < 2 ^ 53"
  shows "\<exists>w'. callback_chain_extended is_match order block_hashes numbers timestamps asciis w = Ok w' \<and> miners_ok w' \<and>
    (let r = last timestamps - MINER_PERCENTAGE_OVER_LAST_SECONDS in
     ms_recent_blocks w' = dropWhile (\<lambda>b. rb_timestamp b < r) (ms_recent_blocks w) @
       filter (\<lambda>b. r \<le> rb_timestamp b) (map (recent_entry is_match w) (extension block_hashes numbers timestamps asciis))) \<and>
    (\<forall>(mid, name, share) \<in> set (ms_recent_shares w').
       name = name_of w mid \<and> share = share_of w' mid \<and> (\<exists>r. share = Fin r \<and> 0 \<le> r \<and> r \<le> 1)) \<and>
    ms_page w' = (take 50 (rev (ms_recent_blocks w')), ms_recent_shares w')"
proof -
  let ?r = "last timestamps - MINER_PERCENTAGE_OVER_LAST_SECONDS"
  define v where "v = foldl (settle is_match ?r) (trimmed ?r w) (extension block_hashes numbers timestamps asciis)"
  have "share_of (with_shares order v) = share_of v" "name_of v = name_of w"
    by (simp_all add: fun_eq_iff share_of_def name_of_def v_def)
  then have "\<forall>(mid, name, share) \<in> set (shares_list order v).
       name = name_of w mid \<and> share = share_of (with_shares order v) mid \<and> (\<exists>r. share = Fin r \<and> 0 \<le> r \<and> r \<le> 1)"
    using shares_list_sound [of _ _ _ order v] by auto
  moreover have "ms_recent_blocks v = dropWhile (\<lambda>b. rb_timestamp b < ?r) (ms_recent_blocks w) @
       filter (\<lambda>b. ?r \<le> rb_timestamp b) (map (recent_entry is_match w) (extension block_hashes numbers timestamps asciis))"
    by (simp add: v_def foldl_settle_recent)
  ultimately show ?thesis
    using extended_eq [OF assms refl v_def]
    by (intro exI [of _ "with_shares order v"]) (simp add: Let_def)
qed

section \<open>Recalculation from the chain\<close>

definition indexed_blocks :: "Chain \<Rightarrow> BlockHeaderWithNumber \<Rightarrow> (hash32 \<times> usize \<times> u64 \<times> rust_string) list" where
  "indexed_blocks c x = rev (List.map_filter (\<lambda>y. map_option (\<lambda>v. (bn_hash y, bn_number y,
     ucast (bh_timestamp (bn_header y)), v)) (bn_coinbase_ascii y)) (line (ch_known_headers c) x))"

lemma coinbase_asciis_from_line:
  assumes "known_ok (ch_known_headers c)" "linked (ch_known_headers c) x"
  shows "ch_known_headers c (bn_hash x) = Some x \<Longrightarrow>
    coinbase_asciis_from c (bn_hash x) result = Some (Ok (result @ rev (indexed_blocks c x)))"
  using assms
proof (induction arbitrary: result rule: linked_induct)
  case (root x)
  then show ?case
    by (subst coinbase_asciis_from.simps)
      (auto simp: indexed_blocks_def List.map_filter_simps linked_def EMPTY_HASH_def split: option.split)
next
  case (child x p)
  have "ch_known_headers c (bn_hash p) = Some p" using known_okD [OF assms(1) child.hyps(3)] child.hyps(3) by simp
  moreover have "bn_parent x \<noteq> EMPTY_HASH" using child.hyps assms(1) by (auto simp: known_ok_def)
  ultimately show ?case using child
    by (subst coinbase_asciis_from.simps)
      (auto simp: indexed_blocks_def List.map_filter_simps EMPTY_HASH_def [symmetric] split: option.split)
qed

lemma collected_blocks:
  assumes "chain_ok c" "ch_known_headers c h = Some x"
  shows "get_blocks_with_timestamps_and_coinbase_asciis c h = Some (Ok (indexed_blocks c x))"
proof -
  have ok: "known_ok (ch_known_headers c)" using assms(1) by (simp add: chain_ok_def)
  have x: "linked (ch_known_headers c) x" "bn_hash x = h" using known_okD [OF ok assms(2)] by simp_all
  show ?thesis
    using coinbase_asciis_from_line [OF ok x(1), of "[]"] assms(2)
    by (simp add: get_blocks_with_timestamps_and_coinbase_asciis_def x(2))
qed

lemma recalculated:
  assumes "chain_ok c" "ch_known_headers c h = Some x" "bn_number x < 2 ^ 52" "rules_ok w" "set order \<subseteq> miner_ids w"
  shows "\<exists>w'. recalculate_full_miner_stats is_match order now c (Some h) w = Some (Ok w') \<and> miners_ok w' \<and>
    dom (ms_block_miners w') = bn_hash ` {y \<in> set (line (ch_known_headers c) x). bn_coinbase_ascii y \<noteq> None}"
proof -
  let ?bs = "indexed_blocks c x"
  let ?enc = "map (\<lambda>(hash, number, timestamp, ascii). (hash, number, timestamp, utf8_encode ascii, ascii)) ?bs"
  define r where "r = (if ?bs = [] then now else fst (snd (snd (last ?bs)))) - MINER_PERCENTAGE_OVER_LAST_SECONDS"
  define v where "v = foldl (settle is_match r) (cleared w) ?enc"
  have ok: "known_ok (ch_known_headers c)" using assms(1) by (simp add: chain_ok_def)
  have "linked (ch_known_headers c) x" using known_okD [OF ok assms(2)] by simp
  then have "length (line (ch_known_headers c) x) < 2 ^ 53" using line_length [OF ok] assms(3) by simp
  then have len: "length ?bs < 2 ^ 53"
    by (simp add: indexed_blocks_def List.map_filter_def le_less_trans [OF length_filter_le])
  note eq = recalculated_eq [OF assms(4,5) len r_def v_def]
  have "dom (ms_block_miners (foldl (settle is_match r) u bs)) = dom (ms_block_miners u) \<union> fst ` set bs" for u bs
    by (induction bs arbitrary: u) (auto simp: settle_def Let_def recent_entry_def split: prod.split option.split)
  then have "dom (ms_block_miners v) = fst ` set ?bs" by (auto simp: v_def cleared_def image_image case_prod_beta)
  also have "\<dots> = bn_hash ` {y \<in> set (line (ch_known_headers c) x). bn_coinbase_ascii y \<noteq> None}"
    by (force simp: indexed_blocks_def List.map_filter_def)
  finally show ?thesis
    using eq collected_blocks [OF assms(1,2)] by (simp add: recalculate_full_miner_stats_def)
qed

text \<open>
  C25: Recalculating the statistics from a header of a well-formed tree always ends and never panics, whatever
  the state before: the result is consistent, every block of the branch whose body has been stored has a
  miner, and no other block has one.
\<close>

theorem recalculation_total:
  assumes "chain_ok c" "ch_known_headers c h = Some x" "bn_number x < 2 ^ 52" "rules_ok w" "set order \<subseteq> miner_ids w"
  shows "\<exists>w'. recalculate_full_miner_stats is_match order now c (Some h) w = Some (Ok w') \<and> miners_ok w' \<and>
    dom (ms_block_miners w') = bn_hash ` {y \<in> set (line (ch_known_headers c) x). bn_coinbase_ascii y \<noteq> None}"
  by (rule recalculated [OF assms])

theorem recalculation_total_witness:
  "\<exists>w'. recalculate_full_miner_stats (=) [UNKNOWN_ID] 0 demo_chain (Some (demo_hash 3)) demo_miners = Some (Ok w') \<and> miners_ok w'"
  using recalculation_total [OF demo_chain_ok, of "demo_hash 3" "demo_entry 3 (demo_hash 2) 2" demo_miners "[UNKNOWN_ID]" "(=)" 0]
    demo_miners_ok by (auto simp: demo_chain_def demo_known_def demo_entry_def)

section \<open>Queries\<close>

text \<open>
  In a consistent state the query for the miner of a block never panics; it fails exactly for blocks
  that have not been placed and otherwise gives the name and the rounded fraction of the recent blocks.
\<close>

lemma miner_lookup:
  assumes "miners_ok w" "length (ms_recent_blocks w) < 2 ^ 53"
  shows "get_miner_for_block_and_share w hash = Ok (map_option (\<lambda>mid. (mid, name_of w mid,
    if ms_recent_blocks w = [] then Fin 0 else share_of w mid)) (ms_block_miners w hash))"
proof (cases "ms_block_miners w hash")
  case (Some mid)
  then obtain mined where "ms_blocks_mined w mid = Some mined" using assms(1) unfolding miners_ok_def by blast
  then have mid: "mid \<in> miner_ids w" using assms(1) unfolding miners_ok_def by blast
  let ?n = "length (filter (\<lambda>b. rb_miner_id b = mid) (ms_recent_blocks w))"
  have "ms_recent_counts w mid = Some ?n" using assms(1) mid by (simp add: miners_ok_def counts_of_def)
  moreover have "f64_div (f64_from_nat ?n) (f64_from_nat (length (ms_recent_blocks w))) = share_of w mid"
    if "ms_recent_blocks w \<noteq> []"
    unfolding share_of_def using that assms(2) by (intro share_div length_filter_le) simp_all
  ultimately show ?thesis using Some display_name_eq [OF mid] by (simp add: get_miner_for_block_and_share_def)
qed (simp add: get_miner_for_block_and_share_def)

lemma block_data_hashes:
  assumes "\<forall>h \<in> set block_hashes. ch_known_headers c h \<noteq> None"
  shows "\<exists>page. get_block_data c r block_hashes = Ok page \<and> map rb_hash page = block_hashes"
proof -
  have "\<exists>data. try_get_block_timestamps_and_numbers_and_cb_asciis c block_hashes = Ok data \<and> length data = length block_hashes"
    using assms by (induction block_hashes) auto
  then show ?thesis
    by (auto simp: get_block_data_def comp_def case_prod_beta Let_def map_fst_zip)
qed

text \<open>
  The pages of a miner's blocks overlap: the first page lists the newest blocks, and the page that is
  asked for after a block starts with this block again.
\<close>

lemma miner_pages_overlap:
  assumes "ms_blocks_mined r mid = Some blocks" "distinct blocks" "\<forall>h \<in> set blocks. ch_known_headers c h \<noteq> None"
    and "i < length blocks"
  shows "\<exists>p q. get_miner_blocks c r mid limit None = Ok p \<and> map rb_hash p = take limit (rev blocks) \<and>
    get_miner_blocks c r mid limit (Some (rev blocks ! i)) = Ok q \<and> map rb_hash q = take limit (drop i (rev blocks))"
proof -
  have i: "i < length (rev blocks)" using assms(4) by simp
  have "takeWhile (\<lambda>h. h \<noteq> rev blocks ! i) (rev blocks) = take i (rev blocks)"
    using i assms(2) by (intro takeWhile_eq_take_P_nth) (auto simp: nth_eq_iff_index_eq)
  then have drop: "dropWhile (\<lambda>h. h \<noteq> rev blocks ! i) (rev blocks) = drop i (rev blocks)"
    by (metis append_eq_conv_conj append_take_drop_id takeWhile_dropWhile_id)
  have "set (take limit (drop i (rev blocks))) \<subseteq> set blocks" "set (take limit (rev blocks)) \<subseteq> set blocks"
    using set_take_subset [of limit "drop i (rev blocks)"] set_drop_subset [of i "rev blocks"]
      set_take_subset [of limit "rev blocks"] by auto
  then have known: "\<forall>h \<in> set (take limit (rev blocks)). ch_known_headers c h \<noteq> None"
    "\<forall>h \<in> set (take limit (drop i (rev blocks))). ch_known_headers c h \<noteq> None" using assms(3) by blast+
  obtain p where "get_block_data c r (take limit (rev blocks)) = Ok p" "map rb_hash p = take limit (rev blocks)"
    using block_data_hashes [OF known(1)] by blast
  moreover obtain q where "get_block_data c r (take limit (drop i (rev blocks))) = Ok q" "map rb_hash q = take limit (drop i (rev blocks))"
    using block_data_hashes [OF known(2)] by blast
  ultimately show ?thesis using assms(1) by (simp add: get_miner_blocks_def miner_block_hashes_def drop)
qed

end
