(* ===== verification/BlockSync.thy ===== *)
theory BlockSync
  imports Packet
begin

text \<open>
  Downloading block bodies (\<open>src/src/chainman/blocksync.rs\<close>): the master that hands out jobs and
  puts the received blocks into order, the test that a download worker applies to a packet, and
  the time tracker (\<open>src/src/util/timetracker.rs\<close>).

  \<open>SystemTime::now()\<close> is an argument of each operation that reads the clock.  The average block
  size and the number of workers, which only steer how many workers run, are not modelled.
\<close>

section \<open>Time tracker\<close>

record TimeTracker =
  tt_total_waited_micros :: u64
  tt_last_wait_start :: u64

definition TimeTracker_new :: TimeTracker where
  "TimeTracker_new = \<lparr>tt_total_waited_micros = 0, tt_last_wait_start = 0\<rparr>"

definition TimeTracker_start :: "u64 \<Rightarrow> TimeTracker \<Rightarrow> TimeTracker res" where
  "TimeTracker_start now t =
     (if tt_last_wait_start t \<noteq> 0 then Panic else Ok (t\<lparr>tt_last_wait_start := now\<rparr>))"

definition TimeTracker_stop :: "u64 \<Rightarrow> TimeTracker \<Rightarrow> TimeTracker res" where
  "TimeTracker_stop now t =
     (if tt_last_wait_start t = 0 then Panic
      else Ok (t\<lparr>tt_total_waited_micros := tt_total_waited_micros t + (now - tt_last_wait_start t),
                tt_last_wait_start := 0\<rparr>))"

definition TimeTracker_wait_time_micros :: "TimeTracker \<Rightarrow> u64" where
  "TimeTracker_wait_time_micros t = tt_total_waited_micros t"

definition TimeTracker_reset :: "TimeTracker \<Rightarrow> TimeTracker res" where
  "TimeTracker_reset t =
     (if tt_last_wait_start t \<noteq> 0 then Panic else Ok (t\<lparr>tt_total_waited_micros := 0\<rparr>))"

section \<open>State of the master\<close>

type_synonym block_job = "hash32 \<times> usize"
type_synonym numbered_block = "Payload option \<times> usize"

record MasterState =
  ms_missing_blocks :: "hash32 list"
  ms_first_missing_number :: usize
  ms_last_request_times :: "u64 list"
  ms_next_to_apply :: usize
  ms_next_never_asked_for :: usize
  ms_backlog :: "numbered_block list"
  ms_received_since_last_update :: usize
  ms_flush_time_tracker :: TimeTracker

definition MasterState_new :: "hash32 list \<Rightarrow> usize \<Rightarrow> MasterState" where
  "MasterState_new missing_blocks first_missing_number =
     \<lparr>ms_missing_blocks = missing_blocks, ms_first_missing_number = first_missing_number,
      ms_last_request_times = replicate (length missing_blocks) 0, ms_next_to_apply = 0,
      ms_next_never_asked_for = 0, ms_backlog = [], ms_received_since_last_update = 0,
      ms_flush_time_tracker = TimeTracker_new\<rparr>"

datatype DownloadWorkerMessage = PullFirstJob | PushResultAndGetNewJob numbered_block

section \<open>Choosing a job\<close>

text \<open>
  The loop over the blocks that were asked for: the first one that is overdue, or else the one
  waited for longest.
\<close>

fun scan_jobs :: "u64 \<Rightarrow> u64 list \<Rightarrow> usize \<Rightarrow> nat \<Rightarrow> u64 \<Rightarrow> usize option \<Rightarrow> (usize + usize option) res" where
  "scan_jobs now last_request_times i 0 oldest_time oldest_index = Ok (Inr oldest_index)"
| "scan_jobs now last_request_times i (Suc n) oldest_time oldest_index =
     res_bind (idx_at last_request_times i) (\<lambda>requested_at.
     if requested_at = 0 then scan_jobs now last_request_times (Suc i) n oldest_time oldest_index
     else
       let elapsed = now - requested_at in
       if 1000 < elapsed then Ok (Inl i)
       else if oldest_index = None \<or> oldest_time < elapsed
       then scan_jobs now last_request_times (Suc i) n elapsed (Some i)
       else scan_jobs now last_request_times (Suc i) n oldest_time oldest_index)"

definition find_next_best_job :: "u64 \<Rightarrow> bool \<Rightarrow> MasterState \<Rightarrow> (block_job option \<times> MasterState) res" where
  "find_next_best_job now can_advance s =
     (let job = (\<lambda>i. res_bind (idx_at (ms_missing_blocks s) i) (\<lambda>hash.
            Ok (hash, wadd (ms_first_missing_number s) i)));
          ask = (\<lambda>i s. s\<lparr>ms_last_request_times := (ms_last_request_times s)[i := now]\<rparr>) in
      res_bind (scan_jobs now (ms_last_request_times s) (ms_next_to_apply s)
          (ms_next_never_asked_for s - ms_next_to_apply s) 0 None) (\<lambda>found.
      case found of
        Inl i \<Rightarrow> res_bind (job i) (\<lambda>j. Ok (Some j, ask i s))
      | Inr oldest \<Rightarrow>
          if \<not> can_advance then
            (case oldest of
               Some i \<Rightarrow> res_bind (job i) (\<lambda>j. Ok (Some j, ask i s))
             | None \<Rightarrow> Panic)
          else if ms_next_never_asked_for s < length (ms_missing_blocks s) then
            let i = ms_next_never_asked_for s in
            res_bind (idx_at (ms_last_request_times s) i) (\<lambda>_.
            res_bind (job i) (\<lambda>j.
            Ok (Some j, (ask i s)\<lparr>ms_next_never_asked_for := wadd i 1\<rparr>)))
          else if ms_next_to_apply s < ms_next_never_asked_for s then
            res_bind (job (ms_next_to_apply s)) (\<lambda>j. Ok (Some j, s))
          else Ok (None, s)))"

section \<open>Putting blocks into order\<close>

text \<open>
  \<open>slice::binary_search_by\<close> of the standard library for the comparison \<open>number.cmp(&f.1)\<close>, which
  calls for descending numbers: \<open>Inl\<close> the index of an equal element, \<open>Inr\<close> an insertion index.
\<close>

fun search_loop :: "usize \<Rightarrow> usize list \<Rightarrow> usize \<Rightarrow> nat \<Rightarrow> usize" where
  "search_loop number keys base sz =
     (if 1 < sz then
        let half = sz div 2; mid = base + half in
        search_loop number keys (if keys ! mid < number then base else mid) (sz - half)
      else base)"

declare search_loop.simps [simp del]

definition binary_search :: "usize \<Rightarrow> usize list \<Rightarrow> usize + usize" where
  "binary_search number keys =
     (if keys = [] then Inr 0
      else
        let base = search_loop number keys 0 (length keys) in
        if keys ! base = number then Inl base
        else Inr (if number < keys ! base then base + 1 else base))"

definition insert_into_backlog :: "numbered_block \<Rightarrow> numbered_block list \<Rightarrow> numbered_block list" where
  "insert_into_backlog b backlog =
     (case binary_search (snd b) (map snd backlog) of
        Inl _ \<Rightarrow> backlog
      | Inr i \<Rightarrow> take i backlog @ b # drop i backlog)"

text \<open>
  \<open>flush_open\<close> says whether the receiver of the \<open>flush\<close> channel still exists; a send to a dropped
  receiver fails and drops the block.  The blocks sent come last in the result.
\<close>

function apply_from_backlog :: "bool \<Rightarrow> MasterState \<Rightarrow> numbered_block list \<Rightarrow> MasterState \<times> numbered_block list" where
  "apply_from_backlog flush_open s sent =
     (if ms_backlog s \<noteq> [] \<and>
         snd (last (ms_backlog s)) = wadd (ms_first_missing_number s) (ms_next_to_apply s)
      then
        let popped = last (ms_backlog s);
            s' = s\<lparr>ms_backlog := butlast (ms_backlog s), ms_next_to_apply := wadd (ms_next_to_apply s) 1\<rparr> in
        if flush_open then apply_from_backlog flush_open s' (sent @ [popped]) else (s', sent)
      else (s, sent))"
  by pat_completeness auto
termination
  by (relation "measure (\<lambda>(f, s, sent). length (ms_backlog s))") auto

declare apply_from_backlog.simps [simp del]

text \<open>
  One message: the new state, the blocks sent to \<open>flush\<close>, and the answer to the worker (\<open>None\<close>: its
  channel is dropped, which ends the worker).  \<open>start\<close> and \<open>stop\<close> are the readings of the clock for the
  time tracker.
\<close>

definition push_result ::
  "bool \<Rightarrow> u64 \<Rightarrow> u64 \<Rightarrow> numbered_block \<Rightarrow> MasterState \<Rightarrow> (bool \<times> MasterState \<times> numbered_block list) res" where
  "push_result flush_open start stop b s =
     (let s = s\<lparr>ms_received_since_last_update := wadd (ms_received_since_last_update s) 1\<rparr>;
          number = snd b; next_number = wadd (ms_first_missing_number s) (ms_next_to_apply s) in
      if next_number < number then
        (let s = s\<lparr>ms_backlog := insert_into_backlog b (ms_backlog s)\<rparr>;
             i = wsub number (ms_first_missing_number s) in
         res_bind (idx_at (ms_last_request_times s) i) (\<lambda>_.
         Ok (True, s\<lparr>ms_last_request_times := (ms_last_request_times s)[i := 0]\<rparr>, [])))
      else if number < next_number then Ok (True, s, [])
      else
        let s = s\<lparr>ms_next_to_apply := wadd (ms_next_to_apply s) 1\<rparr> in
        res_bind (TimeTracker_start start (ms_flush_time_tracker s)) (\<lambda>t.
        let s = s\<lparr>ms_flush_time_tracker := t\<rparr> in
        if \<not> flush_open then Ok (False, s, [])
        else
          let (s, sent) = apply_from_backlog flush_open s [b] in
          res_bind (TimeTracker_stop stop (ms_flush_time_tracker s)) (\<lambda>t.
          Ok (True, s\<lparr>ms_flush_time_tracker := t\<rparr>, sent))))"

definition handle_worker_message ::
  "bool \<Rightarrow> u64 \<Rightarrow> u64 \<Rightarrow> u64 \<Rightarrow> DownloadWorkerMessage \<Rightarrow> MasterState \<Rightarrow>
   (MasterState \<times> numbered_block list \<times> block_job option) res" where
  "handle_worker_message flush_open start stop now message s =
     (case message of
        PullFirstJob \<Rightarrow>
          res_bind (find_next_best_job now True s) (\<lambda>(job, s). Ok (s, [], job))
      | PushResultAndGetNewJob b \<Rightarrow>
          res_bind (push_result flush_open start stop b s) (\<lambda>(continue, s, sent).
          if \<not> continue then Ok (s, sent, None)
          else
            res_bind (find_next_best_job now (length (ms_backlog s) \<le> 512) s) (\<lambda>(job, s).
            Ok (s, sent, job))))"

section \<open>Download workers\<close>

definition SEGWIT_HEIGHT :: usize where
  "SEGWIT_HEIGHT = 481824"

definition job_to_getdata :: "hash32 \<Rightarrow> Payload" where
  "job_to_getdata hash =
     PGetData \<lparr>getdata_inner = [\<lparr>iv_type = InvWitnessBlock, iv_hash = hash\<rparr>]\<rparr>"

text \<open>Whether a worker with the given job passes a packet's payload on to the master.\<close>

definition should_send :: "(bytes \<Rightarrow> bytes) \<Rightarrow> block_job \<Rightarrow> Payload option \<Rightarrow> bool res" where
  "should_send sha job payload =
     (case payload of
        Some (PBlock b) \<Rightarrow>
          if SEGWIT_HEIGHT \<le> snd job
          then (case verify_witness_commitment sha b of
                  Ok _ \<Rightarrow> Ok (bh_hash (bl_header b) = fst job)
                | Err _ \<Rightarrow> Ok False
                | Panic \<Rightarrow> Panic)
          else Ok (bh_hash (bl_header b) = fst job)
      | _ \<Rightarrow> Ok False)"

section \<open>The search keeps the backlog in order\<close>

lemma search_loop_bounds:
  "sorted_wrt (>) keys \<Longrightarrow> 0 < sz \<Longrightarrow> base + sz \<le> length keys \<Longrightarrow> (base = 0 \<or> number \<le> keys ! base) \<Longrightarrow>
    (\<forall>i. base + sz \<le> i \<longrightarrow> i < length keys \<longrightarrow> keys ! i < number) \<Longrightarrow>
    (let r = search_loop number keys base sz in r < length keys \<and> (r = 0 \<or> number \<le> keys ! r) \<and>
      (\<forall>i. r < i \<longrightarrow> i < length keys \<longrightarrow> keys ! i < number))"
proof (induction number keys base sz rule: search_loop.induct)
  case (1 number keys base sz)
  show ?case
  proof (cases "1 < sz")
    case False
    then show ?thesis using "1.prems" by (subst search_loop.simps) (auto simp: Let_def Suc_le_eq)
  next
    case True
    define mid where "mid = base + sz div 2"
    have mid: "mid < length keys" "mid < base + sz" using True "1.prems"(3) by (simp_all add: mid_def)
    let ?base = "if keys ! mid < number then base else mid"
    have desc: "keys ! i < keys ! mid" if "mid < i" "i < length keys" for i
      using sorted_wrt_nth_less [of "(>)" keys mid i] "1.prems"(1) that by blast
    have "keys ! i < number" if "keys ! mid < number" "mid \<le> i" "i < length keys" for i
      using desc [of i] that by (cases "i = mid") auto
    then have tail: "\<forall>i. ?base + (sz - sz div 2) \<le> i \<longrightarrow> i < length keys \<longrightarrow> keys ! i < number"
      using "1.prems"(5) by (auto simp: mid_def)
    have len: "?base + (sz - sz div 2) \<le> length keys" using "1.prems"(3) True by (auto simp: mid_def)
    have lead: "?base = 0 \<or> number \<le> keys ! ?base" using "1.prems"(4) by auto
    have pos: "0 < sz - sz div 2" using True by simp
    have "let r = search_loop number keys ?base (sz - sz div 2) in
        r < length keys \<and> (r = 0 \<or> number \<le> keys ! r) \<and>
        (\<forall>i. r < i \<longrightarrow> i < length keys \<longrightarrow> keys ! i < number)"
      by (rule "1.IH" [OF True refl mid_def "1.prems"(1) pos len lead tail])
    moreover have "search_loop number keys base sz = search_loop number keys ?base (sz - sz div 2)"
      using True by (subst search_loop.simps) (simp add: mid_def Let_def)
    ultimately show ?thesis by simp
  qed
qed

lemma binary_search_found:
  assumes "sorted_wrt (>) keys" "binary_search number keys = Inl i"
  shows "number \<in> set keys"
proof -
  have "keys \<noteq> []" using assms(2) by (auto simp: binary_search_def)
  then have "search_loop number keys 0 (length keys) < length keys"
    using search_loop_bounds [OF assms(1), of "length keys" 0 number] by (simp add: Let_def)
  then show ?thesis using assms(2) by (auto simp: binary_search_def Let_def split: if_splits)
qed

lemma binary_search_insertion:
  assumes "sorted_wrt (>) keys" "binary_search number keys = Inr i"
  shows "i \<le> length keys \<and> (\<forall>k \<in> set (take i keys). number < k) \<and> (\<forall>k \<in> set (drop i keys). k < number)"
proof (cases "keys = []")
  case True
  then show ?thesis using assms(2) by (simp add: binary_search_def)
next
  case False
  define r where "r = search_loop number keys 0 (length keys)"
  have r: "r < length keys" "r = 0 \<or> number \<le> keys ! r"
    "\<forall>i. r < i \<longrightarrow> i < length keys \<longrightarrow> keys ! i < number"
    using search_loop_bounds [OF assms(1), of "length keys" 0 number] False by (simp_all add: Let_def r_def)
  have i: "keys ! r \<noteq> number" "i = (if number < keys ! r then r + 1 else r)"
    using assms(2) False by (auto simp: binary_search_def Let_def r_def split: if_splits)
  have above: "number < keys ! j" if "j < i" for j
  proof -
    have gt: "number < keys ! r" using that i r(2) by (auto split: if_splits)
    then have "j \<le> r" using that i(2) by simp
    have "keys ! r < keys ! j" if "j < r"
      using sorted_wrt_nth_less [of "(>)" keys j r] assms(1) that r(1) by blast
    then show ?thesis using gt \<open>j \<le> r\<close> by (cases "j = r") auto
  qed
  have below: "keys ! j < number" if "i \<le> j" "j < length keys" for j
    using that i r by (cases "j = r") (auto split: if_splits)
  have len: "i \<le> length keys" using r(1) i(2) by simp
  moreover have "\<forall>k \<in> set (take i keys). number < k"
  proof
    fix k
    assume "k \<in> set (take i keys)"
    then obtain j where "j < i" "k = keys ! j" by (metis in_set_conv_nth length_take min_less_iff_conj nth_take)
    then show "number < k" using above by simp
  qed
  moreover have "\<forall>k \<in> set (drop i keys). k < number"
  proof
    fix k
    assume "k \<in> set (drop i keys)"
    then obtain j where "j < length keys - i" "k = drop i keys ! j" by (metis in_set_conv_nth length_drop)
    then show "k < number" using below [of "i + j"] len by simp
  qed
  ultimately show ?thesis by blast
qed

lemma insert_into_backlog_sorted:
  assumes "sorted_wrt (>) (map snd backlog)"
  shows "sorted_wrt (>) (map snd (insert_into_backlog b backlog))"
    and "set (map snd (insert_into_backlog b backlog)) = insert (snd b) (set (map snd backlog))"
    and "set (insert_into_backlog b backlog) \<subseteq> insert b (set backlog)"
proof -
  have parts: "set (take i xs) \<union> set (drop i xs) = set xs" for i and xs :: "'a list"
    by (metis append_take_drop_id set_append)
  show "sorted_wrt (>) (map snd (insert_into_backlog b backlog))"
  proof (cases "binary_search (snd b) (map snd backlog)")
    case (Inr i)
    note ins = binary_search_insertion [OF assms Inr]
    have "sorted_wrt (>) (take i (map snd backlog) @ drop i (map snd backlog))" using assms by simp
    then show ?thesis using Inr ins
      by (auto simp: insert_into_backlog_def sorted_wrt_append take_map drop_map)
  qed (simp add: insert_into_backlog_def assms)
  show "set (map snd (insert_into_backlog b backlog)) = insert (snd b) (set (map snd backlog))"
  proof (cases "binary_search (snd b) (map snd backlog)")
    case (Inl i)
    then show ?thesis using binary_search_found [OF assms Inl] by (simp add: insert_into_backlog_def insert_absorb)
  next
    case (Inr i)
    then show ?thesis using parts [of i backlog] by (auto simp: insert_into_backlog_def)
  qed
  show "set (insert_into_backlog b backlog) \<subseteq> insert b (set backlog)"
    by (auto simp: insert_into_backlog_def split: sum.split dest: in_set_takeD in_set_dropD)
qed

section \<open>Invariant of the master\<close>

text \<open>
  \<open>waiting s i\<close>: block \<open>i\<close> (counted from the first missing one) is in the backlog.  A block that was
  asked for and is not applied is in the backlog exactly when its request time is zero.
\<close>

definition waiting :: "MasterState \<Rightarrow> usize \<Rightarrow> bool" where
  "waiting s i \<longleftrightarrow> ms_first_missing_number s + i \<in> set (map snd (ms_backlog s))"

definition master_ok :: "MasterState \<Rightarrow> bool" where
  "master_ok s \<longleftrightarrow>
     length (ms_last_request_times s) = length (ms_missing_blocks s) \<and>
     ms_next_to_apply s \<le> ms_next_never_asked_for s \<and>
     ms_next_never_asked_for s \<le> length (ms_missing_blocks s) \<and>
     ms_first_missing_number s + length (ms_missing_blocks s) < 2 ^ 64 \<and>
     sorted_wrt (>) (map snd (ms_backlog s)) \<and>
     (\<forall>k \<in> set (map snd (ms_backlog s)). ms_first_missing_number s + ms_next_to_apply s < k \<and>
        k < ms_first_missing_number s + ms_next_never_asked_for s) \<and>
     (\<forall>i. ms_next_to_apply s \<le> i \<longrightarrow> i < ms_next_never_asked_for s \<longrightarrow>
        (ms_last_request_times s ! i = 0 \<longleftrightarrow> waiting s i)) \<and>
     tt_last_wait_start (ms_flush_time_tracker s) = 0"

lemma master_ok_new:
  "first + length missing < 2 ^ 64 \<Longrightarrow> master_ok (MasterState_new missing first)"
  by (simp add: master_ok_def MasterState_new_def TimeTracker_new_def)

text \<open>What the scan finds: an outstanding block when there is one.\<close>

lemma scan_jobs_finds:
  "i + n \<le> length ts \<Longrightarrow> (\<forall>j. oldest = Some j \<longrightarrow> j < i \<and> start \<le> j \<and> ts ! j \<noteq> 0) \<Longrightarrow> start \<le> i \<Longrightarrow>
   \<exists>r. scan_jobs now ts i n t oldest = Ok r \<and>
     (case r of Inl j \<Rightarrow> start \<le> j \<and> j < i + n \<and> ts ! j \<noteq> 0
      | Inr (Some j) \<Rightarrow> start \<le> j \<and> j < i + n \<and> ts ! j \<noteq> 0
      | Inr None \<Rightarrow> oldest = None \<and> (\<forall>j. i \<le> j \<longrightarrow> j < i + n \<longrightarrow> ts ! j = 0))"
proof (induction n arbitrary: i t oldest)
  case 0
  then show ?case by (auto split: option.split)
next
  case (Suc n)
  have at: "idx_at ts i = Ok (ts ! i)" using Suc.prems(1) by (simp add: idx_at_def get_at_def)
  have len: "Suc i + n \<le> length ts" "start \<le> Suc i" using Suc.prems by simp_all
  have old: "\<forall>j. oldest = Some j \<longrightarrow> j < Suc i \<and> start \<le> j \<and> ts ! j \<noteq> 0" using Suc.prems(2) by auto
  have new: "\<forall>j. Some i = Some j \<longrightarrow> j < Suc i \<and> start \<le> j \<and> ts ! j \<noteq> 0" if "ts ! i \<noteq> 0"
    using that Suc.prems(3) by auto
  show ?case
  proof (cases "ts ! i = 0")
    case True
    then have "scan_jobs now ts i (Suc n) t oldest = scan_jobs now ts (Suc i) n t oldest" by (simp add: at)
    moreover have "\<forall>j. i \<le> j \<longrightarrow> j < i + Suc n \<longrightarrow> ts ! j = 0" if "\<forall>j. Suc i \<le> j \<longrightarrow> j < Suc i + n \<longrightarrow> ts ! j = 0"
      using that True by (metis Suc_leI add_Suc add_Suc_right le_neq_implies_less)
    ultimately show ?thesis using Suc.IH [OF len(1) old len(2), of t]
      by (auto split: sum.splits option.splits)
  next
    case nz: False
    consider (found) "1000 < now - ts ! i" | (newer) "\<not> 1000 < now - ts ! i" "oldest = None \<or> t < now - ts ! i"
      | (older) "\<not> 1000 < now - ts ! i" "oldest \<noteq> None" "\<not> t < now - ts ! i" by blast
    then show ?thesis
    proof cases
      case found
      then show ?thesis using nz Suc.prems(3) by (simp add: at Let_def)
    next
      case newer
      then have "scan_jobs now ts i (Suc n) t oldest = scan_jobs now ts (Suc i) n (now - ts ! i) (Some i)"
        using nz by (simp add: at Let_def)
      then show ?thesis using Suc.IH [OF len(1) new [OF nz] len(2), of "now - ts ! i"]
        by (auto split: sum.splits option.splits)
    next
      case older
      then have "scan_jobs now ts i (Suc n) t oldest = scan_jobs now ts (Suc i) n t oldest"
        using nz by (auto simp: at Let_def)
      then show ?thesis using Suc.IH [OF len(1) old len(2), of t] older(2)
        by (auto split: sum.splits option.splits)
    qed
  qed
qed

text \<open>
  A job is always a missing block that is neither applied nor in the backlog; there is none only
  when all blocks are applied.
\<close>

definition good_job :: "MasterState \<Rightarrow> block_job option \<Rightarrow> bool" where
  "good_job s job \<longleftrightarrow>
     (case job of
        None \<Rightarrow> ms_next_to_apply s = length (ms_missing_blocks s)
      | Some (hash, number) \<Rightarrow>
          \<exists>i < ms_next_never_asked_for s. ms_next_to_apply s \<le> i \<and> hash = ms_missing_blocks s ! i \<and>
            number = ms_first_missing_number s + i \<and> \<not> waiting s i)"

definition same_blocks :: "MasterState \<Rightarrow> MasterState \<Rightarrow> bool" where
  "same_blocks s s' \<longleftrightarrow> ms_missing_blocks s' = ms_missing_blocks s \<and>
     ms_first_missing_number s' = ms_first_missing_number s"

text \<open>A block counts as asked for only when it is the job handed out.\<close>

definition asks :: "MasterState \<Rightarrow> MasterState \<Rightarrow> block_job option \<Rightarrow> bool" where
  "asks s s' job \<longleftrightarrow> ms_next_never_asked_for s' = ms_next_never_asked_for s \<or>
     (ms_next_never_asked_for s' = Suc (ms_next_never_asked_for s) \<and>
      job = Some (ms_missing_blocks s ! ms_next_never_asked_for s,
        ms_first_missing_number s + ms_next_never_asked_for s))"

lemma ask_again:
  assumes "master_ok s" "now \<noteq> 0" "ms_next_to_apply s \<le> i" "i < ms_next_never_asked_for s"
    and "ms_last_request_times s ! i \<noteq> 0"
  shows "master_ok (s\<lparr>ms_last_request_times := (ms_last_request_times s)[i := now]\<rparr>) \<and>
    good_job (s\<lparr>ms_last_request_times := (ms_last_request_times s)[i := now]\<rparr>)
      (Some (ms_missing_blocks s ! i, ms_first_missing_number s + i))"
  using assms by (auto simp: master_ok_def good_job_def waiting_def nth_list_update)

lemma find_next_best_job_ok:
  assumes "master_ok s" "now \<noteq> 0"
    and "can_advance \<or> (ms_next_to_apply s < ms_next_never_asked_for s \<and> \<not> waiting s (ms_next_to_apply s))"
  shows "\<exists>job s'. find_next_best_job now can_advance s = Ok (job, s') \<and> master_ok s' \<and> good_job s' job \<and>
    same_blocks s s' \<and> ms_next_to_apply s' = ms_next_to_apply s \<and> ms_backlog s' = ms_backlog s \<and>
    asks s s' job"
proof -
  let ?a = "ms_next_to_apply s" and ?n = "ms_next_never_asked_for s" and ?ts = "ms_last_request_times s"
  note inv = assms(1) [unfolded master_ok_def]
  have job: "res_bind (idx_at (ms_missing_blocks s) i) (\<lambda>hash. Ok (hash, wadd (ms_first_missing_number s) i)) =
      Ok (ms_missing_blocks s ! i, ms_first_missing_number s + i)" if "i < length (ms_missing_blocks s)" for i
    using that inv by (simp add: idx_at_def get_at_def)
  have len: "?a + (?n - ?a) \<le> length ?ts" using inv by simp
  have "\<exists>r. scan_jobs now ?ts ?a (?n - ?a) 0 None = Ok r \<and>
     (case r of Inl j \<Rightarrow> ?a \<le> j \<and> j < ?a + (?n - ?a) \<and> ?ts ! j \<noteq> 0
      | Inr (Some j) \<Rightarrow> ?a \<le> j \<and> j < ?a + (?n - ?a) \<and> ?ts ! j \<noteq> 0
      | Inr None \<Rightarrow> None = (None :: nat option) \<and> (\<forall>j. ?a \<le> j \<longrightarrow> j < ?a + (?n - ?a) \<longrightarrow> ?ts ! j = 0))"
    by (rule scan_jobs_finds [OF len]) simp_all
  then obtain r where r: "scan_jobs now ?ts ?a (?n - ?a) 0 None = Ok r"
    "case r of Inl j \<Rightarrow> ?a \<le> j \<and> j < ?a + (?n - ?a) \<and> ?ts ! j \<noteq> 0
      | Inr (Some j) \<Rightarrow> ?a \<le> j \<and> j < ?a + (?n - ?a) \<and> ?ts ! j \<noteq> 0
      | Inr None \<Rightarrow> None = (None :: nat option) \<and> (\<forall>j. ?a \<le> j \<longrightarrow> j < ?a + (?n - ?a) \<longrightarrow> ?ts ! j = 0)"
    by blast
  have again: ?thesis if res: "find_next_best_job now can_advance s =
      Ok (Some (ms_missing_blocks s ! i, ms_first_missing_number s + i), s\<lparr>ms_last_request_times := ?ts[i := now]\<rparr>)"
    and i: "?a \<le> i" "i < ?n" "?ts ! i \<noteq> 0" for i
    using ask_again [OF assms(1,2) i] res by (simp add: same_blocks_def asks_def)
  have least: "?n \<le> length (ms_missing_blocks s)" "?a \<le> ?n" using inv by simp_all
  have "(\<exists>i. r = Inl i) \<or> r = Inr None \<or> (\<exists>i. r = Inr (Some i))"
    by (cases r) (auto intro: option.exhaust)
  then consider (overdue) i where "r = Inl i" | (oldest) i where "r = Inr (Some i)" "\<not> can_advance"
    | (none) "r = Inr None" "\<not> can_advance" | (new) x where "r = Inr x" "can_advance" "?n < length (ms_missing_blocks s)"
    | (rest) x where "r = Inr x" "can_advance" "\<not> ?n < length (ms_missing_blocks s)"
    by blast
  then show ?thesis
  proof cases
    case overdue
    then have i: "?a \<le> i" "i < ?n" "?ts ! i \<noteq> 0" using r(2) least by auto
    show ?thesis
      by (rule again [OF _ i]) (use overdue r(1) i least job [of i] in \<open>simp add: find_next_best_job_def Let_def\<close>)
  next
    case oldest
    then have i: "?a \<le> i" "i < ?n" "?ts ! i \<noteq> 0" using r(2) least by auto
    show ?thesis
      by (rule again [OF _ i]) (use oldest r(1) i least job [of i] in \<open>simp add: find_next_best_job_def Let_def\<close>)
  next
    case none
    then have "?ts ! ?a = 0" "?a < ?n" "\<not> waiting s ?a" using r(2) assms(3) by auto
    then show ?thesis using inv by blast
  next
    case new
    define s' where "s' = s\<lparr>ms_last_request_times := ?ts[?n := now], ms_next_never_asked_for := Suc ?n\<rparr>"
    have "Suc ?n < 2 ^ 64" using new(3) inv by linarith
    then have "find_next_best_job now can_advance s =
        Ok (Some (ms_missing_blocks s ! ?n, ms_first_missing_number s + ?n), s')"
      using new r(1) job [of ?n] inv
      by (simp add: find_next_best_job_def Let_def s'_def idx_at_def get_at_def)
    note res = this
    have nw: "\<not> waiting s ?n" using inv by (auto simp: waiting_def)
    have "(if i = ?n then now else ?ts ! i) = 0 \<longleftrightarrow> waiting s i" if "?a \<le> i" "i < Suc ?n" for i
      using that nw inv assms(2) by (cases "i = ?n") auto
    moreover have "waiting s' i \<longleftrightarrow> waiting s i" for i by (simp add: waiting_def s'_def)
    ultimately have "master_ok s'"
      using new(3) inv nw assms(2) unfolding master_ok_def by (simp add: s'_def nth_list_update less_SucI)
    note ok = this
    have "good_job s' (Some (ms_missing_blocks s ! ?n, ms_first_missing_number s + ?n))"
      using nw least by (auto simp: good_job_def s'_def waiting_def)
    moreover have "same_blocks s s'" "ms_next_to_apply s' = ?a" "ms_backlog s' = ms_backlog s"
      "asks s s' (Some (ms_missing_blocks s ! ?n, ms_first_missing_number s + ?n))"
      by (simp_all add: same_blocks_def s'_def asks_def)
    ultimately show ?thesis using res ok by blast
  next
    case rest
    have nw: "\<not> waiting s ?a" using inv by (auto simp: waiting_def)
    show ?thesis
    proof (cases "?a < ?n")
      case True
      then show ?thesis using rest r(1) job [of ?a] least nw assms(1)
        by (auto simp: find_next_best_job_def Let_def same_blocks_def good_job_def asks_def)
    next
      case False
      then show ?thesis using rest r(1) least assms(1)
        by (auto simp: find_next_best_job_def Let_def same_blocks_def good_job_def asks_def)
    qed
  qed
qed

section \<open>Results of the workers\<close>

text \<open>The invariant while the backlog is applied: its lowest block may be the next one.\<close>

definition draining :: "MasterState \<Rightarrow> bool" where
  "draining s \<longleftrightarrow>
     length (ms_last_request_times s) = length (ms_missing_blocks s) \<and>
     ms_next_to_apply s \<le> ms_next_never_asked_for s \<and>
     ms_next_never_asked_for s \<le> length (ms_missing_blocks s) \<and>
     ms_first_missing_number s + length (ms_missing_blocks s) < 2 ^ 64 \<and>
     sorted_wrt (>) (map snd (ms_backlog s)) \<and>
     (\<forall>k \<in> set (map snd (ms_backlog s)). ms_first_missing_number s + ms_next_to_apply s \<le> k \<and>
        k < ms_first_missing_number s + ms_next_never_asked_for s) \<and>
     (\<forall>i. ms_next_to_apply s \<le> i \<longrightarrow> i < ms_next_never_asked_for s \<longrightarrow>
        (ms_last_request_times s ! i = 0 \<longleftrightarrow> waiting s i))"

lemma draining_done:
  assumes "draining s" "\<not> waiting s (ms_next_to_apply s)" "tt_last_wait_start (ms_flush_time_tracker s) = 0"
  shows "master_ok s"
proof -
  have "ms_first_missing_number s + ms_next_to_apply s < k" if "k \<in> set (map snd (ms_backlog s))" for k
    using that assms(1,2) unfolding draining_def waiting_def by (metis le_neq_implies_less)
  then show ?thesis using assms(1,3) unfolding draining_def master_ok_def by blast
qed

lemma set_butlast_last: "xs \<noteq> [] \<Longrightarrow> set xs = insert (last xs) (set (butlast xs))"
proof -
  assume "xs \<noteq> []"
  then have "set xs = set (butlast xs @ [last xs])" by simp
  then show ?thesis by simp
qed

lemma sorted_last_least:
  assumes "sorted_wrt (>) (map snd bs)" "bs \<noteq> []" "b \<in> set (butlast bs)"
  shows "snd (last bs) < snd b"
proof -
  have "sorted_wrt (>) (map snd (butlast bs) @ [snd (last bs)])"
    using assms(1,2) by (metis append_butlast_last_id list.simps(8,9) map_append)
  then show ?thesis using assms(3) by (auto simp: sorted_wrt_append)
qed

lemma drain_step:
  assumes "draining s" "ms_backlog s \<noteq> []"
    and "snd (last (ms_backlog s)) = ms_first_missing_number s + ms_next_to_apply s"
  defines "s' \<equiv> s\<lparr>ms_backlog := butlast (ms_backlog s), ms_next_to_apply := Suc (ms_next_to_apply s)\<rparr>"
  shows "draining s'"
proof -
  note inv = assms(1) [unfolded draining_def]
  have keys: "set (map snd (ms_backlog s)) =
      insert (ms_first_missing_number s + ms_next_to_apply s) (set (map snd (butlast (ms_backlog s))))"
    using set_butlast_last [OF assms(2)] assms(3) by (metis image_insert list.set_map)
  have above: "ms_first_missing_number s + Suc (ms_next_to_apply s) \<le> k"
    if "k \<in> set (map snd (butlast (ms_backlog s)))" for k
    using that sorted_last_least [OF _ assms(2)] inv assms(3) by fastforce
  have "ms_next_to_apply s < ms_next_never_asked_for s"
  proof -
    have "ms_first_missing_number s + ms_next_to_apply s \<in> set (map snd (ms_backlog s))"
      using keys by blast
    then have "ms_first_missing_number s + ms_next_to_apply s <
        ms_first_missing_number s + ms_next_never_asked_for s" using inv by blast
    then show ?thesis by simp
  qed
  moreover have "sorted_wrt (>) (map snd (butlast (ms_backlog s)))"
    using inv assms(2) by (metis append_butlast_last_id map_append sorted_wrt_append)
  moreover have "waiting s i \<longleftrightarrow> waiting s' i" if "Suc (ms_next_to_apply s) \<le> i" for i
    using that keys by (simp add: waiting_def s'_def)
  moreover have "k < ms_first_missing_number s + ms_next_never_asked_for s"
    if "k \<in> set (map snd (butlast (ms_backlog s)))" for k
  proof -
    have "k \<in> set (map snd (ms_backlog s))" using that keys by blast
    then show ?thesis using inv by blast
  qed
  ultimately show ?thesis using inv above unfolding draining_def by (simp add: s'_def)
qed

lemma apply_from_backlog_drains:
  assumes "draining s"
  shows "\<exists>s' xs. apply_from_backlog True s sent = (s', sent @ xs) \<and> draining s' \<and>
    \<not> waiting s' (ms_next_to_apply s') \<and> same_blocks s s' \<and>
    ms_flush_time_tracker s' = ms_flush_time_tracker s \<and>
    ms_next_never_asked_for s' = ms_next_never_asked_for s \<and> ms_next_to_apply s \<le> ms_next_to_apply s' \<and>
    map snd xs = [ms_first_missing_number s + ms_next_to_apply s ..<
      ms_first_missing_number s + ms_next_to_apply s'] \<and>
    set xs \<union> set (ms_backlog s') \<subseteq> set (ms_backlog s)"
  using assms
proof (induction "length (ms_backlog s)" arbitrary: s sent rule: less_induct)
  case less
  note inv = less.prems [unfolded draining_def]
  have small: "ms_first_missing_number s + ms_next_to_apply s < 2 ^ 64" using inv by linarith
  show ?case
  proof (cases "ms_backlog s \<noteq> [] \<and>
      snd (last (ms_backlog s)) = ms_first_missing_number s + ms_next_to_apply s")
    case True
    let ?t = "s\<lparr>ms_backlog := butlast (ms_backlog s), ms_next_to_apply := Suc (ms_next_to_apply s)\<rparr>"
    have d: "draining ?t" using drain_step [OF less.prems] True by blast
    have "Suc (ms_next_to_apply s) < 2 ^ 64" using d inv unfolding draining_def by simp
    then have step: "apply_from_backlog True s sent = apply_from_backlog True ?t (sent @ [last (ms_backlog s)])"
      using True small by (subst apply_from_backlog.simps) (simp add: Let_def)
    have shorter: "length (ms_backlog ?t) < length (ms_backlog s)" using True by simp
    from less.hyps [OF shorter d, of "sent @ [last (ms_backlog s)]"] obtain s' xs where xs:
      "apply_from_backlog True ?t (sent @ [last (ms_backlog s)]) = (s', (sent @ [last (ms_backlog s)]) @ xs)"
      "draining s'" "\<not> waiting s' (ms_next_to_apply s')" "same_blocks ?t s'"
      "ms_flush_time_tracker s' = ms_flush_time_tracker ?t"
      "ms_next_never_asked_for s' = ms_next_never_asked_for ?t" "ms_next_to_apply ?t \<le> ms_next_to_apply s'"
      "map snd xs = [ms_first_missing_number ?t + ms_next_to_apply ?t ..<
        ms_first_missing_number ?t + ms_next_to_apply s']"
      "set xs \<union> set (ms_backlog s') \<subseteq> set (ms_backlog ?t)" by blast
    have "map snd (last (ms_backlog s) # xs) = [ms_first_missing_number s + ms_next_to_apply s ..<
        ms_first_missing_number s + ms_next_to_apply s']"
      using xs(7,8) True by (simp add: upt_conv_Cons)
    moreover have "set (last (ms_backlog s) # xs) \<union> set (ms_backlog s') \<subseteq> set (ms_backlog s)"
      using xs(9) True by (auto dest: in_set_butlastD)
    ultimately show ?thesis
      using xs step by (intro exI [of _ s'] exI [of _ "last (ms_backlog s) # xs"]) (simp add: same_blocks_def)
  next
    case False
    have "\<not> waiting s (ms_next_to_apply s)"
    proof
      assume w: "waiting s (ms_next_to_apply s)"
      then have ne: "ms_backlog s \<noteq> []" by (auto simp: waiting_def)
      obtain b where b: "b \<in> set (ms_backlog s)" "snd b = ms_first_missing_number s + ms_next_to_apply s"
        using w by (auto simp: waiting_def)
      have "ms_first_missing_number s + ms_next_to_apply s \<le> snd (last (ms_backlog s))"
        using inv last_in_set [OF ne] by simp
      moreover have "snd (last (ms_backlog s)) < snd b" if "b \<in> set (butlast (ms_backlog s))"
        using sorted_last_least [OF _ ne that] inv by blast
      ultimately have "b = last (ms_backlog s)"
        using b set_butlast_last [OF ne] by auto
      then show False using False ne b(2) by simp
    qed
    moreover have "apply_from_backlog True s sent = (s, sent)"
      using False small by (subst apply_from_backlog.simps) auto
    ultimately show ?thesis using less.prems by (simp add: same_blocks_def)
  qed
qed

lemma push_result_ok:
  assumes "master_ok s" "snd b = ms_first_missing_number s + i" "i < ms_next_never_asked_for s" "start \<noteq> 0"
  shows "\<exists>s' sent. push_result True start stop b s = Ok (True, s', sent) \<and> master_ok s' \<and> same_blocks s s' \<and>
    ms_next_never_asked_for s' = ms_next_never_asked_for s \<and> ms_next_to_apply s \<le> ms_next_to_apply s' \<and>
    map snd sent = [ms_first_missing_number s + ms_next_to_apply s ..<
      ms_first_missing_number s + ms_next_to_apply s'] \<and>
    set sent \<union> set (ms_backlog s') \<subseteq> insert b (set (ms_backlog s)) \<and>
    (i = ms_next_to_apply s \<longrightarrow> ms_next_to_apply s < ms_next_to_apply s')"
proof -
  let ?f = "ms_first_missing_number s" and ?a = "ms_next_to_apply s"
  note inv = assms(1) [unfolded master_ok_def]
  define s1 where "s1 = s\<lparr>ms_received_since_last_update := wadd (ms_received_since_last_update s) 1\<rparr>"
  have small: "?f + ?a < 2 ^ 64" using inv by linarith
  consider (ahead) "?f + ?a < snd b" | (late) "snd b < ?f + ?a" | (due) "snd b = ?f + ?a" by linarith
  then show ?thesis
  proof cases
    case ahead
    then have ai: "?a < i" "i < length (ms_last_request_times s)" using assms(2,3) inv by simp_all
    define s' where "s' = s1\<lparr>ms_backlog := insert_into_backlog b (ms_backlog s),
      ms_last_request_times := (ms_last_request_times s)[i := 0]\<rparr>"
    note ins = insert_into_backlog_sorted [of "ms_backlog s" b]
    have res: "push_result True start stop b s = Ok (True, s', [])"
      using ahead ai small assms(2) by (simp add: push_result_def Let_def idx_at_def get_at_def s'_def s1_def)
    have srt: "sorted_wrt (>) (map snd (ms_backlog s))" using inv by blast
    have w: "waiting s' j \<longleftrightarrow> j = i \<or> waiting s j" for j
      using ins(2) [OF srt] assms(2) by (auto simp: waiting_def s'_def s1_def)
    have "master_ok s'"
      using inv ins(1) [OF srt] ins(2) [OF srt] ahead ai assms(2,3)
      unfolding master_ok_def w by (simp add: s'_def s1_def nth_list_update)
    then show ?thesis using res ins(3) [OF srt] ai by (simp add: same_blocks_def s'_def s1_def)
  next
    case late
    then have "push_result True start stop b s = Ok (True, s1, [])"
      using small by (simp add: push_result_def Let_def s1_def)
    moreover have "master_ok s1" using assms(1) by (simp add: master_ok_def s1_def waiting_def)
    ultimately show ?thesis using late assms(2) by (auto simp: same_blocks_def s1_def)
  next
    case due
    define t where "t = (ms_flush_time_tracker s)\<lparr>tt_last_wait_start := start\<rparr>"
    define s2 where "s2 = s1\<lparr>ms_next_to_apply := Suc ?a, ms_flush_time_tracker := t\<rparr>"
    have lt: "?a < ms_next_never_asked_for s" using due assms(2,3) by simp
    then have small': "Suc ?a < 2 ^ 64" using inv by linarith
    from lt have d: "draining s2"
      using inv unfolding draining_def by (auto simp: s2_def s1_def waiting_def Suc_le_eq)
    obtain s' xs where xs: "apply_from_backlog True s2 [b] = (s', [b] @ xs)" "draining s'"
      "\<not> waiting s' (ms_next_to_apply s')" "same_blocks s2 s'"
      "ms_flush_time_tracker s' = ms_flush_time_tracker s2"
      "ms_next_never_asked_for s' = ms_next_never_asked_for s2" "ms_next_to_apply s2 \<le> ms_next_to_apply s'"
      "map snd xs = [ms_first_missing_number s2 + ms_next_to_apply s2 ..<
        ms_first_missing_number s2 + ms_next_to_apply s']"
      "set xs \<union> set (ms_backlog s') \<subseteq> set (ms_backlog s2)"
      using apply_from_backlog_drains [OF d, of "[b]"] by blast
    define u where "u = s'\<lparr>ms_flush_time_tracker := t\<lparr>tt_total_waited_micros :=
      tt_total_waited_micros t + (stop - start), tt_last_wait_start := 0\<rparr>\<rparr>"
    have tt: "tt_last_wait_start (ms_flush_time_tracker s) = 0" using inv by blast
    have "push_result True start stop b s = Ok (True, u, b # xs)"
      using due small small' xs(1,5) assms(4) tt
      by (simp add: push_result_def Let_def TimeTracker_start_def TimeTracker_stop_def s2_def s1_def t_def u_def)
    moreover have "master_ok u"
      by (rule draining_done) (use xs(2,3) in \<open>simp_all add: draining_def waiting_def u_def\<close>)
    moreover have "map snd (b # xs) = [?f + ?a ..< ?f + ms_next_to_apply u]"
      using due xs(7,8) by (simp add: u_def s2_def s1_def upt_conv_Cons)
    ultimately show ?thesis using xs(4,6,7,9) by (auto simp: same_blocks_def u_def s2_def s1_def)
  qed
qed

section \<open>The master and its workers\<close>

text \<open>
  A configuration: the state of the master, the jobs it has handed out so far, and the blocks sent
  to \<open>flush\<close>.  A worker answers at any time, or never, any job it was given, with any payload that
  passes its test; the clock shows any time but zero.
\<close>

type_synonym sync_config = "MasterState \<times> block_job set \<times> numbered_block list"

inductive sync_step :: "(bytes \<Rightarrow> bytes) \<Rightarrow> sync_config \<Rightarrow> sync_config \<Rightarrow> bool" for sha where
  pull: "now \<noteq> 0 \<Longrightarrow> handle_worker_message True start stop now PullFirstJob s = Ok (s', sent, job) \<Longrightarrow>
    sync_step sha (s, jobs, flushed) (s', jobs \<union> set_option job, flushed @ sent)"
| push: "now \<noteq> 0 \<Longrightarrow> start \<noteq> 0 \<Longrightarrow> j \<in> jobs \<Longrightarrow> should_send sha j payload = Ok True \<Longrightarrow>
    handle_worker_message True start stop now (PushResultAndGetNewJob (payload, snd j)) s =
      Ok (s', sent, job) \<Longrightarrow>
    sync_step sha (s, jobs, flushed) (s', jobs \<union> set_option job, flushed @ sent)"

inductive sync_reachable :: "(bytes \<Rightarrow> bytes) \<Rightarrow> hash32 list \<Rightarrow> usize \<Rightarrow> sync_config \<Rightarrow> bool"
  for sha missing first_number where
  start: "sync_reachable sha missing first_number (MasterState_new missing first_number, {}, [])"
| step: "sync_reachable sha missing first_number c \<Longrightarrow> sync_step sha c c' \<Longrightarrow>
    sync_reachable sha missing first_number c'"

inductive_cases sync_stepE: "sync_step sha (s, jobs, flushed) c'"

text \<open>The message of a configuration that a worker can send.\<close>

definition sendable_message :: "(bytes \<Rightarrow> bytes) \<Rightarrow> block_job set \<Rightarrow> DownloadWorkerMessage \<Rightarrow> bool" where
  "sendable_message sha jobs msg \<longleftrightarrow>
     (case msg of
        PullFirstJob \<Rightarrow> True
      | PushResultAndGetNewJob (payload, number) \<Rightarrow>
          \<exists>j \<in> jobs. number = snd j \<and> should_send sha j payload = Ok True)"

text \<open>A block that passed the test of its job.\<close>

definition checked_block :: "(bytes \<Rightarrow> bytes) \<Rightarrow> MasterState \<Rightarrow> numbered_block \<Rightarrow> bool" where
  "checked_block sha s b \<longleftrightarrow> (\<exists>i < length (ms_missing_blocks s). snd b = ms_first_missing_number s + i \<and>
     should_send sha (ms_missing_blocks s ! i, snd b) (fst b) = Ok True)"

definition sync_ok :: "(bytes \<Rightarrow> bytes) \<Rightarrow> hash32 list \<Rightarrow> usize \<Rightarrow> sync_config \<Rightarrow> bool" where
  "sync_ok sha missing first_number c \<longleftrightarrow>
     (case c of (s, jobs, flushed) \<Rightarrow>
        master_ok s \<and> ms_missing_blocks s = missing \<and> ms_first_missing_number s = first_number \<and>
        jobs = (\<lambda>i. (missing ! i, first_number + i)) ` {..< ms_next_never_asked_for s} \<and>
        map snd flushed = [first_number ..< first_number + ms_next_to_apply s] \<and>
        (\<forall>b \<in> set flushed \<union> set (ms_backlog s). checked_block sha s b))"

lemma handle_worker_message_ok:
  assumes "sync_ok sha missing first_number (s, jobs, flushed)" "now \<noteq> 0" "start \<noteq> 0"
    and "sendable_message sha jobs msg"
  shows "\<exists>s' sent job. handle_worker_message True start stop now msg s = Ok (s', sent, job) \<and>
    sync_ok sha missing first_number (s', jobs \<union> set_option job, flushed @ sent) \<and> good_job s' job \<and>
    (\<forall>b. msg = PushResultAndGetNewJob b \<longrightarrow> snd b = first_number + ms_next_to_apply s \<longrightarrow>
      ms_next_to_apply s < ms_next_to_apply s')"
proof -
  note ok = assms(1) [unfolded sync_ok_def split]
  have m: "master_ok s" using ok by blast
  obtain s1 sent where s1: "master_ok s1" "same_blocks s s1"
      "ms_next_never_asked_for s1 = ms_next_never_asked_for s" "ms_next_to_apply s \<le> ms_next_to_apply s1"
      "map snd sent = [first_number + ms_next_to_apply s ..< first_number + ms_next_to_apply s1]"
      "\<forall>b \<in> set sent \<union> set (ms_backlog s1). checked_block sha s b"
      "\<forall>b. msg = PushResultAndGetNewJob b \<longrightarrow> snd b = first_number + ms_next_to_apply s \<longrightarrow>
        ms_next_to_apply s < ms_next_to_apply s1"
    and res: "\<exists>adv. handle_worker_message True start stop now msg s =
        res_bind (find_next_best_job now adv s1) (\<lambda>(job, s). Ok (s, sent, job)) \<and>
        (adv \<or> ms_backlog s1 \<noteq> [])"
  proof (cases msg)
    case PullFirstJob
    then show thesis using that [of s "[]"] m ok
      by (simp add: handle_worker_message_def same_blocks_def) blast
  next
    case (PushResultAndGetNewJob b)
    then obtain j where j: "j \<in> jobs" "snd b = snd j" "should_send sha j (fst b) = Ok True"
      using assms(4) by (auto simp: sendable_message_def)
    then obtain i where i: "i < ms_next_never_asked_for s" "j = (missing ! i, first_number + i)"
      using ok by blast
    have "snd b = ms_first_missing_number s + i" using j(2) i(2) ok by simp
    then obtain s1 sent where p: "push_result True start stop b s = Ok (True, s1, sent)" "master_ok s1"
      "same_blocks s s1" "ms_next_never_asked_for s1 = ms_next_never_asked_for s"
      "ms_next_to_apply s \<le> ms_next_to_apply s1"
      "map snd sent = [ms_first_missing_number s + ms_next_to_apply s ..<
        ms_first_missing_number s + ms_next_to_apply s1]"
      "set sent \<union> set (ms_backlog s1) \<subseteq> insert b (set (ms_backlog s))"
      "i = ms_next_to_apply s \<longrightarrow> ms_next_to_apply s < ms_next_to_apply s1"
      using push_result_ok [OF m _ i(1) assms(3)] by blast
    have "i < length (ms_missing_blocks s)" using i(1) m unfolding master_ok_def by linarith
    then have "checked_block sha s b"
      using j(2,3) i(2) ok by (auto simp: checked_block_def)
    then have "\<forall>b \<in> set sent \<union> set (ms_backlog s1). checked_block sha s b" using p(7) ok by blast
    moreover have "handle_worker_message True start stop now msg s =
        res_bind (find_next_best_job now (length (ms_backlog s1) \<le> 512) s1) (\<lambda>(job, s). Ok (s, sent, job))"
      using p(1) by (simp add: handle_worker_message_def PushResultAndGetNewJob)
    moreover have "length (ms_backlog s1) \<le> 512 \<or> ms_backlog s1 \<noteq> []"
      by (cases "ms_backlog s1 = []") simp_all
    moreover have "map snd sent = [first_number + ms_next_to_apply s ..< first_number + ms_next_to_apply s1]"
      using p(6) ok by simp
    moreover have "\<forall>b. msg = PushResultAndGetNewJob b \<longrightarrow> snd b = first_number + ms_next_to_apply s \<longrightarrow>
        ms_next_to_apply s < ms_next_to_apply s1"
      using p(8) j(2) i(2) PushResultAndGetNewJob by simp
    ultimately show thesis using that [of s1 sent] p(2-5) by blast
  qed
  obtain adv where adv: "handle_worker_message True start stop now msg s =
        res_bind (find_next_best_job now adv s1) (\<lambda>(job, s). Ok (s, sent, job))" "adv \<or> ms_backlog s1 \<noteq> []"
    using res by blast
  have "adv \<or> (ms_next_to_apply s1 < ms_next_never_asked_for s1 \<and> \<not> waiting s1 (ms_next_to_apply s1))"
  proof (cases adv)
    case False
    then obtain b where "b \<in> set (ms_backlog s1)" using adv(2) by (metis list.set_sel(1))
    then have "snd b \<in> set (map snd (ms_backlog s1))" by simp
    then have "ms_first_missing_number s1 + ms_next_to_apply s1 <
        ms_first_missing_number s1 + ms_next_never_asked_for s1"
      using s1(1) unfolding master_ok_def by (meson order.strict_trans)
    moreover have "\<not> waiting s1 (ms_next_to_apply s1)"
      using s1(1) unfolding master_ok_def waiting_def by blast
    ultimately show ?thesis by simp
  qed simp
  then obtain job s' where f: "find_next_best_job now adv s1 = Ok (job, s')" "master_ok s'" "good_job s' job"
    "same_blocks s1 s'" "ms_next_to_apply s' = ms_next_to_apply s1" "ms_backlog s' = ms_backlog s1"
    "asks s1 s' job"
    using find_next_best_job_ok [OF s1(1) assms(2)] by blast
  have blocks: "ms_missing_blocks s' = missing" "ms_first_missing_number s' = first_number"
    using s1(2) f(4) ok by (simp_all add: same_blocks_def)
  have "jobs \<union> set_option job = (\<lambda>i. (missing ! i, first_number + i)) ` {..< ms_next_never_asked_for s'}"
    (is "_ = ?job ` _")
  proof -
    have old: "jobs = ?job ` {..< ms_next_never_asked_for s1}" using ok s1(3) by simp
    have job: "set_option job \<subseteq> ?job ` {..< ms_next_never_asked_for s'}"
      using f(3) blocks by (auto simp: good_job_def split: option.splits)
    have new: "ms_missing_blocks s1 = missing" "ms_first_missing_number s1 = first_number"
      using s1(2) ok by (simp_all add: same_blocks_def)
    from f(7) show ?thesis unfolding asks_def
    proof (elim disjE conjE)
      assume "ms_next_never_asked_for s' = ms_next_never_asked_for s1"
      then show ?thesis using old job by (simp add: Un_absorb2)
    next
      assume "ms_next_never_asked_for s' = Suc (ms_next_never_asked_for s1)"
        "job = Some (ms_missing_blocks s1 ! ms_next_never_asked_for s1,
          ms_first_missing_number s1 + ms_next_never_asked_for s1)"
      then show ?thesis using old new by (simp add: lessThan_Suc)
    qed
  qed
  moreover have "map snd (flushed @ sent) = [first_number ..< first_number + ms_next_to_apply s']"
  proof -
    have "[first_number ..< first_number + ms_next_to_apply s] @
        [first_number + ms_next_to_apply s ..< first_number + ms_next_to_apply s1] =
        [first_number ..< first_number + ms_next_to_apply s1]"
      using upt_add_eq_append [of first_number "first_number + ms_next_to_apply s"
          "ms_next_to_apply s1 - ms_next_to_apply s"] s1(4) by simp
    then show ?thesis using ok s1(5) f(5) by simp
  qed
  moreover have "checked_block sha s' b \<longleftrightarrow> checked_block sha s b" for b
    using ok blocks by (simp add: checked_block_def)
  then have "\<forall>b \<in> set (flushed @ sent) \<union> set (ms_backlog s'). checked_block sha s' b"
    using ok s1(6) f(6) by auto
  ultimately have "sync_ok sha missing first_number (s', jobs \<union> set_option job, flushed @ sent)"
    using f(2) blocks unfolding sync_ok_def by simp
  then show ?thesis using adv(1) f(1,3,5) s1(7) by auto
qed

lemma sync_reachable_ok:
  assumes "sync_reachable sha missing first_number c" "first_number + length missing < 2 ^ 64"
  shows "sync_ok sha missing first_number c"
  using assms(1)
proof induction
  case start
  then show ?case using master_ok_new [OF assms(2)]
    by (simp add: sync_ok_def MasterState_new_def)
next
  case (step c c')
  obtain s jobs flushed where c: "c = (s, jobs, flushed)" by (cases c)
  from step.hyps(2) [unfolded c] show ?case
  proof (cases rule: sync_step.cases)
    case (pull now start stop s' sent job)
    then show ?thesis
      using handle_worker_message_ok [OF step.IH [unfolded c] pull(2), of 1 PullFirstJob stop]
      by (auto simp: sendable_message_def handle_worker_message_def)
  next
    case (push now start j payload stop s' sent job)
    have "sendable_message sha jobs (PushResultAndGetNewJob (payload, snd j))"
      using push(4,5) by (auto simp: sendable_message_def)
    from handle_worker_message_ok [OF step.IH [unfolded c] push(2,3) this, of stop]
    show ?thesis using push(1,6) by auto
  qed
qed

section \<open>What the synchronisation guarantees\<close>

text \<open>
  If every missing block can be had from some peer, each block that is due can be reached: it is
  asked for, if it was not yet, and then it arrives.
\<close>

lemma sync_progress:
  assumes "sync_ok sha missing first_number (s, jobs, flushed)" "ms_next_to_apply s < length missing"
    and "\<forall>i < length missing. should_send sha (missing ! i, first_number + i) (body i) = Ok True"
  shows "\<exists>s' jobs' flushed'. (sync_step sha)\<^sup>*\<^sup>* (s, jobs, flushed) (s', jobs', flushed') \<and>
    sync_ok sha missing first_number (s', jobs', flushed') \<and> ms_next_to_apply s < ms_next_to_apply s'"
proof -
  have arrive: "\<exists>s' jobs' flushed'. sync_step sha (s, jobs, flushed) (s', jobs', flushed') \<and>
      sync_ok sha missing first_number (s', jobs', flushed') \<and> ms_next_to_apply s < ms_next_to_apply s'"
    if ok: "sync_ok sha missing first_number (s, jobs, flushed)" and asked: "ms_next_to_apply s < ms_next_never_asked_for s"
      "ms_next_to_apply s < length missing"
    for s jobs flushed
  proof -
    let ?j = "(missing ! ms_next_to_apply s, first_number + ms_next_to_apply s)"
    let ?b = "(body (ms_next_to_apply s), snd ?j)"
    have j: "?j \<in> jobs" using ok asked unfolding sync_ok_def by auto
    have pass: "should_send sha ?j (fst ?b) = Ok True" using assms(3) asked(2) by simp
    then have "sendable_message sha jobs (PushResultAndGetNewJob ?b)"
      using bexI [OF _ j, of "\<lambda>j. snd ?b = snd j \<and> should_send sha j (fst ?b) = Ok True"]
      by (simp add: sendable_message_def)
    from handle_worker_message_ok [OF ok _ _ this, of 1 1 1] obtain s' sent job where
      h: "handle_worker_message True 1 1 1 (PushResultAndGetNewJob ?b) s = Ok (s', sent, job)"
      "sync_ok sha missing first_number (s', jobs \<union> set_option job, flushed @ sent)"
      "ms_next_to_apply s < ms_next_to_apply s'" by auto
    have "sync_step sha (s, jobs, flushed) (s', jobs \<union> set_option job, flushed @ sent)"
      using sync_step.push [OF _ _ j pass, of 1 1 1] h(1) by simp
    then show ?thesis using h(2,3) by blast
  qed
  show ?thesis
  proof (cases "ms_next_to_apply s < ms_next_never_asked_for s")
    case True
    then show ?thesis using arrive [OF assms(1) True assms(2)] by blast
  next
    case False
    obtain s' sent job where h: "handle_worker_message True 1 1 1 PullFirstJob s = Ok (s', sent, job)"
      "sync_ok sha missing first_number (s', jobs \<union> set_option job, flushed @ sent)" "good_job s' job"
      using handle_worker_message_ok [OF assms(1), of 1 1 PullFirstJob 1] by (auto simp: sendable_message_def)
    have stp: "sync_step sha (s, jobs, flushed) (s', jobs \<union> set_option job, flushed @ sent)"
      using sync_step.pull [of 1 1 1 s s' sent job] h(1) by simp
    have "[first_number ..< first_number + ms_next_to_apply s] @ map snd sent =
        [first_number ..< first_number + ms_next_to_apply s']"
      using assms(1) h(2) unfolding sync_ok_def by auto
    then have "length ([first_number ..< first_number + ms_next_to_apply s] @ map snd sent) =
        ms_next_to_apply s'" by simp
    then have le: "ms_next_to_apply s \<le> ms_next_to_apply s'" by simp
    show ?thesis
    proof (cases "ms_next_to_apply s' < length missing")
      case True
      have "job \<noteq> None" using h(2,3) True by (auto simp: good_job_def sync_ok_def split: option.splits)
      then have "ms_next_to_apply s' < ms_next_never_asked_for s'"
        using h(3) by (auto simp: good_job_def)
      from arrive [OF h(2) this True] show ?thesis
        using stp le by (meson converse_rtranclp_into_rtranclp order_le_less_trans r_into_rtranclp)
    next
      case False
      then have "ms_next_to_apply s < ms_next_to_apply s'" using assms(2) by simp
      then show ?thesis using stp h(2) by blast
    qed
  qed
qed

lemma sync_completes_from:
  assumes "\<forall>i < length missing. should_send sha (missing ! i, first_number + i) (body i) = Ok True"
  shows "sync_ok sha missing first_number (s, jobs, flushed) \<Longrightarrow>
    \<exists>s' jobs' flushed'. (sync_step sha)\<^sup>*\<^sup>* (s, jobs, flushed) (s', jobs', flushed') \<and>
      sync_ok sha missing first_number (s', jobs', flushed') \<and> ms_next_to_apply s' = length missing"
proof (induction "length missing - ms_next_to_apply s" arbitrary: s jobs flushed rule: less_induct)
  case less
  show ?case
  proof (cases "ms_next_to_apply s < length missing")
    case True
    obtain s' jobs' flushed' where p: "(sync_step sha)\<^sup>*\<^sup>* (s, jobs, flushed) (s', jobs', flushed')"
      "sync_ok sha missing first_number (s', jobs', flushed')" "ms_next_to_apply s < ms_next_to_apply s'"
      using sync_progress [OF less.prems True assms] by blast
    have "length missing - ms_next_to_apply s' < length missing - ms_next_to_apply s"
      using True p(3) by simp
    from less.hyps [OF this p(2)] show ?thesis using p(1) by (meson rtranclp_trans)
  next
    case False
    then have "ms_next_to_apply s = length missing"
      using less.prems unfolding sync_ok_def master_ok_def by auto
    then show ?thesis using less.prems by blast
  qed
qed

definition demo_hashes :: "hash32 list" where
  "demo_hashes = [replicate 32 7, replicate 32 8]"

definition demo_body :: "nat \<Rightarrow> Payload option" where
  "demo_body i = Some (PBlock \<lparr>bl_header = BlockHeader_default\<lparr>bh_hash := demo_hashes ! i\<rparr>, bl_txs = []\<rparr>)"

definition demo_state :: "u64 list \<Rightarrow> usize \<Rightarrow> usize \<Rightarrow> numbered_block list \<Rightarrow> usize \<Rightarrow> u64 \<Rightarrow> MasterState" where
  "demo_state requests applied asked backlog results waited =
     \<lparr>ms_missing_blocks = demo_hashes, ms_first_missing_number = 5, ms_last_request_times = requests,
      ms_next_to_apply = applied, ms_next_never_asked_for = asked, ms_backlog = backlog,
      ms_received_since_last_update = results,
      ms_flush_time_tracker = \<lparr>tt_total_waited_micros = waited, tt_last_wait_start = 0\<rparr>\<rparr>"

lemma demo_passes: "should_send sha (demo_hashes ! i, 5 + i) (demo_body i) = Ok True" if "i < 2"
  using that by (simp add: should_send_def demo_body_def SEGWIT_HEIGHT_def)

lemma demo_scan: "scan_jobs 102 [100, 0] 0 2 0 None = Ok (Inr (Some 0))"
  unfolding numeral_2_eq_2 by (simp add: idx_at_def get_at_def Let_def)

text \<open>Two jobs are handed out and answered in reverse order.\<close>

lemma demo_sync:
  "sync_reachable sha demo_hashes 5 (demo_state [100, 0] 2 2 [] 2 3,
     {(demo_hashes ! 0, 5), (demo_hashes ! 1, 6)}, [(demo_body 0, 5), (demo_body 1, 6)])"
proof -
  note defs = handle_worker_message_def find_next_best_job_def demo_state_def push_result_def Let_def idx_at_def
    get_at_def MasterState_new_def TimeTracker_new_def
  have "sync_step sha (MasterState_new demo_hashes 5, {}, [])
      (demo_state [100, 0] 0 1 [] 0 0, {} \<union> set_option (Some (demo_hashes ! 0, 5)), [] @ [])"
    by (rule sync_step.pull [of 100 1 1]) (simp_all add: defs demo_hashes_def)
  from sync_reachable.step [OF sync_reachable.start this]
  have s1: "sync_reachable sha demo_hashes 5 (demo_state [100, 0] 0 1 [] 0 0, {(demo_hashes ! 0, 5)}, [])"
    by simp
  have "sync_step sha (demo_state [100, 0] 0 1 [] 0 0, {(demo_hashes ! 0, 5)}, [])
      (demo_state [100, 101] 0 2 [] 0 0, {(demo_hashes ! 0, 5)} \<union> set_option (Some (demo_hashes ! 1, 6)), [] @ [])"
    by (rule sync_step.pull [of 101 1 1]) (simp_all add: defs demo_hashes_def)
  from sync_reachable.step [OF s1 this]
  have s2: "sync_reachable sha demo_hashes 5 (demo_state [100, 101] 0 2 [] 0 0,
      {(demo_hashes ! 0, 5), (demo_hashes ! 1, 6)}, [])" (is "sync_reachable _ _ _ (_, ?jobs, _)")
    by (simp add: insert_commute)
  have "sync_step sha (demo_state [100, 101] 0 2 [] 0 0, ?jobs, [])
      (demo_state [100, 0] 0 2 [(demo_body 1, 6)] 1 0, ?jobs \<union> set_option (Some (demo_hashes ! 0, 5)), [] @ [])"
    by (rule sync_step.push [of 102 1 "(demo_hashes ! 1, 6)"])
      (use demo_passes [of 1 sha] in \<open>simp_all add: defs insert_into_backlog_def binary_search_def
        demo_hashes_def demo_scan\<close>)
  from sync_reachable.step [OF s2 this]
  have s3: "sync_reachable sha demo_hashes 5 (demo_state [100, 0] 0 2 [(demo_body 1, 6)] 1 0, ?jobs, [])"
    by (simp add: insert_absorb)
  have "sync_step sha (demo_state [100, 0] 0 2 [(demo_body 1, 6)] 1 0, ?jobs, [])
      (demo_state [100, 0] 2 2 [] 2 3, ?jobs \<union> set_option None, [] @ [(demo_body 0, 5), (demo_body 1, 6)])"
    by (rule sync_step.push [of 103 3 "(demo_hashes ! 0, 5)" _ _ _ 6])
      (use demo_passes [of 0 sha] in \<open>simp_all add: defs apply_from_backlog.simps TimeTracker_start_def
        TimeTracker_stop_def demo_hashes_def\<close>)
  from sync_reachable.step [OF s3 this] show ?thesis by simp
qed

text \<open>
  C6: Whatever the workers answer and in whatever order, the blocks sent to \<open>flush\<close> are the missing
  blocks in order from the first one on, none twice: block \<open>i\<close> carries number \<open>first_number + i\<close>, the
  hash in its header is the missing hash \<open>i\<close>, and above \<open>SEGWIT_HEIGHT\<close> its witness commitment was
  verified.
\<close>

theorem blocks_flushed_in_order:
  assumes "sync_reachable sha missing first_number (s, jobs, flushed)" "first_number + length missing < 2 ^ 64"
  shows "map snd flushed = [first_number ..< first_number + ms_next_to_apply s] \<and>
    ms_next_to_apply s \<le> length missing \<and>
    (\<forall>i < length flushed. \<exists>b. fst (flushed ! i) = Some (PBlock b) \<and>
      bh_hash (bl_header b) = missing ! i \<and>
      (SEGWIT_HEIGHT \<le> first_number + i \<longrightarrow> verify_witness_commitment sha b = Ok ()))"
proof -
  note ok = sync_reachable_ok [OF assms, unfolded sync_ok_def split]
  have "\<exists>b. fst (flushed ! i) = Some (PBlock b) \<and> bh_hash (bl_header b) = missing ! i \<and>
      (SEGWIT_HEIGHT \<le> first_number + i \<longrightarrow> verify_witness_commitment sha b = Ok ())" if i: "i < length flushed" for i
  proof -
    have "length (map snd flushed) = ms_next_to_apply s" using ok by simp
    then have "map snd flushed ! i = first_number + i" using ok i by (metis length_map nth_upt nat_add_left_cancel_less)
    then have num: "snd (flushed ! i) = first_number + i" using i by simp
    have "checked_block sha s (flushed ! i)" using ok i by simp
    then have "should_send sha (missing ! i, first_number + i) (fst (flushed ! i)) = Ok True"
      using ok num by (auto simp: checked_block_def)
    then show ?thesis
      by (auto simp: should_send_def split: option.splits Payload.splits if_splits res.splits)
  qed
  then show ?thesis using ok unfolding master_ok_def by auto
qed

theorem blocks_flushed_in_order_witness:
  "fst ([(demo_body 0, 5), (demo_body 1, 6 :: usize)] ! 1) = demo_body 1 \<and>
   (\<exists>b. demo_body 1 = Some (PBlock b) \<and> bh_hash (bl_header b) = replicate 32 8)"
  using blocks_flushed_in_order [OF demo_sync [of zero_sha]]
  by (force simp: demo_hashes_def)

text \<open>
  C7: In every reachable configuration every message a worker can send is answered without a panic.
  The answer is a job for a missing block that is neither sent to \<open>flush\<close> nor in the backlog; a
  worker is dismissed only when all missing blocks have been sent.
\<close>

theorem master_answers:
  assumes "sync_reachable sha missing first_number (s, jobs, flushed)" "first_number + length missing < 2 ^ 64"
    and "now \<noteq> 0" "start \<noteq> 0" "sendable_message sha jobs msg"
  shows "\<exists>s' sent job. handle_worker_message True start stop now msg s = Ok (s', sent, job) \<and>
    (case job of
       None \<Rightarrow> map snd (flushed @ sent) = [first_number ..< first_number + length missing]
     | Some (hash, number) \<Rightarrow> \<exists>i < length missing. hash = missing ! i \<and> number = first_number + i \<and>
         number \<notin> set (map snd (flushed @ sent)) \<and> number \<notin> set (map snd (ms_backlog s')))"
proof -
  obtain s' sent job where h: "handle_worker_message True start stop now msg s = Ok (s', sent, job)"
    "sync_ok sha missing first_number (s', jobs \<union> set_option job, flushed @ sent)" "good_job s' job"
    using handle_worker_message_ok [OF sync_reachable_ok [OF assms(1,2)] assms(3-5)] by blast
  note ok = h(2) [unfolded sync_ok_def split]
  have sent: "map snd (flushed @ sent) = [first_number ..< first_number + ms_next_to_apply s']"
    and le: "ms_next_never_asked_for s' \<le> length missing"
    using ok unfolding master_ok_def by auto
  show ?thesis
  proof (cases job)
    case None
    then show ?thesis using h(1,3) sent ok by (auto simp: good_job_def)
  next
    case (Some j)
    obtain hash number where j: "j = (hash, number)" by (cases j)
    from h(3) Some j ok obtain i where i: "i < ms_next_never_asked_for s'" "ms_next_to_apply s' \<le> i"
      "hash = missing ! i" "number = first_number + i" "\<not> waiting s' i" by (auto simp: good_job_def)
    have "number \<notin> set (map snd (flushed @ sent))" using sent i(2,4) by simp
    moreover have "number \<notin> set (map snd (ms_backlog s'))" using i(4,5) ok by (simp add: waiting_def)
    ultimately show ?thesis using h(1) Some j i(1,3,4) le by auto
  qed
qed

theorem master_answers_witness:
  "\<exists>s' sent. handle_worker_message True 1 1 200 (PushResultAndGetNewJob (demo_body 1, 6))
     (demo_state [100, 0] 2 2 [] 2 3) = Ok (s', sent, None)"
proof -
  let ?m = "PushResultAndGetNewJob (demo_body 1, 6)"
  have "sendable_message zero_sha {(demo_hashes ! 0, 5), (demo_hashes ! 1, 6)} ?m"
    using demo_passes [of 1 zero_sha] by (simp add: sendable_message_def)
  from master_answers [OF demo_sync _ _ _ this, of 200 1 1] obtain s' sent job where
    h: "handle_worker_message True 1 1 200 ?m (demo_state [100, 0] 2 2 [] 2 3) = Ok (s', sent, job)"
    "case job of
       None \<Rightarrow> map snd ([(demo_body 0, 5), (demo_body 1, 6)] @ sent) = [5 ..< 5 + length demo_hashes]
     | Some (hash, number) \<Rightarrow> \<exists>i < length demo_hashes. hash = demo_hashes ! i \<and> number = 5 + i \<and>
         number \<notin> set (map snd ([(demo_body 0, 5), (demo_body 1, 6)] @ sent)) \<and>
         number \<notin> set (map snd (ms_backlog s'))"
    by (auto simp: demo_hashes_def)
  have "job = None" using h(2) by (auto simp: demo_hashes_def less_Suc_eq split: option.splits)
  then show ?thesis using h(1) by blast
qed


text \<open>
  C8: The synchronisation cannot get stuck: from every reachable configuration, if each missing block
  can be had from some peer, there are steps after which all missing blocks have been sent to
  \<open>flush\<close>.
\<close>

theorem sync_completes:
  assumes "sync_reachable sha missing first_number (s, jobs, flushed)" "first_number + length missing < 2 ^ 64"
    and "\<forall>i < length missing. should_send sha (missing ! i, first_number + i) (body i) = Ok True"
  shows "\<exists>s' jobs' flushed'. (sync_step sha)\<^sup>*\<^sup>* (s, jobs, flushed) (s', jobs', flushed') \<and>
    map snd flushed' = [first_number ..< first_number + length missing]"
proof -
  obtain s' jobs' flushed' where "(sync_step sha)\<^sup>*\<^sup>* (s, jobs, flushed) (s', jobs', flushed')"
    "sync_ok sha missing first_number (s', jobs', flushed')" "ms_next_to_apply s' = length missing"
    using sync_completes_from [OF assms(3) sync_reachable_ok [OF assms(1,2)]] by blast
  then show ?thesis unfolding sync_ok_def by auto
qed

theorem sync_completes_witness:
  "\<exists>s' jobs' flushed'. (sync_step zero_sha)\<^sup>*\<^sup>* (MasterState_new demo_hashes 5, {}, []) (s', jobs', flushed') \<and>
    map snd flushed' = [5, 6]"
proof -
  have "\<forall>i < length demo_hashes. should_send zero_sha (demo_hashes ! i, 5 + i) (demo_body i) = Ok True"
    using demo_passes by (simp add: demo_hashes_def)
  from sync_completes [OF sync_reachable.start _ this] obtain s' jobs' flushed' where
    "(sync_step zero_sha)\<^sup>*\<^sup>* (MasterState_new demo_hashes 5, {}, []) (s', jobs', flushed')"
    "map snd flushed' = [5 ..< 5 + length demo_hashes]"
    by (auto simp: demo_hashes_def)
  moreover have "[5 ..< 5 + length demo_hashes] = [5, 6]" by (simp add: demo_hashes_def upt_rec)
  ultimately show ?thesis by metis
qed

end
