(* ===== verification/Process.thy ===== *)
theory Process
  imports F64 BlockSync Records
begin

text \<open>
  From a block to its records: how a batch of consecutive blocks is analysed in parallel while it is
  received, and how batches follow each other (\<open>receive_and_process_blocks\<close> and what it calls in
  \<open>src/src/chainman/blocksync.rs\<close>), with the metrics of a block (\<open>src/src/types/blockmetrics.rs\<close>).

  The maps of outputs are partial maps from a transaction hash to its outputs.  \<open>get\<close> is
  \<open>db::rocksdb::get_transaction_outputs\<close>.  The arena is passed on from one use to the next.
\<close>

section \<open>Metrics of a block\<close>

record BlockMetrics =
  bm_fees_total :: u64
  bm_volume :: u64
  bm_txs_count :: usize
  bm_average_fee_rate :: f64
  bm_lowest_fee_rate :: f64
  bm_highest_fee_rate :: f64
  bm_median_fee_rate :: f64

definition BlockMetrics_default :: BlockMetrics where
  "BlockMetrics_default = \<lparr>bm_fees_total = 0, bm_volume = 0, bm_txs_count = 0, bm_average_fee_rate = Fin 0,
     bm_lowest_fee_rate = Fin 0, bm_highest_fee_rate = Fin 0, bm_median_fee_rate = Fin 0\<rparr>"

definition fee_rate :: "SerializedTx \<Rightarrow> f64" where
  "fee_rate analyzed =
     (let size_vbytes = f64_ceil (f64_div (f64_from_nat (unat (st_size_wus analyzed))) (Fin 4)) in
      f64_div (f64_from_nat (unat (st_fee analyzed))) size_vbytes)"

definition block_metrics :: "u64 \<Rightarrow> u64 \<Rightarrow> usize \<Rightarrow> f64 list \<Rightarrow> BlockMetrics res" where
  "block_metrics fees_total volume txs_count fee_rates =
     res_bind (if fee_rates = [] then Ok (Fin 0, Fin 0, Fin 0, Fin 0)
       else res_bind (sort_f64 fee_rates) (\<lambda>fee_rates.
         Ok (fee_rates ! 0, fee_rates ! (length fee_rates - 1), fee_rates ! (length fee_rates div 2),
             f64_div (f64_from_nat (unat fees_total)) (f64_from_nat (length fee_rates)))))
       (\<lambda>(lowest, highest, median, average).
     Ok \<lparr>bm_fees_total = fees_total, bm_volume = volume, bm_txs_count = txs_count,
         bm_average_fee_rate = average, bm_lowest_fee_rate = lowest, bm_highest_fee_rate = highest,
         bm_median_fee_rate = median\<rparr>)"

section \<open>Analysing the transactions of a block\<close>

text \<open>
  The loop over the transactions; \<open>assemble\<close> collects the outputs that a transaction spends, and counts
  on in the list of the outputs that were read from disk.
\<close>

fun analyze_txs ::
  "((bytes \<times> i64) list \<Rightarrow> (bytes \<times> i64) list) \<Rightarrow> layouts \<Rightarrow> hash32 \<Rightarrow> u64 \<Rightarrow>
   (Tx \<Rightarrow> usize \<Rightarrow> (TxOut list \<times> usize) res) \<Rightarrow> Tx list \<Rightarrow> usize \<Rightarrow> arena \<Rightarrow> (SerializedTx list \<times> arena) res" where
  "analyze_txs srt L block_hash timestamp assemble [] index a = Ok ([], a)"
| "analyze_txs srt L block_hash timestamp assemble (tx # txs) index a =
     res_bind (assemble tx index) (\<lambda>(deps, index).
     res_bind (analyze_tx srt L block_hash tx deps timestamp a) (\<lambda>(analyzed, a).
     res_bind (analyze_txs srt L block_hash timestamp assemble txs index a) (\<lambda>(rest, a).
     Ok (analyzed # rest, a))))"

type_synonym txouts_map = "hash32 \<rightharpoonup> TxOut list"

fun assemble_deps ::
  "txouts_map \<Rightarrow> txouts_map \<Rightarrow> TxOut list \<Rightarrow> TxIn list \<Rightarrow> usize \<Rightarrow> (TxOut list \<times> usize) res" where
  "assemble_deps current previous deps_from_disk [] index = Ok ([], index)"
| "assemble_deps current previous deps_from_disk (txin # txins) index =
     (if ti_prevout_hash txin = EMPTY_HASH then assemble_deps current previous deps_from_disk txins index
      else
        res_bind (case current (ti_prevout_hash txin) of
            Some txouts \<Rightarrow>
              res_bind (opt_unwrap (get_at txouts (unat (ti_prevout_index txin)))) (\<lambda>p. Ok (p, index))
          | None \<Rightarrow>
              (case previous (ti_prevout_hash txin) of
                 Some txouts \<Rightarrow>
                   res_bind (opt_unwrap (get_at txouts (unat (ti_prevout_index txin)))) (\<lambda>p. Ok (p, index))
               | None \<Rightarrow> res_bind (idx_at deps_from_disk index) (\<lambda>dep. Ok (dep, index + 1))))
          (\<lambda>(dep, index).
        res_bind (assemble_deps current previous deps_from_disk txins index) (\<lambda>(deps, index).
        Ok (dep # deps, index))))"

section \<open>Outputs on disk\<close>

definition fetch_dependency_and_insert :: "(hash32 \<Rightarrow> TxOut list res) \<Rightarrow> hash32 \<times> usize \<Rightarrow> TxOut res" where
  "fetch_dependency_and_insert get = (\<lambda>(txout_hash, txout_index).
     res_bind (res_unwrap (get txout_hash)) (\<lambda>txouts. idx_at txouts txout_index))"

fun join_handles :: "'a res list \<Rightarrow> 'a list res" where
  "join_handles [] = Ok []"
| "join_handles (h # handles) =
     res_bind (spawn_blocking h) (\<lambda>x. res_bind (join_handles handles) (\<lambda>xs. Ok (x # xs)))"

definition missing_inputs :: "Block \<Rightarrow> txouts_map \<Rightarrow> txouts_map \<Rightarrow> TxIn list" where
  "missing_inputs block current previous =
     filter (\<lambda>txin. ti_prevout_hash txin \<noteq> EMPTY_HASH \<and> current (ti_prevout_hash txin) = None \<and>
         previous (ti_prevout_hash txin) = None)
       (concat (map tx_txins (bl_txs block)))"

text \<open>Each output is read in a task of its own, whose panic is an error for the one who waits for it.\<close>

definition fetch_missing_dependencies ::
  "(hash32 \<Rightarrow> TxOut list res) \<Rightarrow> Block \<Rightarrow> txouts_map \<Rightarrow> txouts_map \<Rightarrow> TxOut list res" where
  "fetch_missing_dependencies get block current previous =
     join_handles (map (\<lambda>txin. fetch_dependency_and_insert get (ti_prevout_hash txin, unat (ti_prevout_index txin)))
       (missing_inputs block current previous))"

section \<open>One block\<close>

record ChainSyncState =
  ss_current_txouts :: txouts_map
  ss_previous_txouts :: txouts_map
  ss_current_analyzed :: "SerializedTx list list"
  ss_current_metrics :: "BlockMetrics list"
  ss_coinbase_asciis :: "bytes list"

fun copy_txouts :: "layouts \<Rightarrow> TxOut list \<Rightarrow> arena \<Rightarrow> (TxOut list \<times> arena) res" where
  "copy_txouts L [] a = Ok ([], a)"
| "copy_txouts L (txout # txouts) a =
     res_bind (try_alloc_array_copy (1, 1) a (to_script txout) []) (\<lambda>(_, cloned_script, a).
     res_bind (try_alloc (L TyTxOut) a []) (\<lambda>(_, a).
     res_bind (copy_txouts L txouts a) (\<lambda>(cloned, a).
     Ok (\<lparr>to_value = to_value txout, to_script = cloned_script\<rparr> # cloned, a))))"

fun insert_transactions :: "layouts \<Rightarrow> Tx list \<Rightarrow> arena \<Rightarrow> txouts_map \<Rightarrow> (txouts_map \<times> arena) res" where
  "insert_transactions L [] a txouts = Ok (txouts, a)"
| "insert_transactions L (tx # txs) a txouts =
     res_bind (copy_txouts L (tx_txouts tx) a) (\<lambda>(cloned, a).
     insert_transactions L txs a (txouts(tx_hash tx \<mapsto> cloned)))"

definition insert_transactions_from_block :: "layouts \<Rightarrow> Block \<Rightarrow> arena \<Rightarrow> txouts_map \<Rightarrow> (txouts_map \<times> arena) res" where
  "insert_transactions_from_block L block a txouts = insert_transactions L (bl_txs block) a txouts"

text \<open>
  \<open>process_block\<close> after the dependencies on disk have been fetched; it reads the maps of outputs again,
  which may have grown since.
\<close>

definition process_block ::
  "((bytes \<times> i64) list \<Rightarrow> (bytes \<times> i64) list) \<Rightarrow> layouts \<Rightarrow> Block \<Rightarrow> TxOut list \<Rightarrow> usize \<Rightarrow> ChainSyncState \<Rightarrow> arena \<Rightarrow>
   (ChainSyncState \<times> arena) res" where
  "process_block srt L block deps_from_disk index s a =
     res_bind (res_unwrap (try_alloc_array_fill_copy (L TySerializedTx) a (length (bl_txs block)) SerializedTx_default []))
       (\<lambda>(_, _, a).
     if bl_txs block = [] then Panic
     else
       res_bind (analyze_txs srt L (bh_hash (bl_header block)) (ucast (bh_timestamp (bl_header block)))
           (\<lambda>tx. assemble_deps (ss_current_txouts s) (ss_previous_txouts s) deps_from_disk (tx_txins tx))
           (bl_txs block) 0 a) (\<lambda>(analyzed_txs, a).
       res_bind (idx_at (tx_txins (bl_txs block ! 0)) 0) (\<lambda>txin.
       res_bind (res_unwrap (try_alloc_array_copy (1, 1) a (ti_sig_script txin) [])) (\<lambda>(_, cloned_coinbase_ascii, a).
       res_bind (block_metrics (sum_list (map st_fee analyzed_txs)) (sum_list (map st_txouts_sum analyzed_txs))
           (length (bl_txs block)) (map fee_rate (tl analyzed_txs))) (\<lambda>metrics.
       Ok (s\<lparr>ss_current_analyzed := (ss_current_analyzed s)[index := analyzed_txs],
             ss_current_metrics := (ss_current_metrics s)[index := metrics],
             ss_coinbase_asciis := (ss_coinbase_asciis s)[index := cloned_coinbase_ascii]\<rparr>, a))))))"

section \<open>One batch\<close>

text \<open>
  The state while a batch is collected: the hashes and blocks received so far and, for every block, how
  far its task has come.
\<close>

datatype block_task = Spawned | Fetched "TxOut list" | Finished | Cancelled

record batch =
  ba_state :: ChainSyncState
  ba_arena :: arena
  ba_blocks :: "Block list"
  ba_tasks :: "block_task list"

text \<open>
  The steps of \<open>get_next_batch_to_flush\<close> and of the tasks it spawns, in any order: a block is received,
  entered into the map and given a task; a task fetches what it needs from disk or is cancelled; a task
  analyses its block.
\<close>

inductive batch_step ::
  "((bytes \<times> i64) list \<Rightarrow> (bytes \<times> i64) list) \<Rightarrow> layouts \<Rightarrow> (hash32 \<Rightarrow> TxOut list res) \<Rightarrow> usize \<Rightarrow> batch \<Rightarrow> batch \<Rightarrow> bool"
  for srt L get MAX_BLOCKS_PER_FLUSH where
  receive: "length (ba_blocks b) < MAX_BLOCKS_PER_FLUSH \<Longrightarrow>
    insert_transactions_from_block L block (ba_arena b) (ss_current_txouts (ba_state b)) = Ok (txouts, a) \<Longrightarrow>
    batch_step srt L get MAX_BLOCKS_PER_FLUSH b
      \<lparr>ba_state = (ba_state b)\<lparr>ss_current_txouts := txouts,
           ss_current_analyzed := ss_current_analyzed (ba_state b) @ [[]],
           ss_current_metrics := ss_current_metrics (ba_state b) @ [BlockMetrics_default],
           ss_coinbase_asciis := ss_coinbase_asciis (ba_state b) @ [[]]\<rparr>,
       ba_arena = a, ba_blocks = ba_blocks b @ [block], ba_tasks = ba_tasks b @ [Spawned]\<rparr>"
| fetch: "i < length (ba_tasks b) \<Longrightarrow> ba_tasks b ! i = Spawned \<Longrightarrow>
    fetch_missing_dependencies get (ba_blocks b ! i) (ss_current_txouts (ba_state b))
      (ss_previous_txouts (ba_state b)) = Ok deps \<Longrightarrow>
    batch_step srt L get MAX_BLOCKS_PER_FLUSH b (b\<lparr>ba_tasks := (ba_tasks b)[i := Fetched deps]\<rparr>)"
| cancel: "i < length (ba_tasks b) \<Longrightarrow> ba_tasks b ! i = Spawned \<Longrightarrow>
    fetch_missing_dependencies get (ba_blocks b ! i) (ss_current_txouts (ba_state b))
      (ss_previous_txouts (ba_state b)) = Err e \<Longrightarrow>
    batch_step srt L get MAX_BLOCKS_PER_FLUSH b (b\<lparr>ba_tasks := (ba_tasks b)[i := Cancelled]\<rparr>)"
| finish: "i < length (ba_tasks b) \<Longrightarrow> ba_tasks b ! i = Fetched deps \<Longrightarrow>
    process_block srt L (ba_blocks b ! i) deps i (ba_state b) (ba_arena b) = Ok (s, a) \<Longrightarrow>
    batch_step srt L get MAX_BLOCKS_PER_FLUSH b (b\<lparr>ba_state := s, ba_arena := a, ba_tasks := (ba_tasks b)[i := Finished]\<rparr>)"

definition batch_start :: "ChainSyncState \<Rightarrow> arena \<Rightarrow> batch" where
  "batch_start s a = \<lparr>ba_state = s, ba_arena = a, ba_blocks = [], ba_tasks = []\<rparr>"

inductive batch_reachable ::
  "((bytes \<times> i64) list \<Rightarrow> (bytes \<times> i64) list) \<Rightarrow> layouts \<Rightarrow> (hash32 \<Rightarrow> TxOut list res) \<Rightarrow> usize \<Rightarrow> ChainSyncState \<Rightarrow>
   arena \<Rightarrow> batch \<Rightarrow> bool"
  for srt L get MAX_BLOCKS_PER_FLUSH s a where
  start: "batch_reachable srt L get MAX_BLOCKS_PER_FLUSH s a (batch_start s a)"
| step: "batch_reachable srt L get MAX_BLOCKS_PER_FLUSH s a b \<Longrightarrow>
    batch_step srt L get MAX_BLOCKS_PER_FLUSH b b' \<Longrightarrow> batch_reachable srt L get MAX_BLOCKS_PER_FLUSH s a b'"

text \<open>
  What the next batch starts with: the map of the batch before last is emptied and becomes the current
  one, the current one the previous one.
\<close>

definition swap_states :: "ChainSyncState \<Rightarrow> ChainSyncState" where
  "swap_states s = \<lparr>ss_current_txouts = Map.empty, ss_previous_txouts = ss_current_txouts s,
     ss_current_analyzed = [], ss_current_metrics = [], ss_coinbase_asciis = []\<rparr>"

section \<open>The spent outputs\<close>

definition add_outputs :: "txouts_map \<Rightarrow> Tx list \<Rightarrow> txouts_map" where
  "add_outputs = foldl (\<lambda>m tx. m(tx_hash tx \<mapsto> tx_txouts tx))"

definition block_outputs :: "Block list \<Rightarrow> txouts_map" where
  "block_outputs blocks = add_outputs Map.empty (concat (map bl_txs blocks))"

text \<open>The output that an input spends: from the batch, from the batch before it, or from disk.\<close>

definition spent_output :: "(hash32 \<Rightarrow> TxOut list res) \<Rightarrow> txouts_map \<Rightarrow> txouts_map \<Rightarrow> TxIn \<Rightarrow> TxOut option" where
  "spent_output get current previous txin =
     (case (case current (ti_prevout_hash txin) of
        Some txouts \<Rightarrow> Some txouts
      | None \<Rightarrow> (case previous (ti_prevout_hash txin) of
          Some txouts \<Rightarrow> Some txouts
        | None \<Rightarrow> (case get (ti_prevout_hash txin) of Ok txouts \<Rightarrow> Some txouts | _ \<Rightarrow> None))) of
        Some txouts \<Rightarrow> get_at txouts (unat (ti_prevout_index txin))
      | None \<Rightarrow> None)"

definition real_inputs :: "Tx \<Rightarrow> TxIn list" where
  "real_inputs tx = filter (\<lambda>txin. ti_prevout_hash txin \<noteq> EMPTY_HASH) (tx_txins tx)"

definition spent_outputs :: "(hash32 \<Rightarrow> TxOut list res) \<Rightarrow> txouts_map \<Rightarrow> txouts_map \<Rightarrow> Tx \<Rightarrow> TxOut list" where
  "spent_outputs get current previous tx = map (the \<circ> spent_output get current previous) (real_inputs tx)"

definition on_disk :: "txouts_map \<Rightarrow> txouts_map \<Rightarrow> TxIn \<Rightarrow> bool" where
  "on_disk current previous txin \<longleftrightarrow> ti_prevout_hash txin \<noteq> EMPTY_HASH \<and> current (ti_prevout_hash txin) = None \<and>
     previous (ti_prevout_hash txin) = None"

lemma missing_inputs_on_disk: "missing_inputs block current previous = filter (on_disk current previous) (concat (map tx_txins (bl_txs block)))"
  by (simp add: missing_inputs_def on_disk_def [abs_def])

lemma fetch_dependency:
  assumes "on_disk current previous txin"
  shows "fetch_dependency_and_insert get (ti_prevout_hash txin, unat (ti_prevout_index txin)) =
    opt_unwrap (spent_output get current previous txin)"
  using assms by (auto simp: fetch_dependency_and_insert_def spent_output_def on_disk_def idx_at_def split: res.split)

lemma join_unwrapped: "join_handles (map (opt_unwrap \<circ> f) xs) =
    (if \<forall>x \<in> set xs. f x \<noteq> None then Ok (map (the \<circ> f) xs) else Err (Msg ''task panicked''))"
proof (induction xs)
  case (Cons x xs)
  then show ?case by (cases "f x") (simp_all add: spawn_blocking_def)
qed simp

lemma fetched:
  "fetch_missing_dependencies get block current previous =
    (if \<forall>txin \<in> set (missing_inputs block current previous). spent_output get current previous txin \<noteq> None
     then Ok (map (the \<circ> spent_output get current previous) (missing_inputs block current previous))
     else Err (Msg ''task panicked''))"
proof -
  have "map (\<lambda>txin. fetch_dependency_and_insert get (ti_prevout_hash txin, unat (ti_prevout_index txin)))
      (missing_inputs block current previous) =
    map (opt_unwrap \<circ> spent_output get current previous) (missing_inputs block current previous)"
    by (intro map_cong refl) (simp add: fetch_dependency missing_inputs_on_disk)
  then show ?thesis unfolding fetch_missing_dependencies_def by (simp only: join_unwrapped)
qed

lemma assemble_deps_eq:
  assumes "deps = pre @ map (the \<circ> spent_output get current previous) (filter (on_disk current previous) txins) @ post"
    and "\<forall>txin \<in> set txins. on_disk current previous txin \<longrightarrow> spent_output get current previous txin \<noteq> None"
  shows "assemble_deps current previous deps txins (length pre) =
    (let ins = filter (\<lambda>txin. ti_prevout_hash txin \<noteq> EMPTY_HASH) txins in
     if \<forall>txin \<in> set ins. spent_output get current previous txin \<noteq> None
     then Ok (map (the \<circ> spent_output get current previous) ins, length pre + length (filter (on_disk current previous) txins))
     else Panic)"
  using assms
proof (induction txins arbitrary: pre)
  case (Cons txin txins)
  let ?spent = "spent_output get current previous"
  show ?case
  proof (cases "on_disk current previous txin")
    case True
    then have nz: "ti_prevout_hash txin \<noteq> EMPTY_HASH" "current (ti_prevout_hash txin) = None"
      "previous (ti_prevout_hash txin) = None" by (simp_all add: on_disk_def)
    have "idx_at deps (length pre) = Ok (the (?spent txin))"
      using Cons.prems(1) True by (simp add: idx_at_def get_at_def)
    moreover have "deps = (pre @ [the (?spent txin)]) @ map (the \<circ> ?spent) (filter (on_disk current previous) txins) @ post"
      using Cons.prems(1) True by simp
    from Cons.IH [OF this] have "assemble_deps current previous deps txins (Suc (length pre)) =
      (let ins = filter (\<lambda>txin. ti_prevout_hash txin \<noteq> EMPTY_HASH) txins in
       if \<forall>txin \<in> set ins. ?spent txin \<noteq> None
       then Ok (map (the \<circ> ?spent) ins, Suc (length pre) + length (filter (on_disk current previous) txins))
       else Panic)" using Cons.prems(2) by (auto simp: Let_def)
    ultimately show ?thesis using nz True Cons.prems(2) by (auto simp: Let_def)
  next
    case False
    have IH: "assemble_deps current previous deps txins (length pre) =
      (let ins = filter (\<lambda>txin. ti_prevout_hash txin \<noteq> EMPTY_HASH) txins in
       if \<forall>txin \<in> set ins. ?spent txin \<noteq> None
       then Ok (map (the \<circ> ?spent) ins, length pre + length (filter (on_disk current previous) txins))
       else Panic)" using Cons.IH [of pre] Cons.prems False by simp
    show ?thesis
    proof (cases "ti_prevout_hash txin = EMPTY_HASH")
      case True
      then show ?thesis using IH False by (auto simp: Let_def)
    next
      case nz: False
      then consider txouts where "current (ti_prevout_hash txin) = Some txouts"
        | txouts where "current (ti_prevout_hash txin) = None" "previous (ti_prevout_hash txin) = Some txouts"
        using False by (auto simp: on_disk_def)
      then show ?thesis
      proof cases
        case 1
        then show ?thesis using IH False nz
          by (cases "get_at txouts (unat (ti_prevout_index txin))") (auto simp: Let_def spent_output_def)
      next
        case 2
        then show ?thesis using IH False nz
          by (cases "get_at txouts (unat (ti_prevout_index txin))") (auto simp: Let_def spent_output_def)
      qed
    qed
  qed
qed simp

text \<open>With what was fetched from disk every transaction gets exactly the outputs it spends.\<close>

lemma analyze_txs_exact:
  assumes "deps = pre @ map (the \<circ> spent_output get current previous)
      (filter (on_disk current previous) (concat (map tx_txins txs))) @ post"
    and "\<forall>txin \<in> set (concat (map tx_txins txs)). on_disk current previous txin \<longrightarrow> spent_output get current previous txin \<noteq> None"
    and "analyze_txs srt L h ts (\<lambda>tx. assemble_deps current previous deps (tx_txins tx)) txs (length pre) a = Ok r"
  shows "analyze_txs srt L h ts (\<lambda>tx n. Ok (spent_outputs get current previous tx, n)) txs k a = Ok r \<and>
    (\<forall>tx \<in> set txs. \<forall>txin \<in> set (real_inputs tx). spent_output get current previous txin \<noteq> None)"
  using assms
proof (induction txs arbitrary: pre a r k)
  case (Cons tx txs)
  let ?spent = "spent_output get current previous"
  let ?disk = "filter (on_disk current previous) (tx_txins tx)"
  have d: "deps = pre @ map (the \<circ> ?spent) ?disk @
      (map (the \<circ> ?spent) (filter (on_disk current previous) (concat (map tx_txins txs))) @ post)"
    using Cons.prems(1) by simp
  note ass = assemble_deps_eq [OF d]
  have ok: "\<forall>txin \<in> set (real_inputs tx). ?spent txin \<noteq> None"
    using ass Cons.prems(2,3) by (auto simp: real_inputs_def Let_def split: if_splits)
  then have eq: "assemble_deps current previous deps (tx_txins tx) (length pre) =
      Ok (spent_outputs get current previous tx, length (pre @ map (the \<circ> ?spent) ?disk))"
    using ass Cons.prems(2) by (simp add: Let_def real_inputs_def spent_outputs_def)
  obtain analyzed a' rest a'' where step: "analyze_tx srt L h tx (spent_outputs get current previous tx) ts a = Ok (analyzed, a')"
    "analyze_txs srt L h ts (\<lambda>tx. assemble_deps current previous deps (tx_txins tx)) txs
       (length (pre @ map (the \<circ> ?spent) ?disk)) a' = Ok (rest, a'')" "r = (analyzed # rest, a'')"
    using Cons.prems(3) unfolding analyze_txs.simps eq by (auto simp: res_bind_Ok_iff)
  have "deps = (pre @ map (the \<circ> ?spent) ?disk) @
      map (the \<circ> ?spent) (filter (on_disk current previous) (concat (map tx_txins txs))) @ post" using d by simp
  from Cons.IH [OF this _ step(2), of k] Cons.prems(2)
  have "analyze_txs srt L h ts (\<lambda>tx n. Ok (spent_outputs get current previous tx, n)) txs k a' = Ok (rest, a'')"
    "\<forall>tx \<in> set txs. \<forall>txin \<in> set (real_inputs tx). ?spent txin \<noteq> None" by auto
  then show ?case using ok step(1,3) by simp
qed simp

section \<open>Batches\<close>

text \<open>No block of a batch spends an output of a later one.\<close>

definition in_order :: "Block list \<Rightarrow> bool" where
  "in_order blocks \<longleftrightarrow> (\<forall>j < length blocks. \<forall>i < j. \<forall>tx \<in> set (bl_txs (blocks ! i)). \<forall>txin \<in> set (real_inputs tx).
     ti_prevout_hash txin \<notin> tx_hash ` set (bl_txs (blocks ! j)))"

lemma in_order_prefix:
  assumes "in_order (blocks @ [block])"
  shows "in_order blocks"
  unfolding in_order_def
proof (intro allI impI ballI)
  fix j i tx txin
  assume "j < length blocks" "i < j" "tx \<in> set (bl_txs (blocks ! i))" "txin \<in> set (real_inputs tx)"
  then show "ti_prevout_hash txin \<notin> tx_hash ` set (bl_txs (blocks ! j))"
    using assms unfolding in_order_def by (elim allE [of _ j] allE [of _ i]) (simp add: nth_append)
qed

lemma add_outputs_other: "h \<notin> tx_hash ` set txs \<Longrightarrow> add_outputs m txs h = m h"
  unfolding add_outputs_def by (induction txs arbitrary: m) auto

lemma block_outputs_snoc: "block_outputs (blocks @ [block]) = add_outputs (block_outputs blocks) (bl_txs block)"
  by (simp add: block_outputs_def add_outputs_def)

lemma copy_txouts_eq: "copy_txouts L txouts a = Ok (cloned, a') \<Longrightarrow> cloned = txouts"
proof (induction txouts arbitrary: a cloned)
  case (Cons txout txouts)
  then show ?case by (auto simp: try_alloc_array_copy_def res_bind_Ok_iff)
qed simp

lemma insert_transactions_eq: "insert_transactions L txs a m = Ok (m', a') \<Longrightarrow> m' = add_outputs m txs"
proof (induction txs arbitrary: a m)
  case (Cons tx txs)
  then obtain cloned a1 where "copy_txouts L (tx_txouts tx) a = Ok (cloned, a1)"
    "insert_transactions L txs a1 (m(tx_hash tx \<mapsto> cloned)) = Ok (m', a')" by (auto simp: res_bind_Ok_iff)
  then show ?case using Cons.IH copy_txouts_eq by (fastforce simp: add_outputs_def)
qed (simp add: add_outputs_def)

text \<open>What block \<open>i\<close> sees does not change when a later block arrives.\<close>

lemma inputs_stable:
  assumes "in_order (blocks @ [block])" "i < length blocks" "txin \<in> set (concat (map tx_txins (bl_txs (blocks ! i))))"
    and "ti_prevout_hash txin \<noteq> EMPTY_HASH"
  shows "block_outputs (blocks @ [block]) (ti_prevout_hash txin) = block_outputs blocks (ti_prevout_hash txin)"
proof -
  obtain tx where "tx \<in> set (bl_txs (blocks ! i))" "txin \<in> set (real_inputs tx)"
    using assms(3,4) by (auto simp: real_inputs_def)
  then have "ti_prevout_hash txin \<notin> tx_hash ` set (bl_txs block)"
    using assms(1,2) unfolding in_order_def by (elim allE [of _ "length blocks"] allE [of _ i]) (simp add: nth_append)
  then show ?thesis unfolding block_outputs_snoc by (rule add_outputs_other)
qed

lemma fetch_stable:
  assumes "in_order (blocks @ [block])" "i < length blocks"
  shows "fetch_missing_dependencies get (blocks ! i) (block_outputs (blocks @ [block])) previous =
    fetch_missing_dependencies get (blocks ! i) (block_outputs blocks) previous"
proof -
  have same: "on_disk (block_outputs (blocks @ [block])) previous txin = on_disk (block_outputs blocks) previous txin"
    if "txin \<in> set (concat (map tx_txins (bl_txs (blocks ! i))))" for txin
    using inputs_stable [OF assms that] by (cases "ti_prevout_hash txin = EMPTY_HASH") (simp_all add: on_disk_def)
  have m: "missing_inputs (blocks ! i) (block_outputs (blocks @ [block])) previous =
      missing_inputs (blocks ! i) (block_outputs blocks) previous"
    unfolding missing_inputs_on_disk by (intro filter_cong refl same)
  show ?thesis unfolding fetch_missing_dependencies_def m ..
qed

text \<open>The finished analysis of block \<open>i\<close>.\<close>

definition analysed ::
  "((bytes \<times> i64) list \<Rightarrow> (bytes \<times> i64) list) \<Rightarrow> layouts \<Rightarrow> (hash32 \<Rightarrow> TxOut list res) \<Rightarrow> txouts_map \<Rightarrow> txouts_map \<Rightarrow>
   Block \<Rightarrow> SerializedTx list \<Rightarrow> BlockMetrics \<Rightarrow> bytes \<Rightarrow> bool" where
  "analysed srt L get current previous block analyzed metrics ascii \<longleftrightarrow>
     (\<forall>tx \<in> set (bl_txs block). \<forall>txin \<in> set (real_inputs tx). spent_output get current previous txin \<noteq> None) \<and>
     (\<exists>a a'. analyze_txs srt L (bh_hash (bl_header block)) (ucast (bh_timestamp (bl_header block)))
        (\<lambda>tx n. Ok (spent_outputs get current previous tx, n)) (bl_txs block) 0 a = Ok (analyzed, a')) \<and>
     block_metrics (sum_list (map st_fee analyzed)) (sum_list (map st_txouts_sum analyzed)) (length (bl_txs block))
       (map fee_rate (tl analyzed)) = Ok metrics \<and>
     (\<exists>tx txin. get_at (bl_txs block) 0 = Some tx \<and> get_at (tx_txins tx) 0 = Some txin \<and> ascii = ti_sig_script txin)"

lemma analyze_txs_cong:
  "(\<And>tx n. tx \<in> set txs \<Longrightarrow> f tx n = g tx n) \<Longrightarrow> analyze_txs srt L h ts f txs n a = analyze_txs srt L h ts g txs n a"
proof (induction txs arbitrary: n a)
  case (Cons tx txs)
  then show ?case by (auto intro!: res_bind_cong)
qed simp

lemma analysed_stable:
  assumes "in_order (blocks @ [block])" "i < length blocks"
    and "analysed srt L get (block_outputs blocks) previous (blocks ! i) analyzed metrics ascii"
  shows "analysed srt L get (block_outputs (blocks @ [block])) previous (blocks ! i) analyzed metrics ascii"
proof -
  have same: "spent_output get (block_outputs (blocks @ [block])) previous txin = spent_output get (block_outputs blocks) previous txin"
    if "tx \<in> set (bl_txs (blocks ! i))" "txin \<in> set (real_inputs tx)" for tx txin
  proof -
    have "block_outputs (blocks @ [block]) (ti_prevout_hash txin) = block_outputs blocks (ti_prevout_hash txin)"
      using that by (intro inputs_stable [OF assms(1,2)]) (auto simp: real_inputs_def)
    then show ?thesis by (simp add: spent_output_def)
  qed
  have outs: "spent_outputs get (block_outputs (blocks @ [block])) previous tx = spent_outputs get (block_outputs blocks) previous tx"
    if "tx \<in> set (bl_txs (blocks ! i))" for tx using same [OF that] by (simp add: spent_outputs_def)
  have "analyze_txs srt L h ts (\<lambda>tx n. Ok (spent_outputs get (block_outputs (blocks @ [block])) previous tx, n)) (bl_txs (blocks ! i)) 0 a =
      analyze_txs srt L h ts (\<lambda>tx n. Ok (spent_outputs get (block_outputs blocks) previous tx, n)) (bl_txs (blocks ! i)) 0 a" for h ts a
    by (rule analyze_txs_cong) (simp add: outs)
  then show ?thesis using assms(3) same unfolding analysed_def by (simp cong: ball_cong)
qed

definition task_ok ::
  "((bytes \<times> i64) list \<Rightarrow> (bytes \<times> i64) list) \<Rightarrow> layouts \<Rightarrow> (hash32 \<Rightarrow> TxOut list res) \<Rightarrow> txouts_map \<Rightarrow> Block list \<Rightarrow>
   nat \<Rightarrow> block_task \<Rightarrow> SerializedTx list \<Rightarrow> BlockMetrics \<Rightarrow> bytes \<Rightarrow> bool" where
  "task_ok srt L get previous blocks i task analyzed metrics ascii \<longleftrightarrow>
     (case task of
        Finished \<Rightarrow> analysed srt L get (block_outputs blocks) previous (blocks ! i) analyzed metrics ascii
      | Fetched deps \<Rightarrow> fetch_missing_dependencies get (blocks ! i) (block_outputs blocks) previous = Ok deps \<and>
          analyzed = [] \<and> metrics = BlockMetrics_default \<and> ascii = []
      | Cancelled \<Rightarrow> (\<exists>e. fetch_missing_dependencies get (blocks ! i) (block_outputs blocks) previous = Err e) \<and>
          analyzed = [] \<and> metrics = BlockMetrics_default \<and> ascii = []
      | Spawned \<Rightarrow> analyzed = [] \<and> metrics = BlockMetrics_default \<and> ascii = [])"

definition batch_ok ::
  "((bytes \<times> i64) list \<Rightarrow> (bytes \<times> i64) list) \<Rightarrow> layouts \<Rightarrow> (hash32 \<Rightarrow> TxOut list res) \<Rightarrow> txouts_map \<Rightarrow> batch \<Rightarrow> bool" where
  "batch_ok srt L get previous b \<longleftrightarrow>
     (let s = ba_state b; blocks = ba_blocks b in
      ss_previous_txouts s = previous \<and> ss_current_txouts s = block_outputs blocks \<and>
      length (ba_tasks b) = length blocks \<and> length (ss_current_analyzed s) = length blocks \<and>
      length (ss_current_metrics s) = length blocks \<and> length (ss_coinbase_asciis s) = length blocks \<and>
      (\<forall>i < length blocks. task_ok srt L get previous blocks i (ba_tasks b ! i) (ss_current_analyzed s ! i)
         (ss_current_metrics s ! i) (ss_coinbase_asciis s ! i)))"

lemma process_block_result:
  assumes "process_block srt L block deps index s a = Ok (s', a')"
    and "fetch_missing_dependencies get block (ss_current_txouts s) (ss_previous_txouts s) = Ok deps"
  shows "\<exists>analyzed metrics ascii. s' = s\<lparr>ss_current_analyzed := (ss_current_analyzed s)[index := analyzed],
      ss_current_metrics := (ss_current_metrics s)[index := metrics],
      ss_coinbase_asciis := (ss_coinbase_asciis s)[index := ascii]\<rparr> \<and>
    analysed srt L get (ss_current_txouts s) (ss_previous_txouts s) block analyzed metrics ascii"
proof -
  let ?asm = "\<lambda>tx. assemble_deps (ss_current_txouts s) (ss_previous_txouts s) deps (tx_txins tx)"
  let ?h = "bh_hash (bl_header block)" and ?ts = "ucast (bh_timestamp (bl_header block)) :: u64"
  obtain a1 analyzed a2 txin ascii metrics loc where r: "bl_txs block \<noteq> []"
    "analyze_txs srt L ?h ?ts ?asm (bl_txs block) 0 a1 = Ok (analyzed, a2)"
    "idx_at (tx_txins (bl_txs block ! 0)) 0 = Ok txin"
    "res_unwrap (try_alloc_array_copy (1, 1) a2 (ti_sig_script txin) []) = Ok (loc, ascii, a')"
    "block_metrics (sum_list (map st_fee analyzed)) (sum_list (map st_txouts_sum analyzed)) (length (bl_txs block))
       (map fee_rate (tl analyzed)) = Ok metrics"
    "s' = s\<lparr>ss_current_analyzed := (ss_current_analyzed s)[index := analyzed],
      ss_current_metrics := (ss_current_metrics s)[index := metrics],
      ss_coinbase_asciis := (ss_coinbase_asciis s)[index := ascii]\<rparr>"
    using assms(1) unfolding process_block_def by (auto simp: res_bind_Ok_iff split: if_splits)
  have ascii: "ascii = ti_sig_script txin"
    using r(4) by (auto simp: res_unwrap_def try_alloc_array_copy_def res_bind_Ok_iff split: res.splits)
  have f: "\<forall>txin \<in> set (missing_inputs block (ss_current_txouts s) (ss_previous_txouts s)).
       spent_output get (ss_current_txouts s) (ss_previous_txouts s) txin \<noteq> None"
    "deps = [] @ map (the \<circ> spent_output get (ss_current_txouts s) (ss_previous_txouts s))
       (filter (on_disk (ss_current_txouts s) (ss_previous_txouts s)) (concat (map tx_txins (bl_txs block)))) @ []"
    using assms(2) unfolding fetched missing_inputs_on_disk by (simp_all split: if_splits)
  have "analyze_txs srt L ?h ?ts ?asm (bl_txs block) (length []) a1 = Ok (analyzed, a2)" using r(2) by simp
  from analyze_txs_exact [OF f(2) _ this, of 0] f(1)
  have "analyze_txs srt L ?h ?ts (\<lambda>tx n. Ok (spent_outputs get (ss_current_txouts s) (ss_previous_txouts s) tx, n))
      (bl_txs block) 0 a1 = Ok (analyzed, a2) \<and> (\<forall>tx \<in> set (bl_txs block). \<forall>txin \<in> set (real_inputs tx).
        spent_output get (ss_current_txouts s) (ss_previous_txouts s) txin \<noteq> None)"
    by (simp add: missing_inputs_on_disk)
  then show ?thesis using r ascii
    by (intro exI [of _ analyzed] exI [of _ metrics] exI [of _ ascii]) (auto simp: analysed_def get_at_def idx_at_def)
qed

lemma task_ok_grow:
  assumes "in_order (blocks @ [block])" "i < length blocks" "task_ok srt L get previous blocks i task analyzed metrics ascii"
  shows "task_ok srt L get previous (blocks @ [block]) i task analyzed metrics ascii"
proof -
  have "(blocks @ [block]) ! i = blocks ! i" using assms(2) by (simp add: nth_append)
  then show ?thesis
    using assms(3) fetch_stable [OF assms(1,2), of get previous]
      analysed_stable [OF assms(1,2), of srt L get previous analyzed metrics ascii]
    unfolding task_ok_def by (cases task) simp_all
qed

lemma task_ok_change:
  assumes "batch_ok srt L get previous b" "i < length (ba_tasks b)"
    and "task_ok srt L get previous (ba_blocks b) i task (ss_current_analyzed (ba_state b) ! i)
      (ss_current_metrics (ba_state b) ! i) (ss_coinbase_asciis (ba_state b) ! i)"
  shows "batch_ok srt L get previous (b\<lparr>ba_tasks := (ba_tasks b)[i := task]\<rparr>)"
  using assms unfolding batch_ok_def by (auto simp: Let_def nth_list_update)

lemma batch_step_ok:
  assumes "batch_step srt L get N b b'" "batch_ok srt L get previous b" "in_order (ba_blocks b')"
  shows "batch_ok srt L get previous b'"
  using assms
proof (induction rule: batch_step.induct)
  case (receive b block txouts a)
  let ?n = "length (ba_blocks b)"
  have txouts: "txouts = block_outputs (ba_blocks b @ [block])"
    using insert_transactions_eq receive.hyps(2) receive.prems(1)
    by (simp add: insert_transactions_from_block_def batch_ok_def Let_def block_outputs_snoc)
  have ok: "length (ba_tasks b) = ?n" "length (ss_current_analyzed (ba_state b)) = ?n"
    "length (ss_current_metrics (ba_state b)) = ?n" "length (ss_coinbase_asciis (ba_state b)) = ?n"
    "\<And>i. i < ?n \<Longrightarrow> task_ok srt L get previous (ba_blocks b) i (ba_tasks b ! i) (ss_current_analyzed (ba_state b) ! i)
       (ss_current_metrics (ba_state b) ! i) (ss_coinbase_asciis (ba_state b) ! i)"
    using receive.prems(1) by (simp_all add: batch_ok_def Let_def)
  have "task_ok srt L get previous (ba_blocks b @ [block]) i ((ba_tasks b @ [Spawned]) ! i)
      ((ss_current_analyzed (ba_state b) @ [[]]) ! i) ((ss_current_metrics (ba_state b) @ [BlockMetrics_default]) ! i)
      ((ss_coinbase_asciis (ba_state b) @ [[]]) ! i)" if "i < Suc ?n" for i
  proof (cases "i < ?n")
    case True
    then show ?thesis using task_ok_grow [OF _ True ok(5)] receive.prems(2) ok(1-4) by (simp add: nth_append)
  next
    case False
    then have "i = ?n" using that by simp
    then show ?thesis using ok(1-4) by (simp add: nth_append task_ok_def)
  qed
  then show ?case using receive.prems(1) txouts ok(1-4) by (simp add: batch_ok_def Let_def)
next
  case (fetch i b deps)
  then show ?case
    by (intro task_ok_change) (auto simp: batch_ok_def Let_def task_ok_def)
next
  case (cancel i b e)
  then show ?case
    by (intro task_ok_change) (auto simp: batch_ok_def Let_def task_ok_def)
next
  case (finish i b deps s a)
  have b: "ss_previous_txouts (ba_state b) = previous" "ss_current_txouts (ba_state b) = block_outputs (ba_blocks b)"
    "task_ok srt L get previous (ba_blocks b) i (Fetched deps) (ss_current_analyzed (ba_state b) ! i)
       (ss_current_metrics (ba_state b) ! i) (ss_coinbase_asciis (ba_state b) ! i)"
    using finish.prems(1) finish.hyps(1,2) by (auto simp: batch_ok_def Let_def)
  obtain analyzed metrics ascii where s: "s = (ba_state b)\<lparr>ss_current_analyzed := (ss_current_analyzed (ba_state b))[i := analyzed],
      ss_current_metrics := (ss_current_metrics (ba_state b))[i := metrics],
      ss_coinbase_asciis := (ss_coinbase_asciis (ba_state b))[i := ascii]\<rparr>"
    "analysed srt L get (block_outputs (ba_blocks b)) previous (ba_blocks b ! i) analyzed metrics ascii"
    using process_block_result [OF finish.hyps(3), of get] b unfolding task_ok_def by auto
  have "task_ok srt L get previous (ba_blocks b) i Finished analyzed metrics ascii" by (simp add: task_ok_def s(2))
  then show ?case using finish.prems(1) finish.hyps(1)
    unfolding batch_ok_def Let_def s(1) by (simp add: nth_list_update)
qed

lemma batch_step_blocks: "batch_step srt L get N b b' \<Longrightarrow> ba_blocks b' = ba_blocks b \<or> (\<exists>block. ba_blocks b' = ba_blocks b @ [block])"
  by (induction rule: batch_step.induct) auto

lemma batch_reachable_ok:
  assumes "batch_reachable srt L get N (swap_states s) a b"
  shows "in_order (ba_blocks b) \<Longrightarrow> batch_ok srt L get (ss_current_txouts s) b"
  using assms
proof (induction rule: batch_reachable.induct)
  case start
  then show ?case by (simp add: batch_ok_def batch_start_def swap_states_def block_outputs_def add_outputs_def Let_def)
next
  case (step b b')
  then have "in_order (ba_blocks b)" using batch_step_blocks [OF step.hyps(2)] in_order_prefix by metis
  then show ?case using step batch_step_ok by blast
qed


text \<open>
  A block one of whose inputs is not found on disk can only be cancelled, and a cancelled block stays in
  the batch with no transactions, empty metrics and an empty coinbase script.
\<close>

lemma cancelled_block_is_kept_empty:
  assumes "batch_reachable srt L get MAX_BLOCKS_PER_FLUSH (swap_states s) a b" "in_order (ba_blocks b)"
    and "i < length (ba_blocks b)" "txin \<in> set (missing_inputs (ba_blocks b ! i) (block_outputs (ba_blocks b)) (ss_current_txouts s))"
    and "spent_output get (block_outputs (ba_blocks b)) (ss_current_txouts s) txin = None"
  shows "ba_tasks b ! i \<in> {Spawned, Cancelled} \<and> ss_current_analyzed (ba_state b) ! i = [] \<and>
    ss_current_metrics (ba_state b) ! i = BlockMetrics_default \<and> ss_coinbase_asciis (ba_state b) ! i = []"
proof -
  have t: "task_ok srt L get (ss_current_txouts s) (ba_blocks b) i (ba_tasks b ! i) (ss_current_analyzed (ba_state b) ! i)
       (ss_current_metrics (ba_state b) ! i) (ss_coinbase_asciis (ba_state b) ! i)"
    using batch_reachable_ok [OF assms(1,2)] assms(3) by (simp add: batch_ok_def Let_def)
  obtain tx where tx: "tx \<in> set (bl_txs (ba_blocks b ! i))" "txin \<in> set (real_inputs tx)"
    using assms(4) by (auto simp: missing_inputs_def real_inputs_def)
  show ?thesis
  proof (cases "ba_tasks b ! i")
    case (Fetched deps)
    then show ?thesis using t assms(4,5) by (auto simp: task_ok_def fetched split: if_splits)
  next
    case Finished
    then have "spent_output get (block_outputs (ba_blocks b)) (ss_current_txouts s) txin \<noteq> None"
      using t tx unfolding task_ok_def analysed_def by simp
    then show ?thesis using assms(5) by simp
  qed (use t in \<open>simp_all add: task_ok_def\<close>)
qed

section \<open>A batch of one block\<close>

definition demo_spend :: Tx where
  "demo_spend = demo_payment\<lparr>tx_txouts := []\<rparr>"

definition demo_spending :: Block where
  "demo_spending = \<lparr>bl_header = BlockHeader_default\<lparr>bh_hash := replicate 32 9\<rparr>, bl_txs = [demo_spend]\<rparr>"

definition demo_previous :: "txouts_map \<Rightarrow> ChainSyncState" where
  "demo_previous previous = \<lparr>ss_current_txouts = previous, ss_previous_txouts = Map.empty,
     ss_current_analyzed = [], ss_current_metrics = [], ss_coinbase_asciis = []\<rparr>"

text \<open>The batch after its only block has arrived, with the given task.\<close>

definition demo_batch :: "txouts_map \<Rightarrow> block_task \<Rightarrow> batch" where
  "demo_batch previous task = \<lparr>ba_state = \<lparr>ss_current_txouts = [replicate 32 0 \<mapsto> []],
       ss_previous_txouts = previous, ss_current_analyzed = [[]],
       ss_current_metrics = [BlockMetrics_default], ss_coinbase_asciis = [[]]\<rparr>,
     ba_arena = Arena_new 4096 8192, ba_blocks = [demo_spending], ba_tasks = [task]\<rparr>"

lemma demo_spend_fields:
  "tx_txins demo_spend = [\<lparr>ti_prevout_hash = replicate 32 1, ti_prevout_index = 0, ti_sequence = 5, ti_sig_script = []\<rparr>]"
  "tx_txouts demo_spend = []" "tx_hash demo_spend = replicate 32 0" "tx_witness_data demo_spend = None"
  by (simp_all add: demo_spend_def demo_payment_def)

lemma demo_in_order: "in_order [demo_spending]"
  by (simp add: in_order_def)

lemma demo_received: "batch_reachable (sort_key fst) demo_layouts get 64 (swap_states (demo_previous previous)) (Arena_new 4096 8192) (demo_batch previous Spawned)"
proof -
  let ?b = "batch_start (swap_states (demo_previous previous)) (Arena_new 4096 8192)"
  have "insert_transactions_from_block demo_layouts demo_spending (ba_arena ?b) (ss_current_txouts (ba_state ?b)) =
      Ok ([replicate 32 0 \<mapsto> []], Arena_new 4096 8192)"
    by (simp add: insert_transactions_from_block_def demo_spending_def demo_spend_fields batch_start_def swap_states_def)
  from batch_step.receive [OF _ this, of 64 "sort_key fst" get]
  have "batch_step (sort_key fst) demo_layouts get 64 ?b (demo_batch previous Spawned)"
    by (simp add: demo_batch_def batch_start_def swap_states_def demo_previous_def)
  then show ?thesis by (rule batch_reachable.step [OF batch_reachable.start])
qed

lemma demo_fetched: "batch_reachable (sort_key fst) demo_layouts get 64 (swap_states (demo_previous [replicate 32 1 \<mapsto> demo_deps])) (Arena_new 4096 8192) (demo_batch [replicate 32 1 \<mapsto> demo_deps] (Fetched []))"
proof -
  have "fetch_missing_dependencies get demo_spending (ss_current_txouts (ba_state (demo_batch [replicate 32 1 \<mapsto> demo_deps] Spawned)))
      (ss_previous_txouts (ba_state (demo_batch [replicate 32 1 \<mapsto> demo_deps] Spawned))) = Ok []"
    by (simp add: fetched missing_inputs_def demo_batch_def demo_spending_def demo_spend_fields)
  then have "batch_step (sort_key fst) demo_layouts get 64 (demo_batch [replicate 32 1 \<mapsto> demo_deps] Spawned) ((demo_batch [replicate 32 1 \<mapsto> demo_deps] Spawned)\<lparr>ba_tasks := (ba_tasks (demo_batch [replicate 32 1 \<mapsto> demo_deps] Spawned))[0 := Fetched []]\<rparr>)"
    by (intro batch_step.fetch) (simp_all add: demo_batch_def)
  then have "batch_step (sort_key fst) demo_layouts get 64 (demo_batch [replicate 32 1 \<mapsto> demo_deps] Spawned) (demo_batch [replicate 32 1 \<mapsto> demo_deps] (Fetched []))"
    by (simp add: demo_batch_def)
  then show ?thesis by (rule batch_reachable.step [OF demo_received])
qed

lemma demo_spend_sigops: "get_transaction_sigop_cost demo_spend demo_deps (analysis_flags demo_spend) = Ok 0"
  by code_simp

lemma demo_processed:
  "\<exists>s a. process_block (sort_key fst) demo_layouts demo_spending [] 0 (ba_state (demo_batch [replicate 32 1 \<mapsto> demo_deps] (Fetched []))) (ba_arena (demo_batch [replicate 32 1 \<mapsto> demo_deps] (Fetched []))) = Ok (s, a)"
proof -
  let ?a = "Arena_new 4096 8192" and ?s = "ba_state (demo_batch [replicate 32 1 \<mapsto> demo_deps] (Fetched []))"
  let ?asm = "\<lambda>tx. assemble_deps (ss_current_txouts ?s) (ss_previous_txouts ?s) [] (tx_txins tx)"
  have asm: "?asm demo_spend 0 = Ok (demo_deps, 0)"
    by (simp add: demo_batch_def demo_spend_fields EMPTY_HASH_def get_at_def demo_deps_def)
  have room: "arena_room ?a (56 + (analysis_need demo_layouts demo_spend demo_deps + 1))"
    by (simp add: arena_room_def arena_inv_def Arena_new_def analysis_need_def analyzed_size_def
        serialized_without_txouts_size_def txouts_size_def spends_need_def amends_need_def key_need_def
        demo_layouts_def demo_spend_fields demo_deps_def demo_script_def length_varint_def)
  obtain loc a1 where a1: "try_alloc_array_fill_copy (demo_layouts TySerializedTx) ?a 1 SerializedTx_default [] = Ok (loc, [SerializedTx_default], a1)"
    "arena_after ?a a1 56"
    by (rule try_alloc_array_room [where a = ?a and lay = "demo_layouts TySerializedTx" and n = 1 and v = SerializedTx_default])
      (use arena_room_mono [OF room, of 56] in \<open>simp_all add: demo_layouts_def\<close>)
  note room1 = arena_room_after [OF room a1(2)]
  have "Tx_ok zero_sha demo_spend"
    by (simp add: Tx_ok_def demo_spend_def demo_payment_def array_ok_def TxIn_ok_def witnesses_ok_def txid_def wtxid_def zero_sha_def)
  moreover have "\<not> is_coinbase demo_spend" by (simp add: is_coinbase_def demo_spend_fields TxIn_is_empty_def EMPTY_HASH_def)
  ultimately obtain st a2 where a2: "analyze_tx (sort_key fst) demo_layouts (replicate 32 9) demo_spend demo_deps 0 a1 = Ok (st, a2)"
    "arena_after a1 a2 (analysis_need demo_layouts demo_spend demo_deps)"
    using analyze_tx_eq [OF _ _ _ _ arena_room_mono [OF room1 le_add1] demo_spend_sigops, of zero_sha "replicate 32 9" "sort_key fst" 0]
    by (auto simp: demo_spend_fields)
  note room2 = arena_room_after [OF room1 a2(2)]
  have "arena_room a2 (1 + 0)" using room2 by simp
  then obtain cur p a3 where a3: "alloc_loop a2 1 0 (ar_consumed a2) [] = Ok (cur, p, a3)"
    using alloc_loop_room by blast
  have txs: "bl_txs demo_spending = [demo_spend]" "bh_hash (bl_header demo_spending) = replicate 32 9"
    "ucast (bh_timestamp (bl_header demo_spending)) = (0 :: u64)"
    by (simp_all add: demo_spending_def BlockHeader_default_def)
  show ?thesis
    using asm a1(1) a2(1) a3
    by (simp add: process_block_def txs demo_batch_def idx_at_def get_at_def demo_spend_fields
        try_alloc_array_copy_def block_metrics_def del: alloc_loop.simps)
qed


section \<open>The pipeline of batches\<close>

text \<open>
  The loop of \<open>receive_and_process_blocks\<close> against the task that sends the blocks: \<open>run_master\<close> owns the
  sender of a channel that holds one block, and drops it when it is done.  \<open>Receiver::is_closed\<close> is true
  from then on, also when a block is still in the channel; \<open>recv\<close> ends only when the channel is empty as
  well.  A batch that is empty makes the write task panic at \<open>next_batch[next_batch.len() - 1]\<close>.
\<close>

datatype phase = AtLoop | Receiving | Exited | Panicked

record 'b pipeline =
  pl_unsent :: "'b list"
  pl_sender :: bool
  pl_channel :: "'b list"
  pl_phase :: phase
  pl_batch :: "'b list"
  pl_flushed :: "'b list list"

inductive pipe_step :: "usize \<Rightarrow> 'b pipeline \<Rightarrow> 'b pipeline \<Rightarrow> bool" for MAX_BLOCKS_PER_FLUSH where
  send: "pl_sender p \<Longrightarrow> pl_unsent p = b # bs \<Longrightarrow> pl_channel p = [] \<Longrightarrow>
    pipe_step MAX_BLOCKS_PER_FLUSH p (p\<lparr>pl_unsent := bs, pl_channel := [b]\<rparr>)"
| drop_sender: "pl_sender p \<Longrightarrow> pl_unsent p = [] \<Longrightarrow> pipe_step MAX_BLOCKS_PER_FLUSH p (p\<lparr>pl_sender := False\<rparr>)"
| enter: "pl_phase p = AtLoop \<Longrightarrow> pl_sender p \<Longrightarrow>
    pipe_step MAX_BLOCKS_PER_FLUSH p (p\<lparr>pl_phase := Receiving, pl_batch := []\<rparr>)"
| leave: "pl_phase p = AtLoop \<Longrightarrow> \<not> pl_sender p \<Longrightarrow> pipe_step MAX_BLOCKS_PER_FLUSH p (p\<lparr>pl_phase := Exited\<rparr>)"
| recv: "pl_phase p = Receiving \<Longrightarrow> pl_channel p = [b] \<Longrightarrow> length (pl_batch p) + 1 < MAX_BLOCKS_PER_FLUSH \<Longrightarrow>
    pipe_step MAX_BLOCKS_PER_FLUSH p (p\<lparr>pl_channel := [], pl_batch := pl_batch p @ [b]\<rparr>)"
| recv_last: "pl_phase p = Receiving \<Longrightarrow> pl_channel p = [b] \<Longrightarrow> length (pl_batch p) + 1 = MAX_BLOCKS_PER_FLUSH \<Longrightarrow>
    pipe_step MAX_BLOCKS_PER_FLUSH p
      (p\<lparr>pl_channel := [], pl_batch := [], pl_flushed := pl_flushed p @ [pl_batch p @ [b]], pl_phase := AtLoop\<rparr>)"
| recv_none: "pl_phase p = Receiving \<Longrightarrow> pl_channel p = [] \<Longrightarrow> \<not> pl_sender p \<Longrightarrow> pl_batch p \<noteq> [] \<Longrightarrow>
    pipe_step MAX_BLOCKS_PER_FLUSH p
      (p\<lparr>pl_batch := [], pl_flushed := pl_flushed p @ [pl_batch p], pl_phase := AtLoop\<rparr>)"
| empty_batch: "pl_phase p = Receiving \<Longrightarrow> pl_channel p = [] \<Longrightarrow> \<not> pl_sender p \<Longrightarrow> pl_batch p = [] \<Longrightarrow>
    pipe_step MAX_BLOCKS_PER_FLUSH p (p\<lparr>pl_phase := Panicked\<rparr>)"

definition pipe_start :: "'b list \<Rightarrow> 'b pipeline" where
  "pipe_start blocks = \<lparr>pl_unsent = blocks, pl_sender = True, pl_channel = [], pl_phase = AtLoop, pl_batch = [],
     pl_flushed = []\<rparr>"

definition pipe_reachable :: "usize \<Rightarrow> 'b list \<Rightarrow> 'b pipeline \<Rightarrow> bool" where
  "pipe_reachable MAX_BLOCKS_PER_FLUSH blocks = (pipe_step MAX_BLOCKS_PER_FLUSH)\<^sup>*\<^sup>* (pipe_start blocks)"

definition pipe_ok :: "usize \<Rightarrow> 'b list \<Rightarrow> 'b pipeline \<Rightarrow> bool" where
  "pipe_ok N blocks p \<longleftrightarrow>
     concat (pl_flushed p) @ pl_batch p @ pl_channel p @ pl_unsent p = blocks \<and>
     (\<forall>batch \<in> set (pl_flushed p). batch \<noteq> [] \<and> length batch \<le> N) \<and>
     length (pl_channel p) \<le> 1 \<and> length (pl_batch p) < N \<and>
     (pl_phase p \<noteq> Receiving \<longrightarrow> pl_batch p = []) \<and> (\<not> pl_sender p \<longrightarrow> pl_unsent p = []) \<and>
     (pl_phase p \<in> {Exited, Panicked} \<longrightarrow> \<not> pl_sender p) \<and> (pl_phase p = Panicked \<longrightarrow> pl_channel p = [])"

lemma pipe_step_ok: "pipe_step N p p' \<Longrightarrow> pipe_ok N blocks p \<Longrightarrow> pipe_ok N blocks p'"
  by (induction rule: pipe_step.induct) (simp_all add: pipe_ok_def, (elim conjE, simp)+)

lemma pipe_reachable_ok:
  assumes "pipe_reachable N blocks p" "0 < N"
  shows "pipe_ok N blocks p"
  using assms(1) unfolding pipe_reachable_def
proof (induction rule: rtranclp_induct)
  case base
  then show ?case using assms(2) by (simp add: pipe_ok_def pipe_start_def)
qed (rule pipe_step_ok)

lemma pipe_receive_batch:
  assumes "pl_sender p" "pl_channel p = []" "pl_phase p = Receiving"
  shows "xs \<noteq> [] \<Longrightarrow> pl_unsent p = xs @ ys \<Longrightarrow> length (pl_batch p) + length xs = N \<Longrightarrow>
    (pipe_step N)\<^sup>*\<^sup>* p (p\<lparr>pl_unsent := ys, pl_batch := [], pl_flushed := pl_flushed p @ [pl_batch p @ xs], pl_phase := AtLoop\<rparr>)"
  using assms
proof (induction xs arbitrary: p)
  case (Cons x xs)
  let ?p1 = "p\<lparr>pl_unsent := xs @ ys, pl_channel := [x]\<rparr>"
  have 1: "pipe_step N p ?p1" using pipe_step.send [of p x "xs @ ys" N] Cons.prems by simp
  show ?case
  proof (cases "xs = []")
    case True
    have "pipe_step N ?p1 (?p1\<lparr>pl_channel := [], pl_batch := [], pl_flushed := pl_flushed ?p1 @ [pl_batch ?p1 @ [x]], pl_phase := AtLoop\<rparr>)"
      using pipe_step.recv_last [of ?p1 x N] Cons.prems True by simp
    then have "(pipe_step N)\<^sup>*\<^sup>* p (?p1\<lparr>pl_channel := [], pl_batch := [], pl_flushed := pl_flushed ?p1 @ [pl_batch ?p1 @ [x]], pl_phase := AtLoop\<rparr>)"
      using 1 by simp
    moreover have "?p1\<lparr>pl_channel := [], pl_batch := [], pl_flushed := pl_flushed ?p1 @ [pl_batch ?p1 @ [x]], pl_phase := AtLoop\<rparr> =
        p\<lparr>pl_unsent := ys, pl_batch := [], pl_flushed := pl_flushed p @ [pl_batch p @ x # xs], pl_phase := AtLoop\<rparr>"
      using True Cons.prems(5) by simp
    ultimately show ?thesis by simp
  next
    case False
    let ?p2 = "?p1\<lparr>pl_channel := [], pl_batch := pl_batch ?p1 @ [x]\<rparr>"
    have 2: "pipe_step N ?p1 ?p2" using pipe_step.recv [of ?p1 x N] Cons.prems False by (cases xs) simp_all
    have 3: "(pipe_step N)\<^sup>*\<^sup>* ?p2 (?p2\<lparr>pl_unsent := ys, pl_batch := [], pl_flushed := pl_flushed ?p2 @ [pl_batch ?p2 @ xs], pl_phase := AtLoop\<rparr>)"
      by (rule Cons.IH) (use False Cons.prems in simp_all)
    have eq: "?p2\<lparr>pl_unsent := ys, pl_batch := [], pl_flushed := pl_flushed ?p2 @ [pl_batch ?p2 @ xs], pl_phase := AtLoop\<rparr> =
        p\<lparr>pl_unsent := ys, pl_batch := [], pl_flushed := pl_flushed p @ [pl_batch p @ x # xs], pl_phase := AtLoop\<rparr>"
      using Cons.prems(5) by simp
    show ?thesis using converse_rtranclp_into_rtranclp [OF 1 converse_rtranclp_into_rtranclp [OF 2 3]] unfolding eq .
  qed
qed simp

lemma pipe_batches:
  assumes "0 < N"
  shows "length xs = k * N \<Longrightarrow> \<exists>flushed. concat flushed = xs \<and>
    pipe_reachable N (xs @ ys) ((pipe_start (xs @ ys))\<lparr>pl_unsent := ys, pl_flushed := flushed\<rparr>)"
proof (induction k arbitrary: xs ys)
  case 0
  then show ?case by (intro exI [of _ "[]"]) (simp add: pipe_reachable_def pipe_start_def)
next
  case (Suc k)
  define us vs where "us = take (k * N) xs" and "vs = drop (k * N) xs"
  have xs: "xs = us @ vs" "length us = k * N" "length vs = N" using Suc.prems by (simp_all add: us_def vs_def)
  obtain flushed where f: "concat flushed = us"
    "pipe_reachable N (us @ (vs @ ys)) ((pipe_start (us @ (vs @ ys)))\<lparr>pl_unsent := vs @ ys, pl_flushed := flushed\<rparr>)"
    using Suc.IH [OF xs(2)] by blast
  let ?p = "(pipe_start (xs @ ys))\<lparr>pl_unsent := vs @ ys, pl_flushed := flushed\<rparr>"
  let ?q = "?p\<lparr>pl_phase := Receiving, pl_batch := []\<rparr>"
  have 1: "pipe_step N ?p ?q" by (rule pipe_step.enter) (simp_all add: pipe_start_def)
  have 2: "(pipe_step N)\<^sup>*\<^sup>* ?q (?q\<lparr>pl_unsent := ys, pl_batch := [], pl_flushed := pl_flushed ?q @ [pl_batch ?q @ vs], pl_phase := AtLoop\<rparr>)"
    by (rule pipe_receive_batch) (use xs assms in \<open>auto simp: pipe_start_def\<close>)
  have eq: "?q\<lparr>pl_unsent := ys, pl_batch := [], pl_flushed := pl_flushed ?q @ [pl_batch ?q @ vs], pl_phase := AtLoop\<rparr> =
      (pipe_start (xs @ ys))\<lparr>pl_unsent := ys, pl_flushed := flushed @ [vs]\<rparr>" by (simp add: pipe_start_def)
  have "us @ vs @ ys = xs @ ys" by (simp add: xs(1))
  then have "(pipe_step N)\<^sup>*\<^sup>* (pipe_start (xs @ ys)) ?p" using f(2) by (simp only: pipe_reachable_def)
  from rtranclp_trans [OF this converse_rtranclp_into_rtranclp [OF 1 2]]
  have "pipe_reachable N (xs @ ys) ((pipe_start (xs @ ys))\<lparr>pl_unsent := ys, pl_flushed := flushed @ [vs]\<rparr>)"
    unfolding eq pipe_reachable_def .
  then show ?case using f(1) xs(1) by (intro exI [of _ "flushed @ [vs]"]) simp
qed

text \<open>
  C23: Blocks are flushed in order, in batches that are never empty nor too large, and none twice; when the
  loop is left all blocks but possibly the last have been flushed.
\<close>

theorem pipeline_keeps_order:
  assumes "pipe_reachable MAX_BLOCKS_PER_FLUSH blocks p" "0 < MAX_BLOCKS_PER_FLUSH"
  shows "\<exists>rest. concat (pl_flushed p) @ rest = blocks \<and>
    (\<forall>batch \<in> set (pl_flushed p). batch \<noteq> [] \<and> length batch \<le> MAX_BLOCKS_PER_FLUSH) \<and>
    (pl_phase p = Exited \<longrightarrow> length rest \<le> 1) \<and> (pl_phase p = Panicked \<longrightarrow> rest = [])"
  using pipe_reachable_ok [OF assms]
  by (intro exI [of _ "pl_batch p @ pl_channel p @ pl_unsent p"]) (auto simp: pipe_ok_def)

theorem pipeline_keeps_order_witness:
  "\<exists>flushed. concat flushed = [1, 2 :: nat] \<and>
     (\<exists>rest. concat (pl_flushed ((pipe_start [1, 2, 3])\<lparr>pl_unsent := [3], pl_flushed := flushed\<rparr>)) @ rest = [1, 2, 3 :: nat])"
proof -
  obtain flushed where f: "concat flushed = [1, 2 :: nat]"
    "pipe_reachable 2 ([1, 2] @ [3]) ((pipe_start ([1, 2] @ [3]))\<lparr>pl_unsent := [3], pl_flushed := flushed\<rparr>)"
    using pipe_batches [of 2 "[1, 2]" 1 "[3 :: nat]"] by auto
  show ?thesis using pipeline_keeps_order [OF f(2)] f(1) by auto
qed

text \<open>
  The last block can get lost: when the number of blocks is one more than a multiple of the batch size,
  the sender can be gone before the loop is tested again, which then ends with the block in the channel.
\<close>

lemma last_block_can_be_lost:
  assumes "0 < MAX_BLOCKS_PER_FLUSH" "length blocks = k * MAX_BLOCKS_PER_FLUSH"
  shows "\<exists>p. pipe_reachable MAX_BLOCKS_PER_FLUSH (blocks @ [b]) p \<and> pl_phase p = Exited \<and> concat (pl_flushed p) = blocks"
proof -
  let ?N = MAX_BLOCKS_PER_FLUSH
  obtain flushed where f: "concat flushed = blocks"
    "pipe_reachable ?N (blocks @ [b]) ((pipe_start (blocks @ [b]))\<lparr>pl_unsent := [b], pl_flushed := flushed\<rparr>)"
    using pipe_batches [OF assms] by blast
  let ?p = "(pipe_start (blocks @ [b]))\<lparr>pl_unsent := [b], pl_flushed := flushed\<rparr>"
  have 1: "pipe_step ?N ?p (?p\<lparr>pl_unsent := [], pl_channel := [b]\<rparr>)"
    by (rule pipe_step.send) (simp_all add: pipe_start_def)
  have 2: "pipe_step ?N (?p\<lparr>pl_unsent := [], pl_channel := [b]\<rparr>) (?p\<lparr>pl_unsent := [], pl_channel := [b]\<rparr>\<lparr>pl_sender := False\<rparr>)"
    by (rule pipe_step.drop_sender) (simp_all add: pipe_start_def)
  have 3: "pipe_step ?N (?p\<lparr>pl_unsent := [], pl_channel := [b]\<rparr>\<lparr>pl_sender := False\<rparr>)
      (?p\<lparr>pl_unsent := [], pl_channel := [b]\<rparr>\<lparr>pl_sender := False\<rparr>\<lparr>pl_phase := Exited\<rparr>)"
    by (rule pipe_step.leave) (simp_all add: pipe_start_def)
  note rtranclp.rtrancl_into_rtrancl [OF rtranclp.rtrancl_into_rtrancl [OF rtranclp.rtrancl_into_rtrancl
      [OF f(2) [unfolded pipe_reachable_def] 1] 2] 3]
  then show ?thesis using f(1) by (intro exI conjI) (simp only: pipe_reachable_def, simp_all)
qed

text \<open>
  When the number of blocks is a multiple of the batch size, the loop can be entered once more before
  the sender is gone; the empty batch that follows panics.
\<close>

lemma empty_batch_can_panic:
  assumes "0 < MAX_BLOCKS_PER_FLUSH" "length blocks = k * MAX_BLOCKS_PER_FLUSH"
  shows "\<exists>p. pipe_reachable MAX_BLOCKS_PER_FLUSH blocks p \<and> pl_phase p = Panicked"
proof -
  let ?N = MAX_BLOCKS_PER_FLUSH
  obtain flushed where f: "pipe_reachable ?N blocks ((pipe_start blocks)\<lparr>pl_unsent := [], pl_flushed := flushed\<rparr>)"
    using pipe_batches [OF assms, of "[]"] by auto
  let ?p = "(pipe_start blocks)\<lparr>pl_unsent := [], pl_flushed := flushed\<rparr>"
  have 1: "pipe_step ?N ?p (?p\<lparr>pl_phase := Receiving, pl_batch := []\<rparr>)"
    by (rule pipe_step.enter) (simp_all add: pipe_start_def)
  have 2: "pipe_step ?N (?p\<lparr>pl_phase := Receiving, pl_batch := []\<rparr>) (?p\<lparr>pl_phase := Receiving, pl_batch := []\<rparr>\<lparr>pl_sender := False\<rparr>)"
    by (rule pipe_step.drop_sender) (simp_all add: pipe_start_def)
  have 3: "pipe_step ?N (?p\<lparr>pl_phase := Receiving, pl_batch := []\<rparr>\<lparr>pl_sender := False\<rparr>)
      (?p\<lparr>pl_phase := Receiving, pl_batch := []\<rparr>\<lparr>pl_sender := False\<rparr>\<lparr>pl_phase := Panicked\<rparr>)"
    by (rule pipe_step.empty_batch) (simp_all add: pipe_start_def)
  note rtranclp.rtrancl_into_rtrancl [OF rtranclp.rtrancl_into_rtrancl [OF rtranclp.rtrancl_into_rtrancl
      [OF f [unfolded pipe_reachable_def] 1] 2] 3]
  then show ?thesis by (intro exI conjI) (simp only: pipe_reachable_def, simp)
qed

section \<open>Fee rates\<close>

lemma fee_rate_number:
  assumes "st_size_wus t \<noteq> 0"
  shows "fee_rate t \<noteq> NaN64"
proof -
  let ?n = "unat (st_size_wus t)"
  have n: "0 < ?n" "?n < 2 ^ 32" using assms unsigned_less [of "st_size_wus t"] by (simp_all add: unat_gt_0)
  have q: "(of_nat ?n :: rat) / 4 = of_int (int ?n) * 2 powi - 2" by (simp add: power_int_minus field_simps)
  have "(of_nat ?n :: rat) < 2 ^ 32" using n(2) by (metis of_nat_less_numeral_power_cancel_iff)
  then have "(of_nat ?n :: rat) / 4 < 2 ^ 1024" using power_increasing [of 32 1024 "2 :: rat"] by simp
  moreover have "int ?n < int (2 ^ 32)" using n(2) by (simp only: of_nat_less_iff)
  then have "int ?n < 2 ^ 53" by simp
  ultimately have "f64_round (of_nat ?n / 4) = Fin (of_nat ?n / 4)" by (intro f64_round_exact [OF q]) simp_all
  moreover have "(0 :: rat) < of_nat ?n" using n(1) by (simp only: of_nat_0_less_iff)
  then have "0 < \<lceil>(of_nat ?n :: rat) / 4\<rceil>" unfolding zero_less_ceiling by (rule divide_pos_pos) simp
  then have "of_int \<lceil>(of_nat ?n :: rat) / 4\<rceil> \<noteq> (0 :: rat)" unfolding of_int_eq_0_iff by linarith
  moreover have "f64_from_nat ?n = Fin (of_nat ?n)" using n(2) by (intro f64_from_nat_exact) simp
  ultimately have "f64_ceil (f64_div (f64_from_nat ?n) (Fin 4)) = Fin (of_int \<lceil>(of_nat ?n :: rat) / 4\<rceil>)"
    "of_int \<lceil>(of_nat ?n :: rat) / 4\<rceil> \<noteq> (0 :: rat)" by simp_all
  then show ?thesis
    unfolding fee_rate_def Let_def by (cases "f64_from_nat (unat (st_fee t))") (simp_all add: f64_from_nat_def f64_round_def split: if_splits)
qed

lemma sorted_rank:
  assumes "sorted ys" "k < length ys"
  shows "Suc k \<le> length (filter (\<lambda>r. r \<le> ys ! k) ys)" "length ys - k \<le> length (filter (\<lambda>r. ys ! k \<le> r) ys)"
proof -
  have "filter (\<lambda>r. r \<le> ys ! k) (take (Suc k) ys) = take (Suc k) ys"
    using assms by (auto simp: in_set_conv_nth intro!: filter_True sorted_nth_mono)
  moreover have "length (filter P ys) = length (filter P (take j ys)) + length (filter P (drop j ys))" for P j
    by (metis append_take_drop_id filter_append length_append)
  note split = this
  ultimately show "Suc k \<le> length (filter (\<lambda>r. r \<le> ys ! k) ys)" using assms(2) split [of _ "Suc k"] by simp
  have "filter (\<lambda>r. ys ! k \<le> r) (drop k ys) = drop k ys"
    using assms by (auto simp: in_set_conv_nth intro!: filter_True sorted_nth_mono)
  then show "length ys - k \<le> length (filter (\<lambda>r. ys ! k \<le> r) ys)" using split [of _ k] by simp
qed

lemma length_filter_sort: "length (filter P (sort xs)) = length (filter P xs)"
  by (metis mset_filter mset_sort size_mset)

text \<open>
  When no fee rate is undefined, the metrics of a block give the least and the greatest fee rate and a
  median, with at least half of the rates on either side; the value called average fee rate is the fee per
  transaction, which need not lie between them.
\<close>

lemma block_metrics_values:
  assumes "fee_rates \<noteq> []" "NaN64 \<notin> set fee_rates"
  shows "\<exists>m. block_metrics fees_total volume n fee_rates = Ok m \<and>
    {bm_lowest_fee_rate m, bm_highest_fee_rate m, bm_median_fee_rate m} \<subseteq> set fee_rates \<and>
    (\<forall>r \<in> set fee_rates. bm_lowest_fee_rate m \<le> r \<and> r \<le> bm_highest_fee_rate m) \<and>
    length fee_rates \<le> 2 * length (filter (\<lambda>r. r \<le> bm_median_fee_rate m) fee_rates) \<and>
    length fee_rates \<le> 2 * length (filter (\<lambda>r. bm_median_fee_rate m \<le> r) fee_rates) \<and>
    bm_average_fee_rate m = f64_div (f64_from_nat (unat fees_total)) (f64_from_nat (length fee_rates))"
proof -
  let ?ys = "sort fee_rates" and ?k = "length fee_rates div 2"
  have len: "0 < length ?ys" "?k < length ?ys" using assms(1) by simp_all
  have "sort_f64 fee_rates = Ok ?ys" using assms(2) by (simp add: sort_f64_def)
  then have m: "block_metrics fees_total volume n fee_rates = Ok \<lparr>bm_fees_total = fees_total, bm_volume = volume,
      bm_txs_count = n, bm_average_fee_rate = f64_div (f64_from_nat (unat fees_total)) (f64_from_nat (length fee_rates)),
      bm_lowest_fee_rate = ?ys ! 0, bm_highest_fee_rate = ?ys ! (length ?ys - 1), bm_median_fee_rate = ?ys ! ?k\<rparr>"
    using assms(1) by (simp add: block_metrics_def)
  have "?ys ! i \<in> set fee_rates" if "i < length ?ys" for i using nth_mem [OF that] by simp
  then have mem: "{?ys ! 0, ?ys ! (length ?ys - 1), ?ys ! ?k} \<subseteq> set fee_rates" using len by simp
  have "?ys ! 0 \<le> r \<and> r \<le> ?ys ! (length ?ys - 1)" if "r \<in> set fee_rates" for r
  proof -
    obtain i where "i < length ?ys" "?ys ! i = r" using \<open>r \<in> set fee_rates\<close> by (metis in_set_conv_nth set_sort)
    then show ?thesis using sorted_nth_mono [of ?ys 0 i] sorted_nth_mono [of ?ys i "length ?ys - 1"] by auto
  qed
  moreover note sorted_rank [OF sorted_sort len(2), unfolded length_filter_sort]
  ultimately show ?thesis using m mem by (intro exI conjI) auto
qed

end
