(* ===== verification/FrontPage.thy ===== *)
theory FrontPage
  imports Miners Process
begin

text \<open>
  The data of the front page: the newest blocks and transactions, the statistics by day and the progress
  of the synchronisation (\<open>generate_frontpage_data\<close>, \<open>update_frontpage_data\<close>, \<open>calculate_stats\<close> of
  \<open>src/src/chainman/mod.rs\<close>, \<open>src/src/types/frontpagedata.rs\<close>, \<open>src/src/types/stats.rs\<close>,
  \<open>src/src/chainman/syncspeedtracker.rs\<close>).

  Arguments stand for what the code calls: \<open>hex\<close> (the encoder), \<open>entries\<close> and \<open>tx_of\<close> (the readers
  \<open>get_block_tx_entries\<close> and \<open>get_analyzed_tx\<close>) and \<open>metrics_of\<close> (\<open>db::sqlite::find_block_metrics\<close>).
  The field \<open>btc_price\<close>, always zero, and the serialized form are left out.
\<close>

section \<open>Data\<close>

definition FRONTPAGE_TXS_COUNT :: usize where
  "FRONTPAGE_TXS_COUNT = 50"

definition FRONTPAGE_BLOCKS_COUNT :: usize where
  "FRONTPAGE_BLOCKS_COUNT = 50"

record Stats =
  sa_average_median_fees :: "u32 \<rightharpoonup> f64"
  sa_transactions :: "u32 \<rightharpoonup> usize"
  sa_volume :: "u32 \<rightharpoonup> u64"

definition Stats_default :: Stats where
  "Stats_default = \<lparr>sa_average_median_fees = Map.empty, sa_transactions = Map.empty, sa_volume = Map.empty\<rparr>"

record ShortBlock =
  sb_number :: usize
  sb_hash :: hash32
  sb_tx_count :: usize
  sb_reward_sats :: u64
  sb_timestamp :: u32
  sb_miner_id :: MinerId
  sb_miner_name :: rust_string
  sb_recent_miner_share :: f64

record ShortTx =
  sx_hash :: rust_string
  sx_value :: u64
  sx_size_wus :: u32
  sx_timestamp :: u32
  sx_block_number :: usize
  sx_block_hash :: hash32
  sx_fee_sats :: u64

record SyncStats =
  sy_total_blocks :: usize
  sy_synced_blocks :: usize
  sy_approx_remaining_seconds :: f64

record FrontPageData =
  fp_stats :: Stats
  fp_latest_blocks :: "ShortBlock list"
  fp_latest_txs :: "ShortTx list"
  fp_sync_stats :: "SyncStats option"

definition FrontPageData_default :: FrontPageData where
  "FrontPageData_default = \<lparr>fp_stats = Stats_default, fp_latest_blocks = [], fp_latest_txs = [], fp_sync_stats = None\<rparr>"

datatype FrontPageDataUpdate = Snapshot FrontPageData | Delta FrontPageData

section \<open>Speed of the synchronisation\<close>

text \<open>\<open>elapsed_seconds\<close> is the measured time; \<open>capacity\<close> is that of the queue, fixed when it is created.\<close>

record SyncSpeedTracker =
  ss_last_speeds :: "f64 list"
  ss_capacity :: usize

definition SyncSpeedTracker_tick :: "f64 \<Rightarrow> usize \<Rightarrow> SyncSpeedTracker \<Rightarrow> SyncSpeedTracker" where
  "SyncSpeedTracker_tick elapsed_seconds blocks_received w =
     (let speed = f64_div (f64_from_nat blocks_received) elapsed_seconds;
          w = w\<lparr>ss_last_speeds := ss_last_speeds w @ [speed]\<rparr> in
      if length (ss_last_speeds w) = ss_capacity w then w\<lparr>ss_last_speeds := tl (ss_last_speeds w)\<rparr> else w)"

definition SyncSpeedTracker_estimate_speed :: "SyncSpeedTracker \<Rightarrow> f64" where
  "SyncSpeedTracker_estimate_speed w =
     (if ss_last_speeds w = [] then Fin 0
      else f64_div (foldl f64_add (Fin 0) (ss_last_speeds w)) (f64_from_nat (length (ss_last_speeds w))))"

section \<open>Statistics by day\<close>

text \<open>The blocks of the last fifteen days, newest first, with their time stamps.\<close>

partial_function (option) relevant_from ::
  "Chain \<Rightarrow> u32 \<Rightarrow> BlockHeaderWithNumber \<Rightarrow> (hash32 \<times> u32) list \<Rightarrow> (hash32 \<times> u32) list loop" where
  "relevant_from c cutoff last_hdr acc =
     (let acc = acc @ [(bn_hash last_hdr, bh_timestamp (bn_header last_hdr))] in
      if bn_parent last_hdr = EMPTY_HASH then Some (Ok acc)
      else
        (case ch_known_headers c (bn_parent last_hdr) of
           None \<Rightarrow> Some Panic
         | Some p \<Rightarrow>
             if bh_timestamp (bn_header p) < cutoff then Some (Ok acc)
             else relevant_from c cutoff p acc))"

definition insert_day :: "u32 \<Rightarrow> BlockMetrics list \<Rightarrow> Stats \<Rightarrow> Stats" where
  "insert_day cutoff bms s = s\<lparr>
     sa_average_median_fees := (sa_average_median_fees s)(cutoff \<mapsto>
       f64_div (foldl (\<lambda>sum bm. f64_add sum (bm_median_fee_rate bm)) (Fin 0) bms) (f64_from_nat (length bms))),
     sa_volume := (sa_volume s)(cutoff \<mapsto> sum_list (map bm_volume bms)),
     sa_transactions := (sa_transactions s)(cutoff \<mapsto> foldl (\<lambda>sum bm. wadd sum (bm_txs_count bm)) 0 bms)\<rparr>"

text \<open>\<open>day\<close> holds the metrics of the blocks from \<open>boundary\<close> on.\<close>

fun group_days :: "(u32 \<times> BlockMetrics) list \<Rightarrow> BlockMetrics list \<Rightarrow> u32 \<Rightarrow> Stats \<Rightarrow> Stats" where
  "group_days [] day cutoff result = result"
| "group_days ((timestamp, bm) # rest) day cutoff result =
     (if timestamp < cutoff
      then group_days rest [bm] (cutoff - 86400) (insert_day cutoff day result)
      else group_days rest (day @ [bm]) cutoff result)"

definition calculate_stats ::
  "(hash32 \<Rightarrow> BlockMetrics res) \<Rightarrow> Chain \<Rightarrow> hash32 \<Rightarrow> BlockMetrics list option \<Rightarrow> Stats loop" where
  "calculate_stats metrics_of c h cache =
     (case ch_known_headers c h of
        None \<Rightarrow> Some Panic
      | Some top_header \<Rightarrow>
          let now = bh_timestamp (bn_header top_header) in
          loop_bind (relevant_from c (now - 86400 * 15) top_header []) (\<lambda>relevant.
          let bms = (case cache of Some cache \<Rightarrow> take (length relevant) cache | None \<Rightarrow> []) in
          loop_bind (Some (join_handles (map (metrics_of \<circ> fst) (drop (length bms) relevant)))) (\<lambda>results.
          Some (Ok (group_days (zip (map snd relevant) (bms @ results)) [] (now - now mod 86400) Stats_default)))))"

section \<open>Newest blocks and transactions\<close>

definition short_block ::
  "'r Miners \<Rightarrow> BlockHeaderWithNumber \<Rightarrow> usize \<Rightarrow> u64 \<Rightarrow> ShortBlock res" where
  "short_block w hdr tx_count reward =
     res_bind (get_miner_for_block_and_share w (bn_hash hdr)) (\<lambda>m.
     res_bind (opt_unwrap m) (\<lambda>(miner_id, miner_name, recent_miner_share).
     Ok \<lparr>sb_number = bn_number hdr, sb_hash = bn_hash hdr, sb_tx_count = tx_count, sb_reward_sats = reward,
         sb_timestamp = bh_timestamp (bn_header hdr), sb_miner_id = miner_id, sb_miner_name = miner_name,
         sb_recent_miner_share = recent_miner_share\<rparr>))"

definition short_tx ::
  "(bytes \<Rightarrow> rust_string) \<Rightarrow> BlockHeaderWithNumber \<Rightarrow> hash32 \<Rightarrow> u64 \<Rightarrow> u32 \<Rightarrow> u64 \<Rightarrow> ShortTx" where
  "short_tx hex hdr hash txouts_sum size_wus fee =
     \<lparr>sx_hash = hex (rev hash), sx_value = txouts_sum, sx_size_wus = size_wus,
      sx_timestamp = bh_timestamp (bn_header hdr), sx_block_number = bn_number hdr,
      sx_block_hash = bn_hash hdr, sx_fee_sats = fee\<rparr>"

fun load_txs ::
  "(hash32 \<Rightarrow> AnalyzedTx res) \<Rightarrow> (bytes \<Rightarrow> rust_string) \<Rightarrow> BlockHeaderWithNumber \<Rightarrow> BlockTxEntry list \<Rightarrow> ShortTx list res" where
  "load_txs tx_of hex hdr [] = Ok []"
| "load_txs tx_of hex hdr (e # es) =
     res_bind (res_unwrap (tx_of (bt_hash e))) (\<lambda>tx.
     res_bind (load_txs tx_of hex hdr es) (\<lambda>rest.
     Ok (short_tx hex hdr (bt_hash e) (an_txouts_sum tx) (an_size_wus tx) (an_fee tx) # rest)))"

definition generate_block ::
  "(hash32 \<Rightarrow> BlockTxEntry list res) \<Rightarrow> (hash32 \<Rightarrow> AnalyzedTx res) \<Rightarrow> (bytes \<Rightarrow> rust_string) \<Rightarrow> 'r Miners \<Rightarrow>
   BlockHeaderWithNumber \<Rightarrow> ShortBlock list \<Rightarrow> ShortTx list \<Rightarrow> (ShortBlock list \<times> ShortTx list) res" where
  "generate_block entries tx_of hex w hdr latest_blocks latest_txs =
     res_bind (res_unwrap (entries (bn_hash hdr))) (\<lambda>es.
     res_bind (idx_at es 0) (\<lambda>e.
     res_bind (short_block w hdr (length es) (bt_value_sats e)) (\<lambda>block.
     res_bind (load_txs tx_of hex hdr (take (wsub FRONTPAGE_TXS_COUNT (length latest_txs)) es)) (\<lambda>txs.
     Ok (latest_blocks @ [block], latest_txs @ txs)))))"

partial_function (option) generate_from ::
  "(hash32 \<Rightarrow> BlockTxEntry list res) \<Rightarrow> (hash32 \<Rightarrow> AnalyzedTx res) \<Rightarrow> (bytes \<Rightarrow> rust_string) \<Rightarrow> Chain \<Rightarrow> 'r Miners \<Rightarrow>
   BlockHeaderWithNumber \<Rightarrow> ShortBlock list \<Rightarrow> ShortTx list \<Rightarrow> (ShortBlock list \<times> ShortTx list) loop" where
  "generate_from entries tx_of hex c w hdr latest_blocks latest_txs =
     (if length latest_blocks = FRONTPAGE_BLOCKS_COUNT \<and> length latest_txs = FRONTPAGE_TXS_COUNT
      then Some (Ok (latest_blocks, latest_txs))
      else
        (case generate_block entries tx_of hex w hdr latest_blocks latest_txs of
           Ok r \<Rightarrow>
             if bn_parent hdr = EMPTY_HASH then Some (Ok r)
             else
               (case ch_known_headers c (bn_parent hdr) of
                  None \<Rightarrow> Some Panic
                | Some p \<Rightarrow> generate_from entries tx_of hex c w p (fst r) (snd r))
         | Err e \<Rightarrow> Some (Err e)
         | Panic \<Rightarrow> Some Panic))"

text \<open>An error of \<open>calculate_stats\<close> leaves the data as it is.\<close>

definition generate_frontpage_data ::
  "(hash32 \<Rightarrow> BlockMetrics res) \<Rightarrow> (hash32 \<Rightarrow> BlockTxEntry list res) \<Rightarrow> (hash32 \<Rightarrow> AnalyzedTx res) \<Rightarrow>
   (bytes \<Rightarrow> rust_string) \<Rightarrow> Chain \<Rightarrow> 'r Miners \<Rightarrow> hash32 \<Rightarrow> FrontPageData \<Rightarrow> FrontPageData loop" where
  "generate_frontpage_data metrics_of entries tx_of hex c w top_block_hash old =
     (case calculate_stats metrics_of c top_block_hash None of
        Some (Ok stats) \<Rightarrow>
          (case ch_known_headers c top_block_hash of
             None \<Rightarrow> Some Panic
           | Some hdr \<Rightarrow>
               loop_bind (generate_from entries tx_of hex c w hdr [] []) (\<lambda>(latest_blocks, latest_txs).
               Some (Ok \<lparr>fp_stats = stats, fp_latest_blocks = latest_blocks, fp_latest_txs = latest_txs,
                         fp_sync_stats = None\<rparr>)))
      | Some (Err e) \<Rightarrow> Some (Ok old)
      | Some Panic \<Rightarrow> Some Panic
      | None \<Rightarrow> None)"

text \<open>The blocks of the cache from the last one back; \<open>hdr\<close> is the header of the first in the list.\<close>

fun update_from ::
  "(bytes \<Rightarrow> rust_string) \<Rightarrow> Chain \<Rightarrow> 'r Miners \<Rightarrow> SerializedTx list list \<Rightarrow> BlockHeaderWithNumber \<Rightarrow>
   ShortBlock list \<Rightarrow> ShortTx list \<Rightarrow> (ShortBlock list \<times> ShortTx list) res" where
  "update_from hex c w [] hdr latest_blocks latest_txs = Ok (latest_blocks, latest_txs)"
| "update_from hex c w (block_txs # blocks) hdr latest_blocks latest_txs =
     (if length latest_blocks = FRONTPAGE_BLOCKS_COUNT \<and> length latest_txs = FRONTPAGE_TXS_COUNT
      then Ok (latest_blocks, latest_txs)
      else
        res_bind (idx_at block_txs 0) (\<lambda>t.
        res_bind (short_block w hdr (length block_txs) (st_txouts_sum t)) (\<lambda>block.
        let latest_txs = latest_txs @ map (\<lambda>t. short_tx hex hdr (st_hash t) (st_txouts_sum t) (st_size_wus t) (st_fee t))
              (take (wsub FRONTPAGE_TXS_COUNT (length latest_txs)) block_txs);
            latest_blocks = latest_blocks @ [block] in
        if blocks = [] then Ok (latest_blocks, latest_txs)
        else
          (case ch_known_headers c (bn_parent hdr) of
             None \<Rightarrow> Panic
           | Some p \<Rightarrow> update_from hex c w blocks p latest_blocks latest_txs))))"

definition sync_stats_of :: "Chain \<Rightarrow> usize \<Rightarrow> f64 option \<Rightarrow> SyncStats option" where
  "sync_stats_of c top_synced_block_number sync_speed =
     (let remaining_blocks = wsub (bn_number (ch_top_header c)) top_synced_block_number in
      case sync_speed of
        Some speed \<Rightarrow>
          if remaining_blocks \<noteq> 0
          then Some \<lparr>sy_total_blocks = wadd (bn_number (ch_top_header c)) 1,
                     sy_synced_blocks = wadd top_synced_block_number 1,
                     sy_approx_remaining_seconds = f64_div (f64_from_nat remaining_blocks) speed\<rparr>
          else None
      | None \<Rightarrow> None)"

definition update_frontpage_data ::
  "(hash32 \<Rightarrow> BlockMetrics res) \<Rightarrow> (bytes \<Rightarrow> rust_string) \<Rightarrow> Chain \<Rightarrow> 'r Miners \<Rightarrow> hash32 \<Rightarrow> BlockMetrics list \<Rightarrow>
   SerializedTx list list \<Rightarrow> f64 option \<Rightarrow> FrontPageData \<Rightarrow> (FrontPageData \<times> FrontPageDataUpdate option) loop" where
  "update_frontpage_data metrics_of hex c w top_block_hash metrics_cache analyzed_cache sync_speed old =
     (case calculate_stats metrics_of c top_block_hash (Some metrics_cache) of
        Some (Ok stats) \<Rightarrow>
          (case ch_known_headers c top_block_hash of
             None \<Rightarrow> Some Panic
           | Some hdr \<Rightarrow>
               loop_bind (Some (update_from hex c w (rev analyzed_cache) hdr [] [])) (\<lambda>(latest_blocks, latest_txs).
               let sync_stats = sync_stats_of c (bn_number hdr) sync_speed;
                   missing_blocks = wsub FRONTPAGE_BLOCKS_COUNT (length latest_blocks);
                   missing_txs = wsub FRONTPAGE_TXS_COUNT (length latest_txs);
                   data = \<lparr>fp_stats = stats,
                     fp_latest_blocks = latest_blocks @ take missing_blocks (fp_latest_blocks old),
                     fp_latest_txs = latest_txs @ take missing_txs (fp_latest_txs old),
                     fp_sync_stats = sync_stats\<rparr> in
               Some (Ok (data, Some (if FRONTPAGE_BLOCKS_COUNT \<le> length metrics_cache then Snapshot data else Delta data)))))
      | Some (Err e) \<Rightarrow> Some (Ok (old, None))
      | Some Panic \<Rightarrow> Some Panic
      | None \<Rightarrow> None)"

section \<open>The statistics of the days\<close>

definition recent_blocks_of :: "Chain \<Rightarrow> BlockHeaderWithNumber \<Rightarrow> BlockHeaderWithNumber list" where
  "recent_blocks_of c x =
     x # takeWhile (\<lambda>y. bh_timestamp (bn_header x) - 86400 * 15 \<le> bh_timestamp (bn_header y)) (tl (line (ch_known_headers c) x))"

lemma relevant_from_line:
  assumes "known_ok (ch_known_headers c)" "linked (ch_known_headers c) x"
  shows "relevant_from c cutoff x acc = Some (Ok (acc @ map (\<lambda>y. (bn_hash y, bh_timestamp (bn_header y)))
    (x # takeWhile (\<lambda>y. cutoff \<le> bh_timestamp (bn_header y)) (tl (line (ch_known_headers c) x)))))"
  using assms
proof (induction arbitrary: acc rule: linked_induct)
  case (root x)
  then show ?case by (subst relevant_from.simps) (simp add: linked_root EMPTY_HASH_def)
next
  case (child x p)
  let ?P = "\<lambda>y. cutoff \<le> bh_timestamp (bn_header y)"
  have ne: "bn_parent x \<noteq> EMPTY_HASH" using child.hyps assms(1) by (auto simp: known_ok_def)
  have tw: "takeWhile ?P (line (ch_known_headers c) p) = (if ?P p then p # takeWhile ?P (tl (line (ch_known_headers c) p)) else [])"
    by (subst line_unfold) simp
  have step: "relevant_from c cutoff x acc =
      (if ?P p then relevant_from c cutoff p (acc @ [(bn_hash x, bh_timestamp (bn_header x))])
       else Some (Ok (acc @ [(bn_hash x, bh_timestamp (bn_header x))])))"
    using ne child.hyps(3) by (subst relevant_from.simps) (auto simp: Let_def not_less dest: leD)
  have l: "tl (line (ch_known_headers c) x) = line (ch_known_headers c) p" using child.hyps by simp
  show ?case unfolding step l tw using child.IH [of "acc @ [(bn_hash x, bh_timestamp (bn_header x))]"] by simp
qed

lemma f64_round_0: "f64_round 0 = Fin 0"
  by (simp add: f64_round_def rounded_def)

lemma join_handles_Ok: "join_handles (map (\<lambda>x. Ok (f x)) xs) = Ok (map f xs)"
  by (induction xs) (simp_all add: spawn_blocking_def)

definition stats_of :: "BlockHeaderWithNumber list \<Rightarrow> BlockMetrics list \<Rightarrow> Stats" where
  "stats_of recent bms = (let now = bh_timestamp (bn_header (hd recent)) in
     group_days (zip (map (\<lambda>y. bh_timestamp (bn_header y)) recent) bms) [] (now - now mod 86400) Stats_default)"

lemma calculate_stats_eq:
  assumes "known_ok (ch_known_headers c)" "ch_known_headers c h = Some x"
    and "\<forall>y \<in> set (recent_blocks_of c x). metrics_of (bn_hash y) = Ok (m (bn_hash y))"
  shows "calculate_stats metrics_of c h None =
      Some (Ok (stats_of (recent_blocks_of c x) (map (m \<circ> bn_hash) (recent_blocks_of c x))))"
    and "calculate_stats metrics_of c h (Some cache) =
      Some (Ok (stats_of (recent_blocks_of c x)
        (take (length (recent_blocks_of c x)) cache @ drop (length cache) (map (m \<circ> bn_hash) (recent_blocks_of c x)))))"
proof -
  let ?r = "recent_blocks_of c x"
  have x: "linked (ch_known_headers c) x" "bn_hash x = h" using known_okD [OF assms(1,2)] by simp_all
  have "relevant_from c (bh_timestamp (bn_header x) - 86400 * 15) x [] =
      Some (Ok (map (\<lambda>y. (bn_hash y, bh_timestamp (bn_header y))) ?r))"
    using relevant_from_line [OF assms(1) x(1)] by (simp add: recent_blocks_of_def)
  moreover have joined: "join_handles (map (\<lambda>y. metrics_of (bn_hash y)) (drop n ?r)) = Ok (map (\<lambda>y. m (bn_hash y)) (drop n ?r))" for n
  proof -
    have "map (\<lambda>y. metrics_of (bn_hash y)) (drop n ?r) = map (\<lambda>y. Ok (m (bn_hash y))) (drop n ?r)"
      using assms(3) by (auto dest: in_set_dropD)
    then show ?thesis by (simp only: join_handles_Ok)
  qed
  moreover have "hd ?r = x" by (simp add: recent_blocks_of_def)
  ultimately show "calculate_stats metrics_of c h None = Some (Ok (stats_of ?r (map (m \<circ> bn_hash) ?r)))"
    and "calculate_stats metrics_of c h (Some cache) =
      Some (Ok (stats_of ?r (take (length ?r) cache @ drop (length cache) (map (m \<circ> bn_hash) ?r))))"
    using assms(2) joined [of 0] by (simp_all add: calculate_stats_def stats_of_def Let_def comp_def drop_map min_def)
qed

text \<open>The day of a block, and the metrics of the blocks of a day, newest first.\<close>

definition day_of :: "BlockHeaderWithNumber \<Rightarrow> nat" where
  "day_of y = unat (bh_timestamp (bn_header y)) div 86400"

definition day_metrics :: "(hash32 \<Rightarrow> BlockMetrics) \<Rightarrow> BlockHeaderWithNumber list \<Rightarrow> nat \<Rightarrow> BlockMetrics list" where
  "day_metrics m ys d = map (m \<circ> bn_hash) (filter (\<lambda>y. day_of y = d) ys)"

text \<open>From one block to the one before it the day stays or goes back by one.\<close>

definition no_gaps :: "BlockHeaderWithNumber list \<Rightarrow> bool" where
  "no_gaps ys \<longleftrightarrow> successively (\<lambda>y z. day_of z = day_of y \<or> Suc (day_of z) = day_of y) ys"

definition midnight :: "nat \<Rightarrow> u32" where
  "midnight d = word_of_nat (86400 * d)"

lemma unat_midnight: "d * 86400 < 2 ^ 32 \<Longrightarrow> unat (midnight d) = d * 86400"
  unfolding midnight_def by (subst unat_of_nat) (simp add: mult.commute)

lemma midnight_less: "d * 86400 < 2 ^ 32 \<Longrightarrow> t < midnight d \<longleftrightarrow> unat t div 86400 < d"
  by (simp add: word_less_nat_alt unat_midnight div_less_iff_less_mult)

lemma midnight_Suc: "midnight (Suc d) - 86400 = midnight d"
  by (simp add: midnight_def)

lemma midnight_inj: "d * 86400 < 2 ^ 32 \<Longrightarrow> e * 86400 < 2 ^ 32 \<Longrightarrow> midnight d = midnight e \<longleftrightarrow> d = e"
  by (auto simp: word_unat_eq_iff unat_midnight)

definition day_stats :: "BlockMetrics list \<Rightarrow> nat \<Rightarrow> Stats \<Rightarrow> Stats" where
  "day_stats bms d = insert_day (midnight d) bms"

lemma group_days_eq:
  assumes "no_gaps (z # ys)" "day_of z * 86400 < 2 ^ 32"
  shows "group_days (map (\<lambda>y. (bh_timestamp (bn_header y), m (bn_hash y))) ys) day (midnight (day_of z)) s =
    fold (\<lambda>d. day_stats ((if d = day_of z then day else []) @ day_metrics m ys d) d)
      (rev [Suc (day_of (last (z # ys))) ..< Suc (day_of z)]) s"
  using assms
proof (induction ys arbitrary: z day s)
  case (Cons y ys)
  have gaps: "no_gaps (y # ys)" and y: "day_of y = day_of z \<or> Suc (day_of y) = day_of z"
    using Cons.prems(1) by (simp_all add: no_gaps_def)
  have bound: "day_of y * 86400 < 2 ^ 32" using y Cons.prems(2) by auto
  have le: "day_of (last (y # ys)) \<le> day_of y"
    using gaps
  proof (induction ys arbitrary: y)
    case (Cons a ys)
    then have "day_of (last (a # ys)) \<le> day_of a" "day_of a \<le> day_of y" by (auto simp: no_gaps_def)
    then show ?case by simp
  qed simp
  show ?case
  proof (cases "day_of y = day_of z")
    case True
    then have "\<not> bh_timestamp (bn_header y) < midnight (day_of z)"
      using Cons.prems(2) by (simp add: midnight_less day_of_def [of y, symmetric])
    then have "group_days (map (\<lambda>y. (bh_timestamp (bn_header y), m (bn_hash y))) (y # ys)) day (midnight (day_of z)) s =
        group_days (map (\<lambda>y. (bh_timestamp (bn_header y), m (bn_hash y))) ys) (day @ [m (bn_hash y)]) (midnight (day_of y)) s"
      using True by simp
    also have "\<dots> = fold (\<lambda>d. day_stats ((if d = day_of z then day else []) @ day_metrics m (y # ys) d) d)
        (rev [Suc (day_of (last (z # y # ys))) ..< Suc (day_of z)]) s"
      unfolding Cons.IH [OF gaps bound] using True by (intro fold_cong) (auto simp: day_metrics_def)
    finally show ?thesis .
  next
    case False
    then have z: "day_of z = Suc (day_of y)" using y by simp
    have "bh_timestamp (bn_header y) < midnight (day_of z)"
      using Cons.prems(2) z by (simp add: midnight_less day_of_def [of y, symmetric])
    then have "group_days (map (\<lambda>y. (bh_timestamp (bn_header y), m (bn_hash y))) (y # ys)) day (midnight (day_of z)) s =
        group_days (map (\<lambda>y. (bh_timestamp (bn_header y), m (bn_hash y))) ys) [m (bn_hash y)] (midnight (day_of y))
          (day_stats day (day_of z) s)"
      using z midnight_Suc by (simp add: day_stats_def)
    also have "\<dots> = fold (\<lambda>d. day_stats ((if d = day_of z then day else []) @ day_metrics m (y # ys) d) d)
        (rev [Suc (day_of (last (y # ys))) ..< Suc (day_of y)]) (day_stats day (day_of z) s)"
      unfolding Cons.IH [OF gaps bound] using z by (intro fold_cong) (auto simp: day_metrics_def)
    also have "\<dots> = fold (\<lambda>d. day_stats ((if d = day_of z then day else []) @ day_metrics m (y # ys) d) d)
        (rev [Suc (day_of (last (z # y # ys))) ..< Suc (day_of z)]) s"
    proof -
      have later: "day_of w \<le> day_of y" if "w \<in> set (y # ys)" for w
        using that gaps
      proof (induction ys arbitrary: y)
        case (Cons a ys)
        then show ?case by (fastforce simp: no_gaps_def)
      qed simp
      have "day_metrics m (y # ys) (day_of z) = []"
        using later z Suc_n_not_le_n [of "day_of y"] by (fastforce simp: day_metrics_def filter_empty_conv)
      then show ?thesis using le z by (simp add: upt_Suc_append)
    qed
    finally show ?thesis .
  qed
qed (simp add: no_gaps_def)


text \<open>What the statistics say of a day.\<close>

definition day_entry :: "Stats \<Rightarrow> nat \<Rightarrow> (usize \<times> u64 \<times> f64) option" where
  "day_entry s d =
     (case (sa_transactions s (midnight d), sa_volume s (midnight d), sa_average_median_fees s (midnight d)) of
        (Some n, Some v, Some f) \<Rightarrow> Some (n, v, f)
      | _ \<Rightarrow> None)"

definition summary :: "BlockMetrics list \<Rightarrow> usize \<times> u64 \<times> f64" where
  "summary bms = (foldl (\<lambda>sum bm. wadd sum (bm_txs_count bm)) 0 bms, sum_list (map bm_volume bms),
     f64_div (foldl (\<lambda>sum bm. f64_add sum (bm_median_fee_rate bm)) (Fin 0) bms) (f64_from_nat (length bms)))"

lemma day_entry_default [simp]: "day_entry Stats_default d = None"
  by (simp add: day_entry_def Stats_default_def)

lemma day_entry_insert:
  "d * 86400 < 2 ^ 32 \<Longrightarrow> e * 86400 < 2 ^ 32 \<Longrightarrow>
   day_entry (day_stats bms e s) d = (if d = e then Some (summary bms) else day_entry s d)"
  by (simp add: day_entry_def day_stats_def insert_day_def summary_def midnight_inj)

lemma day_entry_fold:
  "d * 86400 < 2 ^ 32 \<Longrightarrow> \<forall>e \<in> set es. e * 86400 < 2 ^ 32 \<Longrightarrow>
   day_entry (fold (\<lambda>e. day_stats (bms e) e) es s) d = (if d \<in> set es then Some (summary (bms d)) else day_entry s d)"
  by (induction es arbitrary: s) (auto simp: day_entry_insert)

lemma stats_of_day:
  assumes "no_gaps ys" "ys \<noteq> []" "d * 86400 < 2 ^ 32"
  shows "day_entry (stats_of ys (map (m \<circ> bn_hash) ys)) d =
    (if day_of (last ys) < d \<and> d \<le> day_of (hd ys) then Some (summary (day_metrics m ys d)) else None)"
proof -
  obtain z zs where ys: "ys = z # zs" using assms(2) by (cases ys) auto
  have bound: "day_of z * 86400 < 2 ^ 32"
    using le_less_trans [OF div_times_less_eq_dividend [of _ 86400] unat_lt_pow(2) [of "bh_timestamp (bn_header z)"]]
    by (simp add: day_of_def)
  have now: "bh_timestamp (bn_header z) - bh_timestamp (bn_header z) mod 86400 = midnight (day_of z)"
  proof -
    have "bh_timestamp (bn_header z) mod 86400 \<le> bh_timestamp (bn_header z)"
      by (simp add: word_le_nat_alt unat_mod)
    then have "unat (bh_timestamp (bn_header z) - bh_timestamp (bn_header z) mod 86400) =
        unat (bh_timestamp (bn_header z)) - unat (bh_timestamp (bn_header z)) mod 86400"
      by (simp add: unat_sub unat_mod)
    then show ?thesis
      by (simp add: word_unat_eq_iff unat_midnight [OF bound, unfolded day_of_def] day_of_def minus_mod_eq_div_mult)
  qed
  have start: "group_days (map (\<lambda>y. (bh_timestamp (bn_header y), m (bn_hash y))) ys) [] (midnight (day_of z)) Stats_default =
      group_days (map (\<lambda>y. (bh_timestamp (bn_header y), m (bn_hash y))) zs) [m (bn_hash z)] (midnight (day_of z)) Stats_default"
    using midnight_less [OF bound, of "bh_timestamp (bn_header z)"] by (simp add: ys day_of_def)
  have "stats_of ys (map (m \<circ> bn_hash) ys) =
      group_days (map (\<lambda>y. (bh_timestamp (bn_header y), m (bn_hash y))) ys) [] (midnight (day_of z)) Stats_default"
    by (simp add: stats_of_def Let_def ys now zip_map_map zip_same_conv_map comp_def)
  also have "\<dots> = fold (\<lambda>d. day_stats (day_metrics m ys d) d)
      (rev [Suc (day_of (last ys)) ..< Suc (day_of z)]) Stats_default"
    unfolding ys start [unfolded ys] group_days_eq [OF assms(1) [unfolded ys] bound]
    by (intro fold_cong) (auto simp: day_metrics_def)
  finally have eq: "stats_of ys (map (m \<circ> bn_hash) ys) = fold (\<lambda>d. day_stats (day_metrics m ys d) d)
      (rev [Suc (day_of (last ys)) ..< Suc (day_of z)]) Stats_default" .
  have "\<forall>e \<in> set (rev [Suc (day_of (last ys)) ..< Suc (day_of z)]). e * 86400 < 2 ^ 32"
    using bound by auto
  from day_entry_fold [OF assms(3) this] show ?thesis
    unfolding eq by (simp add: ys less_Suc_eq_le Suc_le_eq del: upt_Suc)
qed


text \<open>
  The cache of an update holds the metrics of the newest blocks in the order of their heights, but the
  statistics read it in the order of the walk, newest first: the result is that of metrics in which the
  cached blocks have swapped their values end for end, so values are booked on the wrong days.
\<close>

lemma cached_metrics_reversed:
  assumes "known_ok (ch_known_headers c)" "ch_known_headers c h = Some x"
    and "\<forall>y \<in> set (recent_blocks_of c x). metrics_of (bn_hash y) = Ok (m (bn_hash y))"
    and "k \<le> length (recent_blocks_of c x)"
    and "map (m' \<circ> bn_hash) (recent_blocks_of c x) =
      rev (map (m \<circ> bn_hash) (take k (recent_blocks_of c x))) @ map (m \<circ> bn_hash) (drop k (recent_blocks_of c x))"
  shows "calculate_stats metrics_of c h (Some (rev (map (m \<circ> bn_hash) (take k (recent_blocks_of c x))))) =
    calculate_stats (\<lambda>b. Ok (m' b)) c h None"
  using calculate_stats_eq(2) [OF assms(1-3), of "rev (map (m \<circ> bn_hash) (take k (recent_blocks_of c x)))"]
    calculate_stats_eq(1) [OF assms(1,2), of "\<lambda>b. Ok (m' b)" m'] assms(4)
  by (simp add: assms(5) drop_map)


text \<open>A chain whose second and third block are one day younger than the first.\<close>

definition retime :: "(hash32 \<Rightarrow> u32) \<Rightarrow> BlockHeaderWithNumber \<Rightarrow> BlockHeaderWithNumber" where
  "retime f y = y\<lparr>bn_header := (bn_header y)\<lparr>bh_timestamp := f (bn_hash y)\<rparr>\<rparr>"

lemma retime_fields [simp]:
  "bn_hash (retime f y) = bn_hash y" "bn_parent (retime f y) = bn_parent y" "bn_number (retime f y) = bn_number y"
  "bh_bits (bn_header (retime f y)) = bh_bits (bn_header y)"
  "header_work (bn_header (retime f y)) = header_work (bn_header y)" "bn_total_work (retime f y) = bn_total_work y"
  "bh_timestamp (bn_header (retime f y)) = f (bn_hash y)"
  by (simp_all add: retime_def header_work_def)

lemma retime_known_ok:
  assumes "known_ok known"
  shows "known_ok (map_option (retime f) \<circ> known)" (is "known_ok ?k")
  unfolding known_ok_def
proof (intro conjI allI impI)
  show "?k EMPTY_HASH = None" using assms by (simp add: known_ok_def)
  have linked: "linked ?k (retime f x)" if "linked known x" for x
    using that by (auto simp: linked_def)
  show "bn_hash x = h" "linked ?k x" if k: "?k h = Some x" for h x
  proof -
    obtain x' where x': "known h = Some x'" "x = retime f x'" using k by auto
    show "bn_hash x = h" "linked ?k x"
      using known_okD [OF assms x'(1)] linked x'(2) by simp_all
  qed
  show "bn_hash x = bn_hash y"
    if xy: "x \<in> ran ?k" "y \<in> ran ?k" and zero: "bn_number x = 0" "bn_number y = 0" for x y
  proof -
    have "x \<in> retime f ` ran known" "y \<in> retime f ` ran known" using xy by (auto simp: ran_def image_iff)
    then obtain x' y' where xy': "x' \<in> ran known" "y' \<in> ran known" "x = retime f x'" "y = retime f y'" by blast
    then have "bn_number x' = 0" "bn_number y' = 0" using zero by simp_all
    then have "bn_hash x' = bn_hash y'" using assms xy'(1,2) unfolding known_ok_def by blast
    then show ?thesis by (simp add: xy')
  qed
qed

definition demo_days :: Chain where
  "demo_days = demo_chain\<lparr>ch_known_headers :=
     map_option (retime (\<lambda>h. if h = demo_hash 1 then 1800000 else 1900000)) \<circ> demo_known\<rparr>"

lemma demo_days_recent:
  "known_ok (ch_known_headers demo_days)"
  "ch_known_headers demo_days (demo_hash 3) = Some (retime (\<lambda>_. 1900000) (demo_entry 3 (demo_hash 2) 2))"
  "recent_blocks_of demo_days (retime (\<lambda>_. 1900000) (demo_entry 3 (demo_hash 2) 2)) =
    [retime (\<lambda>_. 1900000) (demo_entry 3 (demo_hash 2) 2), retime (\<lambda>_. 1900000) (demo_entry 2 (demo_hash 1) 1),
     retime (\<lambda>_. 1800000) (demo_entry 1 EMPTY_HASH 0)]"
  using retime_known_ok [OF demo_known_ok]
  by (simp_all add: demo_days_def recent_blocks_of_def) (simp_all add: retime_def)


section \<open>Newest blocks and transactions\<close>

text \<open>The transactions of a block, as they were analysed and as the database holds them.\<close>

type_synonym bodies = "hash32 \<Rightarrow> SerializedTx list"

definition placed_block :: "'r Miners \<Rightarrow> bodies \<Rightarrow> BlockHeaderWithNumber \<Rightarrow> bool" where
  "placed_block w body y \<longleftrightarrow> body (bn_hash y) \<noteq> [] \<and> (\<exists>r. get_miner_for_block_and_share w (bn_hash y) = Ok (Some r))"

definition stored_tx :: "(hash32 \<Rightarrow> AnalyzedTx res) \<Rightarrow> BlockTxEntry \<Rightarrow> SerializedTx \<Rightarrow> bool" where
  "stored_tx tx_of e t \<longleftrightarrow> bt_hash e = st_hash t \<and> bt_value_sats e = st_txouts_sum t \<and>
     (\<exists>a. tx_of (st_hash t) = Ok a \<and> an_txouts_sum a = st_txouts_sum t \<and> an_size_wus a = st_size_wus t \<and> an_fee a = st_fee t)"

definition stored_body ::
  "(hash32 \<Rightarrow> BlockTxEntry list res) \<Rightarrow> (hash32 \<Rightarrow> AnalyzedTx res) \<Rightarrow> bodies \<Rightarrow> BlockHeaderWithNumber \<Rightarrow> bool" where
  "stored_body entries tx_of body y \<longleftrightarrow>
     (\<exists>es. entries (bn_hash y) = Ok es \<and> list_all2 (stored_tx tx_of) es (body (bn_hash y)))"

definition listed_block :: "'r Miners \<Rightarrow> bodies \<Rightarrow> BlockHeaderWithNumber \<Rightarrow> ShortBlock" where
  "listed_block w body y =
     (case short_block w y (length (body (bn_hash y))) (st_txouts_sum (hd (body (bn_hash y)))) of Ok b \<Rightarrow> b)"

definition listed_txs :: "(bytes \<Rightarrow> rust_string) \<Rightarrow> bodies \<Rightarrow> BlockHeaderWithNumber \<Rightarrow> ShortTx list" where
  "listed_txs hex body y =
     map (\<lambda>t. short_tx hex y (st_hash t) (st_txouts_sum t) (st_size_wus t) (st_fee t)) (body (bn_hash y))"

lemma short_block_placed:
  assumes "placed_block w body y"
  shows "short_block w y (length (body (bn_hash y))) (st_txouts_sum (hd (body (bn_hash y)))) = Ok (listed_block w body y)"
  using assms by (auto simp: placed_block_def listed_block_def short_block_def)

lemma load_txs_stored:
  "list_all2 (stored_tx tx_of) es ts \<Longrightarrow> load_txs tx_of hex y es =
    Ok (map (\<lambda>t. short_tx hex y (st_hash t) (st_txouts_sum t) (st_size_wus t) (st_fee t)) ts)"
  by (induction rule: list_all2_induct) (auto simp: stored_tx_def)

lemma take_refill: "length a \<le> n \<Longrightarrow> take n (a @ take (n - length a) b @ c) = take n (a @ b @ c)"
  by (cases "length b \<le> n - length a") simp_all

lemma generated_block:
  assumes "placed_block w body y" "stored_body entries tx_of body y" "length ts \<le> 50"
  shows "generate_block entries tx_of hex w y bs ts =
    Ok (bs @ [listed_block w body y], ts @ take (50 - length ts) (listed_txs hex body y))"
proof -
  obtain es where es: "entries (bn_hash y) = Ok es" "list_all2 (stored_tx tx_of) es (body (bn_hash y))"
    using assms(2) by (auto simp: stored_body_def)
  have "body (bn_hash y) \<noteq> []" using assms(1) by (simp add: placed_block_def)
  with es(2) obtain e es' t ts' where c: "es = e # es'" "body (bn_hash y) = t # ts'" "stored_tx tx_of e t"
    by (cases es; cases "body (bn_hash y)") auto
  have "length es = length (body (bn_hash y))" using es(2) by (rule list_all2_lengthD)
  moreover have "bt_value_sats e = st_txouts_sum (hd (body (bn_hash y)))" using c by (simp add: stored_tx_def)
  moreover have "load_txs tx_of hex y (take n es) = Ok (take n (listed_txs hex body y))" for n
    using load_txs_stored [OF list_all2_takeI [OF es(2)]] by (simp add: listed_txs_def take_map)
  moreover have "idx_at es 0 = Ok e" by (simp add: c idx_at_def get_at_def)
  ultimately show ?thesis
    using short_block_placed [OF assms(1)] assms(3) by (simp add: generate_block_def es(1) FRONTPAGE_TXS_COUNT_def)
qed

lemma generated_from:
  assumes "known_ok (ch_known_headers c)" "linked (ch_known_headers c) x"
  shows "\<forall>y \<in> set (line (ch_known_headers c) x). placed_block w body y \<and> stored_body entries tx_of body y \<Longrightarrow>
    length bs \<le> length ts \<Longrightarrow> length ts \<le> 50 \<Longrightarrow>
    generate_from entries tx_of hex c w x bs ts = Some (Ok
      (take 50 (bs @ map (listed_block w body) (line (ch_known_headers c) x)),
       take 50 (ts @ concat (map (listed_txs hex body) (line (ch_known_headers c) x)))))"
  using assms
proof (induction arbitrary: bs ts rule: linked_induct)
  case (root x)
  then show ?case
    by (subst generate_from.simps)
      (auto simp: generated_block FRONTPAGE_BLOCKS_COUNT_def FRONTPAGE_TXS_COUNT_def linked_root EMPTY_HASH_def)
next
  case (child x p)
  let ?k = "ch_known_headers c"
  let ?bs = "bs @ [listed_block w body x]" and ?ts = "ts @ take (50 - length ts) (listed_txs hex body x)"
  have ne: "bn_parent x \<noteq> EMPTY_HASH" using child.hyps assms(1) by (auto simp: known_ok_def)
  have l: "line ?k x = x # line ?k p" using child.hyps by simp
  have x: "placed_block w body x" "stored_body entries tx_of body x" using child.prems(1) l by simp_all
  show ?case
  proof (cases "length bs = 50 \<and> length ts = 50")
    case True
    then show ?thesis
      by (subst generate_from.simps) (simp add: FRONTPAGE_BLOCKS_COUNT_def FRONTPAGE_TXS_COUNT_def)
  next
    case False
    have "listed_txs hex body x \<noteq> []" using x(1) by (simp add: placed_block_def listed_txs_def)
    then have "0 < length (listed_txs hex body x)" by simp
    then have len: "length ?bs \<le> length ?ts" "length ?ts \<le> 50"
      using False child.prems(2,3) by (auto simp: min_def simp del: length_greater_0_conv)
    have "generate_from entries tx_of hex c w x bs ts = generate_from entries tx_of hex c w p ?bs ?ts"
      using False child.prems(3) x ne child.hyps(3)
      by (subst generate_from.simps) (auto simp: generated_block FRONTPAGE_BLOCKS_COUNT_def FRONTPAGE_TXS_COUNT_def)
    also have "\<dots> = Some (Ok (take 50 (?bs @ map (listed_block w body) (line ?k p)),
        take 50 (?ts @ concat (map (listed_txs hex body) (line ?k p)))))"
      using child.IH [OF _ len] child.prems(1) l by simp
    finally show ?thesis using take_refill [OF child.prems(3)] by (simp only: l list.map concat.simps append_assoc append_Cons append_Nil)
  qed
qed

lemma updated_block:
  assumes "placed_block w body y" "length ts \<le> 50" "\<not> (length bs = 50 \<and> length ts = 50)"
  shows "update_from hex c w (body (bn_hash y) # blocks) y bs ts =
    (let bs = bs @ [listed_block w body y]; ts = ts @ take (50 - length ts) (listed_txs hex body y) in
     if blocks = [] then Ok (bs, ts)
     else (case ch_known_headers c (bn_parent y) of None \<Rightarrow> Panic | Some p \<Rightarrow> update_from hex c w blocks p bs ts))"
proof -
  have "idx_at (body (bn_hash y)) 0 = Ok (hd (body (bn_hash y)))"
    using assms(1) by (simp add: placed_block_def idx_at_def get_at_def hd_conv_nth)
  then show ?thesis
    using assms(2,3) short_block_placed [OF assms(1)]
    by (auto simp: FRONTPAGE_BLOCKS_COUNT_def FRONTPAGE_TXS_COUNT_def listed_txs_def take_map Let_def)
qed

lemma updated_from:
  assumes "known_ok (ch_known_headers c)" "linked (ch_known_headers c) x"
  shows "\<forall>y \<in> set (line (ch_known_headers c) x). placed_block w body y \<Longrightarrow>
    length bs \<le> length ts \<Longrightarrow> length ts \<le> 50 \<Longrightarrow>
    update_from hex c w (map (body \<circ> bn_hash) (take k (line (ch_known_headers c) x))) x bs ts = Ok
      (take 50 (bs @ map (listed_block w body) (take k (line (ch_known_headers c) x))),
       take 50 (ts @ concat (map (listed_txs hex body) (take k (line (ch_known_headers c) x)))))"
  using assms
proof (induction arbitrary: bs ts k rule: linked_induct)
  case (root x)
  then show ?case
  proof (cases "k = 0 \<or> length bs = 50 \<and> length ts = 50")
    case True
    then show ?thesis using root by (cases k) (auto simp: FRONTPAGE_BLOCKS_COUNT_def FRONTPAGE_TXS_COUNT_def)
  next
    case False
    then show ?thesis
      using root updated_block [of w body x ts bs hex c "[]"] by (cases k) (auto simp: Let_def)
  qed
next
  case (child x p)
  let ?k = "ch_known_headers c"
  let ?bs = "bs @ [listed_block w body x]" and ?ts = "ts @ take (50 - length ts) (listed_txs hex body x)"
  have l: "line ?k x = x # line ?k p" using child.hyps by simp
  have x: "placed_block w body x" using child.prems(1) l by simp
  show ?case
  proof (cases "k = 0 \<or> length bs = 50 \<and> length ts = 50")
    case True
    then show ?thesis
      using child.prems l by (cases k) (auto simp: FRONTPAGE_BLOCKS_COUNT_def FRONTPAGE_TXS_COUNT_def)
  next
    case False
    then obtain k' where k: "k = Suc k'" and n: "\<not> (length bs = 50 \<and> length ts = 50)" by (cases k) auto
    have "listed_txs hex body x \<noteq> []" using x by (simp add: placed_block_def listed_txs_def)
    then have "0 < length (listed_txs hex body x)" by simp
    then have len: "length ?bs \<le> length ?ts" "length ?ts \<le> 50"
      using n child.prems(2,3) by (auto simp: min_def simp del: length_greater_0_conv)
    have last: "take 50 (?bs @ []) = ?bs" "take 50 (?ts @ []) = ?ts" using len by simp_all
    have "update_from hex c w (map (body \<circ> bn_hash) (take k (line ?k x))) x bs ts =
        update_from hex c w (map (body \<circ> bn_hash) (take k' (line ?k p))) p ?bs ?ts"
      using updated_block [OF x child.prems(3) n, of hex c "map (body \<circ> bn_hash) (take k' (line ?k p))"] child.hyps(3)
      by (cases "map (body \<circ> bn_hash) (take k' (line ?k p)) = []") (simp_all add: l k Let_def)
    also have "\<dots> = Ok (take 50 (?bs @ map (listed_block w body) (take k' (line ?k p))),
        take 50 (?ts @ concat (map (listed_txs hex body) (take k' (line ?k p)))))"
      by (rule child.IH [OF _ len]) (use child.prems(1) l in simp)
    finally show ?thesis
      using take_refill [OF child.prems(3)]
      by (simp only: l k take_Suc_Cons list.map concat.simps append_assoc append_Cons append_Nil)
  qed
qed


text \<open>What a list says of a block, apart from its miner, whose share changes with time.\<close>

definition block_facts :: "ShortBlock \<Rightarrow> usize \<times> hash32 \<times> usize \<times> u64 \<times> u32" where
  "block_facts b = (sb_number b, sb_hash b, sb_tx_count b, sb_reward_sats b, sb_timestamp b)"

lemma listed_block_facts:
  assumes "placed_block w body y"
  shows "block_facts (listed_block w body y) =
    (bn_number y, bn_hash y, length (body (bn_hash y)), st_txouts_sum (hd (body (bn_hash y))), bh_timestamp (bn_header y))"
  using assms by (auto simp: placed_block_def listed_block_def short_block_def block_facts_def)

lemma generated_data:
  assumes "known_ok (ch_known_headers c)" "ch_known_headers c h = Some x"
    and "\<forall>y \<in> set (line (ch_known_headers c) x). placed_block w body y \<and> stored_body entries tx_of body y"
    and "calculate_stats metrics_of c h None = Some (Ok s)"
  shows "generate_frontpage_data metrics_of entries tx_of hex c w h d = Some (Ok
    \<lparr>fp_stats = s, fp_latest_blocks = take 50 (map (listed_block w body) (line (ch_known_headers c) x)),
     fp_latest_txs = take 50 (concat (map (listed_txs hex body) (line (ch_known_headers c) x))), fp_sync_stats = None\<rparr>)"
  using generated_from [OF assms(1) known_okD(2) [OF assms(1,2)] assms(3), of "[]" "[]"] assms(2,4)
  by (simp add: generate_frontpage_data_def)

lemma updated_data:
  assumes "known_ok (ch_known_headers c)" "ch_known_headers c h = Some x"
    and "\<forall>y \<in> set (line (ch_known_headers c) x). placed_block w body y"
    and "calculate_stats metrics_of c h (Some cache) = Some (Ok s)"
  shows "\<exists>upd. update_frontpage_data metrics_of hex c w h cache
      (rev (map (body \<circ> bn_hash) (take k (line (ch_known_headers c) x)))) speed old = Some (Ok
    (\<lparr>fp_stats = s,
      fp_latest_blocks = take 50 (map (listed_block w body) (take k (line (ch_known_headers c) x)) @ fp_latest_blocks old),
      fp_latest_txs = take 50 (concat (map (listed_txs hex body) (take k (line (ch_known_headers c) x))) @ fp_latest_txs old),
      fp_sync_stats = sync_stats_of c (bn_number x) speed\<rparr>, Some upd))"
  using updated_from [OF assms(1) known_okD(2) [OF assms(1,2)] assms(3), of "[]" "[]" hex k] assms(2,4)
  by (simp add: update_frontpage_data_def Let_def FRONTPAGE_BLOCKS_COUNT_def FRONTPAGE_TXS_COUNT_def min_def)



text \<open>Every block of the chain is placed and consists of one transaction.\<close>

definition demo_placed :: "bytes Miners" where
  "demo_placed = demo_miners\<lparr>ms_block_miners := (\<lambda>_. Some UNKNOWN_ID), ms_recent_counts := [UNKNOWN_ID \<mapsto> 3]\<rparr>"


end
