(* ===== verification/KeepUp.thy ===== *)
theory KeepUp
  imports FrontPage
begin

text \<open>
  Keeping up with the chain after the first synchronisation (\<open>src/src/chainman/keepup.rs\<close>): the worker
  manager that hands each job to one worker, and the chain watcher with its queue of blocks to apply, its
  reaction to a new header and to a new block, and the analysis of one block.

  The services the code calls are one record: the readers and the order of the database, the regular
  expressions, the clock and the encoder.  Channels are lists of what has been sent on them.  Log messages
  are left out.
\<close>

section \<open>The worker manager\<close>

text \<open>
  One job: a random worker is taken out of the list and gets the job, unless it has quit; then the next one
  is drawn.  \<open>alive\<close> are the workers that still listen, the last argument the worker that got the job.
\<close>

definition swap_remove :: "'a list \<Rightarrow> usize \<Rightarrow> 'a \<times> 'a list" where
  "swap_remove xs i = (xs ! i, butlast (xs[i := last xs]))"

definition register_worker :: "'w list \<Rightarrow> 'w \<Rightarrow> 'w list" where
  "register_worker workers new_worker = workers @ [new_worker]"

inductive dispatch_job :: "'w set \<Rightarrow> 'w list \<Rightarrow> 'w list \<Rightarrow> 'w option \<Rightarrow> bool" for alive where
  lost: "dispatch_job alive [] [] None"
| sent: "worker_idx < length workers \<Longrightarrow> swap_remove workers worker_idx = (worker, rest) \<Longrightarrow>
    worker \<in> alive \<Longrightarrow> dispatch_job alive workers rest (Some worker)"
| quit: "worker_idx < length workers \<Longrightarrow> swap_remove workers worker_idx = (worker, rest) \<Longrightarrow>
    worker \<notin> alive \<Longrightarrow> dispatch_job alive rest workers' r \<Longrightarrow> dispatch_job alive workers workers' r"

section \<open>Data\<close>

datatype FrontPageDataUpdateStrategy = RegenerateFromScratch | Append

type_synonym queued_block = "usize \<times> hash32 \<times> FrontPageDataUpdateStrategy"

record 'r services =
  sv_sha :: "bytes \<Rightarrow> bytes"
  sv_layouts :: layouts
  sv_sorters :: sorters
  sv_sort_amends :: "(bytes \<times> i64) list \<Rightarrow> (bytes \<times> i64) list"
  sv_arena :: arena
  sv_get_transaction_outputs :: "hash32 \<Rightarrow> TxOut list res"
  sv_get_block_tx_entries :: "hash32 \<Rightarrow> BlockTxEntry list res"
  sv_get_analyzed_tx :: "hash32 \<Rightarrow> AnalyzedTx res"
  sv_find_block_metrics :: "hash32 \<Rightarrow> BlockMetrics res"
  sv_is_match :: "'r \<Rightarrow> bytes \<Rightarrow> bool"
  sv_order :: "MinerId list"
  sv_now :: u64
  sv_hex :: "bytes \<Rightarrow> rust_string"

text \<open>
  The state of the watcher and the globals it changes; \<open>ku_written\<close> is what was handed to the writers of
  the tables, \<open>ku_jobs\<close>, \<open>ku_new_headers\<close> and \<open>ku_applied\<close> what was sent on the channels, oldest first.
\<close>

record 'r KeepUp =
  ku_man :: ChainMan
  ku_queue :: "queued_block list"
  ku_miners :: "'r Miners"
  ku_frontpage :: FrontPageData
  ku_written :: "(hash32 \<times> table_writes \<times> BlockMetrics) list"
  ku_jobs :: "hash32 list"
  ku_new_headers :: "hash32 list"
  ku_applied :: "hash32 list"

section \<open>A new header\<close>

fun queue_fork :: "usize \<Rightarrow> usize \<Rightarrow> (hash32 \<times> usize) list \<Rightarrow> queued_block list" where
  "queue_fork first_number i [] = []"
| "queue_fork first_number i ((hash, _) # blocks) =
     (wadd first_number i, hash, if i = 0 then RegenerateFromScratch else Append) # queue_fork first_number (i + 1) blocks"

definition queue_blocks :: "BlockHeader \<Rightarrow> usize \<Rightarrow> (hash32 \<times> usize) list \<Rightarrow> queued_block list" where
  "queue_blocks header new_top_number blocks_to_apply =
     (if length blocks_to_apply = 1 then [(new_top_number, bh_hash header, Append)]
      else
        let first_number = wsub (wsub new_top_number (length blocks_to_apply)) 1 in
        queue_fork first_number 0 blocks_to_apply)"

definition handle_new_header :: "BlockHeader \<Rightarrow> 'r KeepUp \<Rightarrow> 'r KeepUp loop" where
  "handle_new_header header s =
     (let c = cm_chain (ku_man s) in
      if ch_known_headers c (bh_hash header) \<noteq> None then Some (Ok s)
      else if ch_known_headers c (bh_parent header) = None then Some (Ok s)
      else
        (case validate_and_apply_header_inner header (ku_man s) False of
           None \<Rightarrow> None
         | Some Panic \<Rightarrow> Some Panic
         | Some (Err _) \<Rightarrow> Some (Ok s)
         | Some (Ok (None, m)) \<Rightarrow> Some (Ok (s\<lparr>ku_man := m\<rparr>))
         | Some (Ok (Some header_application_result, m)) \<Rightarrow>
             let w = update_most_work_chain header_application_result (cm_chain m);
                 blocks_to_apply = har_added_blocks header_application_result in
             Some (Ok (s\<lparr>ku_man := m\<lparr>cm_chain := w\<rparr>,
               ku_queue := ku_queue s @ queue_blocks header (bn_number (ch_top_header w)) blocks_to_apply,
               ku_new_headers := ku_new_headers s @ [bn_hash (ch_top_header w)]\<rparr>))))"

section \<open>Applying a block\<close>

datatype pending_dep = Left TxOut | Right usize

text \<open>The outputs that the transactions of the block spend: from the block itself or to be read from disk.\<close>

fun collect_deps ::
  "(hash32 \<rightharpoonup> Tx) \<Rightarrow> TxIn list \<Rightarrow> pending_dep list \<Rightarrow> (hash32 \<times> usize) list \<Rightarrow> (pending_dep list \<times> (hash32 \<times> usize) list) res" where
  "collect_deps self_txs [] pending_deps deps_handles = Ok (pending_deps, deps_handles)"
| "collect_deps self_txs (txin # txins) pending_deps deps_handles =
     (case self_txs (ti_prevout_hash txin) of
        Some from_tx \<Rightarrow>
          res_bind (idx_at (tx_txouts from_tx) (unat (ti_prevout_index txin))) (\<lambda>txout.
          collect_deps self_txs txins (pending_deps @ [Left txout]) deps_handles)
      | None \<Rightarrow>
          collect_deps self_txs txins (pending_deps @ [Right (length deps_handles)])
            (deps_handles @ [(ti_prevout_hash txin, unat (ti_prevout_index txin))]))"

fun resolve_deps :: "TxOut list \<Rightarrow> pending_dep list \<Rightarrow> TxOut list res" where
  "resolve_deps owned_deps [] = Ok []"
| "resolve_deps owned_deps (dep # pending_deps) =
     res_bind (case dep of Left txout \<Rightarrow> Ok txout | Right owned_idx \<Rightarrow> idx_at owned_deps owned_idx) (\<lambda>txout.
     res_bind (resolve_deps owned_deps pending_deps) (\<lambda>deps. Ok (txout # deps)))"

definition take_deps :: "TxOut list \<Rightarrow> Tx \<Rightarrow> usize \<Rightarrow> (TxOut list \<times> usize) res" where
  "take_deps deps tx consumed =
     (let txin_count = (if is_coinbase tx then 0 else length (tx_txins tx)) in
      res_bind (idx_range deps consumed (wadd consumed txin_count)) (\<lambda>own.
      Ok (own, wadd consumed txin_count)))"

text \<open>
  From the outputs on: the records of the transactions, the text of the coinbase and the metrics.
  An empty block panics where the capacity for the fee rates is computed.
\<close>

definition analyze_block ::
  "'r services \<Rightarrow> Block \<Rightarrow> TxOut list \<Rightarrow> (SerializedTx list \<times> bytes \<times> BlockMetrics \<times> arena) res" where
  "analyze_block sv block deps =
     (if bl_txs block = [] then Panic
      else
        res_bind (analyze_txs (sv_sort_amends sv) (sv_layouts sv) (bh_hash (bl_header block))
            (ucast (bh_timestamp (bl_header block))) (take_deps deps) (bl_txs block) 0 (sv_arena sv)) (\<lambda>(analyzed_txs, a).
        res_bind (idx_at (tx_txins (bl_txs block ! 0)) 0) (\<lambda>txin.
        res_bind (res_unwrap (try_alloc_array_copy (16, 8) a [ti_sig_script txin] [])) (\<lambda>(_, coinbase_asciis, a).
        let fee_rates = map (fee_rate \<circ> snd) (filter (\<lambda>(tx, _). \<not> is_coinbase tx) (zip (bl_txs block) analyzed_txs)) in
        res_bind (block_metrics (sum_list (map st_fee analyzed_txs)) (sum_list (map st_txouts_sum analyzed_txs))
            (length (bl_txs block)) fee_rates) (\<lambda>metrics.
        Ok (analyzed_txs, ti_sig_script txin, metrics, a))))))"

definition update_shown ::
  "'r services \<Rightarrow> BlockHeader \<Rightarrow> usize \<Rightarrow> SerializedTx list \<Rightarrow> bytes \<Rightarrow> BlockMetrics \<Rightarrow> FrontPageDataUpdateStrategy \<Rightarrow>
   'r KeepUp \<Rightarrow> 'r KeepUp loop" where
  "update_shown sv header number analyzed_txs coinbase_ascii metrics frontpage_strat s =
     (case frontpage_strat of
        RegenerateFromScratch \<Rightarrow>
          loop_bind (callback_chain_reorg (sv_is_match sv) (sv_order sv) (sv_now sv) (cm_chain (ku_man s))
              (bh_hash header) (ku_miners s)) (\<lambda>w.
          loop_bind (generate_frontpage_data (sv_find_block_metrics sv) (sv_get_block_tx_entries sv) (sv_get_analyzed_tx sv)
              (sv_hex sv) (cm_chain (ku_man s)) w (bh_hash header) (ku_frontpage s)) (\<lambda>data.
          Some (Ok (s\<lparr>ku_miners := w, ku_frontpage := data\<rparr>))))
      | Append \<Rightarrow>
          loop_bind (Some (callback_chain_extended (sv_is_match sv) (sv_order sv) [bh_hash header] [number]
              [ucast (bh_timestamp header)] [coinbase_ascii] (ku_miners s))) (\<lambda>w.
          loop_bind (update_frontpage_data (sv_find_block_metrics sv) (sv_hex sv) (cm_chain (ku_man s)) w (bh_hash header)
              [metrics] [analyzed_txs] None (ku_frontpage s)) (\<lambda>(data, _).
          Some (Ok (s\<lparr>ku_miners := w, ku_frontpage := data\<rparr>)))))"

text \<open>When the outputs cannot be read the function returns early.\<close>

definition apply_block ::
  "'r services \<Rightarrow> Block \<Rightarrow> usize \<Rightarrow> FrontPageDataUpdateStrategy \<Rightarrow> 'r KeepUp \<Rightarrow> 'r KeepUp loop" where
  "apply_block sv block number frontpage_strat s =
     (let hash = bh_hash (bl_header block);
          self_txs = foldl (\<lambda>m tx. m(tx_hash tx \<mapsto> tx)) Map.empty (bl_txs block) in
      loop_bind (Some (collect_deps self_txs
          (concat (map tx_txins (filter (\<lambda>tx. \<not> is_coinbase tx) (bl_txs block)))) [] [])) (\<lambda>(pending_deps, deps_handles).
      case join_handles (map (fetch_dependency_and_insert (sv_get_transaction_outputs sv)) deps_handles) of
        Panic \<Rightarrow> Some Panic
      | Err _ \<Rightarrow> Some (Ok s)
      | Ok owned_deps \<Rightarrow>
          loop_bind (Some (resolve_deps owned_deps pending_deps)) (\<lambda>deps.
          loop_bind (Some (analyze_block sv block deps)) (\<lambda>(analyzed_txs, coinbase_ascii, metrics, a).
          loop_bind (Some (write_analyzed_txs (sv_sorters sv) (sv_layouts sv) [hash] [analyzed_txs] [coinbase_ascii] a)) (\<lambda>(tables, a).
          loop_bind (mark_as_downloaded [hash] [coinbase_ascii] (ku_man s)) (\<lambda>m.
          update_shown sv (bl_header block) number analyzed_txs coinbase_ascii metrics frontpage_strat
            (s\<lparr>ku_man := m, ku_written := ku_written s @ [(hash, tables, metrics)]\<rparr>)))))))"

definition handle_new_block :: "'r services \<Rightarrow> Payload option \<Rightarrow> 'r KeepUp \<Rightarrow> 'r KeepUp loop" where
  "handle_new_block sv payload s =
     (case payload of
        Some (PBlock block) \<Rightarrow>
          (case ku_queue s of
             [] \<Rightarrow> Some (Ok s)
           | (number, hash, strat) # queue \<Rightarrow>
               if bh_hash (bl_header block) \<noteq> hash then Some (Ok s)
               else
                 (case (if SEGWIT_HEIGHT \<le> number then verify_witness_commitment (sv_sha sv) block else Ok ()) of
                    Panic \<Rightarrow> Some Panic
                  | Err _ \<Rightarrow> Some (Ok s)
                  | Ok _ \<Rightarrow>
                      loop_bind (apply_block sv block number strat (s\<lparr>ku_queue := queue\<rparr>)) (\<lambda>s.
                      Some (Ok (s\<lparr>ku_applied := ku_applied s @ [hash]\<rparr>)))))
      | _ \<Rightarrow> Some Panic)"

section \<open>The chain watcher\<close>

text \<open>The arms of its loop, in the order in which the messages arrive.\<close>

inductive watcher_step :: "'r KeepUp \<Rightarrow> 'r KeepUp \<Rightarrow> bool" where
  tick: "ku_queue s = (number, hash, strat) # queue \<Longrightarrow> watcher_step s (s\<lparr>ku_jobs := ku_jobs s @ [hash]\<rparr>)"
| header: "handle_new_header header s = Some (Ok s') \<Longrightarrow> watcher_step s s'"
| block: "handle_new_block sv payload s = Some (Ok s') \<Longrightarrow> watcher_step s s'"

section \<open>Jobs\<close>

lemma swap_remove_mset:
  assumes "i < length xs" "swap_remove xs i = (x, rest)"
  shows "mset xs = add_mset x (mset rest)"
proof -
  have "xs \<noteq> []" and r: "x = xs ! i" "rest = butlast (xs[i := last xs])" using assms by (auto simp: swap_remove_def)
  then have "mset (xs[i := last xs]) = add_mset (last xs) (mset xs - {#xs ! i#})"
    using assms(1) by (simp add: mset_update)
  moreover have "mset (xs[i := last xs]) = add_mset (last (xs[i := last xs])) (mset rest)"
    using \<open>xs \<noteq> []\<close> append_butlast_last_id [of "xs[i := last xs]"] r(2)
    by (metis add_mset_add_single list_update_nonempty mset.simps(1,2) mset_append)
  moreover have "last (xs[i := last xs]) = last xs"
    using \<open>xs \<noteq> []\<close> by (cases "i = length xs - 1") (simp_all add: last_conv_nth)
  ultimately show ?thesis using assms(1) r(1) by simp
qed

text \<open>
  A job goes to exactly one worker that still listens, which leaves the list, and on the way only workers
  that have quit are forgotten; when no listening worker is registered the job is lost and the list is empty.
\<close>

lemma job_goes_to_one_worker:
  assumes "dispatch_job alive workers rest r"
  shows "(\<exists>w \<in> alive. r = Some w \<and> filter_mset (\<lambda>x. x \<in> alive) (mset workers) = add_mset w (filter_mset (\<lambda>x. x \<in> alive) (mset rest))) \<or>
    r = None \<and> rest = [] \<and> set workers \<inter> alive = {}"
  using assms
proof (induction rule: dispatch_job.induct)
  case (sent worker_idx workers worker rest)
  then show ?case using swap_remove_mset [OF sent.hyps(1,2)] by simp
next
  case (quit worker_idx workers worker rest workers' r)
  have m: "mset workers = add_mset worker (mset rest)" by (rule swap_remove_mset [OF quit.hyps(1,2)])
  then have "set workers = insert worker (set rest)" by (metis set_mset_add_mset_insert set_mset_mset)
  then show ?case using quit m by auto
qed simp

section \<open>New headers\<close>

lemma switched_update [simp]: "switched c har (update_most_work_chain har' c') = switched c har c'"
  by (simp add: switched_def)

lemma queue_fork_hashes: "map (fst \<circ> snd) (queue_fork n i blocks) = map fst blocks"
  by (induction n i blocks rule: queue_fork.induct) simp_all

lemma queue_fork_numbers: "map fst (queue_fork n i blocks) = map (wadd n) [i ..< i + length blocks]"
  by (induction n i blocks rule: queue_fork.induct) (simp_all add: upt_conv_Cons del: upt_Suc)

lemma queue_fork_strategies:
  "map (snd \<circ> snd) (queue_fork n i blocks) = map (\<lambda>j. if j = 0 then RegenerateFromScratch else Append) [i ..< i + length blocks]"
  by (induction n i blocks rule: queue_fork.induct) (simp_all add: upt_conv_Cons del: upt_Suc)

lemma handled_header:
  assumes "ch_known_headers (cm_chain (ku_man s)) (bh_hash h) = None"
    and "ch_known_headers (cm_chain (ku_man s)) (bh_parent h) = Some p"
    and "validate_and_apply_header_inner h (ku_man s) False = Some (Ok (Some har, m))"
  shows "handle_new_header h s = Some (Ok (s\<lparr>ku_man := m\<lparr>cm_chain := update_most_work_chain har (cm_chain m)\<rparr>,
    ku_queue := ku_queue s @ queue_blocks h (bn_number (ch_top_header (cm_chain m))) (har_added_blocks har),
    ku_new_headers := ku_new_headers s @ [bn_hash (ch_top_header (cm_chain m))]\<rparr>))"
  using assms by (simp add: handle_new_header_def Let_def)



text \<open>
  A header beside the top, with the same parent and enough work to replace it, is treated as an extension:
  its block is queued to be appended to the front page and the statistics, although the old top has left the
  chain of most work.
\<close>

lemma sibling_treated_as_extension:
  assumes "chain_ok (cm_chain (ku_man s))" "main_set_ok (cm_chain (ku_man s))" "heavy_header (ku_man s) h p"
    and "bh_parent h = bn_parent (ch_top_header (cm_chain (ku_man s)))"
  shows "\<exists>s'. handle_new_header h s = Some (Ok s') \<and> ku_queue s' = ku_queue s @ [(Suc (bn_number p), bh_hash h, Append)] \<and>
    bn_hash (ch_top_header (cm_chain (ku_man s))) \<in> ch_most_work_chain (cm_chain (ku_man s)) \<and>
    bn_hash (ch_top_header (cm_chain (ku_man s))) \<notin> ch_most_work_chain (cm_chain (ku_man s'))"
proof -
  let ?c = "cm_chain (ku_man s)"
  let ?k = "ch_known_headers ?c" and ?t = "ch_top_header ?c"
  have ok: "known_ok ?k" and topok: "top_ok ?c" using assms(1) by (simp_all add: chain_ok_def)
  have parent: "?k (bh_parent h) = Some p" and new: "?k (bh_hash h) = None"
    using assms(3) by (simp_all add: heavy_header_def)
  obtain t where t: "?k (bn_hash ?t) = Some t" "?t = t\<lparr>bn_coinbase_ascii := bn_coinbase_ascii ?t\<rparr>"
    using topok unfolding top_ok_def by blast
  have tt: "bn_parent t = bh_parent h" "bn_hash t = bn_hash ?t" "bn_number ?t = bn_number t"
    using assms(4) by (subst (asm) t(2), simp, subst t(2), simp, subst t(2), simp)
  have tl: "linked ?k t" by (rule known_okD(2) [OF ok t(1)])
  have n: "bn_number t = Suc (bn_number p)"
    using tl parent tt(1) ok by (auto simp: linked_def known_ok_def split: if_splits)
  have ph: "bn_hash p = bh_parent h" by (rule known_okD(1) [OF ok parent])
  obtain x where x: "bn_header x = h" "bn_number x = Suc (bn_number p)" "fresh_child ?k x"
    "\<not> bn_total_work x < bn_total_work ?t"
    and applied: "validate_and_apply_header_inner h (ku_man s) False =
      (let m' = with_header x (ku_man s) in
       if bn_parent x = bn_hash ?t
       then Some (Ok (Some \<lparr>har_removed_blocks = [], har_added_blocks = [(bn_hash x, bn_number x)]\<rparr>, with_top x m'))
       else loop_bind (find_fork (cm_chain m') x (bn_number p)) (\<lambda>(visited_new, visited_old).
          loop_bind (calculate_downloaded_blocks (cm_chain (with_top x m'))) (\<lambda>new_count.
          Some (Ok (Some \<lparr>har_removed_blocks = visited_old, har_added_blocks = rev visited_new\<rparr>,
            (with_top x m')\<lparr>cm_downloaded_blocks := new_count\<rparr>)))))"
    by (rule heavy_header_entry [OF assms(3) ok topok]) blast
  let ?m = "with_header x (ku_man s)" and ?w = "with_top x (with_header x (ku_man s))"
  have side: "bn_parent x \<noteq> bn_hash ?t"
    using t(1) parent n x(1) by auto
  have known: "ch_known_headers (cm_chain ?m) = ?k(bn_hash x \<mapsto> x)" "ch_top_header (cm_chain ?m) = ?t" by simp_all
  have ne: "bn_hash x \<noteq> bn_hash ?t" "bn_hash x \<noteq> bh_parent h" using new t(1) parent x(1) by auto
  have "find_same_height (cm_chain ?m) (bn_number p) (bn_hash ?t) (bn_number ?t) [(bn_hash ?t, bn_number ?t)] =
      Some (Ok ([(bn_hash ?t, bn_number ?t), (bn_hash ?t, bn_number ?t)], bh_parent h, wsub (bn_number ?t) 1))"
    using t(1) tt n ne parent by (subst find_same_height.simps, simp) (subst find_same_height.simps, simp)
  then have fork: "find_fork (cm_chain ?m) x (bn_number p) =
      Some (Ok ([(bn_hash x, bn_number x)], [(bn_hash ?t, bn_number ?t), (bn_hash ?t, bn_number ?t)]))"
    unfolding find_fork_def known(2) using x(1) by (simp, subst step_back.simps) simp
  obtain n where n: "validate_and_apply_header_inner h (ku_man s) False =
      Some (Ok (Some \<lparr>har_removed_blocks = [(bn_hash ?t, bn_number ?t), (bn_hash ?t, bn_number ?t)],
        har_added_blocks = [(bn_hash x, bn_number x)]\<rparr>, ?w\<lparr>cm_downloaded_blocks := n\<rparr>))"
  proof -
    obtain r m' where r: "validate_and_apply_header_inner h (ku_man s) False = Some (Ok (r, m'))"
      by (rule heavy_header_applies [OF assms(1,3)]) (use n tt(3) in simp_all)
    then obtain n where "calculate_downloaded_blocks (cm_chain ?w) = Some (Ok n)"
      using applied side fork by (auto simp: Let_def loop_bind_def split: option.splits res.splits)
    then show thesis using that applied side fork by (simp add: Let_def)
  qed
  have "bn_hash ?t \<in> ch_most_work_chain ?c"
    using assms(2) line_unfold [of ?k ?t] by (simp add: main_set_ok_def hashes_def) (metis list.set_intros(1) imageI)
  then show ?thesis
    using handled_header [OF new parent n] ne(1) x(1,2) by (simp add: queue_blocks_def)
qed

text \<open>The small tree, with one header on its side branch and one beside its top.\<close>

definition demo_keepup :: "bytes KeepUp" where
  "demo_keepup = \<lparr>ku_man = demo_man demo_chain, ku_queue = [], ku_miners = demo_miners,
     ku_frontpage = FrontPageData_default, ku_written = [], ku_jobs = [], ku_new_headers = [], ku_applied = []\<rparr>"

lemma demo_keepup_simps [simp]: "ku_man demo_keepup = demo_man demo_chain" "ku_queue demo_keepup = []"
  "ku_applied demo_keepup = []" "ku_written demo_keepup = []" "ku_new_headers demo_keepup = []"
  by (simp_all add: demo_keepup_def)


section \<open>Blocks leave the queue in order\<close>

lemma loop_bind_Ok: "loop_bind m f = Some (Ok y) \<longleftrightarrow> (\<exists>x. m = Some (Ok x) \<and> f x = Some (Ok y))"
  by (auto simp: loop_bind_def split: option.splits res.splits)

lemma shown_updated:
  assumes "update_shown sv h n txs ascii metrics strat s = Some (Ok s')"
  shows "ku_queue s' = ku_queue s \<and> ku_applied s' = ku_applied s \<and> ku_written s' = ku_written s"
  using assms by (auto simp: update_shown_def loop_bind_Ok split: FrontPageDataUpdateStrategy.splits)

lemma block_applied:
  assumes "apply_block sv b n strat s = Some (Ok s')"
  shows "ku_queue s' = ku_queue s \<and> ku_applied s' = ku_applied s \<and>
    (\<exists>w. ku_written s' = ku_written s @ w \<and> (w = [] \<or> map fst w = [bh_hash (bl_header b)]))"
proof -
  have "s' = s \<or> (\<exists>txs ascii metrics tables m. update_shown sv (bl_header b) n txs ascii metrics strat
      (s\<lparr>ku_man := m, ku_written := ku_written s @ [(bh_hash (bl_header b), tables, metrics)]\<rparr>) = Some (Ok s'))"
  proof -
    obtain deps handles where "(case join_handles (map (fetch_dependency_and_insert (sv_get_transaction_outputs sv)) handles) of
        Panic \<Rightarrow> Some Panic | Err _ \<Rightarrow> Some (Ok s)
      | Ok owned_deps \<Rightarrow>
          loop_bind (Some (resolve_deps owned_deps deps)) (\<lambda>deps.
          loop_bind (Some (analyze_block sv b deps)) (\<lambda>(analyzed_txs, coinbase_ascii, metrics, a).
          loop_bind (Some (write_analyzed_txs (sv_sorters sv) (sv_layouts sv) [bh_hash (bl_header b)] [analyzed_txs] [coinbase_ascii] a))
            (\<lambda>(tables, a).
          loop_bind (mark_as_downloaded [bh_hash (bl_header b)] [coinbase_ascii] (ku_man s)) (\<lambda>m.
          update_shown sv (bl_header b) n analyzed_txs coinbase_ascii metrics strat
            (s\<lparr>ku_man := m, ku_written := ku_written s @ [(bh_hash (bl_header b), tables, metrics)]\<rparr>)))))) = Some (Ok s')"
      using assms by (auto simp: apply_block_def Let_def loop_bind_Ok)
    then show ?thesis
      by (cases "join_handles (map (fetch_dependency_and_insert (sv_get_transaction_outputs sv)) handles)")
        (auto simp: loop_bind_Ok)
  qed
  then show ?thesis by (auto dest!: shown_updated)
qed

lemma new_block_handled:
  assumes "handle_new_block sv payload s = Some (Ok s')"
  shows "s' = s \<or> (\<exists>n hash strat q w. ku_queue s = (n, hash, strat) # q \<and> ku_queue s' = q \<and>
    ku_applied s' = ku_applied s @ [hash] \<and> ku_written s' = ku_written s @ w \<and> (w = [] \<or> map fst w = [hash]))"
  using assms
  by (auto simp: handle_new_block_def loop_bind_Ok dest!: block_applied split: option.splits Payload.splits list.splits
      if_splits res.splits)

lemma new_header_handled:
  assumes "handle_new_header h s = Some (Ok s')"
  shows "ku_applied s' = ku_applied s" "ku_written s' = ku_written s" "\<exists>q. ku_queue s' = ku_queue s @ q"
  using assms by (auto simp: handle_new_header_def Let_def split: option.splits res.splits if_splits)

definition queued_hashes :: "'r KeepUp \<Rightarrow> hash32 list" where
  "queued_hashes s = map (fst \<circ> snd) (ku_queue s)"


text \<open>
  C28: Whatever headers and blocks arrive in whatever order, blocks leave the queue only at its front and in the
  order in which they were queued, none is lost from it or taken twice, and what is written to the tables is a
  subsequence of the blocks that were announced as applied.
\<close>

theorem queue_served_in_order:
  assumes "watcher_step\<^sup>*\<^sup>* s s'"
  shows "\<exists>queued done written. queued_hashes s @ queued = done @ queued_hashes s' \<and> ku_applied s' = ku_applied s @ done \<and>
    map fst (ku_written s') = map fst (ku_written s) @ written \<and> subseq written done"
  using assms
proof (induction rule: rtranclp_induct)
  case (step s' s'')
  then obtain qs ds ws where ih: "queued_hashes s @ qs = ds @ queued_hashes s'" "ku_applied s' = ku_applied s @ ds"
    "map fst (ku_written s') = map fst (ku_written s) @ ws" "subseq ws ds" by blast
  from step.hyps(2) show ?case
  proof cases
    case (tick number hash strat queue)
    then show ?thesis using ih by (intro exI [of _ qs] exI [of _ ds] exI [of _ ws]) (simp add: queued_hashes_def)
  next
    case (header h)
    note h = new_header_handled [OF this]
    then obtain q where "ku_queue s'' = ku_queue s' @ q" by blast
    then have q: "ku_applied s'' = ku_applied s'" "ku_written s'' = ku_written s'"
      "queued_hashes s'' = queued_hashes s' @ map (fst \<circ> snd) q" using h by (simp_all add: queued_hashes_def)
    then show ?thesis
      using ih by (intro exI [of _ "qs @ map (fst \<circ> snd) q"] exI [of _ ds] exI [of _ ws]) (simp flip: append_assoc)
  next
    case (block sv payload)
    from new_block_handled [OF this] consider "s'' = s'" | n hash strat q w where
      "ku_queue s' = (n, hash, strat) # q" "ku_queue s'' = q" "ku_applied s'' = ku_applied s' @ [hash]"
      "ku_written s'' = ku_written s' @ w" "w = [] \<or> map fst w = [hash]"
      by (elim disjE [of "s'' = s'"] exE conjE) simp_all
    then show ?thesis
    proof cases
      case 1
      then show ?thesis using ih by blast
    next
      case b: (2 n hash strat q w)
      have "queued_hashes s @ qs = (ds @ [hash]) @ queued_hashes s''" using ih(1) b(1,2) by (simp add: queued_hashes_def)
      moreover have "subseq (ws @ map fst w) (ds @ [hash])"
        using ih(4) b(5) by (auto intro: list_emb_append_mono)
      ultimately show ?thesis
        using ih b by (intro exI [of _ qs] exI [of _ "ds @ [hash]"] exI [of _ "ws @ map fst w"]) simp
    qed
  qed
qed (rule exI [of _ "[]"], rule exI [of _ "[]"], rule exI [of _ "[]"], simp)

lemma join_fails: "h \<in> set hs \<Longrightarrow> \<forall>x. h \<noteq> Ok x \<Longrightarrow> \<exists>e. join_handles hs = Err e"
proof (induction hs)
  case (Cons a hs)
  then show ?case
    by (cases "spawn_blocking a") (auto simp: spawn_blocking_def split: res.splits)
qed simp

lemma collect_foreign:
  "\<forall>txin \<in> set txins. self_txs (ti_prevout_hash txin) = None \<Longrightarrow>
   \<exists>pending. collect_deps self_txs txins pd dh =
     Ok (pending, dh @ map (\<lambda>txin. (ti_prevout_hash txin, unat (ti_prevout_index txin))) txins)"
proof (induction txins arbitrary: pd dh)
  case (Cons a txins)
  then show ?case
    using Cons.IH [of "pd @ [Right (length dh)]" "dh @ [(ti_prevout_hash a, unat (ti_prevout_index a))]"] by simp
qed simp

lemma self_txs_dom: "dom (foldl (\<lambda>m tx. m(tx_hash tx \<mapsto> tx)) m txs) = dom m \<union> tx_hash ` set txs"
  by (induction txs arbitrary: m) auto

text \<open>The inputs of the transactions of a block, without its coinbase.\<close>

definition spending_inputs :: "Block \<Rightarrow> TxIn list" where
  "spending_inputs block = concat (map tx_txins (filter (\<lambda>tx. \<not> is_coinbase tx) (bl_txs block)))"

lemma unread_outputs:
  assumes "\<forall>txin \<in> set (spending_inputs block). ti_prevout_hash txin \<notin> tx_hash ` set (bl_txs block)"
    and "txin \<in> set (spending_inputs block)"
    and "\<forall>x. fetch_dependency_and_insert (sv_get_transaction_outputs sv) (ti_prevout_hash txin, unat (ti_prevout_index txin)) \<noteq> Ok x"
  shows "apply_block sv block n strat s = Some (Ok s)"
proof -
  let ?self = "foldl (\<lambda>m tx. m(tx_hash tx \<mapsto> tx)) Map.empty (bl_txs block)"
  have "?self (ti_prevout_hash i) = None" if "i \<in> set (spending_inputs block)" for i
  proof -
    have "ti_prevout_hash i \<notin> dom ?self" using assms(1) that self_txs_dom [of Map.empty "bl_txs block"] by simp
    then show ?thesis by (simp add: domIff)
  qed
  then obtain pending where c: "collect_deps ?self (spending_inputs block) [] [] =
      Ok (pending, map (\<lambda>txin. (ti_prevout_hash txin, unat (ti_prevout_index txin))) (spending_inputs block))"
    using collect_foreign [of "spending_inputs block" ?self "[]" "[]"] by auto
  obtain e where "join_handles (map (fetch_dependency_and_insert (sv_get_transaction_outputs sv))
      (map (\<lambda>txin. (ti_prevout_hash txin, unat (ti_prevout_index txin))) (spending_inputs block))) = Err e"
    using join_fails [OF _ assms(3), of "map (fetch_dependency_and_insert (sv_get_transaction_outputs sv))
      (map (\<lambda>txin. (ti_prevout_hash txin, unat (ti_prevout_index txin))) (spending_inputs block))"] assms(2) by auto
  with c show ?thesis by (simp add: apply_block_def spending_inputs_def [symmetric] Let_def)
qed


definition demo_services :: "bytes services" where
  "demo_services = \<lparr>sv_sha = zero_sha, sv_layouts = demo_layouts,
     sv_sorters = \<lparr>sort_blocks = sort_key fst, sort_txs = sort_key st_hash, sort_spends = sort_key fst, sort_amends = sort_key fst\<rparr>,
     sv_sort_amends = sort_key fst, sv_arena = Arena_new 4096 8192, sv_get_transaction_outputs = (\<lambda>_. Err (Msg [])),
     sv_get_block_tx_entries = (\<lambda>_. Err (Msg [])), sv_get_analyzed_tx = (\<lambda>_. Err (Msg [])), sv_find_block_metrics = (\<lambda>_. Panic),
     sv_is_match = (=), sv_order = [UNKNOWN_ID], sv_now = 0, sv_hex = map unat\<rparr>"

definition demo_waiting :: "bytes KeepUp" where
  "demo_waiting = demo_keepup\<lparr>ku_queue := [(2, replicate 32 9, Append)]\<rparr>"

lemma demo_unread:
  "spending_inputs demo_spending = [\<lparr>ti_prevout_hash = replicate 32 1, ti_prevout_index = 0, ti_sequence = 5, ti_sig_script = []\<rparr>]"
  "bh_hash (bl_header demo_spending) = replicate 32 9" "tx_hash ` set (bl_txs demo_spending) = {replicate 32 0}"
  "\<forall>x. fetch_dependency_and_insert (sv_get_transaction_outputs demo_services) i \<noteq> Ok x"
  by (simp_all add: spending_inputs_def demo_spending_def demo_spend_fields is_coinbase_def TxIn_is_empty_def EMPTY_HASH_def
      demo_services_def fetch_dependency_and_insert_def split: prod.split)


theorem queue_served_in_order_witness:
  "\<exists>s'. watcher_step\<^sup>*\<^sup>* demo_waiting s' \<and>
    (\<exists>queued done. [replicate 32 9] @ queued = done @ queued_hashes s' \<and> ku_applied s' = done \<and> done = [replicate 32 9])"
proof -
  let ?s = "demo_waiting\<lparr>ku_queue := [], ku_applied := [replicate 32 9]\<rparr>"
  have "apply_block demo_services demo_spending n strat s = Some (Ok s)" for n strat and s :: "bytes KeepUp"
    by (rule unread_outputs [OF _ _ demo_unread(4)]) (simp_all add: demo_unread)
  then have "handle_new_block demo_services (Some (PBlock demo_spending)) demo_waiting = Some (Ok ?s)"
    by (simp add: handle_new_block_def demo_waiting_def demo_unread SEGWIT_HEIGHT_def)
  then have "watcher_step\<^sup>*\<^sup>* demo_waiting ?s" by (intro r_into_rtranclp watcher_step.block)
  note reach = this
  from queue_served_in_order [OF this] show ?thesis
    by - (intro exI [of _ ?s] conjI, rule reach, auto simp: queued_hashes_def demo_waiting_def)
qed

end
