(* ===== verification/Sqlite.thy ===== *)
theory Sqlite
  imports KeepUp Peers
begin

text \<open>
  The relational database (\<open>src/src/db/sqlite.rs\<close>): its tables as lists of rows, the statements the code
  executes on them, the batches in which the writes are executed (\<open>src/src/db/batch.rs\<close>,
  \<open>src/src/db/batched.rs\<close>), and the readers.  A statement fails on a violated primary key and on a number
  that has no 64-bit signed form; a failed statement ends the transaction, so the tables stay as they were.

  The order in which equal keys of \<open>ORDER BY\<close> are returned is an argument, as is the JSON form of a list of
  texts.  The measured times are left out.
\<close>

section \<open>Tables\<close>

record PeerRow =
  pr_network_id :: NetworkId
  pr_address :: bytes
  pr_port :: u16
  pr_first_seen :: u64
  pr_first_online :: "u64 option"
  pr_user_agent :: "bytes option"
  pr_height :: "u32 option"
  pr_services :: u64

record BannedRow =
  br_network_id :: NetworkId
  br_address :: bytes
  br_port :: u16
  br_banned_at :: nat
  br_banned_until :: nat
  br_reasons_list :: rust_string

record HeaderRow =
  hr_version :: u32
  hr_previous_block :: hash32
  hr_merkle_root :: hash32
  hr_timestamp :: u32
  hr_bits :: u32
  hr_nonce :: u32
  hr_block_number :: usize
  hr_block_hash :: hash32
  hr_fetched_full :: bool
  hr_coinbase_ascii :: "bytes option"

record Database =
  db_peers :: "PeerRow list"
  db_banned_peers :: "BannedRow list"
  db_headers :: "HeaderRow list"
  db_block_stats :: "(hash32 \<times> BlockMetrics) list"

definition Database_empty :: Database where
  "Database_empty = \<lparr>db_peers = [], db_banned_peers = [], db_headers = [], db_block_stats = []\<rparr>"

text \<open>A number as a parameter of a statement.\<close>

definition to_sql :: "nat \<Rightarrow> nat res" where
  "to_sql n = (if n < 2 ^ 63 then Ok n else Err (Msg ''out of range integral type''))"

section \<open>Requests\<close>

datatype request =
    InsertPeerRequest AddressPortNetwork u64
  | BanPeerRequest AddressPortNetwork system_time system_time "rust_string list"
  | DeletePeerRequest AddressPortNetwork
  | UpdatePeerBlockHeightRequest AddressPortNetwork u32
  | UpdatePeerFromVersionRequest AddressPortNetwork u64 u32 bytes
  | InsertHeaderRequest BlockHeader usize
  | UpdatePeerFirstOnlineRequest AddressPortNetwork u64

definition same_peer :: "AddressPortNetwork \<Rightarrow> PeerRow \<Rightarrow> bool" where
  "same_peer apn row \<longleftrightarrow> pr_address row = apn_address apn \<and> pr_port row = apn_port apn"

text \<open>\<open>duration_since(UNIX_EPOCH).unwrap().as_secs()\<close>.\<close>

definition unix_seconds :: "system_time \<Rightarrow> nat res" where
  "unix_seconds t = (if t < 0 then Panic else Ok (nat (t div 1000000000)))"

definition update_peers :: "AddressPortNetwork \<Rightarrow> (PeerRow \<Rightarrow> PeerRow) \<Rightarrow> Database \<Rightarrow> Database" where
  "update_peers apn f db = db\<lparr>db_peers := map (\<lambda>row. if same_peer apn row then f row else row) (db_peers db)\<rparr>"

fun execute :: "(rust_string list \<Rightarrow> rust_string) \<Rightarrow> request \<Rightarrow> Database \<Rightarrow> Database res" where
  "execute json (InsertPeerRequest apn first_seen) db =
     res_bind (to_sql (unat first_seen)) (\<lambda>_.
     if \<exists>row \<in> set (db_peers db). same_peer apn row \<and> pr_network_id row = apn_network_id apn
     then Err (Msg ''UNIQUE constraint failed'')
     else Ok (db\<lparr>db_peers := db_peers db @ [\<lparr>pr_network_id = apn_network_id apn, pr_address = apn_address apn,
            pr_port = apn_port apn, pr_first_seen = first_seen, pr_first_online = None, pr_user_agent = None,
            pr_height = None, pr_services = 0\<rparr>]\<rparr>))"
| "execute json (BanPeerRequest apn banned_at banned_until reasons) db =
     res_bind (unix_seconds banned_at) (\<lambda>banned_at.
     res_bind (unix_seconds banned_until) (\<lambda>banned_until.
     res_bind (to_sql banned_at) (\<lambda>banned_at.
     res_bind (to_sql banned_until) (\<lambda>banned_until.
     if \<exists>row \<in> set (db_banned_peers db). br_address row = apn_address apn \<and> br_port row = apn_port apn \<and>
          br_network_id row = apn_network_id apn \<and> br_banned_until row = banned_until
     then Err (Msg ''UNIQUE constraint failed'')
     else Ok (db\<lparr>db_banned_peers := db_banned_peers db @ [\<lparr>br_network_id = apn_network_id apn, br_address = apn_address apn,
            br_port = apn_port apn, br_banned_at = banned_at, br_banned_until = banned_until,
            br_reasons_list = json reasons\<rparr>]\<rparr>)))))"
| "execute json (DeletePeerRequest apn) db =
     Ok (db\<lparr>db_peers := filter (\<lambda>row. \<not> same_peer apn row) (db_peers db)\<rparr>)"
| "execute json (UpdatePeerBlockHeightRequest apn new_height) db =
     Ok (update_peers apn (\<lambda>row. row\<lparr>pr_height := Some new_height\<rparr>) db)"
| "execute json (UpdatePeerFromVersionRequest apn services block_height user_agent) db =
     res_bind (to_sql (unat services)) (\<lambda>_.
     Ok (update_peers apn (\<lambda>row. row\<lparr>pr_services := services, pr_height := Some block_height,
       pr_user_agent := Some user_agent\<rparr>) db))"
| "execute json (InsertHeaderRequest header number) db =
     res_bind (to_sql number) (\<lambda>number.
     if \<exists>row \<in> set (db_headers db). hr_block_hash row = bh_hash header then Ok db
     else Ok (db\<lparr>db_headers := db_headers db @ [\<lparr>hr_version = bh_version header, hr_previous_block = bh_parent header,
            hr_merkle_root = bh_merkle_root header, hr_timestamp = bh_timestamp header, hr_bits = bh_bits header,
            hr_nonce = bh_nonce header, hr_block_number = number, hr_block_hash = bh_hash header,
            hr_fetched_full = False, hr_coinbase_ascii = None\<rparr>]\<rparr>))"
| "execute json (UpdatePeerFirstOnlineRequest apn ts) db =
     res_bind (to_sql (unat ts)) (\<lambda>_.
     Ok (update_peers apn (\<lambda>row. if pr_first_online row = None then row\<lparr>pr_first_online := Some ts\<rparr> else row) db))"

section \<open>Batches\<close>

definition BATCH_SIZE :: usize where
  "BATCH_SIZE = 2048"

fun execute_all :: "(rust_string list \<Rightarrow> rust_string) \<Rightarrow> request list \<Rightarrow> Database \<Rightarrow> Database res" where
  "execute_all json [] db = Ok db"
| "execute_all json (r # requests) db = res_bind (execute json r db) (execute_all json requests)"

text \<open>What the loop of a queue waits for: the deadline or the next request.\<close>

datatype batch_event = Deadline | Received request

definition flush_requests :: "(rust_string list \<Rightarrow> rust_string) \<Rightarrow> request list \<Rightarrow> Database \<Rightarrow> (request list \<times> Database) res" where
  "flush_requests json pending_requests db =
     (if pending_requests = [] then Ok ([], db)
      else res_bind (res_unwrap (execute_all json pending_requests db)) (\<lambda>db. Ok ([], db)))"

fun process_request :: "(rust_string list \<Rightarrow> rust_string) \<Rightarrow> batch_event \<Rightarrow> request list \<times> Database \<Rightarrow> (request list \<times> Database) res" where
  "process_request json Deadline (pending_requests, db) = flush_requests json pending_requests db"
| "process_request json (Received r) (pending_requests, db) =
     (let pending_requests = pending_requests @ [r] in
      if length pending_requests = BATCH_SIZE then flush_requests json pending_requests db
      else Ok (pending_requests, db))"

fun batch_process_requests ::
  "(rust_string list \<Rightarrow> rust_string) \<Rightarrow> batch_event list \<Rightarrow> request list \<times> Database \<Rightarrow> (request list \<times> Database) res" where
  "batch_process_requests json [] s = Ok s"
| "batch_process_requests json (e # es) s = res_bind (process_request json e s) (batch_process_requests json es)"

section \<open>The queues\<close>

text \<open>Each statement has a queue of its own; all of them work on the one connection.\<close>

datatype queue = INSERT_PEER_QUEUE | BAN_PEER_QUEUE | DELETE_PEER_QUEUE | UPDATE_PEER_BLOCK_HEIGHT_QUEUE
  | INSERT_HEADER_QUEUE | UPDATE_PEER_FROM_VERSION_QUEUE | UPDATE_PEER_FIRST_ONLINE

record Sqlite =
  sq_pending :: "queue \<Rightarrow> request list"
  sq_db :: Database

fun queue_of :: "request \<Rightarrow> queue" where
  "queue_of (InsertPeerRequest _ _) = INSERT_PEER_QUEUE"
| "queue_of (BanPeerRequest _ _ _ _) = BAN_PEER_QUEUE"
| "queue_of (DeletePeerRequest _) = DELETE_PEER_QUEUE"
| "queue_of (UpdatePeerBlockHeightRequest _ _) = UPDATE_PEER_BLOCK_HEIGHT_QUEUE"
| "queue_of (InsertHeaderRequest _ _) = INSERT_HEADER_QUEUE"
| "queue_of (UpdatePeerFromVersionRequest _ _ _ _) = UPDATE_PEER_FROM_VERSION_QUEUE"
| "queue_of (UpdatePeerFirstOnlineRequest _ _) = UPDATE_PEER_FIRST_ONLINE"

definition queue_event :: "(rust_string list \<Rightarrow> rust_string) \<Rightarrow> queue \<Rightarrow> batch_event \<Rightarrow> Sqlite \<Rightarrow> Sqlite res" where
  "queue_event json q e s =
     res_bind (process_request json e (sq_pending s q, sq_db s)) (\<lambda>(pending, db).
     Ok (s\<lparr>sq_pending := (sq_pending s)(q := pending), sq_db := db\<rparr>))"

definition send_request :: "(rust_string list \<Rightarrow> rust_string) \<Rightarrow> request \<Rightarrow> Sqlite \<Rightarrow> Sqlite res" where
  "send_request json r s = queue_event json (queue_of r) (Received r) s"

definition insert_peer where
  "insert_peer json peer first_seen = send_request json (InsertPeerRequest peer first_seen)"

definition ban_peer where
  "ban_peer json peer banned_at banned_until reasons = send_request json (BanPeerRequest peer banned_at banned_until reasons)"

definition delete_peer where
  "delete_peer json peer = send_request json (DeletePeerRequest peer)"

definition update_peer_block_height where
  "update_peer_block_height json peer new_height = send_request json (UpdatePeerBlockHeightRequest peer new_height)"

definition update_peer_from_version where
  "update_peer_from_version json peer services block_height user_agent =
     send_request json (UpdatePeerFromVersionRequest peer services block_height user_agent)"

definition insert_header where
  "insert_header json header = send_request json (InsertHeaderRequest (bn_header header) (bn_number header))"

definition update_peer_first_online where
  "update_peer_first_online json peer ts = send_request json (UpdatePeerFirstOnlineRequest peer ts)"

definition ensure_genesis_header_exists_in_db where
  "ensure_genesis_header_exists_in_db json sha s =
     res_bind (GENESIS_HEADER sha) (\<lambda>gh. send_request json (InsertHeaderRequest gh 0) s)"

section \<open>Peers\<close>

definition row_apn :: "PeerRow \<Rightarrow> AddressPortNetwork" where
  "row_apn row = \<lparr>apn_network_id = pr_network_id row, apn_port = pr_port row, apn_address = pr_address row\<rparr>"

definition get_all_peers :: "Database \<Rightarrow> AddressPortNetwork list" where
  "get_all_peers db = map row_apn (db_peers db)"

record PeerData =
  pd_first_seen :: u64
  pd_first_online :: "u64 option"
  pd_user_agent :: "bytes option"
  pd_height :: "u32 option"
  pd_services :: "u64 option"

text \<open>\<open>query_one\<close> fails when there is no row or more than one.\<close>

definition get_peer :: "Database \<Rightarrow> AddressPortNetwork \<Rightarrow> PeerData res" where
  "get_peer db apn =
     (case filter (\<lambda>row. same_peer apn row \<and> pr_network_id row = apn_network_id apn) (db_peers db) of
        [row] \<Rightarrow> Ok \<lparr>pd_first_seen = pr_first_seen row, pd_first_online = pr_first_online row,
          pd_user_agent = pr_user_agent row, pd_height = pr_height row, pd_services = Some (pr_services row)\<rparr>
      | [] \<Rightarrow> Err (Msg ''Query returned no rows'')
      | _ \<Rightarrow> Err (Msg ''Query returned more than one row''))"

section \<open>Headers and statistics of blocks\<close>

definition row_header :: "HeaderRow \<Rightarrow> BlockHeader" where
  "row_header row = \<lparr>bh_version = hr_version row, bh_parent = hr_previous_block row, bh_merkle_root = hr_merkle_root row,
     bh_timestamp = hr_timestamp row, bh_bits = hr_bits row, bh_nonce = hr_nonce row, bh_txs_count = 0,
     bh_hash = hr_block_hash row\<rparr>"

text \<open>The rows in the order of the query; a row whose parent is not among those before it is left out.\<close>

fun read_headers ::
  "(hash32 \<rightharpoonup> U256) \<Rightarrow> hash32 set \<Rightarrow> HeaderRow list \<Rightarrow> BlockHeaderWithNumber list res" where
  "read_headers work_totals parents_fetched [] = Ok []"
| "read_headers work_totals parents_fetched (row # rows) =
     (let header = row_header row in
      case work_totals (bh_parent header) of
        None \<Rightarrow> read_headers work_totals parents_fetched rows
      | Some parent_work \<Rightarrow>
          res_bind (header_work header) (\<lambda>w.
          res_bind (u256_add parent_work w) (\<lambda>our_work.
          let actually_fetched = bh_parent header \<in> parents_fetched \<and> hr_fetched_full row;
              coinbase_ascii = (if actually_fetched then map_option from_utf8_lossy (hr_coinbase_ascii row) else None) in
          res_bind (read_headers (work_totals(bh_hash header \<mapsto> our_work))
              (if actually_fetched then insert (bh_hash header) parents_fetched else parents_fetched) rows) (\<lambda>rest.
          Ok (\<lparr>bn_header = header, bn_number = hr_block_number row, bn_fetched_full = actually_fetched,
                bn_total_work = our_work, bn_coinbase_ascii = coinbase_ascii\<rparr> # rest)))))"

text \<open>\<open>by_number\<close> is \<open>ORDER BY block_number ASC\<close>.\<close>

definition get_all_headers :: "(HeaderRow list \<Rightarrow> HeaderRow list) \<Rightarrow> Database \<Rightarrow> BlockHeaderWithNumber list res" where
  "get_all_headers by_number db = read_headers [EMPTY_HASH \<mapsto> 0] {EMPTY_HASH} (by_number (db_headers db))"

definition set_headers :: "hash32 \<Rightarrow> (HeaderRow \<Rightarrow> HeaderRow) \<Rightarrow> Database \<Rightarrow> Database" where
  "set_headers hash f db = db\<lparr>db_headers := map (\<lambda>row. if hr_block_hash row = hash then f row else row) (db_headers db)\<rparr>"

text \<open>A rate that is not a number would be stored as \<open>NULL\<close>, which the table does not allow.\<close>

definition metrics_storable :: "BlockMetrics \<Rightarrow> bool" where
  "metrics_storable m \<longleftrightarrow> unat (bm_fees_total m) < 2 ^ 63 \<and> unat (bm_volume m) < 2 ^ 63 \<and> bm_txs_count m < 2 ^ 63 \<and>
     NaN64 \<notin> {bm_average_fee_rate m, bm_lowest_fee_rate m, bm_highest_fee_rate m, bm_median_fee_rate m}"

fun put_stats :: "(hash32 \<times> BlockMetrics) list \<Rightarrow> Database \<Rightarrow> Database res" where
  "put_stats [] db = Ok db"
| "put_stats ((hash, metrics) # zipped) db =
     (if metrics_storable metrics
      then put_stats zipped (db\<lparr>db_block_stats := filter (\<lambda>(h, _). h \<noteq> hash) (db_block_stats db) @ [(hash, metrics)]\<rparr>)
      else Panic)"

definition mark_blocks_as_downloaded :: "hash32 list \<Rightarrow> bytes list \<Rightarrow> BlockMetrics list \<Rightarrow> Database \<Rightarrow> Database res" where
  "mark_blocks_as_downloaded block_hashes coinbase_asciis metrics db =
     (if length block_hashes \<noteq> length metrics \<or> length block_hashes \<noteq> length coinbase_asciis then Panic
      else put_stats (zip block_hashes metrics)
        (foldl (\<lambda>db (hash, coinbase_ascii). set_headers hash
            (\<lambda>row. row\<lparr>hr_fetched_full := True, hr_coinbase_ascii := Some coinbase_ascii\<rparr>) db)
          db (zip block_hashes coinbase_asciis)))"

definition update_coinbase_asciis :: "hash32 list \<Rightarrow> bytes list \<Rightarrow> Database \<Rightarrow> Database res" where
  "update_coinbase_asciis block_hashes coinbase_asciis db =
     (if length block_hashes \<noteq> length coinbase_asciis then Panic
      else Ok (foldl (\<lambda>db (hash, coinbase_ascii). set_headers hash (\<lambda>row. row\<lparr>hr_coinbase_ascii := Some coinbase_ascii\<rparr>) db)
        db (zip block_hashes coinbase_asciis)))"

definition find_block_metrics :: "Database \<Rightarrow> hash32 \<Rightarrow> BlockMetrics res" where
  "find_block_metrics db hash = opt_unwrap (map_of (db_block_stats db) hash)"

definition get_block_hashes_with_missing_coinbase_ascii :: "Database \<Rightarrow> hash32 list" where
  "get_block_hashes_with_missing_coinbase_ascii db =
     map hr_block_hash (filter (\<lambda>row. hr_coinbase_ascii row = None \<and> hr_fetched_full row) (db_headers db))"

section \<open>Batches are transparent\<close>

lemma execute_all_append:
  "execute_all json (rs @ qs) db = res_bind (execute_all json rs db) (execute_all json qs)"
proof (induction rs arbitrary: db)
  case (Cons r rs)
  then show ?case by (cases "execute json r db") simp_all
qed simp

definition requests_of :: "batch_event list \<Rightarrow> request list" where
  "requests_of es = List.map_filter (\<lambda>e. case e of Deadline \<Rightarrow> None | Received r \<Rightarrow> Some r) es"

lemma requests_of_simps [simp]:
  "requests_of [] = []" "requests_of (Deadline # es) = requests_of es" "requests_of (Received r # es) = r # requests_of es"
  by (simp_all add: requests_of_def List.map_filter_simps)

lemma flushed_requests:
  assumes "flush_requests json pending db = Ok (pending', db')"
  shows "pending' = [] \<and> execute_all json pending db = Ok db'"
  using assms by (auto simp: flush_requests_def res_unwrap_def res_bind_Ok_iff split: if_splits res.splits)

lemma processed_request:
  assumes "process_request json e (pending, db) = Ok (pending', db')" "length pending < BATCH_SIZE"
  shows "execute_all json (pending @ requests_of [e]) db = execute_all json pending' db' \<and> length pending' < BATCH_SIZE"
  using assms by (cases e) (auto simp: Let_def BATCH_SIZE_def split: if_splits dest!: flushed_requests)


definition demo_address :: AddressPortNetwork where
  "demo_address = \<lparr>apn_network_id = IPv4, apn_port = 8333, apn_address = [127, 0, 0, 1]\<rparr>"


text \<open>
  A peer that announces services with the highest bit set ends the queue of the version updates: the batch
  with its request panics, whatever else is in it, and none of its requests is executed.
\<close>

lemma high_service_bit_stops_updates:
  assumes "UpdatePeerFromVersionRequest apn services height agent \<in> set pending" "2 ^ 63 \<le> unat services"
  shows "batch_process_requests json (Deadline # es) (pending, db) = Panic"
proof -
  obtain before after where p: "pending = before @ UpdatePeerFromVersionRequest apn services height agent # after"
    using assms(1) by (auto simp: in_set_conv_decomp)
  have "\<forall>d. execute_all json pending db \<noteq> Ok d"
    using assms(2) by (cases "execute_all json before db") (simp_all add: p execute_all_append to_sql_def)
  then have "res_unwrap (execute_all json pending db) = Panic" by (cases "execute_all json pending db") simp_all
  moreover have "pending \<noteq> []" using assms(1) by auto
  ultimately show ?thesis by (simp add: flush_requests_def)
qed

text \<open>A deletion does not look at the network, so it also hits a peer of another network.\<close>

lemma deletion_ignores_network:
  assumes "execute json (DeletePeerRequest apn) db = Ok db'" "apn_address other = apn_address apn" "apn_port other = apn_port apn"
  shows "other \<notin> set (get_all_peers db')"
  using assms by (auto simp: get_all_peers_def row_apn_def same_peer_def)

text \<open>
  The removal of a banned peer can be overtaken: the request to insert a peer may still wait in its queue when
  the later request to delete it is executed, and then the peer stays in the table.
\<close>

lemma deletion_can_be_overtaken:
  assumes "sq_pending s INSERT_PEER_QUEUE = []" "sq_pending s DELETE_PEER_QUEUE = []" "unat first_seen < 2 ^ 63"
  shows "\<exists>s'. res_bind (insert_peer json peer first_seen s) (\<lambda>s. res_bind (delete_peer json peer s) (\<lambda>s.
      res_bind (queue_event json DELETE_PEER_QUEUE Deadline s) (queue_event json INSERT_PEER_QUEUE Deadline))) = Ok s' \<and>
    peer \<in> set (get_all_peers (sq_db s')) \<and> sq_pending s' INSERT_PEER_QUEUE = [] \<and> sq_pending s' DELETE_PEER_QUEUE = []"
proof -
  have "row_apn \<lparr>pr_network_id = apn_network_id peer, pr_address = apn_address peer, pr_port = apn_port peer,
      pr_first_seen = t, pr_first_online = None, pr_user_agent = None, pr_height = None, pr_services = 0\<rparr> = peer" for t
    by (simp add: row_apn_def)
  then show ?thesis using assms
    by (simp add: insert_peer_def delete_peer_def send_request_def queue_event_def flush_requests_def BATCH_SIZE_def Let_def
        to_sql_def get_all_peers_def)
qed

text \<open>
  A block that is marked while its header still waits in the queue of the inserts stays unmarked: the update
  finds no row, and the row is inserted without the mark later.
\<close>

lemma early_mark_is_lost:
  assumes "bh_hash header \<notin> set (map hr_block_hash (db_headers db))" "metrics_storable metrics" "number < 2 ^ 63"
  shows "\<exists>db1 db2 row. mark_blocks_as_downloaded [bh_hash header] [ascii] [metrics] db = Ok db1 \<and>
    execute json (InsertHeaderRequest header number) db1 = Ok db2 \<and> row \<in> set (db_headers db2) \<and>
    hr_block_hash row = bh_hash header \<and> \<not> hr_fetched_full row"
proof -
  have "set_headers (bh_hash header) f db = db" for f
  proof -
    have "map (\<lambda>row. if hr_block_hash row = bh_hash header then f row else row) (db_headers db) = db_headers db"
      using assms(1) by (intro map_idI) (auto simp: image_iff)
    then show ?thesis by (simp add: set_headers_def)
  qed
  moreover have "\<not> (\<exists>row \<in> set (db_headers db). hr_block_hash row = bh_hash header)" using assms(1) by (auto simp: image_iff)
  ultimately show ?thesis using assms(2,3) by (simp add: mark_blocks_as_downloaded_def to_sql_def) fastforce
qed

section \<open>Restart\<close>

text \<open>
  The rows of a tree of headers in the order of the query: each known header has one row with its fields.
\<close>

definition rows_of_tree :: "known \<Rightarrow> HeaderRow list \<Rightarrow> bool" where
  "rows_of_tree known rows \<longleftrightarrow> sorted (map hr_block_number rows) \<and> distinct (map hr_block_hash rows) \<and>
     set (map hr_block_hash rows) = dom known \<and>
     (\<forall>row \<in> set rows. \<exists>x. known (hr_block_hash row) = Some x \<and> row_header row = bn_header x \<and> hr_block_number row = bn_number x)"

definition marked :: "HeaderRow list \<Rightarrow> hash32 set" where
  "marked rows = hr_block_hash ` {row \<in> set rows. hr_fetched_full row}"

text \<open>Whether a block and all its ancestors are marked.\<close>

definition marked_below :: "known \<Rightarrow> hash32 set \<Rightarrow> hash32 \<Rightarrow> bool" where
  "marked_below known marks h \<longleftrightarrow> (\<exists>x. known h = Some x \<and> bn_hash ` set (line known x) \<subseteq> marks)"

definition read_so_far :: "known \<Rightarrow> hash32 set \<Rightarrow> hash32 set \<Rightarrow> (hash32 \<rightharpoonup> U256) \<Rightarrow> hash32 set \<Rightarrow> bool" where
  "read_so_far known marks seen totals fetched_set \<longleftrightarrow>
     totals = (\<lambda>h. if h = EMPTY_HASH then Some 0 else if h \<in> seen then map_option bn_total_work (known h) else None) \<and>
     fetched_set = insert EMPTY_HASH {h \<in> seen. marked_below known marks h}"

lemma marked_below_step:
  assumes "known_ok known" "known h = Some x"
  shows "marked_below known marks h \<longleftrightarrow> h \<in> marks \<and> (bn_number x = 0 \<or> marked_below known marks (bn_parent x))"
proof -
  have x: "linked known x" "bn_hash x = h" using known_okD [OF assms] by simp_all
  show ?thesis
  proof (cases "bn_number x = 0")
    case True
    then show ?thesis using assms(2) x by (simp add: marked_below_def)
  next
    case False
    then obtain p where "known (bn_parent x) = Some p" "bn_number x = Suc (bn_number p)"
      using linked_parent [OF x(1)] by blast
    then show ?thesis using assms(2) x(2) False by (simp add: marked_below_def)
  qed
qed

definition root_work :: "known \<Rightarrow> bool" where
  "root_work known \<longleftrightarrow> (\<forall>x \<in> ran known. bn_number x = 0 \<longrightarrow> header_work (bn_header x) = Ok (bn_total_work x))"

lemma unat_U256: "unat (w :: U256) < 2 ^ 256"
  using unsigned_less [of w, where 'a = nat] by simp

lemma u256_add_zero: "u256_add 0 w = Ok w"
  using unat_U256 [of w] by (simp add: u256_add_def)

lemma read_headers_tree:
  assumes "known_ok known" "root_work known"
  shows "\<lbrakk>\<forall>row \<in> set rows. \<exists>x. known (hr_block_hash row) = Some x \<and> row_header row = bn_header x \<and>
        hr_block_number row = bn_number x \<and> (hr_fetched_full row \<longleftrightarrow> hr_block_hash row \<in> marks);
      \<forall>i < length rows. hr_previous_block (rows ! i) \<in> insert EMPTY_HASH seen \<union> hr_block_hash ` set (take i rows);
      seen \<subseteq> dom known; read_so_far known marks seen totals fetched_set\<rbrakk> \<Longrightarrow>
    \<exists>xs. read_headers totals fetched_set rows = Ok xs \<and> map bn_hash xs = map hr_block_hash rows \<and>
      (\<forall>y \<in> set xs. \<exists>x. known (bn_hash y) = Some x \<and> same_links x y \<and> (bn_fetched_full y \<longleftrightarrow> marked_below known marks (bn_hash y)))"
proof (induction rows arbitrary: seen totals fetched_set)
  case (Cons row rows)
  obtain x where x: "known (hr_block_hash row) = Some x" "row_header row = bn_header x" "hr_block_number row = bn_number x"
    "hr_fetched_full row \<longleftrightarrow> hr_block_hash row \<in> marks" using Cons.prems(1) by auto
  have lx: "linked known x" "bn_hash x = hr_block_hash row" using known_okD [OF assms(1) x(1)] by simp_all
  have prev: "hr_previous_block row = bn_parent x" using arg_cong [OF x(2), of bh_parent] by (simp add: row_header_def)
  have ne: "hr_block_hash row \<noteq> EMPTY_HASH" using x(1) assms(1) by (auto simp: known_ok_def)
  have parent: "bn_parent x \<in> insert EMPTY_HASH seen" using Cons.prems(2) prev by force
  have tot: "totals = (\<lambda>h. if h = EMPTY_HASH then Some 0 else if h \<in> seen then map_option bn_total_work (known h) else None)"
    and fet: "fetched_set = insert EMPTY_HASH {h \<in> seen. marked_below known marks h}"
    using Cons.prems(4) by (simp_all add: read_so_far_def)
  obtain v w where w: "totals (bn_parent x) = Some v" "header_work (bn_header x) = Ok w" "u256_add v w = Ok (bn_total_work x)"
  proof (cases "bn_number x = 0")
    case True
    then have "bn_parent x = EMPTY_HASH" using lx(1) by (simp add: linked_def)
    moreover have "header_work (bn_header x) = Ok (bn_total_work x)"
      using assms(2) x(1) True by (auto simp: root_work_def ran_def)
    moreover have "u256_add 0 (bn_total_work x) = Ok (bn_total_work x)" by (rule u256_add_zero)
    ultimately show thesis by (intro that [of 0]) (simp_all add: tot)
  next
    case False
    then obtain p w where p: "known (bn_parent x) = Some p" "header_work (bn_header x) = Ok w" "bn_parent x \<noteq> EMPTY_HASH"
      "unat (bn_total_work x) = unat (bn_total_work p) + unat w"
      using lx(1) by (auto simp: linked_def)
    have lt: "unat (bn_total_work p) + unat w < 2 ^ 256" unfolding p(4) [symmetric] by (rule unat_U256)
    then have "unat (bn_total_work p + w) = unat (bn_total_work x)" using p(4) by (simp add: unat_word_ariths)
    then have "bn_total_work p + w = bn_total_work x" by (rule word_unat_eq_iff [THEN iffD2])
    then show thesis using parent p lt by (intro that [of "bn_total_work p" w]) (simp_all add: tot u256_add_def)
  qed
  define f where "f \<longleftrightarrow> bn_parent x \<in> fetched_set \<and> hr_fetched_full row"
  have f: "f \<longleftrightarrow> marked_below known marks (hr_block_hash row)"
  proof (cases "bn_number x = 0")
    case True
    then have "bn_parent x = EMPTY_HASH" using lx(1) by (simp add: linked_def)
    then show ?thesis using marked_below_step [OF assms(1) x(1)] True x(4) by (simp add: f_def fet)
  next
    case False
    then have "bn_parent x \<noteq> EMPTY_HASH" using lx(1) by (simp add: linked_def)
    then show ?thesis using marked_below_step [OF assms(1) x(1)] False x(4) parent by (auto simp: f_def fet)
  qed
  define y where "y = \<lparr>bn_header = bn_header x, bn_number = bn_number x, bn_fetched_full = f, bn_total_work = bn_total_work x,
    bn_coinbase_ascii = (if f then map_option from_utf8_lossy (hr_coinbase_ascii row) else None)\<rparr>"
  let ?totals = "totals(hr_block_hash row \<mapsto> bn_total_work x)"
  let ?fetched = "if f then insert (hr_block_hash row) fetched_set else fetched_set"
  have done': "insert (hr_block_hash row) seen \<subseteq> dom known" using Cons.prems(3) x(1) by auto
  have "read_so_far known marks (insert (hr_block_hash row) seen) ?totals ?fetched"
    using ne x(1) f by (auto simp: read_so_far_def tot fet fun_eq_iff)
  moreover have "\<forall>i < length rows. hr_previous_block (rows ! i) \<in>
      insert EMPTY_HASH (insert (hr_block_hash row) seen) \<union> hr_block_hash ` set (take i rows)"
  proof (intro allI impI)
    fix i assume "i < length rows"
    then show "hr_previous_block (rows ! i) \<in> insert EMPTY_HASH (insert (hr_block_hash row) seen) \<union> hr_block_hash ` set (take i rows)"
      using Cons.prems(2) [THEN spec, of "Suc i"] by auto
  qed
  moreover have "\<forall>row \<in> set rows. \<exists>x. known (hr_block_hash row) = Some x \<and> row_header row = bn_header x \<and>
        hr_block_number row = bn_number x \<and> (hr_fetched_full row \<longleftrightarrow> hr_block_hash row \<in> marks)"
    using Cons.prems(1) by simp
  ultimately obtain xs where xs: "read_headers ?totals ?fetched rows = Ok xs" "map bn_hash xs = map hr_block_hash rows"
      "\<forall>y \<in> set xs. \<exists>x. known (bn_hash y) = Some x \<and> same_links x y \<and> (bn_fetched_full y \<longleftrightarrow> marked_below known marks (bn_hash y))"
    using Cons.IH [OF _ _ done', of ?totals ?fetched] by blast
  have "read_headers totals fetched_set (row # rows) = Ok (y # xs)"
    using w xs(1) by (cases f) (simp_all add: x(2,3) y_def f_def [symmetric] Let_def lx(2))
  moreover have "same_links x y" "bn_hash y = hr_block_hash row" "bn_fetched_full y = f"
    using lx(2) by (simp_all add: y_def same_links_def)
  ultimately show ?case using xs(2,3) x(1) f by auto
qed simp


lemma main_chain_line:
  assumes "known_ok (ch_known_headers c)" "linked (ch_known_headers c) x"
  shows "main_chain_from c x hs ns = Some (Ok (hs \<union> set (hashes (ch_known_headers c) x),
    \<lambda>n. if n \<le> bn_number x then Some (rev (hashes (ch_known_headers c) x) ! n) else ns n))"
  using assms
proof (induction arbitrary: hs ns rule: linked_induct)
  case (root x)
  then show ?case by (subst main_chain_from.simps) (auto simp: hashes_root)
next
  case (child x p)
  have h: "hashes (ch_known_headers c) x = bn_hash x # hashes (ch_known_headers c) p"
    using child.hyps by (simp add: hashes_def)
  have len: "length (hashes (ch_known_headers c) p) = Suc (bn_number p)" by (rule hashes_length [OF assms(1) child.hyps(2)])
  have ns: "(\<lambda>n. if n \<le> bn_number p then Some (rev (hashes (ch_known_headers c) p) ! n) else (ns(bn_number x \<mapsto> bn_hash x)) n) =
      (\<lambda>n. if n \<le> bn_number x then Some (rev (hashes (ch_known_headers c) x) ! n) else ns n)"
    using child.hyps(4) len by (auto simp: fun_eq_iff h nth_append)
  have "main_chain_from c x hs ns = main_chain_from c p (insert (bn_hash x) hs) (ns(bn_number x \<mapsto> bn_hash x))"
    using child.hyps(3,4) by (subst main_chain_from.simps) (simp add: Let_def)
  also have "\<dots> = Some (Ok (hs \<union> set (hashes (ch_known_headers c) x),
      \<lambda>n. if n \<le> bn_number x then Some (rev (hashes (ch_known_headers c) x) ! n) else ns n))"
    unfolding child.IH ns by (simp add: h)
  finally show ?case .
qed

lemma generated_index:
  assumes "chain_ok c"
  shows "\<exists>c'. generate_top_work_chain_hashset c = Some (Ok c') \<and> ch_known_headers c' = ch_known_headers c \<and>
    ch_top_header c' = ch_top_header c \<and> index_ok c'"
  using main_chain_line [OF _ top_linked [OF assms], of "{}" Map.empty] assms
  by (simp add: generate_top_work_chain_hashset_def chain_ok_def index_ok_def main_set_ok_def)

definition load_header :: "Chain \<Rightarrow> BlockHeaderWithNumber \<Rightarrow> Chain" where
  "load_header c new_header =
     (if bn_total_work (ch_top_header c) < bn_total_work new_header then c\<lparr>ch_top_header := new_header\<rparr> else c)
       \<lparr>ch_known_headers := (ch_known_headers c)(bn_hash new_header \<mapsto> new_header)\<rparr>"

lemma load_header_simps [simp]:
  "ch_known_headers (load_header c y) = (ch_known_headers c)(bn_hash y \<mapsto> y)"
  "ch_top_header (load_header c y) = (if bn_total_work (ch_top_header c) < bn_total_work y then y else ch_top_header c)"
  by (simp_all add: load_header_def)

lemma loaded_headers:
  "ch_known_headers (foldl load_header c xs) = ch_known_headers c ++ map_of (rev (map (\<lambda>y. (bn_hash y, y)) xs))"
  "ch_top_header (foldl load_header c xs) \<in> insert (ch_top_header c) (set xs)"
  "\<forall>y \<in> insert (ch_top_header c) (set xs). bn_total_work y \<le> bn_total_work (ch_top_header (foldl load_header c xs))"
proof (induction xs rule: rev_induct)
  case (snoc y xs)
  { case 1 then show ?case using snoc(1) by (simp add: map_add_def fun_eq_iff)
  next case 2 then show ?case using snoc(2) by auto
  next case 3 then show ?case using snoc(3) by (auto simp: not_less)
  }
qed simp_all


text \<open>In the order of the query the parent of every row comes first.\<close>

lemma tree_rows_parents:
  assumes "known_ok known" "rows_of_tree known rows" "i < length rows"
  shows "hr_previous_block (rows ! i) \<in> insert EMPTY_HASH {} \<union> hr_block_hash ` set (take i rows)"
proof -
  obtain x where x: "known (hr_block_hash (rows ! i)) = Some x" "row_header (rows ! i) = bn_header x" "hr_block_number (rows ! i) = bn_number x"
    using assms(2) nth_mem [OF assms(3)] unfolding rows_of_tree_def by blast
  have prev: "hr_previous_block (rows ! i) = bn_parent x" using arg_cong [OF x(2), of bh_parent] by (simp add: row_header_def)
  have lx: "linked known x" by (rule known_okD(2) [OF assms(1) x(1)])
  show ?thesis
  proof (cases "bn_number x = 0")
    case True
    then show ?thesis using lx prev by (simp add: linked_def)
  next
    case False
    then obtain p where p: "known (bn_parent x) = Some p" "bn_number x = Suc (bn_number p)"
      using linked_parent [OF lx] by blast
    have rows: "sorted (map hr_block_number rows)" "set (map hr_block_hash rows) = dom known"
      "\<forall>row \<in> set rows. \<exists>x. known (hr_block_hash row) = Some x \<and> row_header row = bn_header x \<and> hr_block_number row = bn_number x"
      using assms(2) by (simp_all add: rows_of_tree_def)
    have "bn_parent x \<in> hr_block_hash ` set rows" using rows(2) p(1) by (simp add: domI)
    then obtain j where j: "j < length rows" "hr_block_hash (rows ! j) = bn_parent x" by (auto simp: in_set_conv_nth)
    obtain p' where "known (bn_parent x) = Some p'" "hr_block_number (rows ! j) = bn_number p'"
      using rows(3) nth_mem [OF j(1)] unfolding j(2) [symmetric] by blast
    then have less: "hr_block_number (rows ! j) < hr_block_number (rows ! i)" using p x(3) by simp
    have "j < i"
    proof (rule ccontr)
      assume "\<not> j < i"
      then have "map hr_block_number rows ! i \<le> map hr_block_number rows ! j"
        using j(1) by (intro sorted_nth_mono [OF rows(1)]) simp_all
      then show False using less j(1) assms(3) by simp
    qed
    then have "rows ! j \<in> set (take i rows)" using assms(3) by (auto simp: in_set_conv_nth)
    then show ?thesis unfolding prev j(2) [symmetric] by blast
  qed
qed

lemma read_tree:
  assumes "known_ok known" "root_work known" "rows_of_tree known rows"
  shows "\<exists>xs. read_headers [EMPTY_HASH \<mapsto> 0] {EMPTY_HASH} rows = Ok xs \<and> map bn_hash xs = map hr_block_hash rows \<and>
    (\<forall>y \<in> set xs. \<exists>x. known (bn_hash y) = Some x \<and> same_links x y \<and>
      (bn_fetched_full y \<longleftrightarrow> marked_below known (marked rows) (bn_hash y)))"
proof (rule read_headers_tree [OF assms(1,2), where seen = "{}"])
  have d: "distinct (map hr_block_hash rows)" using assms(3) by (simp add: rows_of_tree_def)
  have "hr_fetched_full row \<longleftrightarrow> hr_block_hash row \<in> marked rows" if "row \<in> set rows" for row
    using that inj_onD [OF distinct_map [THEN iffD1, OF d, THEN conjunct2]] by (fastforce simp: marked_def)
  then show "\<forall>row \<in> set rows. \<exists>x. known (hr_block_hash row) = Some x \<and> row_header row = bn_header x \<and>
      hr_block_number row = bn_number x \<and> (hr_fetched_full row \<longleftrightarrow> hr_block_hash row \<in> marked rows)"
    using assms(3) unfolding rows_of_tree_def by blast
  show "\<forall>i < length rows. hr_previous_block (rows ! i) \<in> insert EMPTY_HASH {} \<union> hr_block_hash ` set (take i rows)"
    using tree_rows_parents [OF assms(1,3)] by blast
  show "read_so_far known (marked rows) {} [EMPTY_HASH \<mapsto> 0] {EMPTY_HASH}"
    by (auto simp: read_so_far_def fun_eq_iff)
qed simp

lemma chain_ok_same_tree:
  assumes "chain_ok c" "ch_known_headers c' = ch_known_headers c" "top_ok c'"
  shows "chain_ok c'"
proof -
  have ok: "known_ok (ch_known_headers c)" "difficulty_ok c" using assms(1) by (simp_all add: chain_ok_def)
  have "get_next_bits_required c' p = Some (Ok (bh_bits (bn_header x)))"
    if x: "x \<in> ran (ch_known_headers c)" and p: "ch_known_headers c (bn_parent x) = Some p" for x p
  proof -
    obtain h where "ch_known_headers c h = Some x" using x by (auto simp: ran_def)
    then have lx: "linked (ch_known_headers c) x" by (rule known_okD(2) [OF ok(1)])
    have "bn_number p + 1 < 2 ^ 64" using parent_number [OF ok(1) lx p] lx unfolding linked_def by simp
    then have "get_next_bits_required c' p = get_next_bits_required c p"
      by (rule remarked_next_bits [OF ok(1) known_okD(2) [OF ok(1) p]]) (simp_all add: assms(2))
    then show ?thesis using ok(2) x p unfolding difficulty_ok_def by simp
  qed
  then show ?thesis using ok(1) assms(2,3) by (simp add: chain_ok_def difficulty_ok_def)
qed

text \<open>The headers that have been read are the tree again, with the marks that count.\<close>

lemma loaded_tree:
  assumes "chain_ok c" and "map bn_hash xs = map hr_block_hash rows" "rows_of_tree (ch_known_headers c) rows"
    and xs: "\<forall>y \<in> set xs. \<exists>x. ch_known_headers c (bn_hash y) = Some x \<and> same_links x y \<and>
      (bn_fetched_full y \<longleftrightarrow> marked_below (ch_known_headers c) (marked rows) (bn_hash y))"
    and g: "ch_known_headers c0 = [bn_hash g \<mapsto> g]" "ch_top_header c0 = g" "bn_hash g \<in> dom (ch_known_headers c)"
      "bn_total_work g < bn_total_work (ch_top_header c)"
  defines "c' \<equiv> foldl load_header c0 xs"
  shows "remarked (ch_known_headers c) (ch_known_headers c') \<and>
    (\<forall>h. fetched (ch_known_headers c') h \<longleftrightarrow> marked_below (ch_known_headers c) (marked rows) h) \<and>
    ch_known_headers c' (bn_hash (ch_top_header c')) = Some (ch_top_header c') \<and>
    bn_total_work (ch_top_header c') = bn_total_work (ch_top_header c)"
proof -
  let ?zs = "map (\<lambda>y. (bn_hash y, y)) xs"
  have d: "distinct (map fst (rev ?zs))"
    using assms(3) by (simp add: rows_of_tree_def rev_map [symmetric] comp_def assms(2))
  have dom: "bn_hash ` set xs = dom (ch_known_headers c)"
    using assms(3) arg_cong [OF assms(2), of set] by (simp add: rows_of_tree_def)
  have known': "ch_known_headers c' h = (if h \<in> dom (ch_known_headers c) then map_of (rev ?zs) h else None)" for h
  proof (cases "map_of (rev ?zs) h")
    case None
    then have "h \<notin> dom (ch_known_headers c)" using dom by (simp add: map_of_eq_None_iff image_image)
    then show ?thesis using None g(1,3) by (auto simp: c'_def loaded_headers(1) map_add_def)
  next
    case (Some y)
    then have "h \<in> bn_hash ` set xs" using map_of_SomeD [OF Some] by force
    then show ?thesis using Some dom by (simp add: c'_def loaded_headers(1) map_add_def)
  qed
  have entry: "ch_known_headers c' h = Some y \<longleftrightarrow> y \<in> set xs \<and> bn_hash y = h" for h y
    using map_of_eq_Some_iff [OF d] dom by (auto simp: known')
  have rel: "remarked (ch_known_headers c) (ch_known_headers c')"
    unfolding remarked_def
  proof
    fix h
    show "rel_option same_links (ch_known_headers c h) (ch_known_headers c' h)"
    proof (cases "ch_known_headers c h")
      case None
      then show ?thesis by (simp add: known' domIff)
    next
      case (Some x)
      then have "h \<in> bn_hash ` set xs" using dom by blast
      then obtain y where y: "y \<in> set xs" "bn_hash y = h" by blast
      then have "ch_known_headers c' h = Some y" by (simp add: entry)
      moreover have "same_links x y" using xs y Some by force
      ultimately show ?thesis using Some by simp
    qed
  qed
  have marks: "fetched (ch_known_headers c') h \<longleftrightarrow> marked_below (ch_known_headers c) (marked rows) h" for h
  proof (cases "ch_known_headers c h")
    case None
    then show ?thesis using remarkedD(3) [OF rel] by (auto simp: fetched_def marked_below_def known' domIff)
  next
    case (Some x)
    then have "h \<in> bn_hash ` set xs" using dom by blast
    then obtain y where y: "y \<in> set xs" "bn_hash y = h" by blast
    then have "ch_known_headers c' h = Some y" by (simp add: entry)
    then show ?thesis using xs y by (auto simp: fetched_def)
  qed
  obtain t where t: "ch_known_headers c (bn_hash (ch_top_header c)) = Some t"
    "ch_top_header c = t\<lparr>bn_coinbase_ascii := bn_coinbase_ascii (ch_top_header c)\<rparr>"
    using assms(1) unfolding chain_ok_def top_ok_def by blast
  have tw: "bn_total_work t = bn_total_work (ch_top_header c)" by (subst t(2)) simp
  obtain y where y: "y \<in> set xs" "same_links t y"
    using remarkedD(1) [OF rel t(1)] by (auto simp: entry)
  note top = loaded_headers(2,3) [of c0 xs, folded c'_def, unfolded g(2)]
  have ge: "bn_total_work (ch_top_header c) \<le> bn_total_work (ch_top_header c')"
  proof -
    have "bn_total_work y \<le> bn_total_work (ch_top_header c')" by (rule top(2) [rule_format]) (simp add: y(1))
    moreover have "bn_total_work y = bn_total_work (ch_top_header c)" using y(2) tw by (simp add: same_links_def)
    ultimately show ?thesis by simp
  qed
  then have in_xs: "ch_top_header c' \<in> set xs" using top(1) g(4) by auto
  then obtain x where "ch_known_headers c (bn_hash (ch_top_header c')) = Some x" "same_links x (ch_top_header c')"
    using xs by blast
  then have "bn_total_work (ch_top_header c') \<le> bn_total_work (ch_top_header c)"
    using top_work [of c] assms(1) by (fastforce simp: chain_ok_def same_links_def)
  then show ?thesis using rel marks in_xs ge by (simp add: entry)
qed

lemma restored_chain:
  assumes "chain_ok c" "root_work (ch_known_headers c)"
    and "rows_of_tree (ch_known_headers c) (by_number (db_headers db))"
    and "ch_known_headers (cm_chain m) = [bn_hash g \<mapsto> g]" "ch_top_header (cm_chain m) = g"
    and "bn_hash g \<in> dom (ch_known_headers c)" "bn_total_work g < bn_total_work (ch_top_header c)"
  shows "\<exists>headers m'. get_all_headers by_number db = Ok headers \<and> load_headers_from_sqlite headers m = Some (Ok m') \<and>
    chain_ok (cm_chain m') \<and> index_ok (cm_chain m') \<and> counter_ok m' \<and>
    remarked (ch_known_headers c) (ch_known_headers (cm_chain m')) \<and>
    bn_total_work (ch_top_header (cm_chain m')) = bn_total_work (ch_top_header c) \<and>
    (\<forall>h. fetched (ch_known_headers (cm_chain m')) h \<longleftrightarrow>
      marked_below (ch_known_headers c) (marked (by_number (db_headers db))) h)"
proof -
  let ?rows = "by_number (db_headers db)"
  have ok: "known_ok (ch_known_headers c)" using assms(1) by (simp add: chain_ok_def)
  obtain xs where xs: "get_all_headers by_number db = Ok xs" "map bn_hash xs = map hr_block_hash ?rows"
    "\<forall>y \<in> set xs. \<exists>x. ch_known_headers c (bn_hash y) = Some x \<and> same_links x y \<and>
      (bn_fetched_full y \<longleftrightarrow> marked_below (ch_known_headers c) (marked ?rows) (bn_hash y))"
    using read_tree [OF ok assms(2,3)] unfolding get_all_headers_def by blast
  define c1 where "c1 = foldl load_header (cm_chain m) xs"
  note tree = loaded_tree [OF assms(1) xs(2) assms(3) xs(3) assms(4-7), folded c1_def]
  have ok1: "chain_ok c1"
  proof -
    obtain s where s: "ch_known_headers c (bn_hash (ch_top_header c)) = Some s" using assms(1) by (auto simp: chain_ok_def top_ok_def)
    then obtain t where t: "ch_known_headers c1 (bn_hash (ch_top_header c)) = Some t"
      using remarkedD(1) [OF tree [THEN conjunct1]] by blast
    let ?c = "c1\<lparr>ch_top_header := (ch_top_header c)\<lparr>bn_fetched_full := bn_fetched_full t\<rparr>\<rparr>"
    have "chain_ok ?c" by (rule remarked_chain_ok [OF assms(1)]) (use tree t in simp_all)
    moreover have "top_ok c1"
      unfolding top_ok_def
    proof (intro conjI ballI)
      show "\<exists>t. ch_known_headers c1 (bn_hash (ch_top_header c1)) = Some t \<and>
          ch_top_header c1 = t\<lparr>bn_coinbase_ascii := bn_coinbase_ascii (ch_top_header c1)\<rparr>" using tree by simp
      show "bn_total_work x \<le> bn_total_work (ch_top_header c1)" if "x \<in> ran (ch_known_headers c1)" for x
        using \<open>chain_ok ?c\<close> that tree by (simp add: chain_ok_def top_ok_def)
    qed
    ultimately show ?thesis using chain_ok_same_tree [of ?c c1] by simp
  qed
  obtain c2 where c2: "generate_top_work_chain_hashset c1 = Some (Ok c2)" "ch_known_headers c2 = ch_known_headers c1"
    "ch_top_header c2 = ch_top_header c1" "index_ok c2" using generated_index [OF ok1] by blast
  have ok2: "chain_ok c2" by (rule chain_ok_same_tree [OF ok1 c2(2)]) (use ok1 c2 in \<open>simp add: chain_ok_def top_ok_def\<close>)
  obtain n where n: "calculate_downloaded_blocks c2 = Some (Ok n)" using top_downloaded_total [OF ok2] by blast
  have "load_headers_from_sqlite xs m = Some (Ok (m\<lparr>cm_chain := c2, cm_downloaded_blocks := n\<rparr>))"
    using c2(1) n by (simp add: load_headers_from_sqlite_def load_header_def [abs_def, symmetric] c1_def)
  moreover have "counter_ok (m\<lparr>cm_chain := c2, cm_downloaded_blocks := n\<rparr>)" using n by (simp add: counter_ok_def)
  moreover have "cm_chain (m\<lparr>cm_chain := c2, cm_downloaded_blocks := n\<rparr>) = c2" by simp
  ultimately show ?thesis using xs(1) ok2 c2(4) tree [folded c2(2,3)] by metis
qed

text \<open>
  C31: A start restores the tree of headers from their rows: the readers return every known header with its
  work, the chain built from them is well-formed with complete indexes, an equally heavy header on top and a
  correct counter, and a block counts as downloaded exactly if it and all its ancestors are marked.
\<close>

theorem restart_restores_chain:
  assumes "chain_ok c" "root_work (ch_known_headers c)"
    and "rows_of_tree (ch_known_headers c) (by_number (db_headers db))"
    and "ch_known_headers (cm_chain m) = [bn_hash g \<mapsto> g]" "ch_top_header (cm_chain m) = g"
    and "bn_hash g \<in> dom (ch_known_headers c)" "bn_total_work g < bn_total_work (ch_top_header c)"
  shows "\<exists>headers m'. get_all_headers by_number db = Ok headers \<and> load_headers_from_sqlite headers m = Some (Ok m') \<and>
    chain_ok (cm_chain m') \<and> index_ok (cm_chain m') \<and> counter_ok m' \<and>
    remarked (ch_known_headers c) (ch_known_headers (cm_chain m')) \<and>
    bn_total_work (ch_top_header (cm_chain m')) = bn_total_work (ch_top_header c) \<and>
    (\<forall>h. fetched (ch_known_headers (cm_chain m')) h \<longleftrightarrow>
      marked_below (ch_known_headers c) (marked (by_number (db_headers db))) h)"
  by (rule restored_chain [where by_number = by_number and db = db, OF assms])

definition demo_header_row :: "u8 \<Rightarrow> hash32 \<Rightarrow> nat \<Rightarrow> bool \<Rightarrow> HeaderRow" where
  "demo_header_row b parent n f = \<lparr>hr_version = bh_version (demo_header b parent), hr_previous_block = parent,
     hr_merkle_root = bh_merkle_root (demo_header b parent), hr_timestamp = bh_timestamp (demo_header b parent),
     hr_bits = bh_bits (demo_header b parent), hr_nonce = bh_nonce (demo_header b parent), hr_block_number = n,
     hr_block_hash = demo_hash b, hr_fetched_full = f, hr_coinbase_ascii = None\<rparr>"

text \<open>The third block is marked although its parent is not.\<close>

definition demo_header_rows :: "HeaderRow list" where
  "demo_header_rows = [demo_header_row 1 EMPTY_HASH 0 True, demo_header_row 2 (demo_hash 1) 1 False, demo_header_row 4 (demo_hash 1) 1 False,
     demo_header_row 3 (demo_hash 2) 2 True]"

lemma demo_header_row_simps [simp]:
  "hr_block_hash (demo_header_row b parent n f) = demo_hash b" "hr_block_number (demo_header_row b parent n f) = n"
  "hr_fetched_full (demo_header_row b parent n f) = f" "row_header (demo_header_row b parent n f) = demo_header b parent"
  by (simp_all add: demo_header_row_def row_header_def demo_header_def BlockHeader_default_def)

lemma demo_header_rows_of_tree: "rows_of_tree demo_known demo_header_rows"
  by (auto simp: rows_of_tree_def demo_header_rows_def demo_known_def demo_entry_def demo_hash_def)

theorem restart_restores_chain_witness:
  "\<exists>headers m'. get_all_headers (\<lambda>rows. rows) (Database_empty\<lparr>db_headers := demo_header_rows\<rparr>) = Ok headers \<and>
    load_headers_from_sqlite headers (demo_man (demo_chain\<lparr>ch_known_headers := [demo_hash 1 \<mapsto> demo_entry 1 EMPTY_HASH 0],
      ch_top_header := demo_entry 1 EMPTY_HASH 0\<rparr>)) = Some (Ok m') \<and> chain_ok (cm_chain m') \<and>
    fetched (ch_known_headers (cm_chain m')) (demo_hash 1) \<and> \<not> fetched (ch_known_headers (cm_chain m')) (demo_hash 3)"
proof -
  have work: "root_work (ch_known_headers demo_chain)"
    by (auto simp: root_work_def demo_chain_def ran_def demo_header_work demo_entry_def elim!: demo_known_cases)
  have rows: "rows_of_tree (ch_known_headers demo_chain) ((\<lambda>rows. rows) (db_headers (Database_empty\<lparr>db_headers := demo_header_rows\<rparr>)))"
    using demo_header_rows_of_tree by (simp add: demo_chain_def)
  have marks: "marked_below demo_known (marked demo_header_rows) (demo_hash 1)" "\<not> marked_below demo_known (marked demo_header_rows) (demo_hash 3)"
  proof -
    have m: "marked demo_header_rows = {demo_hash 1, demo_hash 3}"
    proof -
      have "{row \<in> set demo_header_rows. hr_fetched_full row} = {demo_header_row 1 EMPTY_HASH 0 True, demo_header_row 3 (demo_hash 2) 2 True}"
        by (auto simp: demo_header_rows_def)
      then show ?thesis by (simp add: marked_def)
    qed
    note step = marked_below_step [OF demo_known_ok, where marks = "marked demo_header_rows"]
    show "marked_below demo_known (marked demo_header_rows) (demo_hash 1)"
      using step [of "demo_hash 1"] by (simp add: m)
    show "\<not> marked_below demo_known (marked demo_header_rows) (demo_hash 3)"
    proof -
      have "demo_hash 2 \<notin> marked demo_header_rows" by (simp add: m demo_hash_def)
      then show ?thesis using step [of "demo_hash 3"] step [of "demo_hash 2"] by simp
    qed
  qed
  let ?g = "demo_entry 1 EMPTY_HASH 0"
  let ?m = "demo_man (demo_chain\<lparr>ch_known_headers := [demo_hash 1 \<mapsto> ?g], ch_top_header := ?g\<rparr>)"
  have start: "ch_known_headers (cm_chain ?m) = [bn_hash ?g \<mapsto> ?g]" "ch_top_header (cm_chain ?m) = ?g"
    "bn_hash ?g \<in> dom (ch_known_headers demo_chain)" by (simp_all add: demo_chain_def domIff)
  have "bn_total_work ?g < bn_total_work (ch_top_header demo_chain)"
    by (simp add: demo_chain_def word_less_nat_alt demo_total_work)
  note restart_restores_chain [where by_number = "\<lambda>rows. rows" and db = "Database_empty\<lparr>db_headers := demo_header_rows\<rparr>",
      OF demo_chain_ok work rows start this]
  moreover have "ch_known_headers demo_chain = demo_known" by (simp add: demo_chain_def)
  moreover have "db_headers (Database_empty\<lparr>db_headers := demo_header_rows\<rparr>) = demo_header_rows" by simp
  ultimately show ?thesis using marks by metis
qed

end
