(* ===== verification/Launch.thy ===== *)
theory Launch
  imports Sqlite
begin

text \<open>
  From the start of the chain manager to the last downloaded block: the loop over peers of
  \<open>src/src/chainman/headersync.rs\<close>, the task that \<open>start\<close> of \<open>src/src/chainman/mod.rs\<close> spawns after the headers
  are loaded, and what happens to a batch of analysed blocks (\<open>receive_and_process_blocks\<close> of
  \<open>src/src/chainman/blocksync.rs\<close>).  The outcomes of connections are arguments.
\<close>

section \<open>Synchronising headers\<close>

text \<open>
  A connection: the time at which the loop asks whether headers are missing, whether the request could be
  written, and the packets that are read before an error or the deadline, each with the time at which it is
  handled and whether the responses to it could be written.
\<close>

record header_session =
  hs_now :: u64
  hs_written :: bool
  hs_packets :: "(u64 \<times> Headers option \<times> bool) list"

fun read_session :: "(u64 \<times> Headers option \<times> bool) list \<Rightarrow> ChainMan \<Rightarrow> ChainMan loop" where
  "read_session [] m = Some (Ok m)"
| "read_session ((now, packet, sent) # packets) m =
     loop_bind (handle_packet_during_headersync now packet m) (\<lambda>(need_break, responses, m).
     let need_break = (need_break \<or> (case responses of None \<Rightarrow> False | Some rs \<Rightarrow> rs \<noteq> [] \<and> \<not> sent)) in
     if need_break then Some (Ok m) else read_session packets m)"

text \<open>The first component of the result tells whether the function has returned; if not, it goes on with another peer.\<close>

fun sync_headers :: "header_session list \<Rightarrow> ChainMan \<Rightarrow> (bool \<times> ChainMan) loop" where
  "sync_headers [] m = Some (Ok (False, m))"
| "sync_headers (s # sessions) m =
     (if \<not> need_ihd (hs_now s) (cm_chain m) then Some (Ok (True, m))
      else
        loop_bind (build_get_headers (cm_chain m)) (\<lambda>get_headers.
        if \<not> hs_written s then sync_headers sessions m
        else loop_bind (read_session (hs_packets s) m) (sync_headers sessions)))"

section \<open>The start\<close>

record sync_flags =
  sf_headers :: bool
  sf_bodies :: bool
  sf_large_limit :: usize
  sf_small_limit :: usize

definition start_syncing_headers :: "sync_flags \<Rightarrow> sync_flags" where
  "start_syncing_headers f = f\<lparr>sf_headers := True\<rparr>"

definition stop_syncing_headers :: "sync_flags \<Rightarrow> sync_flags" where
  "stop_syncing_headers f = f\<lparr>sf_headers := False\<rparr>"

text \<open>The limits of the pools of arenas are read from the environment.\<close>

definition start_syncing_blocks :: "usize \<times> usize \<Rightarrow> sync_flags \<Rightarrow> sync_flags" where
  "start_syncing_blocks limits f = f\<lparr>sf_bodies := True, sf_large_limit := fst limits, sf_small_limit := snd limits\<rparr>"

definition stop_syncing_blocks :: "usize \<times> usize \<Rightarrow> sync_flags \<Rightarrow> sync_flags" where
  "stop_syncing_blocks limits f = f\<lparr>sf_large_limit := fst limits, sf_small_limit := snd limits, sf_bodies := False\<rparr>"

text \<open>
  The spawned task until it downloads blocks: either it still synchronises headers, or it shows the branch of
  the highest downloaded block and asks for the missing ones.
\<close>

datatype start_result =
    Syncing ChainMan sync_flags
  | Started "hash32 option" "(hash32 list \<times> usize) option" ChainMan sync_flags

definition after_headersync :: "ChainMan \<Rightarrow> ChainMan loop" where
  "after_headersync m =
     loop_bind (calculate_downloaded_blocks (cm_chain m)) (\<lambda>new_count.
     loop_bind (generate_top_work_chain_hashset (cm_chain m)) (\<lambda>w.
     Some (Ok (m\<lparr>cm_chain := w, cm_downloaded_blocks := new_count\<rparr>))))"

definition choose_blocks :: "usize \<times> usize \<Rightarrow> ChainMan \<Rightarrow> sync_flags \<Rightarrow> start_result loop" where
  "choose_blocks limits m f =
     loop_bind (get_top_downloaded_block_hash (cm_chain m)) (\<lambda>top_downloaded_block_hash.
     case get_block_hashes_to_download m of
       None \<Rightarrow> None
     | Some None \<Rightarrow> Some (Ok (Started top_downloaded_block_hash None m (stop_syncing_headers f)))
     | Some (Some missing) \<Rightarrow>
         Some (Ok (Started top_downloaded_block_hash (Some missing) m
           (stop_syncing_headers (start_syncing_blocks limits f)))))"

definition start_task ::
  "usize \<times> usize \<Rightarrow> u64 \<Rightarrow> header_session list \<Rightarrow> ChainMan \<Rightarrow> sync_flags \<Rightarrow> start_result loop" where
  "start_task limits now sessions m f =
     (if need_ihd now (cm_chain m) then
        (let f = start_syncing_headers f in
         loop_bind (sync_headers sessions m) (\<lambda>(returned, m).
         if \<not> returned then Some (Ok (Syncing m f))
         else loop_bind (after_headersync m) (\<lambda>m. choose_blocks limits m f)))
      else choose_blocks limits m f)"

definition chainman_start ::
  "('r \<Rightarrow> bytes \<Rightarrow> bool) \<Rightarrow> MinerId list \<Rightarrow> usize \<times> usize \<Rightarrow> BlockHeaderWithNumber list \<Rightarrow> u64 \<Rightarrow> header_session list \<Rightarrow>
   ChainMan \<times> 'r Miners \<Rightarrow> sync_flags \<Rightarrow> ('r Miners \<times> start_result) loop" where
  "chainman_start is_match order limits headers now sessions s f =
     loop_bind (load_headers_from_sqlite headers (fst s)) (\<lambda>m.
     loop_bind (callback_after_headers_loaded is_match order now (cm_chain m) (snd s)) (\<lambda>w.
     loop_bind (start_task limits now sessions m f) (\<lambda>r. Some (Ok (w, r)))))"

section \<open>A download worker\<close>

text \<open>
  A peer of a worker: whether the request for the job could be written, and the packets that are read before an
  error or the deadline, each with whether the request for the next job could be written after it.  The
  replies of the master are the next jobs, \<open>None\<close> for a dismissal; when there are none left the master is gone.
\<close>

record download_peer =
  dp_written :: bool
  dp_packets :: "(Payload option \<times> bool) list"

fun peer_loop ::
  "(bytes \<Rightarrow> bytes) \<Rightarrow> (Payload option \<times> bool) list \<Rightarrow> block_job \<Rightarrow> block_job option list \<Rightarrow>
   ((Payload option \<times> block_job) list \<times> (block_job \<times> block_job option list) option) res" where
  "peer_loop sha [] job replies = Ok ([], Some (job, replies))"
| "peer_loop sha ((payload, written) # packets) job replies =
     res_bind (should_send sha job payload) (\<lambda>should_send.
     if \<not> should_send then peer_loop sha packets job replies
     else
       (case replies of
          [] \<Rightarrow> Ok ([], None)
        | None # _ \<Rightarrow> Ok ([(payload, job)], None)
        | Some next_job # replies \<Rightarrow>
            if \<not> written then Ok ([(payload, job)], Some (next_job, replies))
            else res_bind (peer_loop sha packets next_job replies) (\<lambda>(sent, r). Ok ((payload, job) # sent, r))))"

fun worker_loop ::
  "(bytes \<Rightarrow> bytes) \<Rightarrow> download_peer list \<Rightarrow> block_job \<Rightarrow> block_job option list \<Rightarrow>
   ((Payload option \<times> block_job) list \<times> (block_job \<times> block_job option list) option) res" where
  "worker_loop sha [] job replies = Ok ([], Some (job, replies))"
| "worker_loop sha (p # peers) job replies =
     (if \<not> dp_written p then worker_loop sha peers job replies
      else
        res_bind (peer_loop sha (dp_packets p) job replies) (\<lambda>(sent, next_job).
        case next_job of
          None \<Rightarrow> Ok (sent, None)
        | Some (job, replies) \<Rightarrow> res_bind (worker_loop sha peers job replies) (\<lambda>(more, r). Ok (sent @ more, r))))"

definition run_download_worker ::
  "(bytes \<Rightarrow> bytes) \<Rightarrow> download_peer list \<Rightarrow> block_job option list \<Rightarrow>
   ((Payload option \<times> block_job) list \<times> (block_job \<times> block_job option list) option) res" where
  "run_download_worker sha peers replies =
     (case replies of
        Some job # replies \<Rightarrow> worker_loop sha peers job replies
      | _ \<Rightarrow> Ok ([], None))"

section \<open>A batch of analysed blocks\<close>

record 'r chain_data =
  cd_man :: ChainMan
  cd_miners :: "'r Miners"
  cd_frontpage :: FrontPageData
  cd_written :: "(hash32 list \<times> table_writes \<times> BlockMetrics list) list"

text \<open>The task that writes a batch, tells the miners, marks the blocks and shows them.\<close>

definition flush_batch ::
  "'r services \<Rightarrow> hash32 list \<Rightarrow> SerializedTx list list \<Rightarrow> bytes list \<Rightarrow> BlockMetrics list \<Rightarrow> arena \<Rightarrow> f64 \<Rightarrow>
   'r chain_data \<Rightarrow> 'r chain_data loop" where
  "flush_batch sv next_batch current_analyzed coinbase_asciis current_metrics current_arena sync_speed s =
     loop_bind (Some (write_analyzed_txs (sv_sorters sv) (sv_layouts sv) next_batch current_analyzed coinbase_asciis
         current_arena)) (\<lambda>(tables, _).
     loop_bind (Some (idx_at next_batch (wsub (length next_batch) 1))) (\<lambda>top.
     loop_bind (Some (get_block_timestamps_and_numbers (cm_chain (cd_man s)) next_batch)) (\<lambda>(timestamps, numbers).
     loop_bind (Some (callback_chain_extended (sv_is_match sv) (sv_order sv) next_batch numbers timestamps coinbase_asciis
         (cd_miners s))) (\<lambda>w.
     loop_bind (mark_as_downloaded next_batch coinbase_asciis (cd_man s)) (\<lambda>m.
     loop_bind (update_frontpage_data (sv_find_block_metrics sv) (sv_hex sv) (cm_chain m) w top current_metrics
         current_analyzed (Some sync_speed) (cd_frontpage s)) (\<lambda>(data, _).
     Some (Ok \<lparr>cd_man = m, cd_miners = w, cd_frontpage = data,
       cd_written = cd_written s @ [(next_batch, tables, current_metrics)]\<rparr>)))))))"

section \<open>Results of a worker\<close>

definition jobs_of :: "block_job option list \<Rightarrow> block_job list" where
  "jobs_of replies = map the (takeWhile (\<lambda>r. r \<noteq> None) replies)"

lemma jobs_of_simps [simp]:
  "jobs_of [] = []" "jobs_of (None # replies) = []" "jobs_of (Some job # replies) = job # jobs_of replies"
  by (simp_all add: jobs_of_def)

text \<open>Results answer the jobs in the order in which they were given, and what is left goes to the next peer.\<close>

definition answered :: "(bytes \<Rightarrow> bytes) \<Rightarrow> block_job list \<Rightarrow> (Payload option \<times> block_job) list \<Rightarrow> (block_job \<times> block_job option list) option \<Rightarrow> bool" where
  "answered sha jobs sent r \<longleftrightarrow> (\<forall>(payload, job) \<in> set sent. should_send sha job payload = Ok True) \<and>
     (case r of None \<Rightarrow> map snd sent = take (length sent) jobs
      | Some (job, replies) \<Rightarrow> jobs = map snd sent @ job # jobs_of replies)"

lemma answered_Cons:
  "should_send sha job payload = Ok True \<Longrightarrow> answered sha jobs sent r \<Longrightarrow> answered sha (job # jobs) ((payload, job) # sent) r"
  by (auto simp: answered_def split: option.splits)

lemma peer_loop_answers: "peer_loop sha packets job replies = Ok (sent, r) \<Longrightarrow> answered sha (job # jobs_of replies) sent r"
proof (induction packets arbitrary: job replies sent r)
  case (Cons p packets)
  obtain payload written where p: "p = (payload, written)" by fastforce
  obtain b where b: "should_send sha job payload = Ok b" using Cons.prems by (auto simp: p res_bind_Ok_iff)
  show ?case
  proof (cases b)
    case False
    then show ?thesis using Cons b by (simp add: p)
  next
    case True
    consider "replies = []" | rest where "replies = None # rest" | next_job rest where "replies = Some next_job # rest"
      by (metis not_None_eq neq_Nil_conv)
    then show ?thesis
    proof cases
      case 3
      show ?thesis
      proof (cases written)
        case False
        then show ?thesis using Cons.prems b True 3 by (auto simp: p answered_def)
      next
        case w: True
        then obtain sent' where s: "peer_loop sha packets next_job rest = Ok (sent', r)" "sent = (payload, job) # sent'"
          using Cons.prems b True 3 by (auto simp: p res_bind_Ok_iff)
        from answered_Cons [OF _ Cons.IH [OF s(1)]] b True show ?thesis by (simp add: s(2) 3)
      qed
    qed (use Cons.prems b True in \<open>auto simp: p answered_def\<close>)
  qed
qed (auto simp: answered_def)

lemma worker_answers_jobs: "worker_loop sha peers job replies = Ok (sent, r) \<Longrightarrow> answered sha (job # jobs_of replies) sent r"
proof (induction peers arbitrary: job replies sent r)
  case (Cons p peers)
  show ?case
  proof (cases "dp_written p")
    case True
    then obtain sent1 r1 where one: "peer_loop sha (dp_packets p) job replies = Ok (sent1, r1)"
      using Cons.prems by (auto simp: res_bind_Ok_iff)
    note first = peer_loop_answers [OF one]
    show ?thesis
    proof (cases r1)
      case None
      then show ?thesis using Cons.prems True one first by simp
    next
      case (Some jr)
      then obtain job1 replies1 sent2 where r1: "r1 = Some (job1, replies1)" "worker_loop sha peers job1 replies1 = Ok (sent2, r)"
        "sent = sent1 @ sent2" using Cons.prems True one by (cases jr) (auto simp: res_bind_Ok_iff)
      from Cons.IH [OF r1(2)] first show ?thesis by (auto simp: answered_def r1 split: option.splits)
    qed
  qed (use Cons in simp)
qed (auto simp: answered_def)

section \<open>Headers from many peers\<close>

definition announced :: "(u64 \<times> Headers option \<times> bool) list \<Rightarrow> BlockHeader list" where
  "announced packets = concat (map (\<lambda>(_, p, _). case p of None \<Rightarrow> [] | Some h \<Rightarrow> headers_inner h) packets)"

definition all_announced :: "header_session list \<Rightarrow> BlockHeader list" where
  "all_announced sessions = concat (map (announced \<circ> hs_packets) sessions)"

text \<open>The chain is well-formed and there is room for these headers, which decoding has checked.\<close>

definition sync_room :: "ChainMan \<Rightarrow> BlockHeader list \<Rightarrow> bool" where
  "sync_room m hs \<longleftrightarrow> chain_ok (cm_chain m) \<and> list_all applicable hs \<and> number_room (2 ^ 63 + length hs) (cm_chain m) \<and>
     unat (bn_total_work (ch_top_header (cm_chain m))) + sum_list (map expected_work hs) < 2 ^ 256"

definition grown :: "ChainMan \<Rightarrow> ChainMan \<Rightarrow> bool" where
  "grown m m' \<longleftrightarrow> ch_known_headers (cm_chain m) \<subseteq>\<^sub>m ch_known_headers (cm_chain m') \<and>
     bn_total_work (ch_top_header (cm_chain m)) \<le> bn_total_work (ch_top_header (cm_chain m'))"

lemma grown_refl [simp]: "grown m m"
  by (simp add: grown_def)

lemma grown_trans: "grown m m1 \<Longrightarrow> grown m1 m' \<Longrightarrow> grown m m'"
  by (auto simp: grown_def intro: map_le_trans)

lemma sync_room_drop: "sync_room m (hs @ rest) \<Longrightarrow> sync_room m rest"
  by (fastforce simp: sync_room_def number_room_def)

lemma headers_applied_rest:
  "sync_room m (hs @ rest) \<Longrightarrow>
   \<exists>r m'. validate_and_apply_headers hs m = Some (Ok (r, m')) \<and> sync_room m' rest \<and> grown m m'"
proof (induction hs arbitrary: m)
  case (Cons h hs)
  have p: "chain_ok (cm_chain m)" "number_room (Suc (2 ^ 63 + length (hs @ rest))) (cm_chain m)" "applicable h"
    "unat (bn_total_work (ch_top_header (cm_chain m))) + expected_work h < 2 ^ 256"
    and s: "unat (bn_total_work (ch_top_header (cm_chain m))) + expected_work h + sum_list (map expected_work (hs @ rest)) < 2 ^ 256"
    "list_all applicable (hs @ rest)"
    using Cons.prems by (simp_all add: sync_room_def)
  show ?case using headersync_step [OF p]
  proof
    assume "\<exists>e. validate_and_apply_header_inner h m True = Some (Err e)"
    then show ?thesis using sync_room_drop [of m "h # hs" rest] Cons.prems by auto
  next
    assume "\<exists>m'. validate_and_apply_header_inner h m True = Some (Ok (None, m')) \<and>
       chain_ok (cm_chain m') \<and> number_room (2 ^ 63 + length (hs @ rest)) (cm_chain m') \<and>
       ch_known_headers (cm_chain m) \<subseteq>\<^sub>m ch_known_headers (cm_chain m') \<and>
       bh_hash h \<in> dom (ch_known_headers (cm_chain m')) \<and>
       bn_total_work (ch_top_header (cm_chain m)) \<le> bn_total_work (ch_top_header (cm_chain m')) \<and>
       unat (bn_total_work (ch_top_header (cm_chain m'))) \<le>
         unat (bn_total_work (ch_top_header (cm_chain m))) + expected_work h"
    then obtain m1 where m1: "validate_and_apply_header_inner h m True = Some (Ok (None, m1))" "sync_room m1 (hs @ rest)" "grown m m1"
      using s by (fastforce simp: sync_room_def grown_def)
    obtain r m' where "validate_and_apply_headers hs m1 = Some (Ok (r, m'))" "sync_room m' rest" "grown m1 m'"
      using Cons.IH [OF m1(2)] by blast
    then show ?thesis using m1 grown_trans by auto
  qed
qed auto

lemma packet_handled:
  assumes "sync_room m ((case packet of None \<Rightarrow> [] | Some h \<Rightarrow> headers_inner h) @ rest)"
  shows "\<exists>stop responses m'. handle_packet_during_headersync now packet m = Some (Ok (stop, responses, m')) \<and>
    sync_room m' rest \<and> grown m m'"
proof (cases packet)
  case (Some msg)
  then obtain r m' where r: "validate_and_apply_headers (headers_inner msg) m = Some (Ok (r, m'))" "sync_room m' rest" "grown m m'"
    using headers_applied_rest assms by fastforce
  show ?thesis
  proof (cases "headers_inner msg = []")
    case True
    then show ?thesis using assms Some by (auto simp: handle_packet_during_headersync_def)
  next
    case False
    then show ?thesis using r Some by (cases r) (auto simp: handle_packet_during_headersync_def)
  qed
qed (use assms in \<open>auto simp: handle_packet_during_headersync_def\<close>)

lemma session_read:
  "sync_room m (announced packets @ rest) \<Longrightarrow> \<exists>m'. read_session packets m = Some (Ok m') \<and> sync_room m' rest \<and> grown m m'"
proof (induction packets arbitrary: m)
  case (Cons p packets)
  obtain now packet sent where p: "p = (now, packet, sent)" by (cases p) auto
  have "sync_room m ((case packet of None \<Rightarrow> [] | Some h \<Rightarrow> headers_inner h) @ announced packets @ rest)"
    using Cons.prems by (simp add: announced_def p)
  then obtain stop responses m1 where m1: "handle_packet_during_headersync now packet m = Some (Ok (stop, responses, m1))"
    "sync_room m1 (announced packets @ rest)" "grown m m1" using packet_handled by blast
  show ?case using m1 Cons.IH [OF m1(2)] sync_room_drop [OF m1(2)] grown_trans [OF m1(3)] by (auto simp: p Let_def)
qed (auto simp: announced_def)

lemma locator_total:
  assumes "chain_ok c" "bn_number (ch_top_header c) < 2 ^ 63"
  shows "\<exists>r. build_get_headers c = Some (Ok r)"
proof (cases "bn_number (ch_top_header c) = 0")
  case False
  have "known_ok (ch_known_headers c)" using assms(1) by (simp add: chain_ok_def)
  from locator_consecutive [OF this top_linked [OF assms(1)] assms(2), of "[bn_hash (ch_top_header c)]" 9] False
  show ?thesis by (auto simp: build_get_headers_def)
qed (simp add: build_get_headers_def)

lemma room_number:
  assumes "sync_room m hs"
  shows "bn_number (ch_top_header (cm_chain m)) < 2 ^ 63"
proof -
  obtain t where "ch_known_headers (cm_chain m) (bn_hash t) = Some t" "bn_number (ch_top_header (cm_chain m)) = bn_number t"
    using assms top_entry [of "cm_chain m"] unfolding sync_room_def by metis
  then show ?thesis using assms by (fastforce simp: sync_room_def number_room_def ran_def)
qed

lemma headers_synced:
  "sync_room m (all_announced sessions) \<Longrightarrow>
   \<exists>returned m'. sync_headers sessions m = Some (Ok (returned, m')) \<and> sync_room m' [] \<and> grown m m'"
proof (induction sessions arbitrary: m)
  case (Cons s sessions)
  have room: "sync_room m (announced (hs_packets s) @ all_announced sessions)"
    using Cons.prems by (simp add: all_announced_def)
  obtain g where g: "build_get_headers (cm_chain m) = Some (Ok g)"
    using locator_total room_number [OF room] room by (auto simp: sync_room_def)
  obtain m1 where m1: "read_session (hs_packets s) m = Some (Ok m1)" "sync_room m1 (all_announced sessions)" "grown m m1"
    using session_read [OF room] by blast
  show ?case
    using g m1(1) Cons.IH [OF sync_room_drop [OF room]] Cons.IH [OF m1(2)] grown_trans [OF m1(3)]
      sync_room_drop [of m "all_announced (s # sessions)" "[]"] Cons.prems by auto
qed (auto simp: all_announced_def)

section \<open>The blocks to start with\<close>

lemma top_downloaded_line:
  assumes "known_ok (ch_known_headers c)" "linked (ch_known_headers c) x"
  shows "top_downloaded_from c x = Some (Ok (map_option bn_hash (find bn_fetched_full (line (ch_known_headers c) x))))"
  using assms
proof (induction rule: linked_induct)
  case (root x)
  then show ?case by (subst top_downloaded_from.simps) simp
next
  case (child x p)
  from child.IH child.hyps(3,4) show ?case by (subst top_downloaded_from.simps) simp
qed

lemma top_synced_line:
  assumes "known_ok (ch_known_headers c)" "linked (ch_known_headers c) x"
  shows "ch_known_headers c (bn_hash x) = Some x \<Longrightarrow> top_synced_hash_from c (bn_hash x) =
    Some (Ok (map_option bn_hash (find bn_fetched_full (line (ch_known_headers c) x))))"
  using assms
proof (induction rule: linked_induct)
  case (root x)
  then show ?case by (subst top_synced_hash_from.simps) (simp add: linked_root EMPTY_HASH_def)
next
  case (child x p)
  have "ch_known_headers c (bn_hash p) = Some p" using known_okD [OF assms(1) child.hyps(3)] child.hyps(3) by simp
  moreover have "bn_parent x \<noteq> EMPTY_HASH" using child.hyps assms(1) by (auto simp: known_ok_def)
  ultimately show ?case using child
    by (subst top_synced_hash_from.simps) (simp add: EMPTY_HASH_def [symmetric])
qed

text \<open>The blocks of the chain of most work above the highest downloaded one, lowest first.\<close>

definition blocks_left :: "Chain \<Rightarrow> hash32 list" where
  "blocks_left c = map bn_hash (rev (takeWhile (\<lambda>y. \<not> bn_fetched_full y) (line (ch_known_headers c) (ch_top_header c))))"

definition highest_downloaded :: "Chain \<Rightarrow> hash32 option" where
  "highest_downloaded c = map_option bn_hash (find bn_fetched_full (line (ch_known_headers c) (ch_top_header c)))"

lemma blocks_left_Nil: "blocks_left c = [] \<longleftrightarrow> bn_fetched_full (ch_top_header c)"
  unfolding blocks_left_def by (subst line_unfold) simp

lemma left_to_download:
  assumes "chain_ok (cm_chain m)" "counter_ok m" "bn_number (ch_top_header (cm_chain m)) + 1 < 2 ^ 64"
  shows "get_block_hashes_to_download m = Some
    (if blocks_left (cm_chain m) = [] then None else Some (blocks_left (cm_chain m), cm_downloaded_blocks m))"
  using missing_blocks [OF assms] by (simp only: blocks_left_Nil) (simp add: blocks_left_def)

lemma blocks_chosen:
  assumes "chain_ok (cm_chain m)" "counter_ok m" "bn_number (ch_top_header (cm_chain m)) + 1 < 2 ^ 64"
  shows "choose_blocks limits m f = Some (Ok (Started (highest_downloaded (cm_chain m))
    (if blocks_left (cm_chain m) = [] then None else Some (blocks_left (cm_chain m), cm_downloaded_blocks m)) m
    (stop_syncing_headers (if blocks_left (cm_chain m) = [] then f else start_syncing_blocks limits f))))"
proof -
  have "known_ok (ch_known_headers (cm_chain m))" using assms(1) by (simp add: chain_ok_def)
  from top_downloaded_line [OF this top_linked [OF assms(1)]] left_to_download [OF assms]
  show ?thesis by (simp add: choose_blocks_def get_top_downloaded_block_hash_def highest_downloaded_def)
qed

lemma after_headersync_total:
  assumes "chain_ok (cm_chain m)"
  shows "\<exists>m'. after_headersync m = Some (Ok m') \<and> chain_ok (cm_chain m') \<and> index_ok (cm_chain m') \<and> counter_ok m' \<and>
    ch_known_headers (cm_chain m') = ch_known_headers (cm_chain m) \<and> ch_top_header (cm_chain m') = ch_top_header (cm_chain m)"
proof -
  obtain n where n: "calculate_downloaded_blocks (cm_chain m) = Some (Ok n)" using top_downloaded_total [OF assms] by blast
  obtain c where c: "generate_top_work_chain_hashset (cm_chain m) = Some (Ok c)"
    "ch_known_headers c = ch_known_headers (cm_chain m)" "ch_top_header c = ch_top_header (cm_chain m)" "index_ok c"
    using generated_index [OF assms] by blast
  have ok: "chain_ok c" by (rule chain_ok_same_tree [OF assms c(2)]) (use assms c in \<open>simp add: chain_ok_def top_ok_def\<close>)
  have "known_ok (ch_known_headers c)" "known_ok (ch_known_headers (cm_chain m))" using ok assms by (simp_all add: chain_ok_def)
  from downloaded_line [OF this(1) top_linked [OF ok]] downloaded_line [OF this(2) top_linked [OF assms]]
  have "calculate_downloaded_blocks c = Some (Ok n)" using n by (simp add: calculate_downloaded_blocks_def c)
  then show ?thesis using n c ok by (auto simp: after_headersync_def counter_ok_def)
qed

text \<open>What holds when the task has chosen what to download.\<close>

definition started_ok :: "Chain \<Rightarrow> start_result \<Rightarrow> bool" where
  "started_ok c r = (case r of
     Syncing m f \<Rightarrow> chain_ok (cm_chain m) \<and> dom (ch_known_headers c) \<subseteq> dom (ch_known_headers (cm_chain m)) \<and> sf_headers f
   | Started shown missing m f \<Rightarrow>
       chain_ok (cm_chain m) \<and> index_ok (cm_chain m) \<and> counter_ok m \<and>
       dom (ch_known_headers c) \<subseteq> dom (ch_known_headers (cm_chain m)) \<and>
       bn_total_work (ch_top_header c) \<le> bn_total_work (ch_top_header (cm_chain m)) \<and>
       shown = highest_downloaded (cm_chain m) \<and>
       missing = (if blocks_left (cm_chain m) = [] then None else Some (blocks_left (cm_chain m), cm_downloaded_blocks m)) \<and>
       \<not> sf_headers f \<and> (sf_bodies f \<longleftrightarrow> missing \<noteq> None))"

lemma task_started:
  assumes "sync_room m (all_announced sessions)" "index_ok (cm_chain m)" "counter_ok m" "\<not> sf_headers f" "\<not> sf_bodies f"
  shows "\<exists>r. start_task limits now sessions m f = Some (Ok r) \<and> started_ok (cm_chain m) r"
proof -
  have chosen: "\<exists>r. choose_blocks limits m1 g = Some (Ok r) \<and> started_ok (cm_chain m) r"
    if "sync_room m1 []" "index_ok (cm_chain m1)" "counter_ok m1" "grown m m1" "\<not> sf_bodies g" for m1 g
  proof -
    have "chain_ok (cm_chain m1)" "bn_number (ch_top_header (cm_chain m1)) + 1 < 2 ^ 64"
      using that(1) room_number [OF that(1)] by (simp_all add: sync_room_def)
    from blocks_chosen [OF this(1) that(3) this(2), of limits g] this(1) that
    show ?thesis
      by (auto simp: started_ok_def grown_def map_le_implies_dom_le stop_syncing_headers_def start_syncing_blocks_def)
  qed
  show ?thesis
  proof (cases "need_ihd now (cm_chain m)")
    case False
    then show ?thesis
      using chosen [of m f] sync_room_drop [of m "all_announced sessions" "[]"] assms by (simp add: start_task_def)
  next
    case True
    obtain returned m1 where m1: "sync_headers sessions m = Some (Ok (returned, m1))" "sync_room m1 []" "grown m m1"
      using headers_synced [OF assms(1)] by blast
    have ok: "chain_ok (cm_chain m1)" using m1(2) by (simp add: sync_room_def)
    obtain m2 where m2: "after_headersync m1 = Some (Ok m2)" "chain_ok (cm_chain m2)" "index_ok (cm_chain m2)" "counter_ok m2"
      "ch_known_headers (cm_chain m2) = ch_known_headers (cm_chain m1)" "ch_top_header (cm_chain m2) = ch_top_header (cm_chain m1)"
      using after_headersync_total [OF ok] by blast
    have "sync_room m2 []" "grown m m2" using m1(2,3) m2 by (simp_all add: sync_room_def grown_def number_room_def)
    moreover have "\<not> sf_bodies (start_syncing_headers f)" using assms(5) by (simp add: start_syncing_headers_def)
    ultimately obtain r where "choose_blocks limits m2 (start_syncing_headers f) = Some (Ok r)" "started_ok (cm_chain m) r"
      using chosen m2(3,4) by blast
    then show ?thesis using True m1 m2(1) ok
      by (cases returned) (auto simp: start_task_def Let_def started_ok_def grown_def map_le_implies_dom_le start_syncing_headers_def)
  qed
qed

lemma miners_loaded:
  assumes "chain_ok c" "\<forall>x \<in> ran (ch_known_headers c). bn_number x < 2 ^ 52" "rules_ok w" "set order \<subseteq> miner_ids w"
  shows "\<exists>w'. callback_after_headers_loaded is_match order now c w = Some (Ok w') \<and> miners_ok w'"
proof -
  have ok: "known_ok (ch_known_headers c)" using assms(1) by (simp add: chain_ok_def)
  obtain t where t: "ch_known_headers c (bn_hash t) = Some t" "bn_hash (ch_top_header c) = bn_hash t" "linked (ch_known_headers c) t"
    using top_entry [OF assms(1)] by metis
  have top: "get_top_synced_header_hash c = Some (Ok (map_option bn_hash (find bn_fetched_full (line (ch_known_headers c) t))))"
    using top_synced_line [OF ok t(3,1)] t(2) by (simp add: get_top_synced_header_hash_def)
  show ?thesis
  proof (cases "find bn_fetched_full (line (ch_known_headers c) t)")
    case None
    then show ?thesis using top cleared_ok [OF assms(3)]
      by (simp add: callback_after_headers_loaded_def recalculate_full_miner_stats_def)
  next
    case (Some y)
    then have "y \<in> set (line (ch_known_headers c) t)" by (auto simp: find_Some_iff)
    then obtain i where i: "i \<le> bn_number t" "y = line (ch_known_headers c) t ! i"
      using line_length [OF ok t(3)] by (metis in_set_conv_nth less_Suc_eq_le)
    have y: "ch_known_headers c (bn_hash y) = Some y" by (rule line_entry [OF ok t(1) i(1)]) (simp add: i(2))
    then have "bn_number y < 2 ^ 52" using assms(2) by (auto simp: ran_def)
    from recalculated [OF assms(1) y this assms(3,4), of is_match now] top Some show ?thesis
      by (auto simp: callback_after_headers_loaded_def simp del: not_None_eq)
  qed
qed


lemma need_ihd_zero [simp]: "\<not> need_ihd 0 c"
  by (simp add: need_ihd_def)

definition demo_session :: header_session where
  "demo_session = \<lparr>hs_now = 2000000000, hs_written = True,
     hs_packets = [(2000000000, None, True), (2000000000, Some \<lparr>headers_inner = [demo_header 5 (demo_hash 3)]\<rparr>, False)]\<rparr>"


section \<open>Batches reach the top\<close>

lemma flush_marks:
  assumes "flush_batch sv batch analyzed asciis metrics a speed s = Some (Ok s')"
  shows "mark_as_downloaded batch asciis (cd_man s) = Some (Ok (cd_man s'))" and "batch \<noteq> []"
    and "length asciis = length batch"
  using assms
  by (auto simp: flush_batch_def loop_bind_def write_analyzed_txs_def idx_at_def get_at_def split: option.splits res.splits if_splits)

lemma hashes_known:
  assumes "known_ok known" "known h = Some x"
  shows "set (hashes known x) \<subseteq> dom known"
proof
  fix k
  assume "k \<in> set (hashes known x)"
  then obtain i where "i \<le> bn_number x" "k = hashes known x ! i"
    using hashes_length [OF assms(1) known_okD(2) [OF assms]] by (metis in_set_conv_nth less_Suc_eq_le)
  then show "k \<in> dom known" using line_entry [OF assms, of i] by (metis domI)
qed

lemma left_as_hashes:
  assumes "chain_ok c"
  shows "blocks_left c = rev (takeWhile (\<lambda>h. \<not> fetched (ch_known_headers c) h) (hashes (ch_known_headers c) (ch_top_header c)))"
proof -
  let ?k = "ch_known_headers c"
  have ok: "known_ok ?k" using assms by (simp add: chain_ok_def)
  obtain t where t: "?k (bn_hash t) = Some t" "ch_top_header c = t\<lparr>bn_coinbase_ascii := bn_coinbase_ascii (ch_top_header c)\<rparr>"
    using top_entry [OF assms] by metis
  have "bn_fetched_full y = fetched ?k (bn_hash y)" if in_line: "y \<in> set (line ?k (ch_top_header c))" for y
  proof -
    obtain i where i: "i \<le> bn_number (ch_top_header c)" "y = line ?k (ch_top_header c) ! i"
      using in_line line_length [OF ok top_linked [OF assms]] by (auto simp: in_set_conv_nth less_Suc_eq_le)
    show ?thesis
    proof (cases i)
      case 0
      have "line ?k (ch_top_header c) ! 0 = ch_top_header c" by (subst line_unfold) simp
      then have y: "y = ch_top_header c" using i(2) 0 by simp
      have "bn_hash (ch_top_header c) = bn_hash t" "bn_fetched_full (ch_top_header c) = bn_fetched_full t" by (subst t(2), simp)+
      then show ?thesis using t(1) by (simp add: y fetched_def)
    next
      case (Suc j)
      then have "bn_number (ch_top_header c) \<noteq> 0" using i(1) by simp
      then obtain p where p: "?k (bn_parent (ch_top_header c)) = Some p" "bn_number (ch_top_header c) = Suc (bn_number p)"
        by (rule linked_parent [OF top_linked [OF assms]])
      have "line ?k (ch_top_header c) = ch_top_header c # line ?k p" using p by (rule line_child)
      then have "y = line ?k p ! j" "j \<le> bn_number p" using i p(2) Suc by simp_all
      then have "?k (bn_hash y) = Some y" using line_entry [OF ok p(1), of j] by metis
      then show ?thesis by (simp add: fetched_def)
    qed
  qed
  then have "map bn_hash (takeWhile (\<lambda>y. \<not> bn_fetched_full y) (line ?k (ch_top_header c))) =
      takeWhile (\<lambda>h. \<not> fetched ?k h) (map bn_hash (line ?k (ch_top_header c)))"
    unfolding takeWhile_map comp_def by (intro arg_cong [of _ _ "map bn_hash"] takeWhile_cong) auto
  then show ?thesis by (simp add: blocks_left_def hashes_def rev_map [symmetric])
qed

lemma marked_prefix:
  assumes "chain_ok (cm_chain m)" "blocks_left (cm_chain m) = batch @ rest" "length batch \<le> length asciis"
  shows "\<exists>m'. mark_as_downloaded batch asciis m = Some (Ok m') \<and> chain_ok (cm_chain m') \<and> counter_ok m' \<and>
    blocks_left (cm_chain m') = rest \<and> bn_number (ch_top_header (cm_chain m')) = bn_number (ch_top_header (cm_chain m))"
proof -
  let ?k = "ch_known_headers (cm_chain m)" and ?hs = "hashes (ch_known_headers (cm_chain m)) (ch_top_header (cm_chain m))"
  have ok: "known_ok ?k" using assms(1) by (simp add: chain_ok_def)
  note left = left_as_hashes [OF assms(1)]
  have tw: "takeWhile (\<lambda>h. \<not> fetched ?k h) ?hs = rev rest @ rev batch"
    using left assms(2) by (metis rev_append rev_rev_ident)
  obtain t where t: "?k (bn_hash t) = Some t" "?hs = hashes ?k t" "distinct ?hs" using top_entry [OF assms(1)] by metis
  have sub: "set batch \<subseteq> set ?hs" using tw set_takeWhileD [of _ "\<lambda>h. \<not> fetched ?k h" ?hs] by auto
  have "set ?hs \<subseteq> dom ?k" unfolding t(2) by (rule hashes_known [OF ok t(1)])
  then obtain m' where m': "mark_as_downloaded batch asciis m = Some (Ok m')" "chain_ok (cm_chain m')" "counter_ok m'"
    "\<forall>h. fetched (ch_known_headers (cm_chain m')) h \<longleftrightarrow> h \<in> set batch \<or> fetched ?k h"
    "remarked ?k (ch_known_headers (cm_chain m'))" "same_links (ch_top_header (cm_chain m)) (ch_top_header (cm_chain m'))"
    using marked_blocks [OF assms(1) _ assms(3)] sub by (metis subset_trans)
  have hs: "hashes (ch_known_headers (cm_chain m')) (ch_top_header (cm_chain m')) = ?hs"
    using remarked_line [OF ok top_linked [OF assms(1)] m'(5,6)]
    by (auto simp: hashes_def list_all2_conv_all_nth same_links_def intro!: nth_equalityI)
  have "takeWhile (\<lambda>h. \<not> fetched (ch_known_headers (cm_chain m')) h) ?hs = rev rest"
  proof -
    have d: "?hs = rev rest @ rev batch @ dropWhile (\<lambda>h. \<not> fetched ?k h) ?hs"
      using takeWhile_dropWhile_id [of "\<lambda>h. \<not> fetched ?k h" ?hs] tw by simp
    have in_rest: "\<not> fetched (ch_known_headers (cm_chain m')) h" if "h \<in> set rest" for h
    proof -
      have "h \<in> set (takeWhile (\<lambda>h. \<not> fetched ?k h) ?hs)" using that tw by simp
      then have "\<not> fetched ?k h" by (blast dest: set_takeWhileD)
      moreover have "h \<notin> set batch" using t(3) d that by (metis UnCI disjoint_iff distinct_append set_append set_rev)
      ultimately show ?thesis using m'(4) by blast
    qed
    have "takeWhile (\<lambda>h. \<not> fetched (ch_known_headers (cm_chain m')) h) (rev batch @ dropWhile (\<lambda>h. \<not> fetched ?k h) ?hs) = []"
    proof (cases "rev batch @ dropWhile (\<lambda>h. \<not> fetched ?k h) ?hs")
      case (Cons h hs)
      have "h \<in> set batch \<or> fetched ?k h"
      proof (cases "rev batch")
        case Nil
        then show ?thesis using Cons by (metis append_Nil dropWhile_eq_Cons_conv)
      next
        case (Cons b bs)
        then show ?thesis using \<open>rev batch @ dropWhile (\<lambda>h. \<not> fetched ?k h) ?hs = h # hs\<close>
          by (metis append_Cons list.inject list.set_intros(1) set_rev)
      qed
      then show ?thesis using Cons m'(4) by simp
    next
      case Nil
      show ?thesis unfolding Nil by simp
    qed
    moreover have "takeWhile (\<lambda>h. \<not> fetched (ch_known_headers (cm_chain m')) h) (rev rest @ zs) =
        rev rest @ takeWhile (\<lambda>h. \<not> fetched (ch_known_headers (cm_chain m')) h) zs" for zs
      by (rule takeWhile_append2) (simp add: in_rest)
    ultimately show ?thesis by (subst d) simp
  qed
  then have "blocks_left (cm_chain m') = rest" using left_as_hashes [OF m'(2)] hs by simp
  then show ?thesis using m' by (auto simp: same_links_def)
qed

text \<open>Flushing batch after batch, with the coinbase scripts of their blocks.\<close>

fun mark_batches :: "(hash32 list \<times> bytes list) list \<Rightarrow> ChainMan \<Rightarrow> ChainMan loop" where
  "mark_batches [] m = Some (Ok m)"
| "mark_batches ((batch, asciis) # batches) m = loop_bind (mark_as_downloaded batch asciis m) (mark_batches batches)"

text \<open>
  C39: Marking the batches of the missing blocks in their order completes the chain: after every batch exactly the
  blocks of the later batches are missing, with the right number for the first of them, and after the last one
  the counter of downloaded blocks is the number of blocks of the chain.
\<close>

theorem batches_complete_chain:
  assumes "chain_ok (cm_chain m)" "bn_number (ch_top_header (cm_chain m)) + 1 < 2 ^ 64"
    and "blocks_left (cm_chain m) = concat (map fst (before @ after))"
    and "\<forall>(batch, asciis) \<in> set before. batch \<noteq> [] \<and> length batch = length asciis" "before \<noteq> []"
  shows "\<exists>m'. mark_batches before m = Some (Ok m') \<and> chain_ok (cm_chain m') \<and>
    get_block_hashes_to_download m' = Some (let missing = concat (map fst after) in
      if missing = [] then None else Some (missing, cm_downloaded_blocks m')) \<and>
    cm_downloaded_blocks m' + length (concat (map fst after)) = bn_number (ch_top_header (cm_chain m)) + 1"
proof -
  have "\<exists>m'. mark_batches before m = Some (Ok m') \<and> chain_ok (cm_chain m') \<and> counter_ok m' \<and>
      blocks_left (cm_chain m') = concat (map fst after) \<and>
      bn_number (ch_top_header (cm_chain m')) = bn_number (ch_top_header (cm_chain m))"
    using assms(1,3-5)
  proof (induction before arbitrary: m)
    case (Cons p before)
    obtain batch asciis where p: "p = (batch, asciis)" by fastforce
    obtain m1 where m1: "mark_as_downloaded batch asciis m = Some (Ok m1)" "chain_ok (cm_chain m1)" "counter_ok m1"
      "blocks_left (cm_chain m1) = concat (map fst (before @ after))"
      "bn_number (ch_top_header (cm_chain m1)) = bn_number (ch_top_header (cm_chain m))"
      using marked_prefix [OF Cons.prems(1), of batch "concat (map fst (before @ after))" asciis] Cons.prems(2,3) p by auto
    show ?case
    proof (cases "before = []")
      case True
      then show ?thesis using m1 by (simp add: p)
    next
      case False
      from Cons.IH [OF m1(2,4) _ False] Cons.prems(3) m1 show ?thesis by (auto simp: p)
    qed
  qed simp
  then obtain m' where m': "mark_batches before m = Some (Ok m')" "chain_ok (cm_chain m')" "counter_ok m'"
    "blocks_left (cm_chain m') = concat (map fst after)"
    "bn_number (ch_top_header (cm_chain m')) = bn_number (ch_top_header (cm_chain m))" by blast
  have n: "bn_number (ch_top_header (cm_chain m')) + 1 < 2 ^ 64" using assms(2) m'(5) by simp
  have "cm_downloaded_blocks m' = Suc (bn_number (ch_top_header (cm_chain m'))) - length (blocks_left (cm_chain m'))"
    using m'(3) counter_value [OF m'(2) n] by (simp add: counter_ok_def blocks_left_def)
  moreover have "length (blocks_left (cm_chain m')) \<le> Suc (bn_number (ch_top_header (cm_chain m')))"
    using length_takeWhile_le line_length [OF _ top_linked [OF m'(2)]] m'(2)
    by (metis blocks_left_def chain_ok_def length_map length_rev)
  ultimately show ?thesis using m' left_to_download [OF m'(2,3) n] by (auto simp: Let_def)
qed

theorem batches_complete_chain_witness:
  "\<exists>m'. mark_batches [([demo_hash 1, demo_hash 2], [[0x68], [0xFF]])] (demo_man demo_chain) = Some (Ok m') \<and>
    get_block_hashes_to_download m' = Some (Some ([demo_hash 3], cm_downloaded_blocks m')) \<and> cm_downloaded_blocks m' = 2"
proof -
  have "line demo_known (demo_entry 3 (demo_hash 2) 2) =
    [demo_entry 3 (demo_hash 2) 2, demo_entry 2 (demo_hash 1) 1, demo_entry 1 EMPTY_HASH 0]" by simp
  then have left: "blocks_left (cm_chain (demo_man demo_chain)) =
      concat (map fst ([([demo_hash 1, demo_hash 2], [[0x68], [0xFF]])] @ [([demo_hash 3], [[0x69]])]))"
    by (simp add: blocks_left_def demo_chain_def) (simp add: demo_entry_def)
  have top: "chain_ok (cm_chain (demo_man demo_chain))" "bn_number (ch_top_header (cm_chain (demo_man demo_chain))) = 2"
    using demo_chain_ok by (simp_all add: demo_chain_def)
  show ?thesis using batches_complete_chain [OF top(1) _ left] top(2) by (auto simp: Let_def)
qed

end
