(* ===== verification/NetText.thy ===== *)
theory NetText
  imports Peers Chain
begin

text \<open>
  The text of a network address (\<open>src/src/types/addressportnetwork.rs\<close>, \<open>src/src/packets/network_id.rs\<close>,
  \<open>src/src/api/peer.rs\<close>): how it is written and read, with the parts of the standard library that the code
  uses for it, the parser of numbers, of IPv4 and IPv6 addresses and of socket addresses, and the way they are
  printed.  A character is its code point.
\<close>

section \<open>Numbers\<close>

definition digit_char :: "nat \<Rightarrow> nat" where
  "digit_char d = (if d < 10 then 48 + d else 87 + d)"

fun show_radix :: "nat \<Rightarrow> nat \<Rightarrow> rust_string" where
  "show_radix b n = (if b \<le> 1 \<or> n < b then [digit_char n] else show_radix b (n div b) @ [digit_char (n mod b)])"

declare show_radix.simps [simp del]

text \<open>\<open>char::to_digit\<close>.\<close>

definition to_digit :: "nat \<Rightarrow> nat \<Rightarrow> nat option" where
  "to_digit radix c =
     (let d = (if 48 \<le> c \<and> c \<le> 57 then c - 48 else if 97 \<le> c \<and> c \<le> 122 then c - 87
               else if 65 \<le> c \<and> c \<le> 90 then c - 55 else radix) in
      if d < radix then Some d else None)"

definition digits_value :: "nat \<Rightarrow> rust_string \<Rightarrow> nat" where
  "digits_value radix ds = foldl (\<lambda>n c. n * radix + the (to_digit radix c)) 0 ds"

text \<open>
  \<open>Parser::read_number\<close> for a type with \<open>bound\<close> values: all digits that follow, at most \<open>max_digits\<close> of them,
  and no leading zero unless it is allowed.
\<close>

definition read_number :: "nat \<Rightarrow> nat \<Rightarrow> nat option \<Rightarrow> bool \<Rightarrow> rust_string \<Rightarrow> (nat \<times> rust_string) option" where
  "read_number bound radix max_digits allow_zero_prefix s =
     (let ds = takeWhile (\<lambda>c. to_digit radix c \<noteq> None) s in
      if ds = [] \<or> (case max_digits of None \<Rightarrow> False | Some m \<Rightarrow> m < length ds) \<or>
         \<not> allow_zero_prefix \<and> hd ds = 48 \<and> 1 < length ds \<or> bound \<le> digits_value radix ds
      then None else Some (digits_value radix ds, drop (length ds) s))"

definition read_given_char :: "nat \<Rightarrow> rust_string \<Rightarrow> rust_string option" where
  "read_given_char c s = (case s of [] \<Rightarrow> None | x # xs \<Rightarrow> if x = c then Some xs else None)"

definition read_separator :: "nat \<Rightarrow> nat \<Rightarrow> (rust_string \<Rightarrow> ('a \<times> rust_string) option) \<Rightarrow> rust_string \<Rightarrow> ('a \<times> rust_string) option" where
  "read_separator sep i inner s =
     (if i = 0 then inner s else (case read_given_char sep s of None \<Rightarrow> None | Some s \<Rightarrow> inner s))"

section \<open>Addresses of the internet protocol\<close>

fun read_octets :: "nat \<Rightarrow> nat \<Rightarrow> rust_string \<Rightarrow> (bytes \<times> rust_string) option" where
  "read_octets 0 i s = Some ([], s)"
| "read_octets (Suc n) i s =
     (case read_separator 46 i (read_number 256 10 (Some 3) False) s of
        None \<Rightarrow> None
      | Some (octet, s) \<Rightarrow>
          (case read_octets n (i + 1) s of None \<Rightarrow> None | Some (octets, s) \<Rightarrow> Some (word_of_nat octet # octets, s)))"

definition read_ipv4_addr :: "rust_string \<Rightarrow> (bytes \<times> rust_string) option" where
  "read_ipv4_addr s = read_octets 4 0 s"

text \<open>
  Groups of an IPv6 address, the last two of which can be written as an IPv4 address.  The result is the
  groups, whether an IPv4 address was read, and the rest.
\<close>

definition groups_of_ipv4 :: "bytes \<Rightarrow> u16 list" where
  "groups_of_ipv4 b = [word_of_nat (unat (b ! 0) * 256 + unat (b ! 1)), word_of_nat (unat (b ! 2) * 256 + unat (b ! 3))]"

fun read_groups :: "nat \<Rightarrow> nat \<Rightarrow> rust_string \<Rightarrow> u16 list \<times> bool \<times> rust_string" where
  "read_groups 0 i s = ([], False, s)"
| "read_groups (Suc n) i s =
     (case (if n = 0 then None else read_separator 58 i read_ipv4_addr s) of
        Some (octets, s) \<Rightarrow> (groups_of_ipv4 octets, True, s)
      | None \<Rightarrow>
          (case read_separator 58 i (read_number 65536 16 (Some 4) True) s of
             None \<Rightarrow> ([], False, s)
           | Some (g, s) \<Rightarrow>
               (let (groups, ipv4, s) = read_groups n (i + 1) s in (word_of_nat g # groups, ipv4, s))))"

definition octets_of_groups :: "u16 list \<Rightarrow> bytes" where
  "octets_of_groups groups = concat (map (\<lambda>g. [word_of_nat (unat g div 256), word_of_nat (unat g mod 256)]) groups)"

definition read_ipv6_addr :: "rust_string \<Rightarrow> (u16 list \<times> rust_string) option" where
  "read_ipv6_addr s =
     (let (head, ipv4, s) = read_groups 8 0 s in
      if length head = 8 then Some (head, s)
      else if ipv4 then None
      else
        (case read_given_char 58 s of None \<Rightarrow> None | Some s \<Rightarrow>
         (case read_given_char 58 s of None \<Rightarrow> None | Some s \<Rightarrow>
          (let (tail, _, s) = read_groups (8 - (length head + 1)) 0 s in
           Some (head @ replicate (8 - length head - length tail) 0 @ tail, s)))))"

definition parse_with :: "(rust_string \<Rightarrow> ('a \<times> rust_string) option) \<Rightarrow> rust_string \<Rightarrow> 'a option" where
  "parse_with inner s = (case inner s of Some (x, []) \<Rightarrow> Some x | _ \<Rightarrow> None)"

definition parse_ipv4 :: "rust_string \<Rightarrow> bytes option" where
  "parse_ipv4 s = (if 15 < length s then None else parse_with read_ipv4_addr s)"

definition parse_ipv6 :: "rust_string \<Rightarrow> bytes option" where
  "parse_ipv6 s = map_option octets_of_groups (parse_with read_ipv6_addr s)"

definition read_port :: "rust_string \<Rightarrow> (u16 \<times> rust_string) option" where
  "read_port s =
     (case read_given_char 58 s of None \<Rightarrow> None | Some s \<Rightarrow>
      map_option (\<lambda>(n, s). (word_of_nat n, s)) (read_number 65536 10 None True s))"

definition read_socket_addr_v4 :: "rust_string \<Rightarrow> (bytes \<times> u16) option \<times> rust_string" where
  "read_socket_addr_v4 s =
     (case read_ipv4_addr s of None \<Rightarrow> (None, s) | Some (ip, s') \<Rightarrow>
      (case read_port s' of None \<Rightarrow> (None, s) | Some (port, s') \<Rightarrow> (Some (ip, port), s')))"

definition read_scope_id :: "rust_string \<Rightarrow> rust_string" where
  "read_scope_id s =
     (case read_given_char 37 s of None \<Rightarrow> s | Some s' \<Rightarrow>
      (case read_number (2 ^ 32) 10 None True s' of None \<Rightarrow> s | Some (_, s') \<Rightarrow> s'))"

definition read_socket_addr_v6 :: "rust_string \<Rightarrow> ((bytes \<times> u16) \<times> rust_string) option" where
  "read_socket_addr_v6 s =
     (case read_given_char 91 s of None \<Rightarrow> None | Some s \<Rightarrow>
      (case read_ipv6_addr s of None \<Rightarrow> None | Some (ip, s) \<Rightarrow>
       (case read_given_char 93 (read_scope_id s) of None \<Rightarrow> None | Some s \<Rightarrow>
        (case read_port s of None \<Rightarrow> None | Some (port, s) \<Rightarrow> Some ((octets_of_groups ip, port), s)))))"

section \<open>Printing\<close>

definition join_with :: "nat \<Rightarrow> rust_string list \<Rightarrow> rust_string" where
  "join_with c xs = (case xs of [] \<Rightarrow> [] | first # rest \<Rightarrow> first @ concat (map (\<lambda>x. c # x) rest))"

definition show_ipv4 :: "bytes \<Rightarrow> rust_string" where
  "show_ipv4 octets = join_with 46 (map (\<lambda>b. show_radix 10 (unat b)) octets)"

definition fmt_subslice :: "u16 list \<Rightarrow> rust_string" where
  "fmt_subslice chunk = join_with 58 (map (\<lambda>g. show_radix 16 (unat g)) chunk)"

text \<open>The first of the longest runs of zero groups, as its start and its length.\<close>

fun longest_zeroes :: "nat \<Rightarrow> nat \<times> nat \<Rightarrow> nat \<times> nat \<Rightarrow> u16 list \<Rightarrow> nat \<times> nat" where
  "longest_zeroes i longest current [] = longest"
| "longest_zeroes i longest current (segment # segments) =
     (if segment = 0 then
        let current = (if snd current = 0 then i else fst current, snd current + 1) in
        longest_zeroes (i + 1) (if snd longest < snd current then current else longest) current segments
      else longest_zeroes (i + 1) longest (0, 0) segments)"

fun groups_of_octets :: "bytes \<Rightarrow> u16 list" where
  "groups_of_octets (a # b # rest) = word_of_nat (unat a * 256 + unat b) # groups_of_octets rest"
| "groups_of_octets _ = []"

definition show_ipv6 :: "bytes \<Rightarrow> rust_string" where
  "show_ipv6 octets =
     (if take 12 octets = replicate 10 0 @ [255, 255]
      then map of_char ''::ffff:'' @ show_ipv4 (drop 12 octets)
      else
        let segments = groups_of_octets octets; (start, len) = longest_zeroes 0 (0, 0) (0, 0) segments in
        if 1 < len then fmt_subslice (take start segments) @ [58, 58] @ fmt_subslice (drop (start + len) segments)
        else fmt_subslice segments)"

fun NetworkId_fmt :: "NetworkId \<Rightarrow> rust_string" where
  "NetworkId_fmt NetError = map of_char ''error''"
| "NetworkId_fmt IPv4 = map of_char ''IPv4''"
| "NetworkId_fmt IPv6 = map of_char ''IPv6''"
| "NetworkId_fmt Onionv2 = map of_char ''Onionv2''"
| "NetworkId_fmt Onionv3 = map of_char ''Onionv3''"
| "NetworkId_fmt I2P = map of_char ''I2P''"
| "NetworkId_fmt CJDNS = map of_char ''CJDNS''"
| "NetworkId_fmt YggDrasil = map of_char ''YggDrasil''"

section \<open>The text of a peer\<close>

definition AddressPortNetwork_fmt :: "AddressPortNetwork \<Rightarrow> rust_string" where
  "AddressPortNetwork_fmt apn =
     (case apn_network_id apn of
        IPv4 \<Rightarrow>
          if length (apn_address apn) = 4 then show_ipv4 (apn_address apn) @ [58] @ show_radix 10 (unat (apn_port apn))
          else map of_char ''invalid ipv4 length: '' @ show_radix 10 (length (apn_address apn))
      | IPv6 \<Rightarrow>
          if length (apn_address apn) = 16 then show_ipv6 (apn_address apn) @ [58] @ show_radix 10 (unat (apn_port apn))
          else map of_char ''invalid ipv6 length: '' @ show_radix 10 (length (apn_address apn))
      | other \<Rightarrow> map of_char ''unsupported network: '' @ NetworkId_fmt other)"

definition AddressPortNetwork_from_str :: "rust_string \<Rightarrow> AddressPortNetwork res" where
  "AddressPortNetwork_from_str s =
     (case read_socket_addr_v4 s of
        (Some (ip, port), s') \<Rightarrow>
          if s' = [] then Ok \<lparr>apn_network_id = IPv4, apn_port = port, apn_address = ip\<rparr>
          else Err (Msg ''invalid socket address syntax'')
      | (None, s') \<Rightarrow>
          (case read_socket_addr_v6 s' of
             Some ((ip, port), []) \<Rightarrow> Ok \<lparr>apn_network_id = IPv6, apn_port = port, apn_address = ip\<rparr>
           | _ \<Rightarrow> Err (Msg ''invalid socket address syntax'')))"

definition parse_peer_address :: "rust_string \<Rightarrow> u16 \<Rightarrow> AddressPortNetwork option" where
  "parse_peer_address address port =
     (case parse_ipv4 address of
        Some v \<Rightarrow> Some \<lparr>apn_network_id = IPv4, apn_port = port, apn_address = v\<rparr>
      | None \<Rightarrow>
          (case parse_ipv6 address of
             Some v \<Rightarrow> Some \<lparr>apn_network_id = IPv6, apn_port = port, apn_address = v\<rparr>
           | None \<Rightarrow> None))"

text \<open>\<open>connected\<close> is the set of the connected peers in the order in which it is iterated.\<close>

definition get_all_connected_peers :: "AddressPortNetwork list \<Rightarrow> rust_string list" where
  "get_all_connected_peers connected = map AddressPortNetwork_fmt connected"

section \<open>Reading what was printed\<close>

lemma to_digit_char [simp]: "d < radix \<Longrightarrow> radix \<le> 36 \<Longrightarrow> to_digit radix (digit_char d) = Some d"
  by (auto simp: to_digit_def digit_char_def Let_def)

lemma show_radix_digits: "1 < b \<Longrightarrow> b \<le> 36 \<Longrightarrow> \<forall>c \<in> set (show_radix b n). to_digit b c \<noteq> None"
proof (induction b n rule: show_radix.induct)
  case (1 b n)
  then show ?case by (subst show_radix.simps) auto
qed

lemma digits_value_append: "digits_value b (ds @ [c]) = digits_value b ds * b + the (to_digit b c)"
  by (simp add: digits_value_def)

lemma digits_value_show [simp]: "1 < b \<Longrightarrow> b \<le> 36 \<Longrightarrow> digits_value b (show_radix b n) = n"
proof (induction b n rule: show_radix.induct)
  case (1 b n)
  then show ?case
    by (subst show_radix.simps) (auto simp: digits_value_append, simp add: digits_value_def)
qed

lemma show_radix_not_empty [simp]: "show_radix b n \<noteq> []"
  by (subst show_radix.simps) simp

lemma show_radix_leading: "1 < b \<Longrightarrow> b \<le> 36 \<Longrightarrow> hd (show_radix b n) = 48 \<Longrightarrow> length (show_radix b n) = 1"
proof (induction b n rule: show_radix.induct)
  case (1 b n)
  show ?case
  proof (cases "n < b")
    case True
    then show ?thesis using 1(2) by (subst show_radix.simps) simp
  next
    case False
    then have s: "show_radix b n = show_radix b (n div b) @ [digit_char (n mod b)]" using 1(2) by (subst show_radix.simps) simp
    then have "hd (show_radix b (n div b)) = 48" using 1(4) by simp
    then have l: "length (show_radix b (n div b)) = 1" using 1(1-3) False by simp
    have "n div b < b"
    proof (rule ccontr)
      assume "\<not> n div b < b"
      then have "show_radix b (n div b) = show_radix b (n div b div b) @ [digit_char (n div b mod b)]"
        using 1(2) by (subst show_radix.simps) simp
      then show False using l by simp
    qed
    then have "show_radix b (n div b) = [digit_char (n div b)]" using 1(2) by (subst show_radix.simps) simp
    then have "n div b = 0" using \<open>hd (show_radix b (n div b)) = 48\<close> by (auto simp: digit_char_def split: if_splits)
    then show ?thesis using False 1(2) by (simp add: div_eq_0_iff)
  qed
qed

lemma show_radix_length: "1 < b \<Longrightarrow> n < b ^ k \<Longrightarrow> 0 < k \<Longrightarrow> length (show_radix b n) \<le> k"
proof (induction k arbitrary: n)
  case (Suc k)
  show ?case
  proof (cases "n < b")
    case True
    then show ?thesis by (subst show_radix.simps) simp
  next
    case False
    then have "k \<noteq> 0" using Suc.prems(2) by (cases k) simp_all
    moreover have "n div b < b ^ k" using Suc.prems(1,2) by (simp add: less_mult_imp_div_less mult.commute)
    ultimately show ?thesis using Suc.IH [of "n div b"] Suc.prems(1) False by (subst show_radix.simps) simp
  qed
qed simp

definition ends_number :: "nat \<Rightarrow> rust_string \<Rightarrow> bool" where
  "ends_number radix s \<longleftrightarrow> s = [] \<or> to_digit radix (hd s) = None"

lemma takeWhile_digits:
  assumes "\<forall>c \<in> set ds. to_digit b c \<noteq> None" "ends_number b s"
  shows "takeWhile (\<lambda>c. to_digit b c \<noteq> None) (ds @ s) = ds"
  using assms by (cases s) (simp_all add: takeWhile_append ends_number_def)

lemma read_number_show:
  assumes "1 < b" "b \<le> 36" "n < bound" "ends_number b s" "\<And>m. max_digits = Some m \<Longrightarrow> length (show_radix b n) \<le> m"
  shows "read_number bound b max_digits allow (show_radix b n @ s) = Some (n, s)"
proof -
  have tw: "takeWhile (\<lambda>c. to_digit b c \<noteq> None) (show_radix b n @ s) = show_radix b n"
    by (rule takeWhile_digits [OF show_radix_digits [OF assms(1,2)] assms(4)])
  have "\<not> (hd (show_radix b n) = 48 \<and> 1 < length (show_radix b n))" using show_radix_leading [OF assms(1,2), of n] by auto
  moreover have "\<not> (case max_digits of None \<Rightarrow> False | Some m \<Rightarrow> m < length (show_radix b n))"
    using assms(5) by (auto simp: not_less split: option.splits)
  ultimately show ?thesis
    unfolding read_number_def tw Let_def using assms(1-3) by auto
qed

lemma separators [simp]: "to_digit 10 46 = None" "to_digit 10 58 = None" "to_digit 16 58 = None" "to_digit 16 46 = None"
  by (simp_all add: to_digit_def)

lemma ends_number_simps [simp]: "ends_number b []" "ends_number b (c # s) \<longleftrightarrow> to_digit b c = None"
  by (simp_all add: ends_number_def)

lemma read_octet: "ends_number 10 s \<Longrightarrow> read_number 256 10 (Some 3) False (show_radix 10 (unat (w :: u8)) @ s) = Some (unat w, s)"
  using show_radix_length [of 10 "unat w" 3] unsigned_less [of w, where 'a = nat] by (intro read_number_show) simp_all

lemma read_ipv4_show:
  assumes "length octets = 4" "ends_number 10 s"
  shows "read_ipv4_addr (show_ipv4 octets @ s) = Some (octets, s)"
proof -
  obtain a b c d where o: "octets = [a, b, c, d]" using assms(1) by (auto simp: length_Suc_conv numeral_eq_Suc)
  have four: "read_ipv4_addr t = read_octets (Suc (Suc (Suc (Suc 0)))) 0 t" for t by (simp add: read_ipv4_addr_def numeral_eq_Suc)
  show ?thesis unfolding four o using assms(2)
    by (simp add: show_ipv4_def join_with_def read_separator_def read_given_char_def read_octet)
qed

lemma read_port_show: "ends_number 10 s \<Longrightarrow> read_port (58 # show_radix 10 (unat (w :: u16)) @ s) = Some (w, s)"
  using read_number_show [of 10 "unat w" 65536 s None True] unsigned_less [of w, where 'a = nat]
  by (simp add: read_port_def read_given_char_def)

lemma ipv4_text_read:
  assumes "apn_network_id apn = IPv4" "length (apn_address apn) = 4"
  shows "AddressPortNetwork_from_str (AddressPortNetwork_fmt apn) = Ok apn"
proof -
  have "read_ipv4_addr (show_ipv4 (apn_address apn) @ 58 # show_radix 10 (unat (apn_port apn))) =
      Some (apn_address apn, 58 # show_radix 10 (unat (apn_port apn)))"
    by (rule read_ipv4_show [OF assms(2)]) simp
  moreover have "read_port (58 # show_radix 10 (unat (apn_port apn))) = Some (apn_port apn, [])"
    using read_port_show [of "[]" "apn_port apn"] by simp
  ultimately show ?thesis using assms
    by (simp add: AddressPortNetwork_fmt_def AddressPortNetwork_from_str_def read_socket_addr_v4_def)
qed

section \<open>IPv6\<close>

definition ends_group :: "rust_string \<Rightarrow> bool" where
  "ends_group t \<longleftrightarrow> t = [] \<or> hd t = 58"

lemma ends_group_number: "ends_group t \<Longrightarrow> ends_number 16 t"
  by (auto simp: ends_group_def ends_number_def)

lemma read_number_rest:
  "read_number bound radix max_digits allow s = Some (n, s') \<Longrightarrow> s' = dropWhile (\<lambda>c. to_digit radix c \<noteq> None) s"
  by (auto simp: read_number_def Let_def dropWhile_eq_drop split: if_splits)

lemma not_ipv4:
  assumes "ends_group t"
  shows "read_ipv4_addr (show_radix 16 g @ t) = None"
proof -
  let ?s = "show_radix 16 g @ t" and ?P = "\<lambda>c. to_digit 10 c \<noteq> None"
  have four: "read_ipv4_addr ?s = read_octets (Suc (Suc (Suc (Suc 0)))) 0 ?s" by (simp add: read_ipv4_addr_def numeral_eq_Suc)
  have "read_given_char 46 (dropWhile ?P ?s) = None"
  proof (cases "\<forall>c \<in> set (show_radix 16 g). ?P c")
    case True
    then have d: "dropWhile ?P ?s = dropWhile ?P t" by (simp add: dropWhile_append)
    show ?thesis unfolding d using assms by (cases t) (auto simp: ends_group_def read_given_char_def)
  next
    case False
    then have ne: "dropWhile ?P (show_radix 16 g) \<noteq> []" by (simp add: dropWhile_eq_Nil_conv)
    then have "hd (dropWhile ?P (show_radix 16 g)) \<in> set (show_radix 16 g)"
      by (meson hd_in_set set_dropWhileD)
    then have "to_digit 16 (hd (dropWhile ?P (show_radix 16 g))) \<noteq> None" by (intro bspec [OF show_radix_digits [of 16 g]]) simp_all
    then have "hd (dropWhile ?P (show_radix 16 g)) \<noteq> 46" by (metis separators(4))
    moreover have d: "dropWhile ?P ?s = dropWhile ?P (show_radix 16 g) @ t" using False by (subst dropWhile_append) auto
    moreover obtain x xs where x: "dropWhile ?P (show_radix 16 g) = x # xs" using ne by (meson neq_Nil_conv)
    ultimately show ?thesis unfolding d x by (simp add: read_given_char_def)
  qed
  then have "read_octets (Suc (Suc (Suc 0))) 1 s' = None" if "read_number 256 10 (Some 3) False ?s = Some (n, s')" for n s'
    using read_number_rest [OF that] by (simp add: read_separator_def)
  then show ?thesis by (auto simp: four read_separator_def split: option.splits)
qed

lemma read_hex_group:
  "ends_group t \<Longrightarrow> read_number 65536 16 (Some 4) True (show_radix 16 (unat (g :: u16)) @ t) = Some (unat g, t)"
  using show_radix_length [of 16 "unat g" 4] unsigned_less [of g, where 'a = nat]
  by (intro read_number_show ends_group_number) simp_all

text \<open>The text of groups that follow a group, each with its colon.\<close>

definition more_groups :: "u16 list \<Rightarrow> rust_string" where
  "more_groups gs = concat (map (\<lambda>g. 58 # show_radix 16 (unat g)) gs)"

lemma fmt_subslice_simps [simp]:
  "fmt_subslice [] = []" "fmt_subslice (g # gs) = show_radix 16 (unat g) @ more_groups gs"
  by (simp_all add: fmt_subslice_def join_with_def more_groups_def comp_def)

lemma more_groups_simps [simp]:
  "more_groups [] = []" "more_groups (g # gs) = 58 # show_radix 16 (unat g) @ more_groups gs"
  by (simp_all add: more_groups_def)

text \<open>What ends the groups: nothing, or the two colons of a run of zeros.\<close>

definition ends_groups :: "rust_string \<Rightarrow> bool" where
  "ends_groups t \<longleftrightarrow> t = [] \<or> (\<exists>u. t = 58 # 58 # u)"

lemma ends_groups_group: "ends_groups t \<Longrightarrow> ends_group (more_groups gs @ t)"
  by (cases gs) (auto simp: ends_groups_def ends_group_def)

lemma no_group_after: "read_number bound radix max_digits allow (58 # u) = None"
  by (simp add: read_number_def to_digit_def)

lemma read_more_groups:
  assumes "ends_groups t"
  shows "length gs \<le> n \<Longrightarrow> 0 < i \<Longrightarrow> read_groups n i (more_groups gs @ t) = (gs, False, t)"
proof (induction gs arbitrary: n i)
  case Nil
  show ?case
  proof (cases n)
    case (Suc m)
    have "read_octets (Suc (Suc (Suc (Suc 0)))) 0 (58 # u) = None" for u
      by (simp add: read_separator_def no_group_after)
    then have "read_ipv4_addr (58 # u) = None" for u by (simp add: read_ipv4_addr_def numeral_eq_Suc)
    then show ?thesis using assms Nil(2) Suc
      by (auto simp: ends_groups_def read_separator_def read_given_char_def no_group_after)
  qed simp
next
  case (Cons g gs)
  then obtain m where n: "n = Suc m" "length gs \<le> m" by (cases n) simp_all
  have e: "ends_group (more_groups gs @ t)" by (rule ends_groups_group [OF assms])
  then show ?case
    using Cons.prems(2) Cons.IH [OF n(2), of "i + 1"] not_ipv4 [OF e, of "unat g"]
    by (cases m) (simp_all add: n(1) read_separator_def read_given_char_def read_hex_group)
qed

lemma read_first_groups:
  assumes "ends_groups t" "length gs \<le> n"
  shows "read_groups n 0 (fmt_subslice gs @ t) = (gs, False, t)"
proof (cases gs)
  case Nil
  have "read_octets (Suc (Suc (Suc (Suc 0)))) 0 (58 # u) = None" "read_octets (Suc (Suc (Suc (Suc 0)))) 0 [] = None" for u
    by (simp_all add: read_separator_def no_group_after read_number_def)
  then have "read_ipv4_addr (58 # u) = None" "read_ipv4_addr [] = None" for u by (simp_all add: read_ipv4_addr_def numeral_eq_Suc)
  then show ?thesis using assms(1) Nil
    by (cases n) (auto simp: ends_groups_def read_separator_def no_group_after read_number_def)
next
  case (Cons g gs')
  then obtain m where n: "n = Suc m" "length gs' \<le> m" using assms(2) by (cases n) simp_all
  have e: "ends_group (more_groups gs' @ t)" by (rule ends_groups_group [OF assms(1)])
  then show ?thesis
    using Cons read_more_groups [OF assms(1) n(2), of 1] not_ipv4 [OF e, of "unat g"]
    by (cases m) (simp_all add: n(1) read_separator_def read_hex_group)
qed

text \<open>The run of zeros that is left out.\<close>

definition zero_run :: "u16 list \<Rightarrow> nat \<times> nat \<Rightarrow> bool" where
  "zero_run gs run \<longleftrightarrow> fst run + snd run \<le> length gs \<and> (\<forall>k < snd run. gs ! (fst run + k) = 0)"

lemma zero_run_found:
  assumes "zero_run (pre @ gs) longest" "zero_run pre current" "snd current = 0 \<or> fst current + snd current = length pre"
  shows "zero_run (pre @ gs) (longest_zeroes (length pre) longest current gs)"
  using assms
proof (induction gs arbitrary: pre longest current)
  case (Cons g gs)
  show ?case
  proof (cases "g = 0")
    case True
    let ?c = "(if snd current = 0 then length pre else fst current, snd current + 1)"
    have c: "zero_run (pre @ [g]) ?c" "fst ?c + snd ?c = length (pre @ [g])"
      using Cons.prems(2,3) True by (auto simp: zero_run_def nth_append less_Suc_eq)
    then have "zero_run (pre @ [g] @ gs) ?c" by (auto simp: zero_run_def nth_append)
    then show ?thesis
      using Cons.IH [of "pre @ [g]" "if snd longest < snd ?c then ?c else longest" ?c] Cons.prems(1) c True
      by (auto simp: Let_def)
  next
    case False
    then show ?thesis using Cons.IH [of "pre @ [g]" longest "(0, 0)"] Cons.prems(1) by (simp add: zero_run_def)
  qed
qed simp

lemma zero_run_split:
  assumes "zero_run gs (start, n)"
  shows "gs = take start gs @ replicate n 0 @ drop (start + n) gs"
  using assms by (intro nth_equalityI) (auto simp: zero_run_def nth_append not_less)

lemma unat_u16: "n < 65536 \<Longrightarrow> unat (word_of_nat n :: u16) = n"
  by (simp add: unat_of_nat)

lemma groups_octets:
  "length octets = 2 * n \<Longrightarrow> length (groups_of_octets octets) = n \<and> octets_of_groups (groups_of_octets octets) = octets"
proof (induction octets arbitrary: n rule: groups_of_octets.induct)
  case (1 a b rest)
  define g :: u16 where "g = word_of_nat (unat a * 256 + unat b)"
  have "unat a * 256 + unat b < 65536"
    using unsigned_less [of a, where 'a = nat] unsigned_less [of b, where 'a = nat] by simp
  then have g: "unat g = unat a * 256 + unat b" unfolding g_def by (rule unat_u16)
  have "groups_of_octets (a # b # rest) = g # groups_of_octets rest" by (simp only: groups_of_octets.simps g_def)
  moreover have "unat b < 256" using unsigned_less [of b, where 'a = nat] by simp
  ultimately show ?case using 1 g by (cases n) (auto simp: octets_of_groups_def)
qed (auto simp: octets_of_groups_def)

lemma read_groups_pos:
  "0 < n \<Longrightarrow> read_groups n i s =
     (case (if n = 1 then None else read_separator 58 i read_ipv4_addr s) of
        Some (octets, s) \<Rightarrow> (groups_of_ipv4 octets, True, s)
      | None \<Rightarrow>
          (case read_separator 58 i (read_number 65536 16 (Some 4) True) s of
             None \<Rightarrow> ([], False, s)
           | Some (g, s) \<Rightarrow>
               (let (groups, ipv4, s) = read_groups (n - 1) (i + 1) s in (word_of_nat g # groups, ipv4, s))))"
proof (cases n)
  case (Suc m)
  show ?thesis unfolding Suc diff_Suc_1 by simp
qed simp

lemma octets_of_groups_append: "octets_of_groups (gs @ hs) = octets_of_groups gs @ octets_of_groups hs"
  by (simp add: octets_of_groups_def)

lemma octets_of_zeros: "octets_of_groups (replicate n 0) = replicate (2 * n) 0"
  by (induction n) (simp_all add: octets_of_groups_def)

lemma parse_shown_ipv6:
  assumes "length octets = 16"
  shows "parse_ipv6 (show_ipv6 octets) = Some octets"
proof (cases "take 12 octets = replicate 10 0 @ [255, 255]")
  case True
  define v4 where "v4 = drop 12 octets"
  have v4: "length v4 = 4" "octets = replicate 10 0 @ [255, 255] @ v4"
    using assms append_take_drop_id [of 12 octets] True by (simp_all add: v4_def)
  then obtain a b c d where abcd: "v4 = [a, b, c, d]" by (auto simp: length_Suc_conv numeral_eq_Suc)
  let ?u = "58 # show_ipv4 v4"
  have shown: "show_ipv6 octets = 58 # 58 # show_radix 16 (unat (0xFFFF :: u16)) @ ?u"
    using True by (simp add: show_ipv6_def v4_def show_radix.simps digit_char_def)
  have "read_groups 8 0 (show_ipv6 octets) = ([], False, show_ipv6 octets)"
    using read_first_groups [of "show_ipv6 octets" "[]" 8] by (simp add: ends_groups_def shown)
  moreover have "read_groups 7 0 (show_radix 16 (unat (0xFFFF :: u16)) @ ?u) = (0xFFFF # groups_of_ipv4 v4, True, [])"
  proof -
    have "ends_group ?u" by (simp add: ends_group_def)
    then have "read_ipv4_addr (show_radix 16 (unat (0xFFFF :: u16)) @ ?u) = None"
      "read_number 65536 16 (Some 4) True (show_radix 16 (unat (0xFFFF :: u16)) @ ?u) = Some (unat (0xFFFF :: u16), ?u)"
      by (rule not_ipv4, rule read_hex_group)
    moreover have "read_separator 58 1 read_ipv4_addr ?u = Some (v4, [])"
      using read_ipv4_show [OF v4(1), of "[]"] by (simp add: read_separator_def read_given_char_def)
    ultimately show ?thesis by (simp add: read_separator_def read_groups_pos [of 7] read_groups_pos [of 6])
  qed
  moreover have "octets_of_groups (replicate 5 0 @ 0xFFFF # groups_of_ipv4 v4) = octets"
  proof -
    have "octets_of_groups (groups_of_ipv4 v4) = v4"
      using groups_octets [of v4 2] by (simp add: abcd groups_of_ipv4_def)
    moreover have "octets_of_groups (replicate 5 0) = replicate 10 0" using octets_of_zeros [of 5] by simp
    moreover have "octets_of_groups [0xFFFF] = [255, 255]" by (simp add: octets_of_groups_def)
    moreover have "replicate 5 0 @ 0xFFFF # groups_of_ipv4 v4 = replicate 5 0 @ [0xFFFF] @ groups_of_ipv4 v4" by simp
    ultimately show ?thesis by (simp only: v4(2) octets_of_groups_append)
  qed
  moreover have "length (groups_of_ipv4 v4) = 2" by (simp add: groups_of_ipv4_def)
  ultimately show ?thesis
    by (simp add: parse_ipv6_def parse_with_def read_ipv6_addr_def read_given_char_def shown)
next
  case False
  define gs where "gs = groups_of_octets octets"
  have gs: "length gs = 8" "octets_of_groups gs = octets" using groups_octets [of octets 8] assms by (simp_all add: gs_def)
  obtain start n where run: "longest_zeroes 0 (0, 0) (0, 0) gs = (start, n)" by fastforce
  have zr: "zero_run gs (start, n)" using zero_run_found [of "[]" gs "(0, 0)" "(0, 0)"] run by (simp add: zero_run_def)
  show ?thesis
  proof (cases "1 < n")
    case True
    have le: "start + n \<le> 8" using zr gs(1) by (simp add: zero_run_def)
    have "read_groups 8 0 (fmt_subslice (take start gs) @ 58 # 58 # fmt_subslice (drop (start + n) gs)) =
        (take start gs, False, 58 # 58 # fmt_subslice (drop (start + n) gs))"
      using le gs(1) by (intro read_first_groups) (simp_all add: ends_groups_def)
    moreover have "read_groups (8 - (start + 1)) 0 (fmt_subslice (drop (start + n) gs)) = (drop (start + n) gs, False, [])"
      using read_first_groups [of "[]" "drop (start + n) gs" "8 - (start + 1)"] le gs(1) True by (simp add: ends_groups_def)
    moreover have "8 - start - (8 - (start + n)) = n" using le by simp
    ultimately show ?thesis
      using False True run zero_run_split [OF zr] gs le
      by (simp add: parse_ipv6_def parse_with_def read_ipv6_addr_def show_ipv6_def gs_def [symmetric] read_given_char_def)
  next
    case False
    then show ?thesis
      using \<open>take 12 octets \<noteq> _\<close> run gs read_first_groups [of "[]" gs 8]
      by (simp add: parse_ipv6_def parse_with_def read_ipv6_addr_def show_ipv6_def gs_def [symmetric] ends_groups_def)
  qed
qed

lemma show_ipv6_start:
  assumes "length octets = 16"
  shows "(\<exists>u. show_ipv6 octets = 58 # u) \<or> (\<exists>g t. show_ipv6 octets = show_radix 16 g @ t \<and> ends_group t)"
proof (cases "take 12 octets = replicate 10 0 @ [255, 255]")
  case True
  then show ?thesis by (simp add: show_ipv6_def)
next
  case False
  obtain start n where run: "longest_zeroes 0 (0, 0) (0, 0) (groups_of_octets octets) = (start, n)" by fastforce
  have start: "\<exists>g t. fmt_subslice (h # hs) @ u = show_radix 16 g @ t \<and> ends_group t" if "ends_group u" for h hs u
    using that by (intro exI [of _ "unat h"] exI [of _ "more_groups hs @ u"]) (cases hs, simp_all add: ends_group_def)
  show ?thesis
  proof (cases "1 < n")
    case True
    let ?t = "58 # 58 # fmt_subslice (drop (start + n) (groups_of_octets octets))"
    have "show_ipv6 octets = fmt_subslice (take start (groups_of_octets octets)) @ ?t"
      using False True run by (simp add: show_ipv6_def Let_def)
    then show ?thesis using start [of ?t] by (cases "take start (groups_of_octets octets)") (simp_all add: ends_group_def)
  next
    case no: False
    have "show_ipv6 octets = fmt_subslice (groups_of_octets octets)"
      using False no run by (simp add: show_ipv6_def Let_def)
    moreover have "groups_of_octets octets \<noteq> []" using groups_octets [of octets 8] assms by auto
    ultimately show ?thesis using start [of "[]"] by (cases "groups_of_octets octets") (simp_all add: ends_group_def)
  qed
qed

lemma ipv6_not_ipv4:
  assumes "length octets = 16" "ends_group t"
  shows "read_ipv4_addr (show_ipv6 octets @ t) = None" "read_given_char 91 (show_ipv6 octets @ t) = None"
proof -
  have "read_octets (Suc (Suc (Suc (Suc 0)))) 0 (58 # u) = None" for u by (simp add: read_separator_def no_group_after)
  then have colon: "read_ipv4_addr (58 # u) = None" for u by (simp add: read_ipv4_addr_def numeral_eq_Suc)
  have group: "read_ipv4_addr (show_radix 16 g @ u) = None" if "ends_group u" for g u using that by (rule not_ipv4)
  have bracket: "hd (show_radix 16 g) \<noteq> 91" for g
  proof
    assume "hd (show_radix 16 g) = 91"
    then have "91 \<in> set (show_radix 16 g)" by (metis hd_in_set show_radix_not_empty)
    then have "to_digit 16 91 \<noteq> None" by (intro bspec [OF show_radix_digits [of 16 g]]) simp_all
    then show False by (simp add: to_digit_def)
  qed
  have ends: "ends_group (u @ t)" if "ends_group u" for u using that assms(2) by (cases u) (simp_all add: ends_group_def)
  have radix: "read_given_char 91 (show_radix 16 g @ u) = None" for g u
    using bracket [of g] by (cases "show_radix 16 g") (simp_all add: read_given_char_def)
  from show_ipv6_start [OF assms(1)] show "read_ipv4_addr (show_ipv6 octets @ t) = None" "read_given_char 91 (show_ipv6 octets @ t) = None"
    using colon group ends radix by (auto simp: read_given_char_def [of _ "_ # _"])
qed

lemma parse_shown_ipv4:
  assumes "length octets = 4"
  shows "parse_ipv4 (show_ipv4 octets) = Some octets"
proof -
  obtain a b c d where o: "octets = [a, b, c, d]" using assms by (auto simp: length_Suc_conv numeral_eq_Suc)
  have "length (show_radix 10 (unat w)) \<le> 3" for w :: u8
    using show_radix_length [of 10 "unat w" 3] unsigned_less [of w, where 'a = nat] by simp
  from this [of a] this [of b] this [of c] this [of d] have "length (show_ipv4 octets) \<le> 15"
    by (simp add: o show_ipv4_def join_with_def)
  then show ?thesis using read_ipv4_show [OF assms, of "[]"] by (simp add: parse_ipv4_def parse_with_def)
qed

text \<open>
  C37: The address in the text of an IPv4 or IPv6 peer is read back as the address of this peer; the whole text is
  read back only for IPv4, because the IPv6 address is not put into brackets.
\<close>

theorem peer_text_read_back:
  assumes "apn_network_id apn = IPv4 \<and> length (apn_address apn) = 4 \<or> apn_network_id apn = IPv6 \<and> length (apn_address apn) = 16"
  shows "\<exists>host. AddressPortNetwork_fmt apn = host @ 58 # show_radix 10 (unat (apn_port apn)) \<and>
      parse_peer_address host (apn_port apn) = Some apn \<and>
      AddressPortNetwork_from_str (host @ 58 # show_radix 10 (unat (apn_port apn))) =
        (if apn_network_id apn = IPv4 then Ok apn else Err (Msg ''invalid socket address syntax''))"
  using assms
proof
  assume v4: "apn_network_id apn = IPv4 \<and> length (apn_address apn) = 4"
  then show ?thesis using parse_shown_ipv4 [of "apn_address apn"] ipv4_text_read [of apn]
    by (intro exI [of _ "show_ipv4 (apn_address apn)"]) (simp add: AddressPortNetwork_fmt_def parse_peer_address_def)
next
  assume v6: "apn_network_id apn = IPv6 \<and> length (apn_address apn) = 16"
  let ?t = "58 # show_radix 10 (unat (apn_port apn))"
  have "read_ipv4_addr (show_ipv6 (apn_address apn)) = None"
    using ipv6_not_ipv4(1) [of "apn_address apn" "[]"] v6 by (simp add: ends_group_def)
  then have "parse_ipv4 (show_ipv6 (apn_address apn)) = None" by (simp add: parse_ipv4_def parse_with_def)
  moreover have "read_ipv4_addr (show_ipv6 (apn_address apn) @ ?t) = None" "read_given_char 91 (show_ipv6 (apn_address apn) @ ?t) = None"
    using ipv6_not_ipv4 [of "apn_address apn" ?t] v6 by (simp_all add: ends_group_def)
  ultimately show ?thesis using v6 parse_shown_ipv6 [of "apn_address apn"]
    by (intro exI [of _ "show_ipv6 (apn_address apn)"])
      (simp add: AddressPortNetwork_fmt_def parse_peer_address_def AddressPortNetwork_from_str_def read_socket_addr_v4_def
        read_socket_addr_v6_def)
qed

theorem peer_text_read_back_witness:
  "\<exists>host. AddressPortNetwork_fmt \<lparr>apn_network_id = IPv6, apn_port = 8333, apn_address = replicate 15 0 @ [1]\<rparr> =
      host @ 58 # show_radix 10 8333 \<and>
    AddressPortNetwork_from_str (host @ 58 # show_radix 10 8333) = Err (Msg ''invalid socket address syntax'')"
  using peer_text_read_back [of "\<lparr>apn_network_id = IPv6, apn_port = 8333, apn_address = replicate 15 0 @ [1]\<rparr>"] by auto

end
