(* ===== verification/Api.thy ===== *)
theory Api
  imports Sqlite NetText
begin

text \<open>
  The handlers of the HTTP interface (\<open>src/src/api\<close>): how a request is checked, what is read from the chain, the
  miners and the tables, and what is answered.  A handler that panics closes the connection.

  The readers of text are third-party code and an argument: hexadecimal text, base58 text with a version byte and
  a checksum, and segregated witness addresses.  So is the order that the unstable sort gives to transactions of
  the same time.  The JSON form of the answers, the routes and the socket of the front page are left out.
\<close>

section \<open>Requests\<close>

record SearchParam =
  sp_term :: rust_string

record HashParam =
  hp_hash :: rust_string

record HashTopParam =
  ht_hash :: rust_string
  ht_limit :: "usize option"

record HashExtraParam =
  he_hash :: rust_string
  he_skip :: usize
  he_limit :: "usize option"

record AddressTopParam =
  atp_address :: rust_string
  atp_limit :: "usize option"

record AddressExtraParam =
  aep_address :: rust_string
  aep_from_timestamp :: "u64 option"
  aep_to_timestamp :: "u64 option"
  aep_limit :: "usize option"

record AddressContinueParam =
  acp_address :: rust_string
  acp_after_tx :: rust_string
  acp_after_timestamp :: u64
  acp_limit :: "usize option"

record AfterHashParam =
  ahp_hash :: rust_string
  ahp_limit :: "usize option"

record MinerTopParam =
  mtp_id :: MinerId
  mtp_limit :: "usize option"

record MinerContinueParam =
  mcp_id :: MinerId
  mcp_after_hash :: rust_string
  mcp_limit :: "usize option"

record PeerParams =
  pp_address :: rust_string
  pp_port :: u16

section \<open>Answers\<close>

datatype StatusCode = BAD_REQUEST | NOT_FOUND | INTERNAL_SERVER_ERROR

datatype 'a response = Json 'a | Status StatusCode | Crashed

fun response_bind :: "'a response \<Rightarrow> ('a \<Rightarrow> 'b response) \<Rightarrow> 'b response" where
  "response_bind (Json x) f = f x"
| "response_bind (Status s) f = Status s"
| "response_bind Crashed f = Crashed"

definition or_status :: "StatusCode \<Rightarrow> 'a option \<Rightarrow> 'a response" where
  "or_status s x = (case x of None \<Rightarrow> Status s | Some v \<Rightarrow> Json v)"

definition error_status :: "StatusCode \<Rightarrow> 'a res \<Rightarrow> 'a response" where
  "error_status s r = (case r of Ok x \<Rightarrow> Json x | Err _ \<Rightarrow> Status s | Panic \<Rightarrow> Crashed)"

text \<open>\<open>unwrap_or_default\<close>.\<close>

definition or_default :: "'a \<Rightarrow> 'a res \<Rightarrow> 'a response" where
  "or_default d r = (case r of Ok x \<Rightarrow> Json x | Err _ \<Rightarrow> Json d | Panic \<Rightarrow> Crashed)"

record decoders =
  dec_hex :: "rust_string \<Rightarrow> bytes option"
  dec_bs58 :: "u8 \<Rightarrow> rust_string \<Rightarrow> bytes option"
  dec_segwit :: "rust_string \<Rightarrow> (bool \<times> nat \<times> bytes) option"

record 'r server =
  api_decoders :: decoders
  api_encoders :: encoders
  api_sha :: "bytes \<Rightarrow> bytes"
  api_chain :: Chain
  api_miners :: "'r Miners"
  api_connected :: "AddressPortNetwork list"
  api_database :: Database
  api_sort :: "AddressTransaction list \<Rightarrow> AddressTransaction list"
  api_txs :: "bytes \<Rightarrow> bytes option res"
  api_txouts :: "bytes \<Rightarrow> bytes option res"
  api_blocks :: "bytes \<Rightarrow> bytes option res"
  api_spends :: "bytes \<Rightarrow> (bytes \<times> bytes) list"
  api_amends :: "bytes \<Rightarrow> bytes \<Rightarrow> (bytes \<times> bytes) list"
  api_sizes :: "usize \<times> usize \<times> usize"

text \<open>The readers of the tables; the sizes are those of an input, an output and an entry of a block in memory.\<close>

definition read_analyzed_tx :: "'r server \<Rightarrow> hash32 \<Rightarrow> AnalyzedTx res" where
  "read_analyzed_tx S = get_analyzed_tx (fst (api_sizes S)) (api_txs S)"

definition read_outputs :: "'r server \<Rightarrow> hash32 \<Rightarrow> TxOut list res" where
  "read_outputs S = get_transaction_outputs (fst (snd (api_sizes S))) (api_txouts S)"

definition read_entries :: "'r server \<Rightarrow> hash32 \<Rightarrow> BlockTxEntry list res" where
  "read_entries S = get_block_tx_entries (snd (snd (api_sizes S))) (api_blocks S)"

section \<open>Checks\<close>

definition parse_hash :: "decoders \<Rightarrow> rust_string \<Rightarrow> hash32 option" where
  "parse_hash D s =
     (case dec_hex D s of
        None \<Rightarrow> None
      | Some unhexxed \<Rightarrow> if length unhexxed \<noteq> 32 then None else Some (rev unhexxed))"

definition parse_limit :: "usize option \<Rightarrow> usize option" where
  "parse_limit l = (let limit = (case l of None \<Rightarrow> 50 | Some limit \<Rightarrow> limit) in if 1000 < limit then None else Some limit)"

text \<open>The version numbers \<open>Fe32::Q\<close> and \<open>Fe32::P\<close> are 0 and 1.\<close>

definition parse_address :: "decoders \<Rightarrow> rust_string \<Rightarrow> (bytes \<times> Address) option" where
  "parse_address D address =
     (case dec_hex D address of
        Some b \<Rightarrow>
          if length b = 65 then Some (b, P2PKFull address)
          else if length b = 33 then Some (b, P2PKShort address)
          else None
      | None \<Rightarrow>
     (case dec_bs58 D 0x00 address of
        Some b \<Rightarrow> if length b = 21 \<and> b ! 0 = 0x00 then Some (drop 1 b, P2PKH address) else None
      | None \<Rightarrow>
     (case dec_bs58 D 0x05 address of
        Some b \<Rightarrow> if length b = 21 \<and> b ! 0 = 0x05 then Some (drop 1 b, P2SH address) else None
      | None \<Rightarrow>
     (case dec_segwit D address of
        Some (hrp_bc, fe, b) \<Rightarrow>
          if \<not> hrp_bc then None
          else if fe = 0 then
            (if length b = 20 then Some (b, P2WSH address)
             else if length b = 32 then Some (b, P2WPKH address)
             else None)
          else if fe = 1 \<and> length b = 32 then Some (b, Taproot address)
          else None
      | None \<Rightarrow> None))))"

fun Address_fmt :: "Address \<Rightarrow> rust_string" where
  "Address_fmt (P2PKFull v) = v"
| "Address_fmt (P2PKShort v) = v"
| "Address_fmt (P2PKH v) = v"
| "Address_fmt (P2SH v) = v"
| "Address_fmt (P2WSH v) = v"
| "Address_fmt (P2WPKH v) = v"
| "Address_fmt (Taproot v) = v"
| "Address_fmt OpReturn = map of_char ''OP_RETURN''"
| "Address_fmt Unknown = map of_char ''Unknown''"
| "Address_fmt Coinbase = map of_char ''Coinbase''"

section \<open>Blocks\<close>

record BlockDataResponse =
  bd_header :: BlockHeaderWithNumber
  bd_total_txs_count :: usize
  bd_txs :: "BlockTxEntry list"
  bd_miner_id :: MinerId
  bd_miner_name :: rust_string
  bd_recent_miner_share :: f64

definition block_page_top :: "'r server \<Rightarrow> usize option \<Rightarrow> hash32 \<Rightarrow> BlockDataResponse response" where
  "block_page_top S limit unhexxed =
     response_bind (or_status NOT_FOUND (get_header_by_hash (api_chain S) unhexxed)) (\<lambda>header.
     response_bind (or_status BAD_REQUEST (parse_limit limit)) (\<lambda>limit.
     response_bind (or_default [] (read_entries S unhexxed)) (\<lambda>txs.
     response_bind (or_default None (get_miner_for_block_and_share (api_miners S) (bn_hash header))) (\<lambda>miner.
     let (miner_id, miner_name, recent_miner_share) = (case miner of None \<Rightarrow> ([], [], Fin 0) | Some m \<Rightarrow> m) in
     Json \<lparr>bd_header = header, bd_total_txs_count = length txs, bd_txs = take limit txs, bd_miner_id = miner_id,
       bd_miner_name = miner_name, bd_recent_miner_share = recent_miner_share\<rparr>))))"

definition block_data_top :: "'r server \<Rightarrow> HashTopParam \<Rightarrow> BlockDataResponse response" where
  "block_data_top S params =
     response_bind (or_status BAD_REQUEST (parse_hash (api_decoders S) (ht_hash params)))
       (block_page_top S (ht_limit params))"

definition block_page_extra :: "'r server \<Rightarrow> usize \<Rightarrow> usize option \<Rightarrow> hash32 \<Rightarrow> BlockTxEntry list response" where
  "block_page_extra S skip limit unhexxed =
     response_bind (or_status BAD_REQUEST (parse_limit limit)) (\<lambda>limit.
     response_bind (or_default [] (read_entries S unhexxed)) (\<lambda>txs.
     Json (take limit (drop skip txs))))"

definition block_data_extra :: "'r server \<Rightarrow> HashExtraParam \<Rightarrow> BlockTxEntry list response" where
  "block_data_extra S params =
     response_bind (or_status BAD_REQUEST (parse_hash (api_decoders S) (he_hash params)))
       (block_page_extra S (he_skip params) (he_limit params))"

section \<open>Miners\<close>

definition get_miners_page_top :: "'r server \<Rightarrow> MinersPageData response" where
  "get_miners_page_top S = Json (ms_page (api_miners S))"

definition miners_page_parents :: "'r server \<Rightarrow> usize option \<Rightarrow> hash32 \<Rightarrow> RecentBlock list response" where
  "miners_page_parents S limit unhexxed =
     response_bind (or_status BAD_REQUEST (parse_limit limit)) (\<lambda>limit.
     let parents = get_parents (api_chain S) unhexxed limit in
     error_status INTERNAL_SERVER_ERROR (get_block_data (api_chain S) (api_miners S) parents))"

definition get_miners_page_continue :: "'r server \<Rightarrow> AfterHashParam \<Rightarrow> RecentBlock list response" where
  "get_miners_page_continue S params =
     response_bind (or_status BAD_REQUEST (parse_hash (api_decoders S) (ahp_hash params)))
       (miners_page_parents S (ahp_limit params))"

definition get_miner_data_top :: "'r server \<Rightarrow> MinerTopParam \<Rightarrow> (Miner \<times> RecentBlock list) response" where
  "get_miner_data_top S params =
     response_bind (or_status BAD_REQUEST (parse_limit (mtp_limit params))) (\<lambda>limit.
     let miner_id = mtp_id params in
     response_bind
       (if miner_id = map of_char ''unknown''
        then Json \<lparr>mi_display_name = map of_char ''Unknown'', mi_icon = None, mi_regexes = []\<rparr>
        else or_status NOT_FOUND (get_miner (api_miners S) miner_id)) (\<lambda>miner.
     response_bind (error_status INTERNAL_SERVER_ERROR
       (get_miner_blocks (api_chain S) (api_miners S) miner_id limit None)) (\<lambda>recent_blocks.
     Json (miner, recent_blocks))))"

definition get_miner_data_continue :: "'r server \<Rightarrow> MinerContinueParam \<Rightarrow> RecentBlock list response" where
  "get_miner_data_continue S params =
     response_bind (or_status BAD_REQUEST (parse_limit (mcp_limit params))) (\<lambda>limit.
     response_bind (or_status BAD_REQUEST (parse_hash (api_decoders S) (mcp_after_hash params))) (\<lambda>unhexxed.
     error_status INTERNAL_SERVER_ERROR
       (get_miner_blocks (api_chain S) (api_miners S) (mcp_id params) limit (Some unhexxed))))"

section \<open>Peers\<close>

record PeerResponse =
  pe_is_connected_now :: bool
  pe_peer_data :: "PeerData option"

definition current_peers :: "'r server \<Rightarrow> rust_string list response" where
  "current_peers S = Json (get_all_connected_peers (api_connected S))"

definition api_get_peer :: "'r server \<Rightarrow> PeerParams \<Rightarrow> PeerResponse response" where
  "api_get_peer S params =
     response_bind (or_status BAD_REQUEST (parse_peer_address (pp_address params) (pp_port params))) (\<lambda>apn.
     response_bind (or_default None (res_bind (get_peer (api_database S) apn) (\<lambda>data. Ok (Some data)))) (\<lambda>data.
     Json \<lparr>pe_is_connected_now = is_connected_now apn (set (api_connected S)), pe_peer_data = data\<rparr>))"

section \<open>Transactions\<close>

record TxDataResponse =
  td_header :: BlockHeaderWithNumber
  td_tx :: AnalyzedTx
  td_spends :: "(u32 \<times> hash32) list"
  td_txin_addresses :: "Address list"
  td_txout_addresses :: "Address list"

text \<open>Each output is read in a task of its own.\<close>

definition get_txouts_for_txins :: "'r server \<Rightarrow> TxIn list \<Rightarrow> TxOut list res" where
  "get_txouts_for_txins S txins =
     join_handles (map (\<lambda>txin.
       res_bind (read_outputs S (ti_prevout_hash txin)) (\<lambda>txouts.
       if length txouts \<le> unat (ti_prevout_index txin) then Panic
       else Ok (fst (swap_remove txouts (unat (ti_prevout_index txin)))))) txins)"

fun human_addresses :: "encoders \<Rightarrow> TxOut list \<Rightarrow> Address list res" where
  "human_addresses E [] = Ok []"
| "human_addresses E (txout # txouts) =
     res_bind (get_human_address_from_script E (to_script txout)) (\<lambda>address.
     res_bind (human_addresses E txouts) (\<lambda>addresses. Ok (address # addresses)))"

definition txouts_to_addresses :: "encoders \<Rightarrow> TxOut list \<Rightarrow> Address list res" where
  "txouts_to_addresses E txouts = (if txouts = [] then Ok [Coinbase] else human_addresses E txouts)"

definition tx_page :: "'r server \<Rightarrow> hash32 \<Rightarrow> TxDataResponse response" where
  "tx_page S unhexxed =
     response_bind (error_status NOT_FOUND (read_analyzed_tx S unhexxed)) (\<lambda>tx.
     response_bind (error_status NOT_FOUND (read_outputs S unhexxed)) (\<lambda>txouts.
     response_bind (error_status NOT_FOUND
       (res_unwrap (compute_witness_hash (api_sha S) ((an_tx tx)\<lparr>tx_txouts := txouts\<rparr>)))) (\<lambda>full.
     response_bind (or_status NOT_FOUND (get_header_by_hash (api_chain S) (an_block_hash tx))) (\<lambda>header.
     response_bind (error_status NOT_FOUND (get_tx_spends (api_spends S) unhexxed)) (\<lambda>spends.
     let filtered_spends = filter_tx_spends (api_chain S) spends in
     response_bind (error_status NOT_FOUND (txouts_to_addresses (api_encoders S) (tx_txouts full))) (\<lambda>txout_addresses.
     response_bind (if is_coinbase full then Json []
       else error_status NOT_FOUND (get_txouts_for_txins S (tx_txins full))) (\<lambda>txouts_for_txins.
     response_bind (error_status NOT_FOUND (txouts_to_addresses (api_encoders S) txouts_for_txins)) (\<lambda>txin_addresses.
     Json \<lparr>td_header = header, td_tx = tx\<lparr>an_tx := full\<rparr>, td_spends = filtered_spends,
       td_txin_addresses = txin_addresses, td_txout_addresses = txout_addresses\<rparr>))))))))"

definition txdata :: "'r server \<Rightarrow> HashParam \<Rightarrow> TxDataResponse response" where
  "txdata S params =
     response_bind (or_status BAD_REQUEST (parse_hash (api_decoders S) (hp_hash params))) (tx_page S)"

section \<open>Search\<close>

record SearchResponse =
  sr_address :: "rust_string option"
  sr_block_hash :: "hash32 option"
  sr_tx_hash :: "hash32 option"

text \<open>\<open>u64::from_str\<close>: digits after an optional plus sign.\<close>

definition parse_u64 :: "rust_string \<Rightarrow> nat option" where
  "parse_u64 s =
     (let digits = (case s of [] \<Rightarrow> [] | c # cs \<Rightarrow> if c = 43 then cs else s) in
      if digits \<noteq> [] \<and> (\<forall>c \<in> set digits. to_digit 10 c \<noteq> None) \<and> digits_value 10 digits < 2 ^ 64
      then Some (digits_value 10 digits) else None)"

definition nothing_found :: SearchResponse where
  "nothing_found = \<lparr>sr_address = None, sr_block_hash = None, sr_tx_hash = None\<rparr>"

definition search_hash :: "'r server \<Rightarrow> rust_string \<Rightarrow> SearchResponse response" where
  "search_hash S term =
     (case parse_hash (api_decoders S) term of
        None \<Rightarrow> Json nothing_found
      | Some unhexxed \<Rightarrow>
          if get_header_by_hash (api_chain S) unhexxed \<noteq> None then Json (nothing_found\<lparr>sr_block_hash := Some unhexxed\<rparr>)
          else
            (case read_analyzed_tx S unhexxed of
               Ok _ \<Rightarrow> Json (nothing_found\<lparr>sr_tx_hash := Some unhexxed\<rparr>)
             | Err _ \<Rightarrow> Json nothing_found
             | Panic \<Rightarrow> Crashed))"

definition search :: "'r server \<Rightarrow> SearchParam \<Rightarrow> SearchResponse response" where
  "search S params =
     (case parse_address (api_decoders S) (sp_term params) of
        Some (address_bytes, human_address) \<Rightarrow>
          response_bind (error_status INTERNAL_SERVER_ERROR
              (get_address_entires (api_amends S) address_bytes 0 0xFFFFFFFFFFFFFFFF 1)) (\<lambda>v.
          Json (if v \<noteq> [] then nothing_found\<lparr>sr_address := Some (Address_fmt human_address)\<rparr> else nothing_found))
      | None \<Rightarrow>
     (case parse_u64 (sp_term params) of
        Some block_number \<Rightarrow>
          Json (case get_hash_by_number (api_chain S) block_number of
              Some v \<Rightarrow> nothing_found\<lparr>sr_block_hash := Some v\<rparr>
            | None \<Rightarrow> nothing_found)
      | None \<Rightarrow> search_hash S (sp_term params)))"

section \<open>Addresses\<close>

text \<open>The derived order of addresses: by the constructor, then by the text.\<close>

fun address_rank :: "Address \<Rightarrow> nat \<times> rust_string" where
  "address_rank (P2PKFull v) = (0, v)"
| "address_rank (P2PKShort v) = (1, v)"
| "address_rank (P2PKH v) = (2, v)"
| "address_rank (P2SH v) = (3, v)"
| "address_rank (P2WSH v) = (4, v)"
| "address_rank (P2WPKH v) = (5, v)"
| "address_rank (Taproot v) = (6, v)"
| "address_rank OpReturn = (7, [])"
| "address_rank Unknown = (8, [])"
| "address_rank Coinbase = (9, [])"

lemma address_rank_inj: "address_rank a = address_rank b \<Longrightarrow> a = b"
  by (cases a; cases b) simp_all

definition Address_le :: "Address \<Rightarrow> Address \<Rightarrow> bool" where
  "Address_le a b \<longleftrightarrow> fst (address_rank a) < fst (address_rank b) \<or>
     fst (address_rank a) = fst (address_rank b) \<and> snd (address_rank a) \<le> snd (address_rank b)"

instantiation Address :: linorder
begin

definition less_eq_Address :: "Address \<Rightarrow> Address \<Rightarrow> bool" where
  "less_eq_Address a b \<longleftrightarrow> Address_le a b"

definition less_Address :: "Address \<Rightarrow> Address \<Rightarrow> bool" where
  "less_Address a b \<longleftrightarrow> a \<le> b \<and> \<not> b \<le> (a :: Address)"

instance
proof
  fix a b c :: Address
  note le = less_eq_Address_def Address_le_def
  show "a < b \<longleftrightarrow> a \<le> b \<and> \<not> b \<le> a" by (rule less_Address_def)
  show "a \<le> a" by (simp add: le)
  show "a \<le> b \<Longrightarrow> b \<le> c \<Longrightarrow> a \<le> c" by (auto simp: le)
  show "a \<le> b \<Longrightarrow> b \<le> a \<Longrightarrow> a = b"
    by (rule address_rank_inj) (auto simp: le prod_eq_iff)
  show "a \<le> b \<or> b \<le> a" by (auto simp: le)
qed

end

definition other_addresses :: "encoders \<Rightarrow> Address \<Rightarrow> TxOut list \<Rightarrow> Address list res" where
  "other_addresses E human_address txouts =
     res_bind (human_addresses E txouts) (\<lambda>addresses.
     Ok (remdups_adj (sort (filter (\<lambda>address. address \<noteq> human_address) addresses))))"

definition set_others :: "Address list \<Rightarrow> AddressTransaction \<Rightarrow> AddressTransaction" where
  "set_others others address_tx =
     (let address_tx = address_tx\<lparr>at_distinct_other_addresses := length others\<rparr> in
      if length others = 1 then address_tx\<lparr>at_single_other_address := Some (others ! 0)\<rparr> else address_tx)"

fun read_spent_outputs :: "'r server \<Rightarrow> TxIn list \<Rightarrow> TxOut list res" where
  "read_spent_outputs S [] = Ok []"
| "read_spent_outputs S (txin # txins) =
     res_bind (read_outputs S (ti_prevout_hash txin)) (\<lambda>txouts.
     res_bind (idx_at txouts (unat (ti_prevout_index txin))) (\<lambda>txout.
     res_bind (read_spent_outputs S txins) (\<lambda>result. Ok (txout # result))))"

fun populate_each ::
  "encoders \<Rightarrow> Address \<Rightarrow> TxOut list list \<Rightarrow> TxOut list list \<Rightarrow> usize \<Rightarrow> usize \<Rightarrow>
   (AddressTransaction \<times> AnalyzedTx) list \<Rightarrow> AddressTransaction list res" where
  "populate_each E human_address gain_txouts lose_txouts gi li [] = Ok []"
| "populate_each E human_address gain_txouts lose_txouts gi li ((address_tx, analyzed_tx) # rest) =
     (if 0 < sint (at_value address_tx) then
        (if is_coinbase (an_tx analyzed_tx) then
           res_bind (populate_each E human_address gain_txouts lose_txouts gi li rest) (\<lambda>r.
           Ok (address_tx\<lparr>at_distinct_other_addresses := 1, at_single_other_address := Some Coinbase\<rparr> # r))
         else
           res_bind (idx_at gain_txouts gi) (\<lambda>relevant_txouts.
           res_bind (other_addresses E human_address relevant_txouts) (\<lambda>others.
           res_bind (populate_each E human_address gain_txouts lose_txouts (gi + 1) li rest) (\<lambda>r.
           Ok (set_others others address_tx # r)))))
      else if sint (at_value address_tx) < 0 then
        res_bind (idx_at lose_txouts li) (\<lambda>txouts.
        res_bind (other_addresses E human_address txouts) (\<lambda>others.
        res_bind (populate_each E human_address gain_txouts lose_txouts gi (li + 1) rest) (\<lambda>r.
        Ok (set_others others address_tx # r))))
      else
        res_bind (populate_each E human_address gain_txouts lose_txouts gi li rest) (\<lambda>r. Ok (address_tx # r)))"

definition populate_other_address_fields ::
  "'r server \<Rightarrow> Address \<Rightarrow> AddressTransaction list \<Rightarrow> AddressTransaction list response" where
  "populate_other_address_fields S human_address transactions =
     response_bind (error_status INTERNAL_SERVER_ERROR
       (join_handles (map (\<lambda>x. read_analyzed_tx S (at_transaction_hash x)) transactions))) (\<lambda>full_txs.
     let zipped = zip transactions full_txs;
         gains = filter (\<lambda>(a, t). 0 < sint (at_value a) \<and> \<not> is_coinbase (an_tx t)) zipped;
         loses = filter (\<lambda>(a, t). sint (at_value a) < 0 \<and> \<not> is_coinbase (an_tx t)) zipped in
     response_bind (error_status INTERNAL_SERVER_ERROR
       (join_handles (map (\<lambda>(a, t). read_spent_outputs S (tx_txins (an_tx t))) gains))) (\<lambda>gain_txouts.
     response_bind (error_status INTERNAL_SERVER_ERROR
       (join_handles (map (\<lambda>(a, t). read_outputs S (tx_hash (an_tx t))) loses))) (\<lambda>lose_txouts.
     error_status INTERNAL_SERVER_ERROR
       (populate_each (api_encoders S) human_address gain_txouts lose_txouts 0 0 zipped))))"

record AddressTopResponse =
  ar_total_txs :: usize
  ar_total_spent :: u64
  ar_total_received :: u64
  ar_first_seen :: u64
  ar_top_txs :: "AddressTransaction list"

text \<open>What the three handlers do with the records that were read.\<close>

definition shown_transactions ::
  "'r server \<Rightarrow> Address \<Rightarrow> (hash32 \<times> hash32 \<times> i64) list \<Rightarrow> AddressTransaction list response" where
  "shown_transactions S human_address amends =
     response_bind (error_status INTERNAL_SERVER_ERROR (filter_and_populate_address_txs (api_chain S) amends)) (\<lambda>transactions.
     populate_other_address_fields S human_address (api_sort S transactions))"

definition address_data_top :: "'r server \<Rightarrow> AddressTopParam \<Rightarrow> AddressTopResponse response" where
  "address_data_top S params =
     response_bind (or_status BAD_REQUEST (parse_address (api_decoders S) (atp_address params))) (\<lambda>(address_bytes, human_address).
     response_bind (or_status BAD_REQUEST (parse_limit (atp_limit params))) (\<lambda>limit.
     response_bind (error_status INTERNAL_SERVER_ERROR
       (get_top_address_data (api_amends S) address_bytes limit)) (\<lambda>top_data.
     response_bind (shown_transactions S human_address (ta_transactions top_data)) (\<lambda>transactions.
     Json \<lparr>ar_total_txs = ta_total_txs top_data, ar_total_spent = ta_total_spent top_data,
       ar_total_received = ta_total_received top_data, ar_first_seen = ta_first_seen top_data,
       ar_top_txs = transactions\<rparr>))))"

definition address_data_extra :: "'r server \<Rightarrow> AddressExtraParam \<Rightarrow> AddressTransaction list response" where
  "address_data_extra S params =
     response_bind (or_status BAD_REQUEST (parse_address (api_decoders S) (aep_address params))) (\<lambda>(address_bytes, human_address).
     let from_timestamp = (case aep_from_timestamp params of None \<Rightarrow> 0 | Some t \<Rightarrow> t);
         to_timestamp = (case aep_to_timestamp params of None \<Rightarrow> 0xFFFFFFFFFFFFFFFF | Some t \<Rightarrow> t) in
     response_bind (or_status BAD_REQUEST (parse_limit (aep_limit params))) (\<lambda>limit.
     response_bind (or_default []
       (get_address_entires (api_amends S) address_bytes from_timestamp to_timestamp limit)) (\<lambda>amends.
     shown_transactions S human_address amends)))"

definition address_data_continue :: "'r server \<Rightarrow> AddressContinueParam \<Rightarrow> AddressTransaction list response" where
  "address_data_continue S params =
     response_bind (or_status BAD_REQUEST (parse_address (api_decoders S) (acp_address params))) (\<lambda>(address_bytes, human_address).
     response_bind (or_status BAD_REQUEST (parse_hash (api_decoders S) (acp_after_tx params))) (\<lambda>unhexxed.
     response_bind (or_status BAD_REQUEST (parse_limit (acp_limit params))) (\<lambda>limit.
     response_bind (or_default []
       (get_address_entires_continue (api_amends S) address_bytes unhexxed (acp_after_timestamp params) limit)) (\<lambda>amends.
     shown_transactions S human_address amends))))"

end
