(* ===== verification/Explorer.thy ===== *)
theory Explorer
  imports Api
begin

text \<open>
  What the HTTP interface answers: a contract shared by the handlers that take a hash, the round trip of addresses
  and the search, the addresses on the other side of a transaction, and the page of a transaction as it is put
  together from the tables.
\<close>

section \<open>Handlers that take a hash\<close>

text \<open>
  The hash is read from hexadecimal text in reversed order; anything else is refused before anything is read.
\<close>

locale hash_handler =
  fixes D :: decoders and answer :: "rust_string \<Rightarrow> 'b response" and page :: "hash32 \<Rightarrow> 'b response"
  assumes answer_checked: "answer s = response_bind (or_status BAD_REQUEST (parse_hash D s)) page"
begin

lemma answer_page: "dec_hex D s = Some (rev h) \<Longrightarrow> length h = 32 \<Longrightarrow> answer s = page h"
  by (simp add: answer_checked parse_hash_def or_status_def)

lemma answer_refused: "(\<And>h. dec_hex D s = Some h \<Longrightarrow> length h \<noteq> 32) \<Longrightarrow> answer s = Status BAD_REQUEST"
  by (auto simp: answer_checked parse_hash_def or_status_def split: option.split)

lemma answer_spelling: "dec_hex D s = dec_hex D t \<Longrightarrow> answer s = answer t"
  by (simp add: answer_checked parse_hash_def)

end

interpretation block_top: hash_handler "api_decoders S" "\<lambda>s. block_data_top S \<lparr>ht_hash = s, ht_limit = l\<rparr>" "block_page_top S l"
  by unfold_locales (simp add: block_data_top_def)

interpretation block_extra: hash_handler "api_decoders S"
  "\<lambda>s. block_data_extra S \<lparr>he_hash = s, he_skip = k, he_limit = l\<rparr>" "block_page_extra S k l"
  by unfold_locales (simp add: block_data_extra_def)

interpretation tx_data: hash_handler "api_decoders S" "\<lambda>s. txdata S \<lparr>hp_hash = s\<rparr>" "tx_page S"
  by unfold_locales (simp add: txdata_def)

interpretation miners_page: hash_handler "api_decoders S"
  "\<lambda>s. get_miners_page_continue S \<lparr>ahp_hash = s, ahp_limit = l\<rparr>" "miners_page_parents S l"
  by unfold_locales (simp add: get_miners_page_continue_def)

section \<open>Texts of addresses\<close>

text \<open>
  What the encoders and decoders promise: hexadecimal text is decoded to its bytes, base58 text to its version
  and bytes and only under its version, and a segregated witness address to its version and program.
\<close>

definition decodes_encoded :: "encoders \<Rightarrow> decoders \<Rightarrow> bool" where
  "decodes_encoded E D \<longleftrightarrow>
     (\<forall>b. dec_hex D (enc_hex E b) = Some b) \<and>
     (\<forall>v b. dec_bs58 D v (enc_bs58 E v b) = Some (v # b)) \<and>
     (\<forall>v w b. v \<noteq> w \<longrightarrow> dec_bs58 D v (enc_bs58 E w b) = None) \<and>
     (\<forall>b t. enc_v0 E b = Some t \<longrightarrow> dec_segwit D t = Some (True, 0, b)) \<and>
     (\<forall>b t. enc_v1 E b = Some t \<longrightarrow> dec_segwit D t = Some (True, 1, b))"

text \<open>A text that an earlier decoder would accept is not reached by the one it was written for.\<close>

fun plain_text :: "decoders \<Rightarrow> Address \<Rightarrow> bool" where
  "plain_text D (P2PKH t) \<longleftrightarrow> dec_hex D t = None"
| "plain_text D (P2SH t) \<longleftrightarrow> dec_hex D t = None"
| "plain_text D (P2WSH t) \<longleftrightarrow> dec_hex D t = None \<and> dec_bs58 D 0 t = None \<and> dec_bs58 D 5 t = None"
| "plain_text D (P2WPKH t) \<longleftrightarrow> dec_hex D t = None \<and> dec_bs58 D 0 t = None \<and> dec_bs58 D 5 t = None"
| "plain_text D (Taproot t) \<longleftrightarrow> dec_hex D t = None \<and> dec_bs58 D 0 t = None \<and> dec_bs58 D 5 t = None"
| "plain_text D _ \<longleftrightarrow> True"

text \<open>The address of a key of the address table.\<close>

fun encodes :: "encoders \<Rightarrow> bytes \<Rightarrow> Address \<Rightarrow> bool" where
  "encodes E key (P2PKFull t) \<longleftrightarrow> t = enc_hex E key \<and> length key = 65"
| "encodes E key (P2PKShort t) \<longleftrightarrow> t = enc_hex E key \<and> length key = 33"
| "encodes E key (P2PKH t) \<longleftrightarrow> t = enc_bs58 E 0 key \<and> length key = 20"
| "encodes E key (P2SH t) \<longleftrightarrow> t = enc_bs58 E 5 key \<and> length key = 20"
| "encodes E key (P2WSH t) \<longleftrightarrow> enc_v0 E key = Some t \<and> length key = 20"
| "encodes E key (P2WPKH t) \<longleftrightarrow> enc_v0 E key = Some t \<and> length key = 32"
| "encodes E key (Taproot t) \<longleftrightarrow> enc_v1 E key = Some t \<and> length key = 32"
| "encodes E key _ \<longleftrightarrow> False"

lemma opt_unwrap_Ok [simp]: "opt_unwrap m = Ok x \<longleftrightarrow> m = Some x"
  by (simp add: opt_unwrap_def split: option.split)

lemma human_address_encodes:
  assumes "get_human_address_from_script E script = Ok a" "a \<noteq> OpReturn" "a \<noteq> Unknown"
  shows "\<exists>key. script_address script = Some key \<and> encodes E key a"
  using assms
  by (auto simp: get_human_address_from_script_def script_address_def get_p2pk_address_human_def get_p2pk_address_def
      get_p2sh_address_human_def get_p2sh_address_def get_p2pkh_address_human_def get_p2pkh_address_def
      get_bech32_address_human_def get_bech32_address_def get_range_def get_from_def res_bind_Ok_iff split: if_splits)

lemma parse_encoded:
  assumes "decodes_encoded E D" "encodes E key a" "plain_text D a"
  shows "parse_address D (Address_fmt a) = Some (key, a)"
  using assms by (cases a) (auto simp: parse_address_def decodes_encoded_def)

section \<open>Search\<close>

lemma first_row_read:
  assumes "table_ok rows key" "\<forall>l u. scan l u = scan_of rows l u"
  shows "get_address_entires scan key 0 0xFFFFFFFFFFFFFFFF 1 = Ok (take 1 (map row_entry (history rows key 0 0xFFFFFFFFFFFFFFFF)))"
  using scan_history [OF assms(1), of "0xFFFFFFFFFFFFFFFF" 0] read_rows [OF history_rows(1) [OF assms(1)], of "[]" 1] assms(2)
  by (simp add: get_address_entires_def Let_def)


section \<open>The page of a transaction\<close>

lemma witness_hash_restored:
  assumes "Tx_ok sha tx" "length (serialize_without_txouts tx) < 2 ^ 63"
  shows "compute_witness_hash sha (tx\<lparr>tx_witness_hash := EMPTY_HASH\<rparr>) = Ok tx"
  using stored_tx_restored [OF assms, of 0] without_txouts_decode [OF assms(1), of "[]" 0 "tx_hash tx"] assms(2)
  by (auto simp: res_bind_Ok_iff)

lemma outputs_decoded:
  assumes "Tx_ok sha tx" "txouts_size tx < 2 ^ 63" "sz * length (tx_txouts tx) < 2 ^ 63"
  shows "deserialize_array_owned sz TxOut_deserialize_owned (serialize_array TxOut_serialize (tx_txouts tx)) =
    Ok (tx_txouts tx, length (serialize_array TxOut_serialize (tx_txouts tx)))"
proof -
  have "length (concat (map TxOut_serialize xs)) = sum_list (map TxOut_serialized_length xs)" for xs
    by (induction xs) simp_all
  then have "length (serialize_array TxOut_serialize (tx_txouts tx) @ []) < 2 ^ 63"
    using assms(2) by (simp add: serialize_array_def txouts_size_def)
  moreover have "list_all TxOut_ok (tx_txouts tx)" "length (tx_txouts tx) < 2 ^ 63"
    using assms(1) by (simp_all add: Tx_ok_def array_ok_def)
  ultimately show ?thesis using txouto.array_owned_decode_encode [OF _ _ assms(3), of "[]"] by simp
qed

lemma stored_tx_read:
  assumes "Tx_ok sha tx" "length (tx_hash tx) = 32" "length block_hash = 32"
    and "is_coinbase tx \<longrightarrow> deps = []" "arena_room a (analysis_need L tx deps)"
    and "get_transaction_sigop_cost tx deps (analysis_flags tx) = Ok sigops"
    and "length deps < 2 ^ 59" "length (serialize_without_txouts tx) + fst (api_sizes S) * length (tx_txins tx) < 2 ^ 61"
    and "fst (snd (api_sizes S)) * length (tx_txouts tx) < 2 ^ 63"
    and "analyze_tx srt L block_hash tx deps ts a = Ok (st, a')"
    and "api_txs S (tx_hash tx) = Ok (st_analyzed_tx st)" "api_txouts S (tx_hash tx) = Ok (st_tx_outs st)"
  shows "read_analyzed_tx S (tx_hash tx) = Ok \<lparr>an_fee = analysis_fee tx deps,
      an_txouts_sum = sum_list (map to_value (tx_txouts tx)), an_size_wus = calculate_tx_size_wus tx,
      an_sigops = sigops, an_block_hash = block_hash,
      an_tx = tx\<lparr>tx_txouts := [], tx_witness_hash := EMPTY_HASH\<rparr>, an_txin_values = map to_value deps\<rparr>"
    and "read_outputs S (tx_hash tx) = Ok (tx_txouts tx)"
proof -
  let ?stored = "analyzed_record (analysis_fee tx deps) (sum_list (map to_value (tx_txouts tx)))
    (calculate_tx_size_wus tx) sigops block_hash tx deps @ replicate 8 0"
  have st: "st_analyzed_tx st = Some ?stored" "st_tx_outs st = Some (serialize_array TxOut_serialize (tx_txouts tx))"
    using analyze_tx_eq [OF assms(1-3) _ assms(5,6), of srt ts] assms(4,10) by auto
  show "read_analyzed_tx S (tx_hash tx) = Ok \<lparr>an_fee = analysis_fee tx deps,
      an_txouts_sum = sum_list (map to_value (tx_txouts tx)), an_size_wus = calculate_tx_size_wus tx,
      an_sigops = sigops, an_block_hash = block_hash,
      an_tx = tx\<lparr>tx_txouts := [], tx_witness_hash := EMPTY_HASH\<rparr>, an_txin_values = map to_value deps\<rparr>"
    using analyzed_record_decodes [OF assms(1,3,7,8)] assms(11)
    by (simp add: read_analyzed_tx_def get_analyzed_tx_def found_data_def st(1))
  have "txouts_size tx < 2 ^ 63" using assms(5) by (simp add: arena_room_def arena_inv_def analysis_need_def)
  from outputs_decoded [OF assms(1) this assms(9)] assms(12)
  moreover have "serialize_array TxOut_serialize (tx_txouts tx) \<noteq> []"
  proof -
    have "0 < length (fst (serialize_varint (word_of_nat (length (tx_txouts tx)))))" by (simp add: length_varint_def)
    then show ?thesis unfolding serialize_array_def by force
  qed
  ultimately show "read_outputs S (tx_hash tx) = Ok (tx_txouts tx)"
    by (simp add: read_outputs_def get_transaction_outputs_def found_data_def st(2))
qed

text \<open>
  C33: The page of a transaction shows the transaction that was downloaded: when the tables hold what
  \<open>analyze_tx\<close> made of it, the answer to its identifier is this transaction with its outputs, its witness
  identifier, its fee and the values it spends, the header of its block, and the addresses of both sides.
\<close>

theorem stored_transaction_shown:
  assumes "Tx_ok (api_sha S) tx" "length (tx_hash tx) = 32" "length block_hash = 32"
    and "is_coinbase tx \<longrightarrow> deps = []" "arena_room a (analysis_need L tx deps)"
    and "get_transaction_sigop_cost tx deps (analysis_flags tx) = Ok sigops"
    and "length deps < 2 ^ 59" "length (serialize_without_txouts tx) + fst (api_sizes S) * length (tx_txins tx) < 2 ^ 61"
    and "fst (snd (api_sizes S)) * length (tx_txouts tx) < 2 ^ 63"
    and "analyze_tx srt L block_hash tx deps ts a = Ok (st, a')"
    and "api_txs S (tx_hash tx) = Ok (st_analyzed_tx st)" "api_txouts S (tx_hash tx) = Ok (st_tx_outs st)"
    and "dec_hex (api_decoders S) term = Some (rev (tx_hash tx))"
    and "ch_known_headers (api_chain S) block_hash = Some header"
    and "get_tx_spends (api_spends S) (tx_hash tx) = Ok spends"
    and "is_coinbase tx \<or> get_txouts_for_txins S (tx_txins tx) = Ok deps"
    and "txouts_to_addresses (api_encoders S) (tx_txouts tx) = Ok receivers"
    and "txouts_to_addresses (api_encoders S) deps = Ok senders"
  shows "txdata S \<lparr>hp_hash = term\<rparr> = Json \<lparr>td_header = header,
    td_tx = \<lparr>an_fee = analysis_fee tx deps, an_txouts_sum = sum_list (map to_value (tx_txouts tx)),
      an_size_wus = calculate_tx_size_wus tx, an_sigops = sigops, an_block_hash = block_hash, an_tx = tx,
      an_txin_values = map to_value deps\<rparr>,
    td_spends = filter_tx_spends (api_chain S) spends, td_txin_addresses = senders, td_txout_addresses = receivers\<rparr>"
proof -
  note read = stored_tx_read [OF assms(1-12)]
  have "compute_witness_hash (api_sha S) (tx\<lparr>tx_witness_hash := EMPTY_HASH\<rparr>) = Ok tx"
    by (rule witness_hash_restored [OF assms(1)]) (use assms(8) in simp)
  then have "tx_page S (tx_hash tx) = Json \<lparr>td_header = header,
      td_tx = \<lparr>an_fee = analysis_fee tx deps, an_txouts_sum = sum_list (map to_value (tx_txouts tx)),
        an_size_wus = calculate_tx_size_wus tx, an_sigops = sigops, an_block_hash = block_hash, an_tx = tx,
        an_txin_values = map to_value deps\<rparr>,
      td_spends = filter_tx_spends (api_chain S) spends, td_txin_addresses = senders, td_txout_addresses = receivers\<rparr>"
    using assms(4,14-18) by (auto simp: tx_page_def read error_status_def or_status_def get_header_by_hash_def)
  then show ?thesis using tx_data.answer_page [OF assms(13,2)] by simp
qed

section \<open>The other side of a transaction\<close>

definition shown_others :: "encoders \<Rightarrow> Address \<Rightarrow> TxOut list \<Rightarrow> AddressTransaction \<Rightarrow> AddressTransaction \<Rightarrow> bool" where
  "shown_others E human_address txouts x y \<longleftrightarrow>
     (\<exists>addresses. human_addresses E txouts = Ok addresses \<and>
       (let others = set addresses - {human_address} in
        y = x\<lparr>at_distinct_other_addresses := card others,
            at_single_other_address := (if card others = 1 then Some (the_elem others) else at_single_other_address x)\<rparr>))"

text \<open>
  What one transaction of the page should say: nothing for an amount of zero, the coinbase for a reward, and
  otherwise the addresses that paid or were paid, without the one the page is about.
\<close>

definition shown_as :: "'r server \<Rightarrow> Address \<Rightarrow> Tx \<Rightarrow> AddressTransaction \<Rightarrow> AddressTransaction \<Rightarrow> bool" where
  "shown_as S human_address tx x y \<longleftrightarrow>
     (if 0 < sint (at_value x) then
        (if is_coinbase tx then y = x\<lparr>at_distinct_other_addresses := 1, at_single_other_address := Some Coinbase\<rparr>
         else \<exists>txouts. read_spent_outputs S (tx_txins tx) = Ok txouts \<and> shown_others (api_encoders S) human_address txouts x y)
      else if sint (at_value x) < 0 then
        \<exists>txouts. read_outputs S (tx_hash tx) = Ok txouts \<and> shown_others (api_encoders S) human_address txouts x y
      else y = x)"

lemma length_remdups_adj_sort: "length (remdups_adj (sort xs)) = card (set xs)"
proof -
  have "sorted ys \<Longrightarrow> distinct (remdups_adj ys)" for ys :: "'a list"
    by (induction ys rule: remdups_adj.induct) auto
  then have "distinct (remdups_adj (sort xs))" by simp
  then show ?thesis using distinct_card [of "remdups_adj (sort xs)"] by simp
qed

lemma set_others_shown:
  assumes "other_addresses E human_address txouts = Ok others"
  shows "shown_others E human_address txouts x (set_others others x)"
proof -
  obtain addresses where a: "human_addresses E txouts = Ok addresses"
    "others = remdups_adj (sort (filter (\<lambda>a. a \<noteq> human_address) addresses))"
    using assms by (auto simp: other_addresses_def res_bind_Ok_iff)
  have s: "set others = set addresses - {human_address}" "length others = card (set addresses - {human_address})"
    using a(2) length_remdups_adj_sort [of "filter (\<lambda>a. a \<noteq> human_address) addresses"] by (auto simp: set_diff_eq)
  show ?thesis
  proof (cases "length others = 1")
    case True
    then obtain c where c: "others = [c]" by (cases others) auto
    then have "set addresses - {human_address} = {c}" using s(1) by simp
    then show ?thesis using a(1) c by (simp add: shown_others_def set_others_def Let_def)
  next
    case False
    then have "set_others others x = x\<lparr>at_distinct_other_addresses := card (set addresses - {human_address}),
        at_single_other_address := at_single_other_address x\<rparr>"
      by (cases x) (simp add: set_others_def Let_def s(2))
    then show ?thesis using a(1) False s(2) by (simp add: shown_others_def Let_def)
  qed
qed

lemma join_handles_all2: "join_handles hs = Ok xs \<Longrightarrow> list_all2 (\<lambda>h x. h = Ok x) hs xs"
proof (induction hs arbitrary: xs)
  case (Cons h hs)
  then show ?case by (cases h) (auto simp: res_bind_Ok_iff spawn_blocking_def)
qed simp

lemma populated:
  assumes "populate_each (api_encoders S) human_address G L gi li rest = Ok ys"
    and "list_all2 (\<lambda>p txouts. read_spent_outputs S (tx_txins (an_tx (snd p))) = Ok txouts)
      (filter (\<lambda>(a, t). 0 < sint (at_value a) \<and> \<not> is_coinbase (an_tx t)) rest) (drop gi G)"
    and "list_all2 (\<lambda>p txouts. read_outputs S (tx_hash (an_tx (snd p))) = Ok txouts)
      (filter (\<lambda>(a, t). sint (at_value a) < 0 \<and> \<not> is_coinbase (an_tx t)) rest) (drop li L)"
    and "\<forall>(a, t) \<in> set rest. is_coinbase (an_tx t) \<longrightarrow> 0 \<le> sint (at_value a)"
  shows "list_all2 (\<lambda>(a, t) y. shown_as S human_address (an_tx t) a y) rest ys"
  using assms
proof (induction rest arbitrary: gi li ys)
  case (Cons p rest)
  obtain a t where p: "p = (a, t)" by fastforce
  have drop: "idx_at xs i = Ok x \<Longrightarrow> drop i xs = x # drop (i + 1) xs" for xs :: "TxOut list list" and i x
    by (auto simp: idx_at_def get_at_def Cons_nth_drop_Suc split: if_splits)
  consider (reward) "0 < sint (at_value a)" "is_coinbase (an_tx t)" | (gain) "0 < sint (at_value a)" "\<not> is_coinbase (an_tx t)"
    | (lose) "sint (at_value a) < 0" "\<not> is_coinbase (an_tx t)" | (zero) "sint (at_value a) = 0"
    using Cons.prems(4) p by fastforce
  then show ?case
  proof cases
    case reward
    then obtain r where r: "populate_each (api_encoders S) human_address G L gi li rest = Ok r"
      "ys = a\<lparr>at_distinct_other_addresses := 1, at_single_other_address := Some Coinbase\<rparr> # r"
      using Cons.prems(1) p by (auto simp: res_bind_Ok_iff)
    have "list_all2 (\<lambda>(a, t) y. shown_as S human_address (an_tx t) a y) rest r"
      by (rule Cons.IH [OF r(1)]) (use Cons.prems p reward in auto)
    then show ?thesis using reward by (simp add: p r(2) shown_as_def [of _ _ _ a])
  next
    case gain
    then obtain txouts others r where r: "idx_at G gi = Ok txouts" "other_addresses (api_encoders S) human_address txouts = Ok others"
      "populate_each (api_encoders S) human_address G L (gi + 1) li rest = Ok r" "ys = set_others others a # r"
      using Cons.prems(1) p by (auto simp: res_bind_Ok_iff)
    have d: "drop gi G = txouts # drop (gi + 1) G" by (rule drop [OF r(1)])
    have "read_spent_outputs S (tx_txins (an_tx t)) = Ok txouts" using Cons.prems(2) p gain d by simp
    then have "shown_as S human_address (an_tx t) a (set_others others a)"
      using gain set_others_shown [OF r(2)] by (auto simp: shown_as_def)
    moreover have "list_all2 (\<lambda>(a, t) y. shown_as S human_address (an_tx t) a y) rest r"
      by (rule Cons.IH [OF r(3)]) (use Cons.prems p gain d in auto)
    ultimately show ?thesis by (simp add: p r(4))
  next
    case lose
    then obtain txouts others r where r: "idx_at L li = Ok txouts" "other_addresses (api_encoders S) human_address txouts = Ok others"
      "populate_each (api_encoders S) human_address G L gi (li + 1) rest = Ok r" "ys = set_others others a # r"
      using Cons.prems(1) p by (auto simp: res_bind_Ok_iff)
    have d: "drop li L = txouts # drop (li + 1) L" by (rule drop [OF r(1)])
    have "read_outputs S (tx_hash (an_tx t)) = Ok txouts" using Cons.prems(3) p lose d by simp
    then have "shown_as S human_address (an_tx t) a (set_others others a)"
      using lose set_others_shown [OF r(2)] by (auto simp: shown_as_def)
    moreover have "list_all2 (\<lambda>(a, t) y. shown_as S human_address (an_tx t) a y) rest r"
      by (rule Cons.IH [OF r(3)]) (use Cons.prems p lose d in auto)
    ultimately show ?thesis by (simp add: p r(4))
  next
    case zero
    then obtain r where r: "populate_each (api_encoders S) human_address G L gi li rest = Ok r" "ys = a # r"
      using Cons.prems(1) p by (auto simp: res_bind_Ok_iff)
    have "list_all2 (\<lambda>(a, t) y. shown_as S human_address (an_tx t) a y) rest r"
      by (rule Cons.IH [OF r(1)]) (use Cons.prems p zero in auto)
    then show ?thesis using zero by (simp add: p r(2) shown_as_def [of _ _ _ a])
  qed
qed simp

lemma response_bind_Json: "response_bind m f = Json y \<longleftrightarrow> (\<exists>x. m = Json x \<and> f x = Json y)"
  by (cases m) auto

lemma error_status_Json: "error_status s r = Json x \<longleftrightarrow> r = Ok x"
  by (cases r) (auto simp: error_status_def)

text \<open>
  C34: Every transaction on the page of an address names the other side rightly: the number of different addresses
  that paid it or were paid by it, without the address itself, and the address when there is only one, although the
  outputs are read by tasks into two lists that are then walked by index.
\<close>

theorem other_side_exact:
  assumes "populate_other_address_fields S human_address transactions = Json shown"
    and "\<forall>x \<in> set transactions. \<forall>full. read_analyzed_tx S (at_transaction_hash x) = Ok full \<longrightarrow>
      is_coinbase (an_tx full) \<longrightarrow> 0 \<le> sint (at_value x)"
  shows "list_all2 (\<lambda>x y. \<exists>full. read_analyzed_tx S (at_transaction_hash x) = Ok full \<and>
    shown_as S human_address (an_tx full) x y) transactions shown"
proof -
  obtain full_txs G L where f: "join_handles (map (\<lambda>x. read_analyzed_tx S (at_transaction_hash x)) transactions) = Ok full_txs"
    and G: "join_handles (map (\<lambda>(a, t). read_spent_outputs S (tx_txins (an_tx t)))
      (filter (\<lambda>(a, t). 0 < sint (at_value a) \<and> \<not> is_coinbase (an_tx t)) (zip transactions full_txs))) = Ok G"
    and L: "join_handles (map (\<lambda>(a, t). read_outputs S (tx_hash (an_tx t)))
      (filter (\<lambda>(a, t). sint (at_value a) < 0 \<and> \<not> is_coinbase (an_tx t)) (zip transactions full_txs))) = Ok L"
    and p: "populate_each (api_encoders S) human_address G L 0 0 (zip transactions full_txs) = Ok shown"
    using assms(1) by (auto simp: populate_other_address_fields_def Let_def response_bind_Json error_status_Json)
  have full: "list_all2 (\<lambda>x t. read_analyzed_tx S (at_transaction_hash x) = Ok t) transactions full_txs"
    using join_handles_all2 [OF f] by (simp add: list.rel_map)
  have "\<forall>(a, t) \<in> set (zip transactions full_txs). is_coinbase (an_tx t) \<longrightarrow> 0 \<le> sint (at_value a)"
    using full assms(2) by (auto simp: set_zip list_all2_conv_all_nth)
  then have "list_all2 (\<lambda>(a, t) y. shown_as S human_address (an_tx t) a y) (zip transactions full_txs) shown"
    using join_handles_all2 [OF G] join_handles_all2 [OF L]
    by (intro populated [OF p]) (auto simp: list.rel_map case_prod_beta)
  then show ?thesis using full
    by (fastforce simp: list_all2_conv_all_nth)
qed

text \<open>
  The address of a page keeps the spelling of the request.  Hexadecimal text in capital letters names the same
  key, but it is another address: the outputs of the key itself count as the other side.
\<close>

lemma respelled_key_is_another_address:
  assumes "dec_hex D term = Some b" "length b = 33" "term \<noteq> enc_hex E b"
    and "get_human_address_from_script E script = Ok (P2PKShort (enc_hex E b))"
  shows "parse_address D term = Some (b, P2PKShort term)"
    and "other_addresses E (P2PKShort term) [\<lparr>to_value = v, to_script = script\<rparr>] = Ok [P2PKShort (enc_hex E b)]"
    and "other_addresses E (P2PKShort (enc_hex E b)) [\<lparr>to_value = v, to_script = script\<rparr>] = Ok []"
  using assms by (simp_all add: parse_address_def other_addresses_def)

section \<open>A small server\<close>

definition demo_encoders :: encoders where
  "demo_encoders = \<lparr>enc_hex = \<lambda>b. 0 # map unat b, enc_bs58 = \<lambda>v b. 1 # unat v # map unat b,
     enc_v0 = \<lambda>b. Some (2 # map unat b), enc_v1 = \<lambda>b. Some (3 # map unat b)\<rparr>"

definition demo_decoders :: decoders where
  "demo_decoders = \<lparr>dec_hex = \<lambda>s. if take 1 s = [0] then Some (map word_of_nat (drop 1 s)) else None,
     dec_bs58 = \<lambda>v s. if take 2 s = [1, unat v] then Some (v # map word_of_nat (drop 2 s)) else None,
     dec_segwit = \<lambda>s. if take 1 s = [2] then Some (True, 0, map word_of_nat (drop 1 s))
       else if take 1 s = [3] then Some (True, 1, map word_of_nat (drop 1 s)) else None\<rparr>"

lemma demo_decodes: "decodes_encoded demo_encoders demo_decoders"
  by (auto simp: decodes_encoded_def demo_encoders_def demo_decoders_def comp_def word_unat_eq_iff)

definition demo_analysis :: "(SerializedTx \<times> arena) res" where
  "demo_analysis = analyze_tx (sort_key fst) demo_layouts (replicate 32 9) demo_payment demo_deps 100 (Arena_new 4096 4096)"

definition demo_record :: "(SerializedTx \<Rightarrow> bytes option) \<Rightarrow> bytes option res" where
  "demo_record f = res_bind demo_analysis (\<lambda>(st, _). Ok (f st))"

definition demo_server :: "bytes server" where
  "demo_server = \<lparr>api_decoders = demo_decoders, api_encoders = demo_encoders, api_sha = zero_sha,
     api_chain = demo_chain\<lparr>ch_known_headers := [replicate 32 9 \<mapsto> demo_entry 1 EMPTY_HASH 0]\<rparr>, api_miners = demo_miners,
     api_connected = [], api_database = Database_empty, api_sort = (\<lambda>txs. txs), api_txs = (\<lambda>_. demo_record st_analyzed_tx),
     api_txouts = (\<lambda>h. if h = replicate 32 1 then Ok (Some (serialize_array TxOut_serialize demo_deps))
       else demo_record st_tx_outs),
     api_blocks = (\<lambda>_. Ok None), api_spends = (\<lambda>_. []), api_amends = scan_of demo_rows, api_sizes = (72, 32, 56)\<rparr>"

lemma demo_server_simps [simp]:
  "api_decoders demo_server = demo_decoders" "api_encoders demo_server = demo_encoders" "api_sha demo_server = zero_sha"
  "api_amends demo_server = scan_of demo_rows" "api_sizes demo_server = (72, 32, 56)" "api_spends demo_server h = []"
  "api_txs demo_server h = demo_record st_analyzed_tx"
  by (simp_all add: demo_server_def)

lemma demo_human: "get_human_address_from_script demo_encoders (demo_script b) = Ok (P2PKH (1 # 0 # replicate 20 (unat b)))"
  "script_address (demo_script b) = Some (replicate 20 b)"
  by (simp_all add: get_human_address_from_script_def script_address_def get_p2pk_address_human_def get_p2pk_address_def
      get_p2sh_address_human_def get_p2sh_address_def get_p2pkh_address_human_def get_p2pkh_address_def demo_script_def
      demo_encoders_def get_range_def nth_append)


lemma demo_analysis_done:
  "\<exists>st a'. demo_analysis = Ok (st, a') \<and> demo_record st_analyzed_tx = Ok (st_analyzed_tx st) \<and>
    api_txouts demo_server (tx_hash demo_payment) = Ok (st_tx_outs st)"
proof -
  obtain st a' where done': "demo_analysis = Ok (st, a')"
    using analyze_tx_eq [OF demo_payment_ok demo_payment_fields(1) _ _ demo_payment_room demo_payment_sigops,
        of "replicate 32 9" "sort_key fst" 100] demo_payment_fields(2) by (auto simp: demo_analysis_def)
  have rec: "demo_record f = Ok (f st)" for f by (simp add: demo_record_def done')
  have "tx_hash demo_payment \<noteq> replicate 32 1" by (simp add: demo_payment_def)
  then have "api_txouts demo_server (tx_hash demo_payment) = demo_record st_tx_outs" by (simp add: demo_server_def)
  with done' rec show ?thesis by auto
qed

lemma demo_read:
  "read_analyzed_tx demo_server (tx_hash demo_payment) = Ok \<lparr>an_fee = analysis_fee demo_payment demo_deps,
      an_txouts_sum = sum_list (map to_value (tx_txouts demo_payment)), an_size_wus = calculate_tx_size_wus demo_payment,
      an_sigops = 4, an_block_hash = replicate 32 9,
      an_tx = demo_payment\<lparr>tx_txouts := [], tx_witness_hash := EMPTY_HASH\<rparr>, an_txin_values = map to_value demo_deps\<rparr>"
  "read_outputs demo_server (tx_hash demo_payment) = Ok (tx_txouts demo_payment)"
proof -
  obtain st a' where st: "demo_analysis = Ok (st, a')" "demo_record st_analyzed_tx = Ok (st_analyzed_tx st)"
    "api_txouts demo_server (tx_hash demo_payment) = Ok (st_tx_outs st)" using demo_analysis_done by blast
  have pre: "length (replicate 32 9 :: bytes) = 32" "is_coinbase demo_payment \<longrightarrow> demo_deps = []"
    "length demo_deps < 2 ^ 59" "length (serialize_without_txouts demo_payment) + fst (api_sizes demo_server) * length (tx_txins demo_payment) < 2 ^ 61"
    "fst (snd (api_sizes demo_server)) * length (tx_txouts demo_payment) < 2 ^ 63"
    "api_txs demo_server (tx_hash demo_payment) = Ok (st_analyzed_tx st)"
    using demo_payment_fields st(2) by simp_all
  note read = stored_tx_read [OF demo_payment_ok demo_payment_fields(1) pre(1,2) demo_payment_room demo_payment_sigops pre(3-5)
      st(1) [unfolded demo_analysis_def] pre(6) st(3)]
  show "read_analyzed_tx demo_server (tx_hash demo_payment) = Ok \<lparr>an_fee = analysis_fee demo_payment demo_deps,
      an_txouts_sum = sum_list (map to_value (tx_txouts demo_payment)), an_size_wus = calculate_tx_size_wus demo_payment,
      an_sigops = 4, an_block_hash = replicate 32 9,
      an_tx = demo_payment\<lparr>tx_txouts := [], tx_witness_hash := EMPTY_HASH\<rparr>, an_txin_values = map to_value demo_deps\<rparr>"
    by (rule read(1))
  show "read_outputs demo_server (tx_hash demo_payment) = Ok (tx_txouts demo_payment)" by (rule read(2))
qed

lemma demo_inputs: "get_txouts_for_txins demo_server (tx_txins demo_payment) = Ok demo_deps"
proof -
  have d: "list_all TxOut_ok demo_deps" "length demo_deps < 2 ^ 63" "32 * length demo_deps < 2 ^ 63"
    "length (serialize_array TxOut_serialize demo_deps @ []) < 2 ^ 63" "serialize_array TxOut_serialize demo_deps \<noteq> []"
    by (simp_all add: demo_deps_def TxOut_ok_def demo_script_def serialize_array_def TxOut_serialized_length_def length_varint_def
        serialize_varint_def)
  have "read_outputs demo_server (replicate 32 1) = Ok demo_deps"
    using txouto.array_owned_decode_encode [OF d(1-4)] d(5)
    by (simp add: read_outputs_def get_transaction_outputs_def found_data_def demo_server_def)
  then show ?thesis
    by (simp add: get_txouts_for_txins_def demo_payment_def swap_remove_def) (simp add: demo_deps_def)
qed

theorem stored_transaction_shown_witness:
  "\<exists>page. txdata demo_server \<lparr>hp_hash = 0 # replicate 32 0\<rparr> = Json page \<and> an_tx (td_tx page) = demo_payment \<and>
    td_txin_addresses page = [P2PKH (1 # 0 # replicate 20 8)] \<and> td_txout_addresses page = [P2PKH (1 # 0 # replicate 20 7)]"
proof -
  obtain st a' where st: "demo_analysis = Ok (st, a')" "demo_record st_analyzed_tx = Ok (st_analyzed_tx st)"
    "api_txouts demo_server (tx_hash demo_payment) = Ok (st_tx_outs st)" using demo_analysis_done by blast
  have ok: "Tx_ok (api_sha demo_server) demo_payment" using demo_payment_ok by simp
  have pre: "length (replicate 32 9 :: bytes) = 32" "is_coinbase demo_payment \<longrightarrow> demo_deps = []"
    "length demo_deps < 2 ^ 59" "length (serialize_without_txouts demo_payment) + fst (api_sizes demo_server) * length (tx_txins demo_payment) < 2 ^ 61"
    "fst (snd (api_sizes demo_server)) * length (tx_txouts demo_payment) < 2 ^ 63"
    "api_txs demo_server (tx_hash demo_payment) = Ok (st_analyzed_tx st)"
    "dec_hex (api_decoders demo_server) (0 # replicate 32 0) = Some (rev (tx_hash demo_payment))"
    "ch_known_headers (api_chain demo_server) (replicate 32 9) = Some (demo_entry 1 EMPTY_HASH 0)"
    "get_tx_spends (api_spends demo_server) (tx_hash demo_payment) = Ok []"
    "is_coinbase demo_payment \<or> get_txouts_for_txins demo_server (tx_txins demo_payment) = Ok demo_deps"
    "txouts_to_addresses (api_encoders demo_server) (tx_txouts demo_payment) = Ok [P2PKH (1 # 0 # replicate 20 7)]"
    "txouts_to_addresses (api_encoders demo_server) demo_deps = Ok [P2PKH (1 # 0 # replicate 20 8)]"
    using demo_payment_fields st(2) demo_inputs
    by (simp_all add: get_tx_spends_def) (simp_all add: demo_decoders_def demo_payment_def demo_deps_def txouts_to_addresses_def
        demo_human demo_server_def)
  from stored_transaction_shown [OF ok demo_payment_fields(1) pre(1,2) demo_payment_room demo_payment_sigops pre(3-5)
      st(1) [unfolded demo_analysis_def] pre(6) st(3) pre(7-12)]
  show ?thesis by auto
qed

definition demo_spend_row :: AddressTransaction where
  "demo_spend_row = \<lparr>at_transaction_hash = replicate 32 0, at_block_hash = replicate 32 9, at_block_number = 0,
     at_timestamp = 0, at_value = - 6000, at_single_other_address = None, at_distinct_other_addresses = 0\<rparr>"

theorem other_side_exact_witness:
  "\<exists>shown. populate_other_address_fields demo_server (P2PKH (1 # 0 # replicate 20 8)) [demo_spend_row] = Json shown \<and>
    at_single_other_address (hd shown) = Some (P2PKH (1 # 0 # replicate 20 7))"
proof -
  have h: "tx_hash demo_payment = replicate 32 0" by (simp add: demo_payment_def)
  have coin: "\<not> is_coinbase (demo_payment\<lparr>tx_txouts := [], tx_witness_hash := EMPTY_HASH\<rparr>)"
    using demo_payment_fields(2) by (simp add: is_coinbase_def)
  have run: "\<exists>shown. populate_other_address_fields demo_server (P2PKH (1 # 0 # replicate 20 8)) [demo_spend_row] = Json shown"
    using demo_read [unfolded h] coin
    by (simp add: populate_other_address_fields_def demo_spend_row_def error_status_def other_addresses_def idx_at_def get_at_def h)
      (simp add: demo_payment_def demo_human)
  then obtain shown where run: "populate_other_address_fields demo_server (P2PKH (1 # 0 # replicate 20 8)) [demo_spend_row] = Json shown"
    by blast
  have "\<forall>x \<in> set [demo_spend_row]. \<forall>full. read_analyzed_tx demo_server (at_transaction_hash x) = Ok full \<longrightarrow>
      is_coinbase (an_tx full) \<longrightarrow> 0 \<le> sint (at_value x)"
    using demo_read(1) [unfolded h] coin by (simp add: demo_spend_row_def)
  from other_side_exact [OF run this] obtain y where y: "shown = [y]"
    "shown_as demo_server (P2PKH (1 # 0 # replicate 20 8)) (demo_payment\<lparr>tx_txouts := [], tx_witness_hash := EMPTY_HASH\<rparr>) demo_spend_row y"
    using demo_read(1) [unfolded h] by (auto simp: list_all2_Cons1 demo_spend_row_def)
  have "at_single_other_address y = Some (P2PKH (1 # 0 # replicate 20 7))"
    using y(2) demo_read(2) [unfolded h]
    by (auto simp: shown_as_def shown_others_def demo_spend_row_def h) (auto simp: demo_payment_def demo_human)
  then show ?thesis using run y(1) by simp
qed

end
