(* ===== verification/Answers.thy ===== *)
theory Answers
  imports Explorer
begin

text \<open>
  The form of the answers of the HTTP interface: how records become JSON (the serializers of \<open>src/src/util\<close> and the
  derived ones with their field names), the socket of the front page (\<open>src/src/api/frontpage.rs\<close>), and the
  variables of the environment (\<open>src/src/util/env.rs\<close>).  The text of a JSON value is left to the library; the
  form of 256 bit numbers is an argument.
\<close>

section \<open>JSON values\<close>

datatype json =
    JNull
  | JBool bool
  | JInt int
  | JFloat f64
  | JStr rust_string
  | JArr "json list"
  | JObj "(rust_string \<times> json) list"

abbreviation js :: "string \<Rightarrow> rust_string" where
  "js \<equiv> map of_char"

definition json_nat :: "usize \<Rightarrow> json" where
  "json_nat n = JInt (int n)"

definition json_word :: "'a::len word \<Rightarrow> json" where
  "json_word w = JInt (uint w)"

definition json_option :: "('a \<Rightarrow> json) \<Rightarrow> 'a option \<Rightarrow> json" where
  "json_option f x = (case x of None \<Rightarrow> JNull | Some v \<Rightarrow> f v)"

definition serialize_as_hex :: "encoders \<Rightarrow> bytes \<Rightarrow> json" where
  "serialize_as_hex E b = JStr (enc_hex E b)"

definition serialize_hash_as_hex_reversed :: "encoders \<Rightarrow> hash32 \<Rightarrow> json" where
  "serialize_hash_as_hex_reversed E h = JStr (enc_hex E (rev h))"

definition serialize_option_hash_as_hex_reversed :: "encoders \<Rightarrow> hash32 option \<Rightarrow> json" where
  "serialize_option_hash_as_hex_reversed E h =
     (case h of Some v \<Rightarrow> JStr (enc_hex E (rev v)) | None \<Rightarrow> JNull)"

definition json_spends :: "encoders \<Rightarrow> (u32 \<times> hash32) list \<Rightarrow> json" where
  "json_spends E spends = JObj (map (\<lambda>(i, h). (show_radix 10 (unat i), JStr (enc_hex E (rev h)))) spends)"

definition serialize_try_string :: "bytes option \<Rightarrow> json" where
  "serialize_try_string ua = JStr (case ua of Some d \<Rightarrow> from_utf8_lossy d | None \<Rightarrow> [])"

text \<open>A witness that is no list of strings becomes an empty list; a panic while reading it passes through.\<close>

definition ChunkedHexData :: "encoders \<Rightarrow> bytes \<Rightarrow> json res" where
  "ChunkedHexData E w =
     (case deserialize_array_of_varsrs_iter w of
        Ok it \<Rightarrow> res_bind (VarStrIter_collect it) (\<lambda>components. Ok (JArr (map (\<lambda>c. JStr (enc_hex E c)) components)))
      | Err _ \<Rightarrow> Ok (JArr [])
      | Panic \<Rightarrow> Panic)"

fun res_map :: "('a \<Rightarrow> 'b res) \<Rightarrow> 'a list \<Rightarrow> 'b list res" where
  "res_map f [] = Ok []"
| "res_map f (x # xs) = res_bind (f x) (\<lambda>y. res_bind (res_map f xs) (\<lambda>ys. Ok (y # ys)))"

definition serialize_witnesses :: "encoders \<Rightarrow> bytes list option \<Rightarrow> json res" where
  "serialize_witnesses E witnesses =
     (case witnesses of
        None \<Rightarrow> Ok (JArr [])
      | Some ws \<Rightarrow> res_bind (res_map (ChunkedHexData E) ws) (\<lambda>parts. Ok (JArr parts)))"

section \<open>Records\<close>

text \<open>The fields of a record; a flattened record adds its fields to those of the one around it.\<close>

type_synonym json_fields = "(rust_string \<times> json) list"

fun json_Address :: "Address \<Rightarrow> json" where
  "json_Address (P2PKFull v) = JObj [(js ''type'', JStr (js ''P2PKFull'')), (js ''value'', JStr v)]"
| "json_Address (P2PKShort v) = JObj [(js ''type'', JStr (js ''P2PKShort'')), (js ''value'', JStr v)]"
| "json_Address (P2PKH v) = JObj [(js ''type'', JStr (js ''P2PKH'')), (js ''value'', JStr v)]"
| "json_Address (P2SH v) = JObj [(js ''type'', JStr (js ''P2SH'')), (js ''value'', JStr v)]"
| "json_Address (P2WSH v) = JObj [(js ''type'', JStr (js ''P2WSH'')), (js ''value'', JStr v)]"
| "json_Address (P2WPKH v) = JObj [(js ''type'', JStr (js ''P2WPKH'')), (js ''value'', JStr v)]"
| "json_Address (Taproot v) = JObj [(js ''type'', JStr (js ''Taproot'')), (js ''value'', JStr v)]"
| "json_Address OpReturn = JObj [(js ''type'', JStr (js ''OpReturn''))]"
| "json_Address Unknown = JObj [(js ''type'', JStr (js ''Unknown''))]"
| "json_Address Coinbase = JObj [(js ''type'', JStr (js ''Coinbase''))]"

definition json_TxIn :: "encoders \<Rightarrow> TxIn \<Rightarrow> json" where
  "json_TxIn E x = JObj [(js ''prevoutHash'', serialize_hash_as_hex_reversed E (ti_prevout_hash x)),
     (js ''prevoutIndex'', json_word (ti_prevout_index x)), (js ''sequence'', json_word (ti_sequence x)),
     (js ''sigScript'', serialize_as_hex E (ti_sig_script x))]"

definition json_TxOut :: "encoders \<Rightarrow> TxOut \<Rightarrow> json" where
  "json_TxOut E x = JObj [(js ''value'', json_word (to_value x)), (js ''script'', serialize_as_hex E (to_script x))]"

definition fields_Tx :: "encoders \<Rightarrow> Tx \<Rightarrow> json_fields res" where
  "fields_Tx E x =
     res_bind (serialize_witnesses E (tx_witness_data x)) (\<lambda>witnesses.
     Ok [(js ''version'', json_word (tx_version x)), (js ''locktime'', json_word (tx_locktime x)),
       (js ''txins'', JArr (map (json_TxIn E) (tx_txins x))), (js ''txouts'', JArr (map (json_TxOut E) (tx_txouts x))),
       (js ''witnessData'', witnesses), (js ''hash'', serialize_hash_as_hex_reversed E (tx_hash x)),
       (js ''witnessHash'', serialize_hash_as_hex_reversed E (tx_witness_hash x))])"

definition fields_AnalyzedTx :: "encoders \<Rightarrow> AnalyzedTx \<Rightarrow> json_fields res" where
  "fields_AnalyzedTx E x =
     res_bind (fields_Tx E (an_tx x)) (\<lambda>tx.
     Ok ([(js ''fee'', json_word (an_fee x)), (js ''txoutsSum'', json_word (an_txouts_sum x)),
       (js ''sizeWus'', json_word (an_size_wus x)), (js ''sigops'', json_word (an_sigops x)),
       (js ''blockHash'', serialize_hash_as_hex_reversed E (an_block_hash x))] @ tx @
       [(js ''txinValues'', JArr (map json_word (an_txin_values x)))]))"

definition fields_BlockHeader :: "encoders \<Rightarrow> BlockHeader \<Rightarrow> json_fields" where
  "fields_BlockHeader E x = [(js ''version'', json_word (bh_version x)),
     (js ''parent'', serialize_hash_as_hex_reversed E (bh_parent x)),
     (js ''merkleRoot'', serialize_hash_as_hex_reversed E (bh_merkle_root x)),
     (js ''timestamp'', json_word (bh_timestamp x)), (js ''bits'', json_word (bh_bits x)),
     (js ''nonce'', json_word (bh_nonce x)), (js ''txsCount'', json_word (bh_txs_count x)),
     (js ''hash'', serialize_hash_as_hex_reversed E (bh_hash x))]"

definition fields_BlockHeaderWithNumber :: "(U256 \<Rightarrow> json) \<Rightarrow> encoders \<Rightarrow> BlockHeaderWithNumber \<Rightarrow> json_fields" where
  "fields_BlockHeaderWithNumber work E x = fields_BlockHeader E (bn_header x) @
     [(js ''number'', json_nat (bn_number x)), (js ''fetchedFull'', JBool (bn_fetched_full x)),
      (js ''totalWork'', work (bn_total_work x)), (js ''coinbaseAscii'', json_option JStr (bn_coinbase_ascii x))]"

definition json_TxDataResponse :: "(U256 \<Rightarrow> json) \<Rightarrow> encoders \<Rightarrow> TxDataResponse \<Rightarrow> json res" where
  "json_TxDataResponse work E x =
     res_bind (fields_AnalyzedTx E (td_tx x)) (\<lambda>tx.
     Ok (JObj ([(js ''header'', JObj (fields_BlockHeaderWithNumber work E (td_header x)))] @ tx @
       [(js ''spends'', json_spends E (td_spends x)),
        (js ''txin_addresses'', JArr (map json_Address (td_txin_addresses x))),
        (js ''txout_addresses'', JArr (map json_Address (td_txout_addresses x)))])))"

definition json_BlockTxEntry :: "encoders \<Rightarrow> BlockTxEntry \<Rightarrow> json" where
  "json_BlockTxEntry E x = JObj [(js ''hash'', serialize_hash_as_hex_reversed E (bt_hash x)),
     (js ''valueSats'', json_word (bt_value_sats x)), (js ''feeSats'', json_word (bt_fee_sats x)),
     (js ''sizeWus'', json_word (bt_size_wus x))]"

definition json_BlockDataResponse :: "(U256 \<Rightarrow> json) \<Rightarrow> encoders \<Rightarrow> BlockDataResponse \<Rightarrow> json" where
  "json_BlockDataResponse work E x = JObj (fields_BlockHeaderWithNumber work E (bd_header x) @
     [(js ''totalTxsCount'', json_nat (bd_total_txs_count x)), (js ''txs'', JArr (map (json_BlockTxEntry E) (bd_txs x))),
      (js ''minerId'', JStr (bd_miner_id x)), (js ''minerName'', JStr (bd_miner_name x)),
      (js ''recentMinerShare'', JFloat (bd_recent_miner_share x))])"

definition json_AddressTransaction :: "encoders \<Rightarrow> AddressTransaction \<Rightarrow> json" where
  "json_AddressTransaction E x = JObj [(js ''transactionHash'', serialize_hash_as_hex_reversed E (at_transaction_hash x)),
     (js ''blockHash'', serialize_hash_as_hex_reversed E (at_block_hash x)), (js ''blockNumber'', json_nat (at_block_number x)),
     (js ''timestamp'', json_word (at_timestamp x)), (js ''value'', JInt (sint (at_value x))),
     (js ''singleOtherAddress'', json_option json_Address (at_single_other_address x)),
     (js ''distinctOtherAddresses'', json_nat (at_distinct_other_addresses x))]"

definition json_AddressTopResponse :: "encoders \<Rightarrow> AddressTopResponse \<Rightarrow> json" where
  "json_AddressTopResponse E x = JObj [(js ''totalTxs'', json_nat (ar_total_txs x)),
     (js ''totalSpent'', json_word (ar_total_spent x)), (js ''totalReceived'', json_word (ar_total_received x)),
     (js ''firstSeen'', json_word (ar_first_seen x)), (js ''topTxs'', JArr (map (json_AddressTransaction E) (ar_top_txs x)))]"

definition json_SearchResponse :: "encoders \<Rightarrow> SearchResponse \<Rightarrow> json" where
  "json_SearchResponse E x = JObj [(js ''address'', json_option JStr (sr_address x)),
     (js ''blockHash'', serialize_option_hash_as_hex_reversed E (sr_block_hash x)),
     (js ''txHash'', serialize_option_hash_as_hex_reversed E (sr_tx_hash x))]"

definition json_RecentBlock :: "encoders \<Rightarrow> RecentBlock \<Rightarrow> json" where
  "json_RecentBlock E x = JObj [(js ''hash'', serialize_hash_as_hex_reversed E (rb_hash x)),
     (js ''number'', json_nat (rb_number x)), (js ''coinbaseAscii'', JStr (rb_coinbase_ascii x)),
     (js ''minerId'', JStr (rb_miner_id x)), (js ''minerName'', JStr (rb_miner_name x)),
     (js ''timestamp'', json_word (rb_timestamp x))]"

definition json_MinersPageData :: "encoders \<Rightarrow> MinersPageData \<Rightarrow> json" where
  "json_MinersPageData E x = JObj [(js ''recentBlocks'', JArr (map (json_RecentBlock E) (fst x))),
     (js ''recentShares'', JArr (map (\<lambda>(mid, name, share). JArr [JStr mid, JStr name, JFloat share]) (snd x)))]"

definition json_MinerDataTopResponse :: "encoders \<Rightarrow> Miner \<times> RecentBlock list \<Rightarrow> json" where
  "json_MinerDataTopResponse E x = JObj [(js ''displayName'', JStr (mi_display_name (fst x))),
     (js ''icon'', json_option JStr (mi_icon (fst x))), (js ''regexes'', JArr (map JStr (mi_regexes (fst x)))),
     (js ''recentBlocks'', JArr (map (json_RecentBlock E) (snd x)))]"

text \<open>A flattened \<open>None\<close> adds no fields.\<close>

definition json_PeerResponse :: "PeerResponse \<Rightarrow> json" where
  "json_PeerResponse x = JObj ((js ''is_connected_now'', JBool (pe_is_connected_now x)) #
     (case pe_peer_data x of
        None \<Rightarrow> []
      | Some p \<Rightarrow> [(js ''first_seen'', json_word (pd_first_seen p)), (js ''first_online'', json_option json_word (pd_first_online p)),
          (js ''user_agent'', serialize_try_string (pd_user_agent p)), (js ''height'', json_option json_word (pd_height p)),
          (js ''services'', json_option json_word (pd_services p))]))"

section \<open>The front page\<close>

definition json_ShortBlock :: "encoders \<Rightarrow> f64 \<Rightarrow> ShortBlock \<Rightarrow> json" where
  "json_ShortBlock E btc_price x = JObj [(js ''number'', json_nat (sb_number x)),
     (js ''hash'', serialize_hash_as_hex_reversed E (sb_hash x)), (js ''txCount'', json_nat (sb_tx_count x)),
     (js ''rewardSats'', json_word (sb_reward_sats x)), (js ''btcPrice'', JFloat btc_price),
     (js ''timestamp'', json_word (sb_timestamp x)), (js ''minerId'', JStr (sb_miner_id x)),
     (js ''minerName'', JStr (sb_miner_name x)), (js ''recentMinerShare'', JFloat (sb_recent_miner_share x))]"

definition json_ShortTx :: "encoders \<Rightarrow> f64 \<Rightarrow> ShortTx \<Rightarrow> json" where
  "json_ShortTx E btc_price x = JObj [(js ''hash'', JStr (sx_hash x)), (js ''value'', json_word (sx_value x)),
     (js ''sizeWus'', json_word (sx_size_wus x)), (js ''timestamp'', json_word (sx_timestamp x)),
     (js ''blockNumber'', json_nat (sx_block_number x)), (js ''blockHash'', serialize_hash_as_hex_reversed E (sx_block_hash x)),
     (js ''feeSats'', json_word (sx_fee_sats x)), (js ''btcPrice'', JFloat btc_price)]"

text \<open>\<open>days\<close> is the order in which the hash maps yield their keys.\<close>

definition json_days :: "u32 list \<Rightarrow> ('a \<Rightarrow> json) \<Rightarrow> (u32 \<rightharpoonup> 'a) \<Rightarrow> json" where
  "json_days days f m = JObj (List.map_filter (\<lambda>d. map_option (\<lambda>v. (show_radix 10 (unat d), f v)) (m d)) days)"

definition json_Stats :: "u32 list \<Rightarrow> Stats \<Rightarrow> json" where
  "json_Stats days x = JObj [(js ''averageMedianFees'', json_days days JFloat (sa_average_median_fees x)),
     (js ''transactions'', json_days days json_nat (sa_transactions x)), (js ''volume'', json_days days json_word (sa_volume x))]"

definition json_SyncStats :: "SyncStats \<Rightarrow> json" where
  "json_SyncStats x = JObj [(js ''totalBlocks'', json_nat (sy_total_blocks x)), (js ''syncedBlocks'', json_nat (sy_synced_blocks x)),
     (js ''approxRemainingSeconds'', JFloat (sy_approx_remaining_seconds x))]"

definition json_FrontPageData :: "u32 list \<Rightarrow> encoders \<Rightarrow> f64 \<Rightarrow> FrontPageData \<Rightarrow> json" where
  "json_FrontPageData days E btc_price x = JObj [(js ''stats'', json_Stats days (fp_stats x)),
     (js ''latestBlocks'', JArr (map (json_ShortBlock E btc_price) (fp_latest_blocks x))),
     (js ''latestTxs'', JArr (map (json_ShortTx E btc_price) (fp_latest_txs x))),
     (js ''syncStats'', json_option json_SyncStats (fp_sync_stats x))]"

fun json_FrontPageDataUpdate :: "u32 list \<Rightarrow> encoders \<Rightarrow> f64 \<Rightarrow> FrontPageDataUpdate \<Rightarrow> json" where
  "json_FrontPageDataUpdate days E btc_price (Snapshot x) = JObj [(js ''snapshot'', json_FrontPageData days E btc_price x)]"
| "json_FrontPageDataUpdate days E btc_price (Delta x) = JObj [(js ''delta'', json_FrontPageData days E btc_price x)]"

section \<open>The socket of the front page\<close>

text \<open>
  One turn of the loop: \<open>us\<close> is what the subscription still yields, \<open>ms\<close> what the socket yields, with \<open>None\<close>
  for a value that its pattern does not match (a lagging or closed subscription, an error, another message or
  the end of the socket).  A branch whose value does not match is disabled for this turn; \<open>select!\<close> without
  \<open>else\<close> panics when both are.  \<open>update_first\<close> is the random choice of the branch that is polled first.
\<close>

datatype select_result =
    Update rust_string "rust_string option list" "rust_string option list"
  | MessageText rust_string "rust_string option list" "rust_string option list"
  | Pending
  | AllDisabled

fun select_frontpage :: "bool \<Rightarrow> rust_string option list \<Rightarrow> rust_string option list \<Rightarrow> select_result" where
  "select_frontpage update_first (Some d # us) (Some t # ms) =
     (if update_first then Update d us (Some t # ms) else MessageText t (Some d # us) ms)"
| "select_frontpage update_first (Some d # us) (None # ms) = Update d us (if update_first then None # ms else ms)"
| "select_frontpage update_first (Some d # us) [] = Update d us []"
| "select_frontpage update_first (None # us) (Some t # ms) = MessageText t (if update_first then us else None # us) ms"
| "select_frontpage update_first [] (Some t # ms) = MessageText t [] ms"
| "select_frontpage update_first (None # us) (None # ms) = AllDisabled"
| "select_frontpage update_first us ms = Pending"

datatype socket_end = Waiting | Left | Crash

text \<open>The texts that were sent, each with whether the sending worked; \<open>rounds\<close> has the choices of the turns.\<close>

fun handle_frontpage_socket ::
  "(bool \<times> bool) list \<Rightarrow> rust_string option list \<Rightarrow> rust_string option list \<Rightarrow> rust_string list \<times> socket_end" where
  "handle_frontpage_socket [] us ms = ([], Waiting)"
| "handle_frontpage_socket ((update_first, sent) # rounds) us ms =
     (case select_frontpage update_first us ms of
        Update d us ms \<Rightarrow>
          if \<not> sent then ([], Left)
          else (let (out, e) = handle_frontpage_socket rounds us ms in (d # out, e))
      | MessageText t us ms \<Rightarrow>
          if t \<noteq> js ''ping'' then handle_frontpage_socket rounds us ms
          else if \<not> sent then ([], Left)
          else (let (out, e) = handle_frontpage_socket rounds us ms in (js ''pong'' # out, e))
      | Pending \<Rightarrow> ([], Waiting)
      | AllDisabled \<Rightarrow> ([], Crash))"

section \<open>The environment\<close>

text \<open>\<open>value\<close> is the variable if it is set and valid Unicode.\<close>

definition get_env :: "(rust_string \<Rightarrow> 'a option) \<Rightarrow> rust_string option \<Rightarrow> 'a \<Rightarrow> 'a" where
  "get_env parse value fallback =
     (case value of
        Some v \<Rightarrow> (case parse v of Some x \<Rightarrow> x | None \<Rightarrow> fallback)
      | None \<Rightarrow> fallback)"

definition MAX_WORKERS :: "rust_string option \<Rightarrow> usize" where
  "MAX_WORKERS value = get_env parse_u64 value 100"

definition MAX_BLOCKS_PER_FLUSH :: "rust_string option \<Rightarrow> usize" where
  "MAX_BLOCKS_PER_FLUSH value = get_env parse_u64 value 64"

text \<open>The limits of the pools of large and of small arenas, at first and while blocks are downloaded.\<close>

definition initial_limits :: "rust_string option \<Rightarrow> rust_string option \<Rightarrow> usize \<times> usize" where
  "initial_limits large small = (get_env parse_u64 large 64, get_env parse_u64 small 256)"

definition blocksync_limits :: "rust_string option \<Rightarrow> rust_string option \<Rightarrow> usize \<times> usize" where
  "blocksync_limits large small = (get_env parse_u64 large 512, get_env parse_u64 small 1024)"

section \<open>What clients rely on\<close>

lemma res_map_Ok: "(\<And>x. x \<in> set xs \<Longrightarrow> f x = Ok (g x)) \<Longrightarrow> res_map f xs = Ok (map g xs)"
  by (induction xs) simp_all

lemma chunks_shown:
  assumes "length (varstr_array ws) < 2 ^ 63" "length ws < 2 ^ 63"
  shows "ChunkedHexData E (varstr_array ws) = Ok (JArr (map (\<lambda>c. JStr (enc_hex E c)) ws))"
  using varstr_array_iter [OF assms] by (cases "deserialize_array_of_varsrs_iter (varstr_array ws)") (auto simp: ChunkedHexData_def)

definition stack_json :: "encoders \<Rightarrow> bytes list \<Rightarrow> json" where
  "stack_json E ws = JArr (map (\<lambda>c. JStr (enc_hex E c)) ws)"

lemma witnesses_shown:
  assumes "\<forall>ws \<in> set stacks. length (varstr_array ws) < 2 ^ 63 \<and> length ws < 2 ^ 63"
  shows "serialize_witnesses E (Some (map varstr_array stacks)) = Ok (JArr (map (stack_json E) stacks))"
proof -
  have "res_map (ChunkedHexData E) (map varstr_array stacks) = Ok (map (stack_json E) stacks)"
    using assms by (induction stacks) (simp_all add: chunks_shown stack_json_def)
  then show ?thesis by (simp add: serialize_witnesses_def)
qed

text \<open>The names of the answer for a transaction, after the flattened records.\<close>

lemma tx_names_distinct:
  "distinct [js ''header'', js ''fee'', js ''txoutsSum'', js ''sizeWus'', js ''sigops'', js ''blockHash'', js ''version'',
     js ''locktime'', js ''txins'', js ''txouts'', js ''witnessData'', js ''hash'', js ''witnessHash'', js ''txinValues'',
     js ''spends'', js ''txin_addresses'', js ''txout_addresses'']"
  by simp

text \<open>
  The JSON answer for a transaction is complete: no two of the fields that flattening brings together have
  the same name, and the witness of each input, stored as one byte string, is shown as the list of its components.
\<close>

lemma transaction_json_complete:
  assumes "tx_witness_data (an_tx (td_tx page)) = Some (map varstr_array stacks)"
    and "\<forall>ws \<in> set stacks. length (varstr_array ws) < 2 ^ 63 \<and> length ws < 2 ^ 63"
  shows "\<exists>fields. json_TxDataResponse work E page = Ok (JObj fields) \<and> distinct (map fst fields) \<and>
    map_of fields (js ''witnessData'') = Some (JArr (map (stack_json E) stacks)) \<and>
    map_of fields (js ''txins'') = Some (JArr (map (json_TxIn E) (tx_txins (an_tx (td_tx page))))) \<and>
    map_of fields (js ''txouts'') = Some (JArr (map (json_TxOut E) (tx_txouts (an_tx (td_tx page))))) \<and>
    map_of fields (js ''hash'') = Some (serialize_hash_as_hex_reversed E (tx_hash (an_tx (td_tx page))))"
  using tx_names_distinct
  by (simp add: json_TxDataResponse_def fields_AnalyzedTx_def fields_Tx_def witnesses_shown [OF assms(2)] assms(1))

text \<open>
  C40: Every hash in an answer leads to its page: the shown text is accepted by the handlers for blocks,
  transactions and miners as this hash, and the search finds a known block or a stored transaction by it.
\<close>

theorem shown_hash_is_link:
  assumes "decodes_encoded (api_encoders S) (api_decoders S)" "length h = 32"
    and "serialize_hash_as_hex_reversed (api_encoders S) h = JStr t" "parse_u64 t = None"
  shows "txdata S \<lparr>hp_hash = t\<rparr> = tx_page S h \<and>
    block_data_top S \<lparr>ht_hash = t, ht_limit = l\<rparr> = block_page_top S l h \<and>
    block_data_extra S \<lparr>he_hash = t, he_skip = k, he_limit = l\<rparr> = block_page_extra S k l h \<and>
    get_miners_page_continue S \<lparr>ahp_hash = t, ahp_limit = l\<rparr> = miners_page_parents S l h \<and>
    search S \<lparr>sp_term = t\<rparr> =
      (if get_header_by_hash (api_chain S) h \<noteq> None then Json (nothing_found\<lparr>sr_block_hash := Some h\<rparr>)
       else case read_analyzed_tx S h of
           Ok _ \<Rightarrow> Json (nothing_found\<lparr>sr_tx_hash := Some h\<rparr>) | Err _ \<Rightarrow> Json nothing_found | Panic \<Rightarrow> Crashed)"
proof -
  have t: "dec_hex (api_decoders S) t = Some (rev h)"
    using assms(1,3) by (auto simp: decodes_encoded_def serialize_hash_as_hex_reversed_def)
  have "parse_address (api_decoders S) t = None" using t assms(2) by (simp add: parse_address_def)
  then have "search S \<lparr>sp_term = t\<rparr> =
      (if get_header_by_hash (api_chain S) h \<noteq> None then Json (nothing_found\<lparr>sr_block_hash := Some h\<rparr>)
       else case read_analyzed_tx S h of
           Ok _ \<Rightarrow> Json (nothing_found\<lparr>sr_tx_hash := Some h\<rparr>) | Err _ \<Rightarrow> Json nothing_found | Panic \<Rightarrow> Crashed)"
    using assms(2,4) t by (simp add: search_def search_hash_def parse_hash_def)
  with tx_data.answer_page [OF t assms(2)] block_top.answer_page [OF t assms(2)] block_extra.answer_page [OF t assms(2)]
    miners_page.answer_page [OF t assms(2)]
  show ?thesis by blast
qed

theorem shown_hash_is_link_witness:
  "search demo_server \<lparr>sp_term = 0 # replicate 32 9\<rparr> = Json (nothing_found\<lparr>sr_block_hash := Some (replicate 32 9)\<rparr>)"
proof -
  have shown: "serialize_hash_as_hex_reversed (api_encoders demo_server) (replicate 32 9) = JStr (0 # replicate 32 9)"
    by (simp add: serialize_hash_as_hex_reversed_def demo_encoders_def)
  have number: "parse_u64 (0 # replicate 32 9) = None" by (simp add: parse_u64_def to_digit_def)
  have "get_header_by_hash (api_chain demo_server) (replicate 32 9) \<noteq> None"
    by (simp add: get_header_by_hash_def demo_server_def)
  then show ?thesis
    using shown_hash_is_link [OF _ _ shown number] demo_decodes by simp
qed

text \<open>
  The task of a socket panics when the subscription lags or closes and the client at the same time sends
  something that is no text.
\<close>

lemma socket_crashes: "handle_frontpage_socket ((first, sent) # rounds) (None # us) (None # ms) = ([], Crash)"
  by simp

lemma select_Update: "select_frontpage f us ms = Update d us' ms' \<Longrightarrow> us = Some d # us'"
  by (cases "(f, us, ms)" rule: select_frontpage.cases) (simp_all split: if_splits)

lemma select_Text: "select_frontpage f us ms = MessageText t us' ms' \<Longrightarrow> us' = us \<or> us = None # us'"
  by (cases "(f, us, ms)" rule: select_frontpage.cases) (simp_all split: if_splits)

text \<open>A client is sent the updates in their order, none twice, with the answers to its pings in between.\<close>

lemma updates_in_order:
  assumes "Some (js ''pong'') \<notin> set us"
  shows "subseq (filter (\<lambda>d. d \<noteq> js ''pong'') (fst (handle_frontpage_socket rounds us ms))) (List.map_filter (\<lambda>d. d) us)"
  using assms
proof (induction rounds arbitrary: us ms)
  case (Cons r rounds)
  obtain f sent where r: "r = (f, sent)" by fastforce
  show ?case
  proof (cases "select_frontpage f us ms")
    case (Update d us' ms')
    then show ?thesis using Cons.IH [of us' ms'] Cons.prems select_Update [OF Update]
      by (auto simp: r List.map_filter_simps case_prod_beta)
  next
    case (MessageText t us' ms')
    then show ?thesis using Cons.IH [of us' ms'] Cons.prems select_Text [OF MessageText]
      by (auto simp: r List.map_filter_simps case_prod_beta)
  qed (simp_all add: r)
qed simp

end
