(* ===== verification/Startup.thy ===== *)
theory Startup
  imports Sqlite NetText
begin

text \<open>
  The start of the program (\<open>src/src/main.rs\<close>): the first peers from the seeds of the domain name system, and
  how the address manager and the database go together from one start to the next.  Resolving a name is an
  argument, as is the time it takes; logging, the signal handler and the spawning of the tasks are left out.
\<close>

section \<open>Seeds\<close>

definition to_canonical :: "bytes \<Rightarrow> bytes" where
  "to_canonical ip = (if length ip = 16 \<and> take 12 ip = replicate 10 0 @ [255, 255] then drop 12 ip else ip)"

text \<open>The addresses that the resolver answers are four or sixteen bytes long.\<close>

definition resolve_dns :: "bytes list res \<Rightarrow> AddressPortNetwork list res" where
  "resolve_dns addresses =
     res_bind addresses (\<lambda>addresses.
     Ok (map (\<lambda>x. \<lparr>apn_network_id = (if length x = 4 then IPv4 else IPv6), apn_port = 8333,
       apn_address = to_canonical x\<rparr>) addresses))"

text \<open>\<open>None\<close> is an answer that does not come within the second.\<close>

definition resolve_dns_with_timeout :: "bytes list res option \<Rightarrow> AddressPortNetwork list res" where
  "resolve_dns_with_timeout answer =
     (case answer of None \<Rightarrow> Err (Msg ''deadline reached'') | Some addresses \<Rightarrow> resolve_dns addresses)"

text \<open>The derived order of peers: network, port and address.\<close>

definition apn_key :: "AddressPortNetwork \<Rightarrow> nat list" where
  "apn_key apn = unat (NetworkId_to_u8 (apn_network_id apn)) # unat (apn_port apn) # map unat (apn_address apn)"

definition resolve_dns_and_add_to_addrman ::
  "bytes list res option list \<Rightarrow> u64 \<Rightarrow> AddrMan \<Rightarrow> peer_write list \<times> AddrMan" where
  "resolve_dns_and_add_to_addrman peers now m =
     (let resolved_peers = concat (map (\<lambda>peer. case resolve_dns_with_timeout peer of Ok addys \<Rightarrow> addys | _ \<Rightarrow> []) (rev peers)) in
      peers_seen (remdups_adj (sort_key apn_key resolved_peers)) now m)"

lemma apn_key_inj: "apn_key p = apn_key q \<Longrightarrow> p = q"
proof -
  assume "apn_key p = apn_key q"
  then have k: "unat (NetworkId_to_u8 (apn_network_id p)) = unat (NetworkId_to_u8 (apn_network_id q))"
    "unat (apn_port p) = unat (apn_port q)" "map unat (apn_address p) = map unat (apn_address q)"
    by (simp_all add: apn_key_def)
  have "NetworkId_to_u8 (apn_network_id p) = NetworkId_to_u8 (apn_network_id q)" using k(1) by (simp add: word_unat_eq_iff)
  then have "apn_network_id p = apn_network_id q" by (metis NetworkId_round option.inject)
  moreover have "apn_port p = apn_port q" using k(2) by (simp add: word_unat_eq_iff)
  moreover have "apn_address p = apn_address q" using k(3) by (rule map_injective) (simp add: inj_def word_unat_eq_iff)
  ultimately show ?thesis by simp
qed

text \<open>An IPv4 address in the form of an IPv6 address is filed under IPv6 with the four bytes of IPv4.\<close>

lemma mapped_seed_mislabelled:
  assumes "length v4 = 4"
  shows "resolve_dns (Ok [replicate 10 0 @ [255, 255] @ v4]) = Ok [\<lparr>apn_network_id = IPv6, apn_port = 8333, apn_address = v4\<rparr>]"
    and "AddressPortNetwork_fmt \<lparr>apn_network_id = IPv6, apn_port = 8333, apn_address = v4\<rparr> = map of_char ''invalid ipv6 length: 4''"
  using assms by (simp_all add: resolve_dns_def to_canonical_def AddressPortNetwork_fmt_def show_radix.simps digit_char_def)

section \<open>The table of peers\<close>

fun request_of :: "peer_write \<Rightarrow> request" where
  "request_of (InsertPeer apn first_seen) = InsertPeerRequest apn first_seen"
| "request_of (DeletePeer apn) = DeletePeerRequest apn"
| "request_of (BanPeer apn banned_at banned_until reasons) = BanPeerRequest apn banned_at banned_until (map (map of_char) reasons)"
| "request_of (UpdatePeerFromVersion apn services block_height user_agent) =
     UpdatePeerFromVersionRequest apn services block_height user_agent"
| "request_of (UpdatePeerFirstOnline apn ts) = UpdatePeerFirstOnlineRequest apn ts"

definition execute_writes :: "(rust_string list \<Rightarrow> rust_string) \<Rightarrow> peer_write list \<Rightarrow> Database \<Rightarrow> Database res" where
  "execute_writes json writes = execute_all json (map request_of writes)"

text \<open>
  The address manager, the peers it has banned since the start, and the database; the writes are executed in
  the order in which they are asked for.  \<open>U\<close> are the peers there are.
\<close>

record peer_system =
  ps_man :: AddrMan
  ps_banned :: "AddressPortNetwork set"
  ps_db :: Database

inductive peer_step :: "(rust_string list \<Rightarrow> rust_string) \<Rightarrow> AddressPortNetwork set \<Rightarrow> peer_system \<Rightarrow> peer_system \<Rightarrow> bool"
  for json U where
  seen: "peers_seen apns time (ps_man s) = (writes, m) \<Longrightarrow> set apns \<subseteq> U \<Longrightarrow>
    execute_writes json writes (ps_db s) = Ok db \<Longrightarrow> peer_step json U s (s\<lparr>ps_man := m, ps_db := db\<rparr>)"
| version: "execute_writes json (on_peer_version_received now peer services height agent) (ps_db s) = Ok db \<Longrightarrow>
    peer_step json U s (s\<lparr>ps_db := db\<rparr>)"
| ban: "peer \<in> am_known (ps_man s) - ps_banned s \<Longrightarrow> delete_and_ban_peer now peer reasons = Ok writes \<Longrightarrow>
    execute_writes json writes (ps_db s) = Ok db \<Longrightarrow>
    peer_step json U s (s\<lparr>ps_banned := insert peer (ps_banned s), ps_db := db\<rparr>)"
| restart: "peer_step json U s \<lparr>ps_man = addrman_start (get_all_peers (ps_db s)) AddrMan_default, ps_banned = {}, ps_db = ps_db s\<rparr>"

definition table_follows :: "AddressPortNetwork set \<Rightarrow> peer_system \<Rightarrow> bool" where
  "table_follows U s \<longleftrightarrow> distinct (get_all_peers (ps_db s)) \<and>
     set (get_all_peers (ps_db s)) = am_known (ps_man s) - ps_banned s \<and> am_known (ps_man s) \<subseteq> U \<and>
     ps_banned s \<subseteq> am_known (ps_man s)"

lemma same_row: "same_peer apn row \<and> pr_network_id row = apn_network_id apn \<longleftrightarrow> row_apn row = apn"
  by (cases apn) (auto simp: same_peer_def row_apn_def)

lemma insert_executed:
  assumes "apn \<notin> set (get_all_peers db)" "unat time < 2 ^ 63"
  shows "\<exists>db'. execute json (InsertPeerRequest apn time) db = Ok db' \<and> get_all_peers db' = get_all_peers db @ [apn]"
proof -
  have "\<not> (\<exists>row \<in> set (db_peers db). same_peer apn row \<and> pr_network_id row = apn_network_id apn)"
    using assms(1) by (auto simp: same_row get_all_peers_def)
  then show ?thesis using assms(2) by (auto simp: to_sql_def get_all_peers_def row_apn_def)
qed

lemma inserts_executed:
  "distinct new \<Longrightarrow> set new \<inter> set (get_all_peers db) = {} \<Longrightarrow> unat time < 2 ^ 63 \<Longrightarrow>
   \<exists>db'. execute_writes json (map (\<lambda>apn. InsertPeer apn time) new) db = Ok db' \<and> get_all_peers db' = get_all_peers db @ new"
proof (induction new arbitrary: db)
  case (Cons apn new)
  obtain db1 where db1: "execute json (InsertPeerRequest apn time) db = Ok db1" "get_all_peers db1 = get_all_peers db @ [apn]"
    using insert_executed [of apn db time json] Cons.prems by auto
  then obtain db2 where "execute_writes json (map (\<lambda>apn. InsertPeer apn time) new) db1 = Ok db2"
      "get_all_peers db2 = get_all_peers db1 @ new" using Cons.IH [of db1] Cons.prems by auto
  then show ?case using db1 by (simp add: execute_writes_def)
qed (simp add: execute_writes_def)

text \<open>With a time that the table cannot hold the inserts fail, unless there are none.\<close>

lemma inserts_time:
  assumes "execute_writes json (map (\<lambda>apn. InsertPeer apn time) new) db = Ok db'" "new \<noteq> []"
  shows "unat time < 2 ^ 63"
  using assms by (cases new) (auto simp: execute_writes_def res_bind_Ok_iff to_sql_def split: if_splits)

lemma ban_executed:
  assumes "delete_and_ban_peer now peer reasons = Ok writes" "execute_writes json writes db = Ok db'"
  shows "get_all_peers db' = filter (\<lambda>q. \<not> (apn_address q = apn_address peer \<and> apn_port q = apn_port peer)) (get_all_peers db)"
proof -
  have "db_peers db' = filter (\<lambda>row. \<not> same_peer peer row) (db_peers db)"
    using assms by (auto simp: delete_and_ban_peer_def execute_writes_def res_bind_Ok_iff split: if_splits)
  then show ?thesis by (simp add: get_all_peers_def filter_map comp_def same_peer_def row_apn_def)
qed

lemma version_executed:
  assumes "execute_writes json (on_peer_version_received now peer services height agent) db = Ok db'"
  shows "get_all_peers db' = get_all_peers db"
  using assms
  by (auto simp: on_peer_version_received_def execute_writes_def res_bind_Ok_iff get_all_peers_def update_peers_def row_apn_def)

lemma peer_step_follows:
  assumes "peer_step json U s s'" "table_follows U s" "inj_on (\<lambda>p. (apn_address p, apn_port p)) U"
  shows "table_follows U s'"
  using assms(1,2)
proof cases
  case (seen apns time writes m db)
  obtain new where new: "distinct new" "set new = set apns - am_known (ps_man s)" "writes = map (\<lambda>apn. InsertPeer apn time) new"
    "am_known m = am_known (ps_man s) \<union> set new" using peers_seen_eq [OF seen(2)] by blast
  have free: "set new \<inter> set (get_all_peers (ps_db s)) = {}" using new(2) assms(2) by (auto simp: table_follows_def)
  have "get_all_peers db = get_all_peers (ps_db s) @ new"
  proof (cases "new = []")
    case True
    then show ?thesis using seen(4) new(3) by (simp add: execute_writes_def)
  next
    case False
    then have "unat time < 2 ^ 63" using inserts_time seen(4) new(3) by blast
    from inserts_executed [OF new(1) free this, of json] show ?thesis using seen(4) new(3) by auto
  qed
  moreover have "ps_banned s \<inter> set new = {}" using assms(2) new(2) by (auto simp: table_follows_def)
  ultimately show ?thesis using assms(2) seen(1,3) new free by (auto simp: table_follows_def)
next
  case (version now peer services height agent db)
  then show ?thesis using assms(2) version_executed by (simp add: table_follows_def)
next
  case (ban peer now reasons writes db)
  have "get_all_peers db = filter (\<lambda>q. q \<noteq> peer) (get_all_peers (ps_db s))"
    unfolding ban_executed [OF ban(3,4)]
  proof (rule filter_cong [OF refl])
    fix q
    assume "q \<in> set (get_all_peers (ps_db s))"
    then have "q \<in> U" "peer \<in> U" using assms(2) ban(2) by (auto simp: table_follows_def)
    then show "(\<not> (apn_address q = apn_address peer \<and> apn_port q = apn_port peer)) = (q \<noteq> peer)"
      using assms(3) by (auto simp: inj_on_def)
  qed
  then show ?thesis using assms(2) ban(1,2) by (auto simp: table_follows_def)
next
  case restart
  then show ?thesis using assms(2) by (auto simp: table_follows_def addrman_start_def AddrMan_default_def)
qed


definition demo_system :: peer_system where
  "demo_system = \<lparr>ps_man = AddrMan_default, ps_banned = {}, ps_db = Database_empty\<rparr>"

definition demo_seen :: "AddrMan \<times> Database" where
  "demo_seen = (snd (peers_seen [demo_peer 7] 5 AddrMan_default),
     Database_empty\<lparr>db_peers := [\<lparr>pr_network_id = IPv4, pr_address = [127, 0, 0, 1], pr_port = 7, pr_first_seen = 5,
       pr_first_online = None, pr_user_agent = None, pr_height = None, pr_services = 0\<rparr>]\<rparr>)"

lemma demo_steps:
  "peers_seen [demo_peer 7] 5 AddrMan_default = ([InsertPeer (demo_peer 7) 5], fst demo_seen)"
  "execute_writes concat [InsertPeer (demo_peer 7) 5] Database_empty = Ok (snd demo_seen)"
  by (simp_all add: demo_seen_def peers_seen_def AddrMan_default_def execute_writes_def to_sql_def Database_empty_def
      same_peer_def demo_peer_def)


text \<open>
  A ban ends at the next start: the table of bans is written and never read, so after a restart a banned peer
  that is announced again is written down and waits to be crawled, long before the ban is over.
\<close>

lemma ban_ends_at_restart:
  assumes "delete_and_ban_peer now peer reasons = Ok writes" "execute_writes json writes db = Ok db'"
    and "m = addrman_start (get_all_peers db') AddrMan_default" "now' < now + BAN_PEER_DURATION"
  shows "peer \<notin> am_known m \<and> (\<exists>row \<in> set (db_banned_peers db'). br_address row = apn_address peer \<and>
      br_port row = apn_port peer \<and> now' div 1000000000 \<le> int (br_banned_until row)) \<and>
    fst (peers_seen [peer] time m) = [InsertPeer peer time] \<and>
    am_to_check (snd (peers_seen [peer] time m)) = get_all_peers db' @ [peer]"
proof -
  have "peer \<notin> am_known m"
    using ban_executed [OF assms(1,2)] by (auto simp: assms(3) addrman_start_def AddrMan_default_def)
  moreover have "\<exists>row \<in> set (db_banned_peers db'). br_address row = apn_address peer \<and>
      br_port row = apn_port peer \<and> now' div 1000000000 \<le> int (br_banned_until row)"
    using assms(1,2,4)
    by (auto simp: delete_and_ban_peer_def execute_writes_def res_bind_Ok_iff unix_seconds_def to_sql_def zdiv_mono1 split: if_splits)
  ultimately show ?thesis by (simp add: peers_seen_def assms(3) addrman_start_def)
qed

end
