(* ===== verification/Spec2Isabelle.thy ===== *)
theory Spec2Isabelle
  imports Connect Crawler Launch Answers Startup
begin

text \<open>
  bitlens-rs is a Bitcoin block explorer.  It crawls the peers of the network, synchronises the tree of block headers
  with them, downloads the blocks of the chain of most work, analyses every transaction, stores the analysis in RocksDB
  and the headers and peers in SQLite, keeps statistics of days and miners, and answers HTTP requests from all of these.
  This development models the code under \<open>src/src\<close>; paths below are relative to that directory.

  \<^bold>\<open>Parts and how they interact.\<close>

  Bytes.  \<open>Prelude\<close> has the machine types, the outcomes of Rust computations (\<open>Ok\<close>, \<open>Err\<close>, \<open>Panic\<close>) with their
  bind, slices and little-endian numbers.  \<open>Arena\<close> is the allocator \<open>util/arena.rs\<close> and the arrays \<open>util/arenaarray.rs\<close>.
  \<open>Wire\<close> has the readers and writers of \<open>packets/buffer.rs\<close>, \<open>varint.rs\<close>, \<open>varstr.rs\<close> and \<open>mod.rs\<close>, and the contract of a
  message type as the locales \<open>codec\<close> (decoding in place, with the arena memory it needs) and \<open>owned_codec\<close>: decoding an
  encoded value followed by anything returns the value and its length.  Every message type interprets them, and arrays
  of messages, transactions, blocks and packets are proved once from the contract.

  Messages.  \<open>Messages\<close> (addresses, inventory, version, requests), \<open>TxCodec\<close> (\<open>packets/tx.rs\<close>), \<open>Merkle\<close>
  (\<open>util/merkle.rs\<close>), \<open>Pow\<close> (\<open>util/compact.rs\<close>, \<open>util/pow.rs\<close>), \<open>BlockCodec\<close> (\<open>packets/block.rs\<close>, \<open>blockheader.rs\<close>,
  \<open>headers.rs\<close>) and \<open>Packet\<close> (\<open>packetheader.rs\<close>, \<open>packetpayload.rs\<close>, \<open>connect/connection.rs\<close>): a packet on a stream that is
  read in chunks.  \<open>Connect\<close> has the handshake of \<open>connect/mod.rs\<close> over the packets a reader task delivers, and the pool
  of arenas \<open>packets/arenapool.rs\<close> as a step relation over threads.

  Chain.  \<open>Chain\<close> is the state \<open>CHAIN\<close> of \<open>chainman/mod.rs\<close> with its operations: applying headers, reorganisation,
  locators, marking blocks as downloaded, the queries, one packet of \<open>chainman/headersync.rs\<close>.  \<open>ChainInv\<close> has the
  invariant \<open>chain_ok\<close> (numbers, work and parents are linked, the top is a heaviest header) and that applying headers
  keeps it; \<open>ChainFork\<close> the reorganisations, \<open>ChainWalk\<close> what the walks along the chain return.

  Blocks.  \<open>BlockSync\<close> is the master of \<open>chainman/blocksync.rs\<close> that hands out jobs and puts blocks into order, with the
  workers as steps.  \<open>Script\<close> and \<open>TxAnalysis\<close> (\<open>tx/\<close>) analyse a transaction, \<open>Process\<close> a batch of blocks in parallel
  tasks and the pipeline of batches.  \<open>Records\<close> (\<open>db/mod.rs\<close>, \<open>db/rocksdb.rs\<close>) arranges the records of a batch, has the
  pairs that are put into each table and the readers.  \<open>F64\<close> is the part of the floating point numbers the statistics
  use; \<open>Miners\<close> (\<open>miners/\<close>) and \<open>FrontPage\<close> (rest of \<open>chainman/mod.rs\<close>, \<open>types/\<close>) are told about each batch.  \<open>KeepUp\<close>
  (\<open>chainman/keepup.rs\<close>) applies single blocks afterwards, and \<open>Sqlite\<close> (\<open>db/sqlite.rs\<close>, \<open>db/batch.rs\<close>, \<open>db/batched.rs\<close>)
  is the relational database: rows, statements, queues of requests, and the start from the rows.  \<open>Launch\<close> puts these
  parts together: the start of \<open>chainman/mod.rs\<close>, the loop over peers of \<open>chainman/headersync.rs\<close> and what the writer
  of a batch tells the others.

  Peers.  \<open>Peers\<close> has \<open>addrman/mod.rs\<close>, \<open>util/online_list.rs\<close> and \<open>crawler/peertracker.rs\<close>, \<open>Crawler\<close> the session with a
  peer, its evaluation and its ban (\<open>crawler/mod.rs\<close>), \<open>NetText\<close> the textual form of addresses, and \<open>Startup\<close> the seeds
  of \<open>main.rs\<close> and the address manager and its table over restarts.

  Interface.  \<open>Api\<close> has the handlers of \<open>api/\<close> over the state of all parts, \<open>Explorer\<close> what they answer; handlers that
  take a hash share the contract \<open>hash_handler\<close>.  \<open>Answers\<close> has the JSON form of the answers (\<open>util/serialize_*\<close> and the
  derived serializers), the socket of the front page and the variables of the environment.

  \<^bold>\<open>How the code is represented.\<close>

  Integers are words of their width, \<open>usize\<close> is \<open>nat\<close> with its wrap-around or panic written out where it matters.
  Every fallible function returns a result in which \<open>Err\<close> and \<open>Panic\<close> are different values, so that each early return,
  \<open>unwrap\<close>, slice and index of the code is a branch.  Hash maps are maps, byte strings and vectors lists.  Tasks,
  threads and workers are \<open>inductive\<close> step relations over the operations, and invariants are proved for every
  interleaving.  A loop that follows parents through the tree of headers is a \<open>partial_function (option)\<close>: \<open>None\<close> is a
  loop that never ends, and the theorems say that it ends under \<open>chain_ok\<close>.  Other loops are recursive over the data;
  reading a payload is recursive over the chunks that the stream delivers.

  Arguments of the model stand for what is not under \<open>src/\<close>: the hash functions (\<open>sha\<close> stands for SHA-256; where its
  length or the absence of a collision matters, the theorem says so), the encoders and decoders of hexadecimal, base58 and
  segregated witness text, sorting without a fixed order of equal elements, layouts of types in memory, the clock and
  random choices, regular expressions, the order of hash maps and of SQL rows that compare equal, the answers of the
  stores to \<open>get\<close> and to range scans, the events of a connection and of the resolver.  Theorems about stores assume
  that a table holds the pairs that were put into it, in the order of the keys.

  \<^bold>\<open>What the lemmas show.\<close>

  Round trips: of every message, of packets on a stream, of transactions with their identifiers, of the analysed
  transaction from download to the page that shows it, of the header tree over a restart, of addresses as text.
  Safety of what is decoded: header hash, work, Merkle root, and that two blocks with one hash have the same
  transactions.  Invariants: the tree of headers under every message and from a start to the choice of the blocks to
  download, the order of blocks through download, batches and the queue of the chain watcher, the analysis of a batch
  under every order of its tasks, one crawl per peer, the pool of arenas, the table of peers.  Reference definitions: Merkle roots, retargeting, statistics by day,
  extending against recalculating the miners, updating against generating the front page, the other side of a
  transaction.  Refinement: the ring of online peers as a list, batched requests as single ones.  Termination of the
  walks, of the recalculation, and liveness of the download.  Where the code panics, loses data or contradicts its
  comments there is a theorem or a lemma about this behaviour.

  \<^bold>\<open>Not modelled.\<close>

  Sockets, Tor and I2P connections and timers (their outcomes are arguments), RocksDB and SQLite themselves, routing and
  serving of HTTP and the text of JSON values, logging, the counters of \<open>metrics/mod.rs\<close>, the signal handler and the
  panic hook, the watcher of the configuration file, the adjustment of the number of download workers, the generated dispatch
  between borrowed and owned forms of a message (one record stands for both), unused constants of \<open>tx/opcodes.rs\<close> and
  \<open>tx/flags.rs\<close>.
\<close>

end
